(* ===== verification/Prelude.thy ===== *)
theory Prelude
  imports
    Main
    "HOL-Library.Word"
    "HOL-Library.Signed_Division"
    "HOL-Library.List_Lexorder"
    "HOL-Library.AList"
    "HOL-Library.Multiset"
begin

text \<open>
  The vocabulary every component shares.

  \<^item> Go's fixed-width integers are words. \<open>int64\<close> and \<open>uint64\<close> are both
    \<^typ>\<open>64 word\<close>, so that the conversions \<open>uint64(v)\<close> and \<open>int64(v)\<close> are the
    identity they are in Go; a signed comparison is \<open><s\<close> or \<open>\<le>s\<close> and an unsigned one
    is \<open><\<close> or \<open>\<le>\<close>. Addition, subtraction and multiplication wrap.
  \<^item> Go's signed division and remainder truncate towards zero (\<open>go_div\<close>, \<open>go_rem\<close>).
  \<^item> A byte is \<^typ>\<open>8 word\<close>, a \<open>[]byte\<close> and a \<open>string\<close> are byte lists, ordered
    lexicographically by \<open>HOL-Library.List_Lexorder\<close>, which is Go's bytewise order.
  \<^item> \<open>encoding/binary\<close>'s big-endian reads and writes are \<open>be_get\<close> and \<open>be_put\<close>.
  \<^item> An error is a value of \<open>go_error\<close>; a Go call that returns \<open>(v, error)\<close> returns
    \<open>go_error + 'a\<close>, one that returns \<open>error\<close> alone returns \<open>go_error option\<close>.
\<close>

named_theorems sint_range \<open>ranges of the signed reading of a 64-bit word\<close>
named_theorems codec_simps \<open>lengths and round trips of the byte encodings\<close>

unbundle bit_operations_syntax

type_synonym byte = "8 word"
type_synonym bytes = "8 word list"
type_synonym int64 = "64 word"
type_synonym uint64 = "64 word"
type_synonym uint32 = "32 word"
type_synonym uint16 = "16 word"

section \<open>Signed 64-bit integers\<close>

definition minInt64 :: int64 where
  "minInt64 = word_of_int (- (2 ^ 63))"

definition maxInt64 :: int64 where
  "maxInt64 = word_of_int (2 ^ 63 - 1)"

text \<open>Go's \<open>/\<close> and \<open>%\<close> on signed operands. Neither is called with a zero divisor.\<close>

definition go_div :: "int64 \<Rightarrow> int64 \<Rightarrow> int64" where
  "go_div a b = word_of_int (sint a sdiv sint b)"

definition go_rem :: "int64 \<Rightarrow> int64 \<Rightarrow> int64" where
  "go_rem a b = word_of_int (sint a smod sint b)"

lemma sint64_lower [sint_range]: "- (2 ^ 63) \<le> sint (x :: int64)"
  using sint_greater_eq [of x] by simp

lemma sint64_upper [sint_range]: "sint (x :: int64) < 2 ^ 63"
  using sint_less [of x] by simp

lemma sint64_bounds:
  "- 9223372036854775808 \<le> sint (x :: int64)" "sint (x :: int64) \<le> 9223372036854775807"
  using sint64_lower [of x] sint64_upper [of x] by simp_all

lemma sint64_of_int:
  assumes "- 9223372036854775808 \<le> k" "k \<le> 9223372036854775807"
  shows "sint (word_of_int k :: int64) = k"
  using assms by (simp add: sint_sbintrunc' signed_take_bit_int_eq_self)

lemma sint_minInt64 [simp]: "sint minInt64 = - 9223372036854775808"
  by (simp add: minInt64_def sint64_of_int)

lemma sint_maxInt64 [simp]: "sint maxInt64 = 9223372036854775807"
  by (simp add: maxInt64_def sint64_of_int)

lemma word64_of_int_shift:
  "(word_of_int (k - 18446744073709551616) :: int64) = word_of_int k"
  "(word_of_int (k + 18446744073709551616) :: int64) = word_of_int k"
  by (simp_all add: word_of_int_eq_iff take_bit_eq_mod)

text \<open>The wrap-around of a sum and of a difference, read as signed numbers.\<close>

lemma sint64_wrap:
  assumes "- 18446744073709551616 \<le> k" "k \<le> 18446744073709551615"
  shows "sint (word_of_int k :: int64) =
    (if k > 9223372036854775807 then k - 18446744073709551616
     else if k < - 9223372036854775808 then k + 18446744073709551616 else k)"
proof -
  have "sint (word_of_int k :: int64) = k - 18446744073709551616" if "k > 9223372036854775807"
    using that assms sint64_of_int [of "k - 18446744073709551616"]
    by (simp only: word64_of_int_shift)
  moreover have "sint (word_of_int k :: int64) = k + 18446744073709551616"
    if "k < - 9223372036854775808"
    using that assms sint64_of_int [of "k + 18446744073709551616"]
    by (simp only: word64_of_int_shift)
  ultimately show ?thesis using sint64_of_int [of k] by simp
qed

lemma sint64_add:
  fixes a b :: int64
  shows "sint (a + b) =
    (if sint a + sint b > 9223372036854775807 then sint a + sint b - 18446744073709551616
     else if sint a + sint b < - 9223372036854775808 then sint a + sint b + 18446744073709551616
     else sint a + sint b)"
proof -
  have "a + b = word_of_int (sint a + sint b)"
    by (simp add: wi_hom_syms)
  then show ?thesis
    using sint64_wrap [of "sint a + sint b"] sint64_bounds [of a] sint64_bounds [of b] by simp
qed

lemma sint64_diff:
  fixes a b :: int64
  shows "sint (a - b) =
    (if sint a - sint b > 9223372036854775807 then sint a - sint b - 18446744073709551616
     else if sint a - sint b < - 9223372036854775808 then sint a - sint b + 18446744073709551616
     else sint a - sint b)"
proof -
  have "a - b = word_of_int (sint a - sint b)"
    by (simp add: wi_hom_syms)
  then show ?thesis
    using sint64_wrap [of "sint a - sint b"] sint64_bounds [of a] sint64_bounds [of b] by simp
qed

lemma sint64_mult:
  fixes a b :: int64
  assumes "- 9223372036854775808 \<le> sint a * sint b" "sint a * sint b \<le> 9223372036854775807"
  shows "sint (a * b) = sint a * sint b"
proof -
  have "a * b = word_of_int (sint a * sint b)"
    by (simp add: wi_hom_syms)
  with assms show ?thesis by (simp only: sint64_of_int)
qed

lemma uint64_of_int: "0 \<le> k \<Longrightarrow> k < 18446744073709551616 \<Longrightarrow> uint (word_of_int k :: uint64) = k"
  by (simp add: uint_word_of_int_eq take_bit_int_eq_self)

lemma sint64_eqI: "sint a = sint (b :: int64) \<Longrightarrow> a = b"
  by (rule signed_word_eqI)

lemma sint64_rem:
  fixes a b :: int64
  assumes "0 < sint b"
  shows "sint (go_rem a b) = sint a smod sint b"
  using assms smod_int_range [of "sint b" "sint a"] sint64_bounds [of b]
  by (simp add: go_rem_def sint64_of_int)

lemma sint64_div:
  fixes a b :: int64
  assumes "0 < sint b"
  shows "sint (go_div a b) = sint a sdiv sint b"
proof -
  have "sint a sdiv sint b \<in> {- \<bar>sint a\<bar>..\<bar>sint a\<bar>}"
    by (rule sdiv_int_range)
  moreover have "sint a sdiv sint b \<noteq> 9223372036854775808"
  proof
    assume e: "sint a sdiv sint b = 9223372036854775808"
    then have "sgn (sint a * sint b) = 1" by (simp flip: sgn_sdiv_eq_sgn_mult)
    then have "0 < sint a * sint b" by (simp add: sgn_1_pos)
    with assms have "0 < sint a" by (simp add: zero_less_mult_iff)
    with \<open>sint a sdiv sint b \<in> _\<close> e sint64_bounds [of a] show False by simp
  qed
  ultimately show ?thesis
    unfolding go_div_def using sint64_bounds [of a] by (intro sint64_of_int) auto
qed

lemma sint64_div_nonneg:
  fixes a b :: int64
  assumes "0 \<le> sint a" "0 < sint b"
  shows "sint (go_div a b) = sint a div sint b"
  using assms by (simp add: sint64_div signed_divide_int_def sgn_if)

section \<open>Big-endian byte strings\<close>

text \<open>\<open>PutUint64\<close>, \<open>PutUint32\<close> and \<open>PutUint16\<close> are \<open>be_put 8\<close>, \<open>be_put 4\<close> and
  \<open>be_put 2\<close>: the bytes \<open>byte(v >> (8*(n-1))), ..., byte(v)\<close>.\<close>

primrec be_put :: "nat \<Rightarrow> 'a::len word \<Rightarrow> bytes" where
  "be_put 0 w = []"
| "be_put (Suc n) w = ucast (drop_bit (8 * n) w) # be_put n w"

primrec be_nat :: "bytes \<Rightarrow> nat" where
  "be_nat [] = 0"
| "be_nat (b # bs) = unat b * 256 ^ length bs + be_nat bs"

text \<open>\<open>Uint64\<close>, \<open>Uint32\<close> and \<open>Uint16\<close> read the leading 8, 4 or 2 bytes; the
  callers check that there are as many.\<close>

definition be_get :: "nat \<Rightarrow> bytes \<Rightarrow> 'a::len word" where
  "be_get n bs = word_of_nat (be_nat (take n bs))"

lemma length_be_put [simp, codec_simps]: "length (be_put n w) = n"
  by (induction n) simp_all

lemma be_nat_bound: "be_nat bs < 256 ^ length bs"
proof (induction bs)
  case (Cons b bs)
  have "unat b < 256" using unsigned_less [of b, where ?'a = nat] by simp
  then have "unat b * 256 ^ length bs \<le> 255 * 256 ^ length bs" by (intro mult_le_mono1) simp
  with Cons.IH have "unat b * 256 ^ length bs + be_nat bs < 255 * 256 ^ length bs + 256 ^ length bs"
    by linarith
  then show ?case by simp
qed simp

lemma be_nat_append: "be_nat (xs @ ys) = be_nat xs * 256 ^ length ys + be_nat ys"
  by (induction xs) (simp_all add: power_add algebra_simps)

lemma unat_byte_of: "unat (ucast (drop_bit (8 * n) w) :: byte) = unat w div 256 ^ n mod 256"
proof -
  have "(2::nat) ^ (8 * n) = 256 ^ n" by (simp add: power_mult)
  then show ?thesis
    by (simp add: unsigned_ucast_eq unat_drop_bit_eq take_bit_eq_mod del: drop_bit_eq_div)
      (simp add: drop_bit_eq_div)
qed

lemma be_nat_put: "be_nat (be_put n w) = unat w mod 256 ^ n"
proof (induction n)
  case (Suc n)
  have "unat w mod 256 ^ Suc n = unat w mod (256 ^ n * 256)" by (simp add: mult.commute)
  also have "\<dots> = 256 ^ n * (unat w div 256 ^ n mod 256) + unat w mod 256 ^ n"
    by (rule mod_mult2_eq)
  finally show ?case using Suc by (simp add: unat_byte_of)
qed simp

lemma be_nat_put_full:
  fixes w :: "'a::len word"
  assumes "LENGTH('a) = 8 * n"
  shows "be_nat (be_put n w) = unat w"
proof -
  have "unat w < 2 ^ (8 * n)" using unsigned_less [of w, where ?'a = nat] assms by simp
  then have "unat w < 256 ^ n" by (simp add: power_mult)
  then show ?thesis by (simp add: be_nat_put)
qed

lemma be_get_put:
  fixes w :: "'a::len word"
  assumes "LENGTH('a) = 8 * n"
  shows "be_get n (be_put n w @ bs) = w"
  using assms by (simp add: be_get_def be_nat_put_full)

lemma be64_get_put [simp, codec_simps]:
  "be_get 8 (be_put 8 w @ bs) = (w :: uint64)" "be_get 8 (be_put 8 w) = (w :: uint64)"
  using be_get_put [of 8 w bs] be_get_put [of 8 w "[]"] by simp_all

lemma be32_get_put [simp, codec_simps]:
  "be_get 4 (be_put 4 w @ bs) = (w :: uint32)" "be_get 4 (be_put 4 w) = (w :: uint32)"
  using be_get_put [of 4 w bs] be_get_put [of 4 w "[]"] by simp_all

lemma be16_get_put [simp, codec_simps]:
  "be_get 2 (be_put 2 w @ bs) = (w :: uint16)" "be_get 2 (be_put 2 w) = (w :: uint16)"
  using be_get_put [of 2 w bs] be_get_put [of 2 w "[]"] by simp_all

lemma be_nat_inj: "length xs = length ys \<Longrightarrow> be_nat xs = be_nat ys \<Longrightarrow> xs = ys"
proof (induction xs ys rule: list_induct2)
  case (Cons x xs y ys)
  have e: "unat x * 256 ^ length xs + be_nat xs = unat y * 256 ^ length xs + be_nat ys"
    using Cons by simp
  have b: "be_nat xs < 256 ^ length xs" "be_nat ys < 256 ^ length xs"
    using be_nat_bound [of xs] be_nat_bound [of ys] Cons.hyps by simp_all
  from arg_cong [OF e, of "\<lambda>n. n mod 256 ^ length xs"] b have "be_nat xs = be_nat ys" by simp
  moreover with e have "unat x = unat y" by simp
  ultimately show ?case using Cons.IH by (simp add: word_unat_eq_iff)
qed simp

lemma be_put_get:
  assumes "LENGTH('a::len) = 8 * n" "length bs = n"
  shows "be_put n (be_get n bs :: 'a word) = bs"
proof (rule be_nat_inj)
  have "be_nat bs < 2 ^ LENGTH('a)"
    using be_nat_bound [of bs] assms by (simp add: power_mult)
  then have "unat (word_of_nat (be_nat bs) :: 'a word) = be_nat bs"
    by (simp add: unat_of_nat)
  then show "be_nat (be_put n (be_get n bs :: 'a word)) = be_nat bs"
    using assms by (simp add: be_nat_put_full be_get_def)
qed (simp add: assms)

lemma be64_put_get: "length bs = 8 \<Longrightarrow> be_put 8 (be_get 8 bs :: uint64) = bs"
  by (rule be_put_get) simp_all

lemma be_put_inj:
  fixes v w :: "'a::len word"
  assumes "LENGTH('a) = 8 * n"
  shows "be_put n v = be_put n w \<longleftrightarrow> v = w"
  using be_get_put [OF assms, of v "[]"] be_get_put [OF assms, of w "[]"] by metis

lemma be64_inj [simp, codec_simps]: "be_put 8 v = be_put 8 w \<longleftrightarrow> v = (w :: uint64)"
  by (rule be_put_inj) simp

text \<open>On byte strings of one length, the lexicographic order is the order of the numbers.\<close>

lemma less_byte_Cons:
  "(x # xs :: bytes) < y # ys \<longleftrightarrow> x < y \<or> x = y \<and> xs < ys"
  by simp

lemma bytes_less_iff_be_nat:
  "length xs = length ys \<Longrightarrow> xs < ys \<longleftrightarrow> be_nat xs < be_nat ys"
proof (induction xs ys rule: list_induct2)
  case (Cons x xs y ys)
  let ?p = "256 ^ length xs :: nat"
  have b: "be_nat xs < ?p" "be_nat ys < ?p"
    using be_nat_bound [of xs] be_nat_bound [of ys] Cons.hyps by simp_all
  have "unat x * ?p + be_nat xs < unat y * ?p + be_nat ys" if "unat x < unat y"
  proof -
    have "(unat x + 1) * ?p \<le> unat y * ?p" using that by (intro mult_le_mono1) simp
    then show ?thesis using b by simp
  qed
  moreover have "unat y * ?p + be_nat ys < unat x * ?p + be_nat xs" if "unat y < unat x"
  proof -
    have "(unat y + 1) * ?p \<le> unat x * ?p" using that by (intro mult_le_mono1) simp
    then show ?thesis using b by simp
  qed
  ultimately show ?case
    using Cons by (cases "unat x" "unat y" rule: linorder_cases)
      (auto simp: word_less_nat_alt word_unat_eq_iff)
qed simp

lemma bytes_append_less:
  "length xs = length ys \<Longrightarrow>
    (xs @ us :: bytes) < ys @ vs \<longleftrightarrow> xs < ys \<or> xs = ys \<and> us < vs"
  by (induction xs ys rule: list_induct2) auto

lemma be_put_less:
  fixes v w :: "'a::len word"
  assumes "LENGTH('a) = 8 * n"
  shows "be_put n v < be_put n w \<longleftrightarrow> v < w"
  using assms by (simp add: bytes_less_iff_be_nat be_nat_put_full word_less_nat_alt)

end
