(* ===== verification/Core_Types.thy ===== *)
theory Core_Types
  imports Prelude
begin

text \<open>
  The element and error types every stage of the pipeline shares: \<open>pkg/core/element.go\<close>, and
  the sentinel errors of the packages. A \<open>StreamElement\<close> is a struct with a kind tag whose
  other fields are meaningful one at a time, so it is a datatype with one constructor per
  kind. The text \<open>fmt.Errorf\<close> wraps around a sentinel is dropped, as \<open>errors.Is\<close> drops it.
\<close>

section \<open>Stream elements\<close>

datatype ElementKind =
    KindRecord
  | KindWatermark
  | KindBarrier
  | KindEndOfStream
  | KindUnknown byte

definition ElementKind_String :: "ElementKind \<Rightarrow> string" where
  "ElementKind_String k =
     (case k of
        KindRecord \<Rightarrow> ''Record''
      | KindWatermark \<Rightarrow> ''Watermark''
      | KindBarrier \<Rightarrow> ''Barrier''
      | KindEndOfStream \<Rightarrow> ''EndOfStream''
      | KindUnknown _ \<Rightarrow> ''Unknown'')"

record Record =
  Key :: bytes
  Value :: bytes
  EventTime :: int64

record Barrier =
  CheckpointID :: int64
  Timestamp :: int64

datatype StreamElement =
    RecordElement Record
  | WatermarkElement int64
  | BarrierElement Barrier
  | EndOfStreamElement
  | UnknownElement byte

definition Kind :: "StreamElement \<Rightarrow> ElementKind" where
  "Kind e =
     (case e of
        RecordElement _ \<Rightarrow> KindRecord
      | WatermarkElement _ \<Rightarrow> KindWatermark
      | BarrierElement _ \<Rightarrow> KindBarrier
      | EndOfStreamElement \<Rightarrow> KindEndOfStream
      | UnknownElement b \<Rightarrow> KindUnknown b)"

definition NewRecordElement :: "Record \<Rightarrow> StreamElement" where
  "NewRecordElement rec = RecordElement rec"

definition NewWatermarkElement :: "int64 \<Rightarrow> StreamElement" where
  "NewWatermarkElement wm = WatermarkElement wm"

definition NewBarrierElement :: "Barrier \<Rightarrow> StreamElement" where
  "NewBarrierElement b = BarrierElement b"

definition NewEndOfStreamElement :: StreamElement where
  "NewEndOfStreamElement = EndOfStreamElement"

lemmas element_defs [simp] =
  NewRecordElement_def NewWatermarkElement_def NewBarrierElement_def NewEndOfStreamElement_def

section \<open>Sequences of elements\<close>

fun recordsOf :: "StreamElement list \<Rightarrow> Record list" where
  "recordsOf [] = []"
| "recordsOf (RecordElement r # es) = r # recordsOf es"
| "recordsOf (_ # es) = recordsOf es"

text \<open>Watermarks do not go back, and no record comes at or below the watermark before it.\<close>

fun nonlate :: "int64 \<Rightarrow> StreamElement list \<Rightarrow> bool" where
  "nonlate wm [] \<longleftrightarrow> True"
| "nonlate wm (RecordElement r # es) \<longleftrightarrow> wm <s EventTime r \<and> nonlate wm es"
| "nonlate wm (WatermarkElement t # es) \<longleftrightarrow> wm \<le>s t \<and> nonlate t es"
| "nonlate wm (_ # es) \<longleftrightarrow> nonlate wm es"

fun lastWatermark :: "int64 \<Rightarrow> StreamElement list \<Rightarrow> int64" where
  "lastWatermark wm [] = wm"
| "lastWatermark wm (WatermarkElement t # es) = lastWatermark t es"
| "lastWatermark wm (_ # es) = lastWatermark wm es"

text \<open>The elements up to an end of stream that is the last, barriers numbered in sequence, and the
  records of a stream with the number of barriers before each.\<close>

fun wellEnded :: "StreamElement list \<Rightarrow> bool" where
  "wellEnded [] \<longleftrightarrow> False"
| "wellEnded (EndOfStreamElement # es) \<longleftrightarrow> es = []"
| "wellEnded (_ # es) \<longleftrightarrow> wellEnded es"

fun numbered :: "nat \<Rightarrow> StreamElement list \<Rightarrow> bool" where
  "numbered k [] \<longleftrightarrow> True"
| "numbered k (BarrierElement b # es) \<longleftrightarrow> sint (CheckpointID b) = int (Suc k) \<and> numbered (Suc k) es"
| "numbered k (_ # es) \<longleftrightarrow> numbered k es"

fun epochs :: "nat \<Rightarrow> StreamElement list \<Rightarrow> (nat \<times> Record) list" where
  "epochs k [] = []"
| "epochs k (RecordElement r # es) = (k, r) # epochs k es"
| "epochs k (BarrierElement b # es) = epochs (Suc k) es"
| "epochs k (_ # es) = epochs k es"

fun barrierCount :: "StreamElement list \<Rightarrow> nat" where
  "barrierCount [] = 0"
| "barrierCount (BarrierElement b # es) = Suc (barrierCount es)"
| "barrierCount (_ # es) = barrierCount es"

lemma nonlate_append: "nonlate w (xs @ ys) \<longleftrightarrow> nonlate w xs \<and> nonlate (lastWatermark w xs) ys"
  by (induction w xs rule: nonlate.induct) auto

lemma lastWatermark_append [simp]: "lastWatermark w (xs @ ys) = lastWatermark (lastWatermark w xs) ys"
  by (induction w xs rule: lastWatermark.induct) auto

lemma recordsOf_append [simp]: "recordsOf (xs @ ys) = recordsOf xs @ recordsOf ys"
  by (induction xs rule: recordsOf.induct) auto

lemma wellEnded_append: "EndOfStreamElement \<notin> set xs \<Longrightarrow> wellEnded (xs @ ys) \<longleftrightarrow> wellEnded ys"
  by (induction xs rule: wellEnded.induct) auto

lemma barrierCount_append [simp]: "barrierCount (xs @ ys) = barrierCount xs + barrierCount ys"
  by (induction xs rule: barrierCount.induct) auto

lemma numbered_append: "numbered k (xs @ ys) \<longleftrightarrow> numbered k xs \<and> numbered (k + barrierCount xs) ys"
  by (induction k xs rule: numbered.induct) auto

lemma epochs_append: "epochs k (xs @ ys) = epochs k xs @ epochs (k + barrierCount xs) ys"
  by (induction k xs rule: epochs.induct) auto

lemma map_snd_epochs: "map snd (epochs k es) = recordsOf es"
  by (induction k es rule: epochs.induct) auto

section \<open>Errors\<close>

text \<open>One constructor per sentinel a package declares and one per inline message.\<close>

text \<open>\<open>pkg/state\<close>\<close>

datatype state_error =
    errStateNotEmpty
  | errEntryTooLong
  | errStateChanged
  | errClosed

text \<open>\<open>pkg/operators\<close>\<close>

datatype operator_error =
    errCountTooShort
  | errStateKeyTooShort
  | errTimerKeyTooShort
  | errZeroLengthKey
  | errWatermarkTooShort
  | errFiredWithNoState
  | errNotSnapshottable
  | errNoKeyedState
  | errWinningBidLength
  | errAuctionCountLength
  | errWindowKeyLength
  | errHotItemKeyLength
  | errSizeDisagreement
  | errFiredWithNoCounts

text \<open>\<open>pkg/sources\<close>\<close>

datatype source_error =
    errNexmarkValue
  | errSourceConfig
  | errNegativeSeek

text \<open>\<open>pkg/transport\<close>\<close>

datatype transport_error =
    errEmptyKey

text \<open>\<open>pkg/graph\<close>\<close>

datatype graph_error =
    errEmptyID
  | errDuplicateID
  | errUnknownVertex
  | errDuplicateEdge
  | errUnknownKind
  | errMissingFactory
  | errExtraFactory
  | errParallelismTooLow
  | errParallelismTooHigh
  | errSourceHasInbound
  | errSinkHasOutbound
  | errOperatorNoInput
  | errOperatorNoOutput
  | errDisconnected
  | errNoSource
  | errNoSink
  | errCycle "bytes list"
  | errNegativeOutOfOrderness
  | errWatermarkOnNonSource
  | errBarrierOnNonSource
  | errWatermarkIntervalUnset
  | errBarrierIntervalUnset

text \<open>\<open>pkg/checkpoint\<close>\<close>

datatype checkpoint_error =
    errUnknownSubtask
  | errDuplicateAck
  | errDuplicateFinish
  | errBadMagic
  | errBadVersion
  | errCRCMismatch
  | errWrongSubtask
  | errWrongCheckpoint
  | errShortFile
  | errNoCheckpoint
  | errBadVertexID
  | errVertexMismatch
  | errParallelismDiff
  | errCountDiff
  | errMissingStateFile

text \<open>\<open>pkg/runtime\<close>\<close>

datatype runtime_error =
    ErrFaultInjected
  | errPositionLength
  | errNotSplittable
  | errPositionOutOfRange
  | errNegativePosition
  | errNoRestorePoint
  | errUnexpectedElement
  | errNoRestore
  | errUnknownSubtaskKind

text \<open>\<open>pkg/sinks\<close>\<close>

datatype sink_error =
    ErrStagedFileMissing
  | ErrCorruptRecord
  | errOpenedTwice
  | errRestorePayload

text \<open>\<open>cmd\<close>\<close>

datatype command_error =
    errUnknownQuery
  | errBelowOne
  | errSlideOutOfRange
  | errNotANumber
  | errNoneGiven
  | errUnknownMode
  | errUnknownJob
  | errRecordsMissing

text \<open>\<open>IoError\<close> carries an error of the operating system or of a parameter;
  \<open>ContextDone\<close> is \<open>ctx.Err()\<close> after a cancellation.\<close>

datatype go_error =
    EOF
  | ErrUnexpectedEOF
  | IoError nat
  | ContextDone
  | StateErr state_error
  | OperatorErr operator_error
  | SourceErr source_error
  | TransportErr transport_error
  | GraphErr graph_error
  | CheckpointErr checkpoint_error
  | RuntimeErr runtime_error
  | SinkErr sink_error
  | CommandErr command_error

type_synonym 'a result = "go_error + 'a"

end
