(* ===== verification/Gate.thy ===== *)
theory Gate
  imports Core_Types
begin

text \<open>
  \<open>pkg/runtime/gate.go\<close>: the gate that merges the inputs of a subtask, combines their watermarks
  and aligns their barriers. One goroutine per input copies it onto the \<open>merged\<close> channel, which
  is closed when all have returned; the gate's owner reads it. The channel is modelled by the
  elements that will be received from it, in their order, which may be any interleaving of the
  inputs. \<open>fault\<close> is \<open>faults.duringAlignment\<close>.
\<close>

section \<open>The gate\<close>

type_synonym tagged = "nat \<times> StreamElement"

text \<open>\<open>barrier\<close> is \<open>None\<close> for the zero element the code keeps there between alignments.\<close>

record Gate =
  endOfStream :: "bool list"
  remaining :: int
  closed :: bool
  watermarks :: "int64 list"
  outWm :: int64
  aligning :: bool
  barrier :: "StreamElement option"
  alignedFor :: "bool list"
  buffered :: "StreamElement list list"
  replay :: "tagged list"
  pending :: "StreamElement list"
  gateErr :: "go_error option"

definition NewGate :: "nat \<Rightarrow> Gate" where
  "NewGate inputs =
     \<lparr>endOfStream = replicate inputs False, remaining = int inputs, closed = False,
      watermarks = replicate inputs minInt64, outWm = minInt64, aligning = False, barrier = None,
      alignedFor = replicate inputs False, buffered = replicate inputs [], replay = [], pending = [],
      gateErr = None\<rparr>"

definition live :: "Gate \<Rightarrow> nat \<Rightarrow> bool" where
  "live g i \<longleftrightarrow> \<not> endOfStream g ! i"

definition minLive :: "Gate \<Rightarrow> int64" where
  "minLive g = fold (\<lambda>i mn. if \<not> live g i then mn else if watermarks g ! i <s mn then watermarks g ! i else mn)
     [0..<length (watermarks g)] maxInt64"

definition advance :: "Gate \<Rightarrow> Gate \<times> int64 option" where
  "advance g =
     (let mn = minLive g
      in if mn \<le>s outWm g then (g, None) else (g\<lparr>outWm := mn\<rparr>, Some mn))"

definition awaitingBarrier :: "Gate \<Rightarrow> bool" where
  "awaitingBarrier g \<longleftrightarrow>
     (if \<not> aligning g then False
      else list_ex (\<lambda>i. live g i \<and> \<not> alignedFor g ! i) [0..<length (alignedFor g)])"

definition delivered :: "Gate \<Rightarrow> nat" where
  "delivered g = length (filter (\<lambda>aligned. aligned) (alignedFor g))"

definition drainBuffers :: "Gate \<Rightarrow> Gate" where
  "drainBuffers g =
     (let drained = concat (map (\<lambda>i. map (\<lambda>e. (i, e)) (buffered g ! i)) [0..<length (buffered g)]);
          g' = g\<lparr>buffered := map (\<lambda>_. []) (buffered g)\<rparr>
      in if drained = [] then g' else g'\<lparr>replay := drained @ replay g\<rparr>)"

definition completeAlignment :: "Gate \<Rightarrow> Gate" where
  "completeAlignment g =
     (if \<not> aligning g \<or> awaitingBarrier g then g
      else drainBuffers (g\<lparr>pending := pending g @ (case barrier g of None \<Rightarrow> [] | Some b \<Rightarrow> [b]),
             aligning := False, barrier := None,
             alignedFor := map (\<lambda>_. False) (alignedFor g)\<rparr>))"

text \<open>What \<open>advance\<close> reports is queued as a watermark.\<close>

definition queueAdvance :: "Gate \<Rightarrow> Gate" where
  "queueAdvance g =
     (case advance g of
        (g', Some wm) \<Rightarrow> g'\<lparr>pending := pending g' @ [NewWatermarkElement wm]\<rparr>
      | (g', None) \<Rightarrow> g')"

definition onBarrier :: "(int64 \<Rightarrow> nat \<Rightarrow> go_error option) \<Rightarrow> nat \<Rightarrow> Barrier \<Rightarrow> Gate \<Rightarrow> Gate" where
  "onBarrier fault i b g =
     (let g1 = (if \<not> aligning g then g\<lparr>aligning := True, barrier := Some (BarrierElement b)\<rparr> else g);
          g2 = g1\<lparr>alignedFor := (alignedFor g1)[i := True]\<rparr>
      in if awaitingBarrier g2
         then (case fault (CheckpointID b) (delivered g2) of
                 None \<Rightarrow> g2
               | Some e \<Rightarrow> g2\<lparr>gateErr := Some e\<rparr>)
         else completeAlignment g2)"

definition onEndOfStream :: "nat \<Rightarrow> Gate \<Rightarrow> Gate" where
  "onEndOfStream i g =
     (if endOfStream g ! i then g
      else let g1 = g\<lparr>endOfStream := (endOfStream g)[i := True], remaining := remaining g - 1\<rparr>;
               g2 = queueAdvance g1;
               g3 = (if remaining g2 = 0 \<and> \<not> closed g2
                     then g2\<lparr>closed := True, pending := pending g2 @ [NewEndOfStreamElement]\<rparr> else g2)
           in completeAlignment g3)"

fun deliver :: "(int64 \<Rightarrow> nat \<Rightarrow> go_error option) \<Rightarrow> tagged \<Rightarrow> Gate \<Rightarrow> Gate" where
  "deliver fault (i, WatermarkElement wm) g = queueAdvance (g\<lparr>watermarks := (watermarks g)[i := wm]\<rparr>)"
| "deliver fault (i, BarrierElement b) g = onBarrier fault i b g"
| "deliver fault (i, EndOfStreamElement) g = onEndOfStream i g"
| "deliver fault (i, e) g = g\<lparr>pending := pending g @ [e]\<rparr>"

definition handle :: "(int64 \<Rightarrow> nat \<Rightarrow> go_error option) \<Rightarrow> tagged \<Rightarrow> Gate \<Rightarrow> Gate" where
  "handle fault t g =
     (if aligning g \<and> alignedFor g ! fst t
      then g\<lparr>buffered := (buffered g)[fst t := buffered g ! fst t @ [snd t]]\<rparr>
      else deliver fault t g)"

section \<open>Receiving\<close>

text \<open>How many elements the gate holds back.\<close>

definition held :: "Gate \<Rightarrow> nat" where
  "held g = length (replay g) + sum_list (map length (buffered g))"

lemma length_concat_tagged:
  "length (concat (map (\<lambda>i. map (\<lambda>e. (i, e)) (xs ! i)) [0..<length xs])) = sum_list (map length xs)"
proof -
  have "map (length \<circ> (\<lambda>i. map (\<lambda>e. (i, e)) (xs ! i))) [0..<length xs] = map length xs"
    by (rule nth_equalityI) auto
  then show ?thesis by (simp add: length_concat)
qed

lemma held_update [simp]:
  "held (g\<lparr>pending := a\<rparr>) = held g" "held (g\<lparr>aligning := x\<rparr>) = held g" "held (g\<lparr>barrier := b\<rparr>) = held g"
  "held (g\<lparr>alignedFor := c\<rparr>) = held g" "held (g\<lparr>gateErr := d\<rparr>) = held g" "held (g\<lparr>closed := x\<rparr>) = held g"
  "held (g\<lparr>endOfStream := c\<rparr>) = held g" "held (g\<lparr>remaining := k\<rparr>) = held g"
  "held (g\<lparr>watermarks := l\<rparr>) = held g" "held (g\<lparr>outWm := w\<rparr>) = held g"
  by (simp_all add: held_def)

definition drained :: "Gate \<Rightarrow> tagged list" where
  "drained g = concat (map (\<lambda>i. map (\<lambda>e. (i, e)) (buffered g ! i)) [0..<length (buffered g)])"

lemma drainBuffers_eq:
  "drainBuffers g = g\<lparr>buffered := map (\<lambda>_. []) (buffered g), replay := drained g @ replay g\<rparr>"
  by (cases "drained g = []") (simp_all only: drainBuffers_def drained_def [symmetric] Let_def, simp_all)

lemma held_drain: "held (drainBuffers g) = held g"
  using length_concat_tagged [of "buffered g"]
  by (simp add: drainBuffers_eq held_def drained_def comp_def)

lemma held_complete [simp]: "held (completeAlignment g) = held g"
  by (simp add: completeAlignment_def held_drain)

lemma held_queue [simp]: "held (queueAdvance g) = held g"
  by (simp add: queueAdvance_def advance_def Let_def)

lemma held_deliver: "held (deliver fault t g) = held g"
  by (cases "(fault, t, g)" rule: deliver.cases)
    (auto simp: onBarrier_def onEndOfStream_def Let_def split: option.splits)

lemma held_handle:
  "held (handle fault t g) = held g \<or>
    held (handle fault t g) = Suc (held g) \<and> replay (handle fault t g) = replay g"
proof (cases "aligning g \<and> alignedFor g ! fst t \<and> fst t < length (buffered g)")
  case True
  then show ?thesis
    by (auto simp: handle_def held_def map_update sum_list_update nth_list_update
        intro!: le_add_diff_inverse2 elem_le_sum_list)
next
  case False
  then show ?thesis by (auto simp: handle_def held_deliver) (simp add: held_def not_less list_update_beyond)
qed

text \<open>\<open>Recv\<close> reads the elements \<open>ms\<close> still to come on the merged channel. It returns \<open>None\<close> for
  \<open>ok = false\<close>.\<close>

function Recv ::
  "(int64 \<Rightarrow> nat \<Rightarrow> go_error option) \<Rightarrow> Gate \<Rightarrow> tagged list \<Rightarrow> StreamElement option \<times> Gate \<times> tagged list"
where
  "Recv fault g ms =
     (if gateErr g \<noteq> None then (None, g, ms)
      else case pending g of
          e # es \<Rightarrow> (Some e, g\<lparr>pending := es\<rparr>, ms)
        | [] \<Rightarrow>
            (case replay g of
               t # ts \<Rightarrow> Recv fault (handle fault t (g\<lparr>replay := ts\<rparr>)) ms
             | [] \<Rightarrow>
                 (case ms of
                    [] \<Rightarrow> (None, g, [])
                  | t # ms' \<Rightarrow> Recv fault (handle fault t g) ms')))"
  by auto
termination
proof (relation "inv_image (less_than <*lex*> less_than)
    (\<lambda>(fault, g, ms). (held g + length ms, length (replay g) + length ms))", goal_cases)
  case 1
  show ?case by (intro wf_inv_image wf_lex_prod wf_less_than)
next
  case (2 fault g ms t ms')
  then show ?case using held_handle [of fault t g] by auto
next
  case (3 fault g ms t ts)
  then show ?case using held_handle [of fault t "g\<lparr>replay := ts\<rparr>"] by (auto simp: held_def)
qed

declare Recv.simps [simp del]

definition Gate_Err :: "Gate \<Rightarrow> go_error option" where
  "Gate_Err g = gateErr g"

text \<open>The elements the owner gets by calling \<open>Recv\<close> until it reports the end.\<close>

inductive receives ::
  "(int64 \<Rightarrow> nat \<Rightarrow> go_error option) \<Rightarrow> Gate \<Rightarrow> tagged list \<Rightarrow> StreamElement list \<Rightarrow> Gate \<Rightarrow> bool" for fault
where
  receives_end: "Recv fault g ms = (None, g', ms') \<Longrightarrow> receives fault g ms [] g'"
| receives_step: "Recv fault g ms = (Some e, g', ms') \<Longrightarrow> receives fault g' ms' es g'' \<Longrightarrow>
    receives fault g ms (e # es) g''"

inductive_cases receives_cases: "receives fault g ms es g'"

lemma receives_deterministic:
  "receives fault g ms es g' \<Longrightarrow> receives fault g ms fs g'' \<Longrightarrow> es = fs \<and> g' = g''"
proof (induction arbitrary: fs g'' rule: receives.induct)
  case (receives_end g ms g' ms')
  from receives_end(2,1) show ?case by (cases rule: receives_cases) auto
next
  case (receives_step g ms e g' ms' es g'')
  from receives_step(4,1,3) show ?case by (cases rule: receives_cases) auto
qed

text \<open>The next element the gate takes in when it has nothing to hand out.\<close>

fun upcoming :: "Gate \<Rightarrow> tagged list \<Rightarrow> (tagged \<times> Gate \<times> tagged list) option" where
  "upcoming g ms =
     (case replay g of
        t # ts \<Rightarrow> Some (t, g\<lparr>replay := ts\<rparr>, ms)
      | [] \<Rightarrow> (case ms of [] \<Rightarrow> None | t # ms' \<Rightarrow> Some (t, g, ms')))"

declare upcoming.simps [simp del]

lemma receives_pending:
  assumes "gateErr g = None" "receives fault (g\<lparr>pending := []\<rparr>) ms es g'"
  shows "receives fault g ms (pending g @ es) g'"
  using assms
proof (induction "pending g" arbitrary: g)
  case Nil
  then have "g\<lparr>pending := []\<rparr> = g" by simp
  with Nil show ?case by simp
next
  case (Cons e p)
  have "receives fault (g\<lparr>pending := p\<rparr>) ms (p @ es) g'"
    using Cons(1) [of "g\<lparr>pending := p\<rparr>"] Cons(3,4) by simp
  moreover have "Recv fault g ms = (Some e, g\<lparr>pending := p\<rparr>, ms)"
    using Cons(2,3) by (subst Recv.simps) (simp flip: Cons(2))
  ultimately show ?case using Cons(2) [symmetric] by (auto intro: receives.intros)
qed

lemma receives_upcoming:
  assumes "gateErr g = None" "pending g = []" "upcoming g ms = Some (t, g1, ms1)"
    and "receives fault (handle fault t g1) ms1 es g'"
  shows "receives fault g ms es g'"
proof -
  have "Recv fault g ms = Recv fault (handle fault t g1) ms1"
    using assms(1-3) by (subst Recv.simps) (auto simp: upcoming.simps split: list.splits)
  with assms(4) show ?thesis
    by (metis receives.simps)
qed

lemma receives_done:
  assumes "gateErr g = None" "pending g = []" "upcoming g ms = None"
  shows "receives fault g ms [] g"
  using assms
  by (intro receives_end [where ms' = "[]"], subst Recv.simps) (auto simp: upcoming.simps split: list.splits)

section \<open>What each input still has to say\<close>

definition fromInput :: "nat \<Rightarrow> tagged list \<Rightarrow> StreamElement list" where
  "fromInput i ms = map snd (filter (\<lambda>t. fst t = i) ms)"

text \<open>The elements of input \<open>i\<close> not yet delivered: what the alignment holds back, what was drained
  from an earlier one, what is still to be received. They are in the order the input sent
  them.\<close>

definition rest :: "Gate \<Rightarrow> tagged list \<Rightarrow> nat \<Rightarrow> StreamElement list" where
  "rest g ms i = buffered g ! i @ fromInput i (replay g) @ fromInput i ms"

lemma fromInput_simps [simp]:
  "fromInput i [] = []" "fromInput i (xs @ ys) = fromInput i xs @ fromInput i ys"
  "fromInput i ((j, e) # ms) = (if j = i then e # fromInput i ms else fromInput i ms)"
  by (simp_all add: fromInput_def)

lemma fromInput_tagged: "fromInput i (map (\<lambda>e. (j, e)) es) = (if i = j then es else [])"
  by (induction es) (auto simp: fromInput_def)

lemma fromInput_drained_upto:
  "fromInput i (concat (map (\<lambda>j. map (\<lambda>e. (j, e)) (f j)) [0..<n])) = (if i < n then f i else [])"
  by (induction n) (auto simp: fromInput_tagged less_Suc_eq)

lemma fromInput_drained: "i < length (buffered g) \<Longrightarrow> fromInput i (drained g) = buffered g ! i"
  by (simp add: drained_def fromInput_drained_upto)

lemma upcoming_rest:
  assumes "upcoming g ms = Some ((i, e), g1, ms1)"
  shows "g1 = g\<lparr>replay := replay g1\<rparr>"
    "fromInput j (replay g) @ fromInput j ms =
      (if i = j then [e] else []) @ fromInput j (replay g1) @ fromInput j ms1"
    "set ms1 \<subseteq> set ms" "set (replay g1) \<subseteq> set (replay g)" "(i, e) \<in> set (replay g) \<union> set ms"
  using assms by (auto simp: upcoming.simps split: list.splits)

lemma upcoming_None: "upcoming g ms = None \<longleftrightarrow> replay g = [] \<and> ms = []"
  by (auto simp: upcoming.simps split: list.splits)

definition gate_rel :: "((Gate \<times> tagged list) \<times> Gate \<times> tagged list) set" where
  "gate_rel = inv_image (less_than <*lex*> less_than)
     (\<lambda>(g, ms). (held g + length ms, length (replay g) + length ms))"

lemma wf_gate_rel: "wf gate_rel"
  unfolding gate_rel_def by (intro wf_inv_image wf_lex_prod wf_less_than)

lemma handle_decreases:
  assumes "upcoming g ms = Some (t, g1, ms1)"
  shows "(((handle fault t g1)\<lparr>pending := p\<rparr>, ms1), (g, ms)) \<in> gate_rel"
  using assms held_handle [of fault t g1]
  by (auto simp: upcoming.simps gate_rel_def held_def split: list.splits)

section \<open>The invariant\<close>

text \<open>\<open>gate_pre\<close> holds inside a handler too; between handlers an alignment is always waiting for
  someone.\<close>

definition gate_pre :: "nat \<Rightarrow> Gate \<Rightarrow> bool" where
  "gate_pre n g \<longleftrightarrow>
     length (endOfStream g) = n \<and> length (watermarks g) = n \<and> length (alignedFor g) = n \<and>
     length (buffered g) = n \<and> (\<forall>t \<in> set (replay g). fst t < n) \<and>
     remaining g = int (card {i. i < n \<and> live g i}) \<and> (closed g \<longleftrightarrow> remaining g = 0) \<and>
     (\<forall>i < n. buffered g ! i \<noteq> [] \<longrightarrow> alignedFor g ! i) \<and>
     (\<forall>i < n. alignedFor g ! i \<longrightarrow> aligning g \<and> live g i) \<and>
     (aligning g \<longrightarrow> (\<exists>i < n. alignedFor g ! i))"

definition gate_inv :: "nat \<Rightarrow> Gate \<Rightarrow> bool" where
  "gate_inv n g \<longleftrightarrow> gate_pre n g \<and> (aligning g \<longrightarrow> awaitingBarrier g)"

text \<open>An input ends its stream at most once and sends nothing after that; it may also break off.\<close>

fun endsOnce :: "StreamElement list \<Rightarrow> bool" where
  "endsOnce [] \<longleftrightarrow> True"
| "endsOnce (EndOfStreamElement # es) \<longleftrightarrow> es = []"
| "endsOnce (_ # es) \<longleftrightarrow> endsOnce es"

lemma wellEnded_endsOnce: "wellEnded es \<Longrightarrow> endsOnce es"
  by (induction es rule: wellEnded.induct) auto

text \<open>What is asked of the elements an input has still to say: with \<open>E\<close> that it ends its stream, with
  \<open>T\<close> that it sends no record at or below its own watermark.\<close>

definition inputOk :: "bool \<Rightarrow> bool \<Rightarrow> int64 \<Rightarrow> int64 \<Rightarrow> StreamElement list \<Rightarrow> bool" where
  "inputOk E T out w es \<longleftrightarrow> endsOnce es \<and> (E \<longrightarrow> wellEnded es) \<and> (T \<longrightarrow> sint out \<le> sint w \<and> nonlate w es)"

lemma inputOk_simps [simp]:
  "inputOk E T out w (RecordElement r # es) \<longleftrightarrow> inputOk E T out w es \<and> (T \<longrightarrow> w <s EventTime r)"
  "inputOk E T out w (BarrierElement b # es) \<longleftrightarrow> inputOk E T out w es"
  "inputOk E T out w (UnknownElement k # es) \<longleftrightarrow> inputOk E T out w es"
  "inputOk E T out w (EndOfStreamElement # es) \<longleftrightarrow> es = [] \<and> (T \<longrightarrow> sint out \<le> sint w)"
  "inputOk E T out w (WatermarkElement t # es) \<longleftrightarrow> inputOk E T out t es \<and> (T \<longrightarrow> sint out \<le> sint w \<and> sint w \<le> sint t)"
  by (auto simp: inputOk_def word_sle_eq)

lemma inputOk_out: "inputOk E T out w es \<Longrightarrow> (T \<Longrightarrow> sint v \<le> sint w) \<Longrightarrow> inputOk E T v w es"
  by (auto simp: inputOk_def)

text \<open>The inputs' streams, after \<open>F\<close> barriers have been forwarded: an input that has delivered its
  barrier of the current alignment is one epoch ahead.\<close>

definition ahead :: "Gate \<Rightarrow> nat \<Rightarrow> nat" where
  "ahead g i = of_bool (alignedFor g ! i)"

definition streams_ok :: "bool \<Rightarrow> bool \<Rightarrow> nat \<Rightarrow> Gate \<Rightarrow> tagged list \<Rightarrow> nat \<Rightarrow> bool" where
  "streams_ok E T n g ms F \<longleftrightarrow>
     (\<forall>t \<in> set ms. fst t < n) \<and>
     (\<forall>i < n. live g i \<longrightarrow> inputOk E T (outWm g) (watermarks g ! i) (rest g ms i) \<and>
       numbered (F + ahead g i) (rest g ms i)) \<and>
     (\<forall>i < n. \<not> live g i \<longrightarrow> rest g ms i = []) \<and>
     (aligning g \<longrightarrow> (\<exists>b. barrier g = Some (BarrierElement b) \<and> sint (CheckpointID b) = int (Suc F)))"

lemma streams_okI:
  assumes "\<forall>t \<in> set ms. fst t < n"
    and "\<And>j. j < n \<Longrightarrow> if live g j then inputOk E T (outWm g) (watermarks g ! j) (rest g ms j) \<and>
      numbered (F + ahead g j) (rest g ms j) else rest g ms j = []"
    and "aligning g \<Longrightarrow> \<exists>b. barrier g = Some (BarrierElement b) \<and> sint (CheckpointID b) = int (Suc F)"
  shows "streams_ok E T n g ms F"
  unfolding streams_ok_def using assms by meson

definition toCome :: "nat \<Rightarrow> Gate \<Rightarrow> tagged list \<Rightarrow> nat \<Rightarrow> (nat \<times> Record) multiset" where
  "toCome n g ms F = (\<Sum>i<n. mset (epochs (F + ahead g i) (rest g ms i)))"

lemma awaiting_iff:
  assumes "length (alignedFor g) = n"
  shows "awaitingBarrier g \<longleftrightarrow> aligning g \<and> (\<exists>i < n. live g i \<and> \<not> alignedFor g ! i)"
  using assms by (auto simp: awaitingBarrier_def list_ex_iff)

section \<open>Completing an alignment\<close>

lemma completeAlignment_eq:
  "completeAlignment g =
    (if aligning g \<and> \<not> awaitingBarrier g
     then g\<lparr>pending := pending g @ (case barrier g of None \<Rightarrow> [] | Some b \<Rightarrow> [b]), aligning := False,
       barrier := None, alignedFor := map (\<lambda>_. False) (alignedFor g),
       buffered := map (\<lambda>_. []) (buffered g), replay := drained g @ replay g\<rparr>
     else g)"
  by (auto simp: completeAlignment_def drainBuffers_eq drained_def)

lemma complete_ok:
  assumes pre: "gate_pre n g" and ok: "streams_ok E T n g ms F" and g': "g' = completeAlignment g"
  shows "\<exists>q. pending g' = pending g @ q \<and> numbered F q \<and> epochs F q = [] \<and>
      lastWatermark w q = w \<and> nonlate w q \<and> EndOfStreamElement \<notin> set q \<and>
      gate_inv n g' \<and> streams_ok E T n g' ms (F + barrierCount q) \<and>
      toCome n g' ms (F + barrierCount q) = toCome n g ms F \<and>
      outWm g' = outWm g \<and> closed g' = closed g \<and> gateErr g' = gateErr g \<and> (\<not> aligning g \<longrightarrow> q = [])"
proof (cases "aligning g \<and> \<not> awaitingBarrier g")
  case False
  then show ?thesis
    using pre ok by (intro exI [of _ "[]"]) (auto simp: g' completeAlignment_eq gate_inv_def)
next
  case True
  have len: "length (alignedFor g) = n" "length (buffered g) = n" using pre by (simp_all add: gate_pre_def)
  have all: "alignedFor g ! i" if "i < n" "live g i" for i
    using True that awaiting_iff [OF len(1)] by blast
  from ok True obtain b where b: "barrier g = Some (BarrierElement b)" "sint (CheckpointID b) = int (Suc F)"
    by (auto simp: streams_ok_def)
  have g'_eq: "g' = g\<lparr>pending := pending g @ [BarrierElement b], aligning := False,
       barrier := None, alignedFor := map (\<lambda>_. False) (alignedFor g),
       buffered := map (\<lambda>_. []) (buffered g), replay := drained g @ replay g\<rparr>"
    using True b by (simp add: g' completeAlignment_eq)
  have rest': "rest g' ms i = rest g ms i" if "i < n" for i
    using that len by (simp add: rest_def g'_eq fromInput_drained)
  have live': "live g' = live g" by (simp add: live_def g'_eq fun_eq_iff)
  have drained_lt: "\<forall>t \<in> set (drained g). fst t < n" using len by (auto simp: drained_def)
  have "gate_inv n g'"
    using pre drained_lt unfolding gate_inv_def gate_pre_def live' by (simp add: g'_eq) blast
  moreover have ahead': "ahead g' i = 0" if "i < n" for i using that len by (simp add: ahead_def g'_eq)
  moreover have "streams_ok E T n g' ms (F + 1)"
    using ok all ahead' unfolding streams_ok_def live'
    by (auto simp: rest') (auto simp: g'_eq ahead_def)
  moreover have "mset (epochs (F + 1 + ahead g' i) (rest g' ms i)) = mset (epochs (F + ahead g i) (rest g ms i))"
    if "i < n" for i
    using that all [of i] ok ahead' [of i] by (cases "live g i") (auto simp: rest' ahead_def streams_ok_def)
  then have "toCome n g' ms (F + 1) = toCome n g ms F" unfolding toCome_def by (intro sum.cong) auto
  ultimately show ?thesis
    using True b by (intro exI [of _ "[BarrierElement b]"]) (simp add: g'_eq)
qed

section \<open>Advancing the watermark\<close>

lemma minLive_fold:
  fixes ws :: "int64 list" and ok :: "nat \<Rightarrow> bool"
  defines "f \<equiv> \<lambda>i mn. if \<not> ok i then mn else if ws ! i <s mn then ws ! i else mn"
  shows "sint (fold f is w) \<le> sint w \<and> (\<forall>i \<in> set is. ok i \<longrightarrow> sint (fold f is w) \<le> sint (ws ! i)) \<and>
    ((\<forall>i \<in> set is. \<not> ok i) \<longrightarrow> fold f is w = w)"
proof (induction "is" arbitrary: w)
  case (Cons i "is")
  have "sint (f i w) \<le> sint w" "ok i \<longrightarrow> sint (f i w) \<le> sint (ws ! i)" "\<not> ok i \<longrightarrow> f i w = w"
    by (auto simp: f_def word_sless_alt)
  with Cons [of "f i w"] show ?case by (auto intro: order_trans)
qed simp

lemma minLive_bounds:
  assumes "length (watermarks g) = n"
  shows "i < n \<Longrightarrow> live g i \<Longrightarrow> sint (minLive g) \<le> sint (watermarks g ! i)"
    "(\<forall>i < n. \<not> live g i) \<Longrightarrow> minLive g = maxInt64"
  using minLive_fold [of "live g" "watermarks g" "[0..<n]" maxInt64] assms
  by (auto simp: minLive_def)

lemma queueAdvance_eq:
  "\<exists>w q. queueAdvance g = g\<lparr>outWm := w, pending := pending g @ q\<rparr> \<and>
    sint w = max (sint (outWm g)) (sint (minLive g)) \<and> lastWatermark (outWm g) q = w \<and>
    nonlate (outWm g) q \<and> epochs F q = [] \<and> numbered F q \<and> barrierCount q = 0 \<and> EndOfStreamElement \<notin> set q"
proof (cases "minLive g \<le>s outWm g")
  case True
  then show ?thesis
    by (intro exI [of _ "outWm g"] exI [of _ "[]"]) (auto simp: queueAdvance_def advance_def word_sle_eq)
next
  case False
  then show ?thesis
    by (intro exI [of _ "minLive g"] exI [of _ "[WatermarkElement (minLive g)]"])
      (auto simp: queueAdvance_def advance_def word_sle_eq Let_def)
qed

section \<open>One element\<close>

text \<open>An element that is delivered is the next of its input, which is live.\<close>

lemma consume:
  assumes inv: "gate_inv n g" and ok: "streams_ok E T n g ms F" and up: "upcoming g ms = Some ((i, e), g1, ms1)"
  shows "i < n" "live g i" "\<not> alignedFor g ! i \<Longrightarrow> rest g ms i = e # rest g1 ms1 i"
    "j \<noteq> i \<Longrightarrow> rest g ms j = rest g1 ms1 j"
    "\<forall>t \<in> set ms1. fst t < n" "\<forall>t \<in> set (replay g1). fst t < n"
proof -
  note u = upcoming_rest [OF up]
  have b: "buffered g1 = buffered g" by (subst u(1)) simp
  show i: "i < n" using u(5) inv ok by (auto simp: gate_inv_def gate_pre_def streams_ok_def)
  show "live g i"
  proof (rule ccontr)
    assume "\<not> live g i"
    then have "rest g ms i = []" using ok i by (simp add: streams_ok_def)
    then show False using u(2) [of i] by (simp add: rest_def)
  qed
  show "rest g ms i = e # rest g1 ms1 i" if "\<not> alignedFor g ! i"
  proof -
    have "buffered g ! i = []" using inv i that by (auto simp: gate_inv_def gate_pre_def)
    then show ?thesis using u(2) [of i] by (simp add: rest_def b)
  qed
  show "rest g ms j = rest g1 ms1 j" if "j \<noteq> i" using u(2) [of j] that by (simp add: rest_def b)
  show "\<forall>t \<in> set ms1. fst t < n" "\<forall>t \<in> set (replay g1). fst t < n"
    using u(3,4) inv ok by (auto simp: gate_inv_def gate_pre_def streams_ok_def)
qed

lemma toCome_consume:
  assumes "i < n" "\<And>j. j < n \<Longrightarrow> j \<noteq> i \<Longrightarrow>
      epochs (F' + ahead g' j) (rest g' ms' j) = epochs (F + ahead g j) (rest g ms j)"
    and "epochs (F + ahead g i) (rest g ms i) = xs @ epochs (F' + ahead g' i) (rest g' ms' i)"
  shows "toCome n g ms F = mset xs + toCome n g' ms' F'"
proof -
  have i: "i \<in> {..<n}" using assms(1) by simp
  have "(\<Sum>j\<in>{..<n} - {i}. mset (epochs (F + ahead g j) (rest g ms j))) =
      (\<Sum>j\<in>{..<n} - {i}. mset (epochs (F' + ahead g' j) (rest g' ms' j)))"
    using assms(2) by (intro sum.cong) auto
  then show ?thesis
    using sum.remove [OF _ i, of "\<lambda>j. mset (epochs (F + ahead g j) (rest g ms j))"]
      sum.remove [OF _ i, of "\<lambda>j. mset (epochs (F' + ahead g' j) (rest g' ms' j))"] assms(3)
    by (simp add: toCome_def)
qed

text \<open>What one handled element does to the streams: it is held back, and nothing changes, or it is
  delivered, and what it makes the gate hand out is what its input loses.\<close>

definition step_ok :: "bool \<Rightarrow> bool \<Rightarrow> nat \<Rightarrow> Gate \<Rightarrow> tagged list \<Rightarrow> nat \<Rightarrow> Gate \<Rightarrow> tagged list \<Rightarrow> StreamElement list \<Rightarrow> bool" where
  "step_ok E T n g ms F g' ms' q \<longleftrightarrow> gate_inv n g' \<and> streams_ok E T n g' ms' (F + barrierCount q) \<and>
     toCome n g ms F = mset (epochs F q) + toCome n g' ms' (F + barrierCount q) \<and>
     numbered F q \<and> (T \<longrightarrow> nonlate (outWm g) q) \<and> outWm g' = lastWatermark (outWm g) q \<and> gateErr g' = gateErr g \<and>
     (EndOfStreamElement \<notin> set q \<and> closed g' = closed g \<or> wellEnded q \<and> closed g' \<and> lastWatermark (outWm g) q = maxInt64)"

lemma step_buffer:
  assumes inv: "gate_inv n g" and ok: "streams_ok E T n g ms F" and up: "upcoming g ms = Some ((i, e), g1, ms1)"
    and al: "alignedFor g ! i"
  shows "step_ok E T n g ms F (handle fault (i, e) g1) ms1 []" "pending (handle fault (i, e) g1) = pending g"
proof -
  note u = upcoming_rest [OF up] and c = consume [OF inv ok up]
  have pre: "gate_pre n g" using inv by (simp add: gate_inv_def)
  then have "aligning g" using al c(1) by (simp add: gate_pre_def)
  then have h: "handle fault (i, e) g1 = g\<lparr>replay := replay g1, buffered := (buffered g)[i := buffered g ! i @ [e]]\<rparr>"
    using al by (subst u(1), subst (2) u(1)) (simp add: handle_def)
  let ?g = "g\<lparr>replay := replay g1, buffered := (buffered g)[i := buffered g ! i @ [e]]\<rparr>"
  have len: "length (buffered g) = n" using pre by (simp add: gate_pre_def)
  have r: "rest ?g ms1 j = rest g ms j" if "j < n" for j
    using u(2) [of j] that c(1) len by (cases "j = i") (auto simp: rest_def)
  have l: "live ?g = live g" "ahead ?g = ahead g" "awaitingBarrier ?g = awaitingBarrier g"
    by (simp_all add: live_def ahead_def awaitingBarrier_def fun_eq_iff)
  have "gate_inv n ?g"
    using inv c(1,6) al len unfolding gate_inv_def gate_pre_def l by (auto simp: nth_list_update)
  moreover have "streams_ok E T n ?g ms1 F" using ok c(5) unfolding streams_ok_def l by (simp add: r)
  moreover have "toCome n g ms F = toCome n ?g ms1 F"
    unfolding toCome_def l by (intro sum.cong) (simp_all add: r)
  ultimately show "step_ok E T n g ms F (handle fault (i, e) g1) ms1 []" "pending (handle fault (i, e) g1) = pending g"
    by (simp_all add: step_ok_def h)
qed

lemma rest_update [simp]:
  "rest (g\<lparr>pending := a\<rparr>) = rest g" "rest (g\<lparr>outWm := w\<rparr>) = rest g" "rest (g\<lparr>watermarks := l\<rparr>) = rest g"
  "rest (g\<lparr>endOfStream := c\<rparr>) = rest g" "rest (g\<lparr>remaining := k\<rparr>) = rest g" "rest (g\<lparr>closed := x\<rparr>) = rest g"
  "rest (g\<lparr>aligning := x\<rparr>) = rest g" "rest (g\<lparr>barrier := b\<rparr>) = rest g" "rest (g\<lparr>alignedFor := c\<rparr>) = rest g"
  by (simp_all add: rest_def fun_eq_iff)

lemma live_update [simp]:
  "live (g\<lparr>pending := a\<rparr>) = live g" "live (g\<lparr>outWm := w\<rparr>) = live g" "live (g\<lparr>watermarks := l\<rparr>) = live g"
  "live (g\<lparr>remaining := k\<rparr>) = live g" "live (g\<lparr>closed := x\<rparr>) = live g" "live (g\<lparr>replay := r\<rparr>) = live g"
  "live (g\<lparr>aligning := x\<rparr>) = live g" "live (g\<lparr>barrier := b\<rparr>) = live g" "live (g\<lparr>alignedFor := c\<rparr>) = live g"
  by (simp_all add: live_def fun_eq_iff)

lemma ahead_update [simp]:
  "ahead (g\<lparr>pending := a\<rparr>) = ahead g" "ahead (g\<lparr>outWm := w\<rparr>) = ahead g" "ahead (g\<lparr>watermarks := l\<rparr>) = ahead g"
  "ahead (g\<lparr>endOfStream := c\<rparr>) = ahead g" "ahead (g\<lparr>remaining := k\<rparr>) = ahead g" "ahead (g\<lparr>closed := x\<rparr>) = ahead g"
  "ahead (g\<lparr>aligning := x\<rparr>) = ahead g" "ahead (g\<lparr>barrier := b\<rparr>) = ahead g" "ahead (g\<lparr>replay := r\<rparr>) = ahead g"
  by (simp_all add: ahead_def fun_eq_iff)

lemma awaiting_update [simp]:
  "awaitingBarrier (g\<lparr>pending := a\<rparr>) = awaitingBarrier g" "awaitingBarrier (g\<lparr>outWm := w\<rparr>) = awaitingBarrier g"
  "awaitingBarrier (g\<lparr>watermarks := l\<rparr>) = awaitingBarrier g" "awaitingBarrier (g\<lparr>replay := r\<rparr>) = awaitingBarrier g"
  by (simp_all add: awaitingBarrier_def)

lemma inv_pending [simp]:
  "gate_inv n (g\<lparr>pending := p\<rparr>) = gate_inv n g" "gate_pre n (g\<lparr>pending := p\<rparr>) = gate_pre n g"
  "streams_ok E T n (g\<lparr>pending := p\<rparr>) ms F = streams_ok E T n g ms F" "toCome n (g\<lparr>pending := p\<rparr>) = toCome n g"
  by (simp_all add: gate_inv_def gate_pre_def streams_ok_def toCome_def fun_eq_iff)

lemma step_record:
  assumes inv: "gate_inv n g" and ok: "streams_ok E T n g ms F" and up: "upcoming g ms = Some ((i, e), g1, ms1)"
    and al: "\<not> alignedFor g ! i" and e: "(\<exists>r. e = RecordElement r) \<or> (\<exists>k. e = UnknownElement k)"
  shows "step_ok E T n g ms F g1 ms1 [e]"
proof -
  note c = consume [OF inv ok up]
  obtain r where g1: "g1 = g\<lparr>replay := r\<rparr>" using upcoming_rest(1) [OF up] by blast
  note ri = c(3) [OF al] and rj = c(4)
  have oki: "inputOk E T (outWm g) (watermarks g ! i) (e # rest g1 ms1 i)"
    "numbered (F + ahead g i) (e # rest g1 ms1 i)"
    using ok c(1,2) ri by (auto simp: streams_ok_def)
  have "gate_inv n g1" using inv c(6) by (auto simp: gate_inv_def gate_pre_def g1)
  moreover have "streams_ok E T n g1 ms1 F"
  proof (rule streams_okI)
    fix j assume j: "j < n"
    show "if live g1 j then inputOk E T (outWm g1) (watermarks g1 ! j) (rest g1 ms1 j) \<and>
        numbered (F + ahead g1 j) (rest g1 ms1 j) else rest g1 ms1 j = []"
      using oki e ok rj [of j] j c(2) by (cases "j = i") (auto simp: streams_ok_def g1)
  qed (use ok c(5) in \<open>auto simp: streams_ok_def g1\<close>)
  moreover have "toCome n g ms F = mset (epochs F [e]) + toCome n g1 ms1 F"
  proof (rule toCome_consume [OF c(1)])
    show "epochs (F + ahead g1 j) (rest g1 ms1 j) = epochs (F + ahead g j) (rest g ms j)"
      if "j < n" "j \<noteq> i" for j using rj [OF that(2)] by (simp add: g1)
    show "epochs (F + ahead g i) (rest g ms i) = epochs F [e] @ epochs (F + ahead g1 i) (rest g1 ms1 i)"
      using e al unfolding ri by (auto simp: ahead_def g1)
  qed
  moreover have "T \<longrightarrow> nonlate (outWm g) [e]" using e oki(1) by (auto simp: inputOk_def word_sless_alt)
  ultimately show ?thesis using e by (auto simp: step_ok_def g1)
qed

lemma step_watermark:
  assumes inv: "gate_inv n g" and ok: "streams_ok E T n g ms F"
    and up: "upcoming g ms = Some ((i, WatermarkElement w), g1, ms1)" and al: "\<not> alignedFor g ! i"
  shows "\<exists>q. pending (queueAdvance (g1\<lparr>watermarks := (watermarks g1)[i := w]\<rparr>)) = pending g @ q \<and>
    step_ok E T n g ms F (queueAdvance (g1\<lparr>watermarks := (watermarks g1)[i := w]\<rparr>)) ms1 q"
proof -
  note c = consume [OF inv ok up]
  obtain r where g1: "g1 = g\<lparr>replay := r\<rparr>" using upcoming_rest(1) [OF up] by blast
  let ?h = "g1\<lparr>watermarks := (watermarks g1)[i := w]\<rparr>"
  have len: "length (watermarks g) = n" using inv by (simp add: gate_inv_def gate_pre_def)
  obtain v q where q: "queueAdvance ?h = ?h\<lparr>outWm := v, pending := pending ?h @ q\<rparr>"
    "sint v = max (sint (outWm ?h)) (sint (minLive ?h))" "lastWatermark (outWm ?h) q = v"
    "nonlate (outWm ?h) q" "epochs F q = []" "numbered F q" "barrierCount q = 0" "EndOfStreamElement \<notin> set q"
    using queueAdvance_eq [of ?h F] by blast
  let ?g = "?h\<lparr>outWm := v, pending := pending ?h @ q\<rparr>"
  note ri = c(3) [OF al] and rj = c(4)
  have oki: "inputOk E T (outWm g) w (rest g1 ms1 i)" "T \<Longrightarrow> sint (watermarks g ! i) \<le> sint w"
    "numbered (F + ahead g i) (rest g1 ms1 i)"
    using ok c(1,2) ri by (auto simp: streams_ok_def word_sle_eq)
  have vle: "sint v \<le> sint (watermarks ?h ! j)" if T "j < n" "live g j" for j
  proof -
    have "sint (outWm g) \<le> sint (watermarks g ! j)" using that ok by (simp add: streams_ok_def inputOk_def)
    then have "sint (outWm g) \<le> sint (watermarks ?h ! j)"
      using oki(2) [OF that(1)] len that(2) by (cases "j = i") (auto simp: g1)
    moreover have "sint (minLive ?h) \<le> sint (watermarks ?h ! j)"
      by (rule minLive_bounds(1) [of _ n]) (use len that in \<open>simp_all add: g1\<close>)
    ultimately show ?thesis using q(2) by (simp add: g1)
  qed
  have "gate_inv n ?g" using inv c(6) by (auto simp: gate_inv_def gate_pre_def g1)
  moreover have "streams_ok E T n ?g ms1 F"
  proof (rule streams_okI)
    fix j assume j: "j < n"
    have old: "inputOk E T (outWm g) (watermarks ?h ! j) (rest g1 ms1 j)" if "live g j"
      using oki ok rj [of j] j len that by (cases "j = i") (auto simp: streams_ok_def g1)
    show "if live ?g j then inputOk E T (outWm ?g) (watermarks ?g ! j) (rest ?g ms1 j) \<and>
        numbered (F + ahead ?g j) (rest ?g ms1 j) else rest ?g ms1 j = []"
      using oki(3) ok rj [of j] j c(2) inputOk_out [OF old] vle [OF _ j] by (cases "j = i") (auto simp: streams_ok_def g1)
  qed (use ok c(5) in \<open>auto simp: streams_ok_def g1\<close>)
  moreover have "toCome n g ms F = mset [] + toCome n ?g ms1 F"
    by (rule toCome_consume [OF c(1)]) (use rj ri in \<open>simp_all add: g1\<close>)
  ultimately show ?thesis
    unfolding q(1) using q(3-8) by (intro exI [of _ q]) (simp add: step_ok_def g1)
qed

lemma step_complete:
  assumes mid: "gate_pre n h" "streams_ok E T n h ms1 F"
    and "pending h = pending g @ qs" "toCome n g ms F = mset (epochs F qs) + toCome n h ms1 F"
    and "numbered F qs" "barrierCount qs = 0" "T \<Longrightarrow> nonlate (outWm g) qs" "outWm h = lastWatermark (outWm g) qs"
      "gateErr h = gateErr g"
    and fin: "EndOfStreamElement \<notin> set qs \<and> closed h = closed g \<or>
      wellEnded qs \<and> closed h \<and> lastWatermark (outWm g) qs = maxInt64 \<and> \<not> aligning h"
  shows "\<exists>q. pending (completeAlignment h) = pending g @ q \<and> step_ok E T n g ms F (completeAlignment h) ms1 q"
proof -
  obtain q where q: "pending (completeAlignment h) = pending h @ q" "numbered F q" "epochs F q = []"
      "lastWatermark (outWm h) q = outWm h" "nonlate (outWm h) q" "EndOfStreamElement \<notin> set q"
      "gate_inv n (completeAlignment h)" "streams_ok E T n (completeAlignment h) ms1 (F + barrierCount q)"
      "toCome n (completeAlignment h) ms1 (F + barrierCount q) = toCome n h ms1 F"
      "outWm (completeAlignment h) = outWm h" "closed (completeAlignment h) = closed h"
      "gateErr (completeAlignment h) = gateErr h" "\<not> aligning h \<longrightarrow> q = []"
    using complete_ok [OF mid refl, of "outWm h"] by blast
  have count: "barrierCount (qs @ q) = barrierCount q" "epochs F (qs @ q) = epochs F qs"
    using assms(6) q(3) numbered_append epochs_append [of F qs q]
    by (simp_all add: barrierCount_append)
  have "step_ok E T n g ms F (completeAlignment h) ms1 (qs @ q)"
    unfolding step_ok_def count using assms q fin
    by (auto simp: numbered_append nonlate_append)
  then show ?thesis using q(1) assms(3) by (intro exI [of _ "qs @ q"]) simp
qed

lemma step_barrier:
  assumes inv: "gate_inv n g" and ok: "streams_ok E T n g ms F"
    and up: "upcoming g ms = Some ((i, BarrierElement b), g1, ms1)" and al: "\<not> alignedFor g ! i"
  shows "\<exists>q. pending (onBarrier (\<lambda>_ _. None) i b g1) = pending g @ q \<and>
    step_ok E T n g ms F (onBarrier (\<lambda>_ _. None) i b g1) ms1 q"
proof -
  note c = consume [OF inv ok up]
  obtain r where g1: "g1 = g\<lparr>replay := r\<rparr>" using upcoming_rest(1) [OF up] by blast
  let ?a = "if \<not> aligning g1 then g1\<lparr>aligning := True, barrier := Some (BarrierElement b)\<rparr> else g1"
  let ?h = "?a\<lparr>alignedFor := (alignedFor ?a)[i := True]\<rparr>"
  have h: "onBarrier (\<lambda>_ _. None) i b g1 = completeAlignment ?h"
    by (cases "awaitingBarrier ?h")
      (simp_all only: onBarrier_def Let_def option.case if_True if_False completeAlignment_def [of ?h] simp_thms)
  have pre: "gate_pre n g" using inv by (simp add: gate_inv_def)
  then have len: "length (alignedFor g) = n" by (simp add: gate_pre_def)
  note ri = c(3) [OF al] and rj = c(4)
  have oki: "inputOk E T (outWm g) (watermarks g ! i) (rest g1 ms1 i)"
    "sint (CheckpointID b) = int (Suc F)" "numbered (Suc F) (rest g1 ms1 i)"
    using ok c(1,2) ri al by (auto simp: streams_ok_def ahead_def)
  have hs: "rest ?h = rest g1" "live ?h = live g" "alignedFor ?h = (alignedFor g)[i := True]"
    "watermarks ?h = watermarks g" "aligning ?h" "pending ?h = pending g" "outWm ?h = outWm g"
    "gateErr ?h = gateErr g" "closed ?h = closed g" "endOfStream ?h = endOfStream g" "buffered ?h = buffered g"
    "replay ?h = replay g1" "remaining ?h = remaining g"
    "barrier ?h = (if aligning g then barrier g else Some (BarrierElement b))"
    by (auto simp: g1)
  have "gate_pre n ?h"
    using pre c(1,2,6) len unfolding gate_pre_def hs by (auto simp: nth_list_update)
  moreover have "streams_ok E T n ?h ms1 F"
  proof (rule streams_okI)
    fix j assume j: "j < n"
    show "if live ?h j then inputOk E T (outWm ?h) (watermarks ?h ! j) (rest ?h ms1 j) \<and>
        numbered (F + ahead ?h j) (rest ?h ms1 j) else rest ?h ms1 j = []"
      unfolding hs ahead_def
      using oki ok rj [of j] j len c(2) by (cases "j = i") (auto simp: streams_ok_def ahead_def)
  qed (use ok c(5) oki(2) in \<open>unfold hs, auto simp: streams_ok_def\<close>)
  moreover have "toCome n g ms F = mset [] + toCome n ?h ms1 F"
  proof (rule toCome_consume [OF c(1)])
    show "epochs (F + ahead ?h j) (rest ?h ms1 j) = epochs (F + ahead g j) (rest g ms j)"
      if "j < n" "j \<noteq> i" for j using rj [OF that(2)] that unfolding hs ahead_def by simp
    show "epochs (F + ahead g i) (rest g ms i) = [] @ epochs (F + ahead ?h i) (rest ?h ms1 i)"
      unfolding ri hs ahead_def using al c(1) len by simp
  qed
  ultimately show ?thesis
    unfolding h by (intro step_complete [where qs = "[]"]) (simp_all only: hs, simp_all)
qed

lemma card_live_less:
  assumes "i < n" "\<not> endOfStream g ! i" "length (endOfStream g) = n"
  shows "int (card {j. j < n \<and> \<not> (endOfStream g)[i := True] ! j}) = int (card {j. j < n \<and> live g j}) - 1"
proof -
  have "{j. j < n \<and> live g j} = insert i {j. j < n \<and> \<not> (endOfStream g)[i := True] ! j}"
    using assms by (auto simp: live_def nth_list_update)
  moreover have "i \<notin> {j. j < n \<and> \<not> (endOfStream g)[i := True] ! j}" using assms by simp
  ultimately show ?thesis by simp
qed

lemma step_eos:
  assumes inv: "gate_inv n g" and ok: "streams_ok E T n g ms F"
    and up: "upcoming g ms = Some ((i, EndOfStreamElement), g1, ms1)" and al: "\<not> alignedFor g ! i"
  shows "\<exists>q. pending (onEndOfStream i g1) = pending g @ q \<and> step_ok E T n g ms F (onEndOfStream i g1) ms1 q"
proof -
  note c = consume [OF inv ok up]
  obtain r where g1: "g1 = g\<lparr>replay := r\<rparr>" using upcoming_rest(1) [OF up] by blast
  let ?a = "g1\<lparr>endOfStream := (endOfStream g1)[i := True], remaining := remaining g1 - 1\<rparr>"
  have pre: "gate_pre n g" using inv by (simp add: gate_inv_def)
  then have len: "length (watermarks g) = n" "length (endOfStream g) = n" by (simp_all add: gate_pre_def)
  note ri = c(3) [OF al] and rj = c(4)
  have ri0: "rest g1 ms1 i = []" using ok c(1,2) ri by (auto simp: streams_ok_def)
  have lv: "live ?a j \<longleftrightarrow> live g j \<and> j \<noteq> i" if "j < n" for j
    using that len(2) by (cases "j = i") (auto simp: live_def g1)
  obtain v q where q: "queueAdvance ?a = ?a\<lparr>outWm := v, pending := pending ?a @ q\<rparr>"
    "sint v = max (sint (outWm ?a)) (sint (minLive ?a))" "lastWatermark (outWm ?a) q = v"
    "nonlate (outWm ?a) q" "epochs F q = []" "numbered F q" "barrierCount q = 0" "EndOfStreamElement \<notin> set q"
    using queueAdvance_eq [of ?a F] by blast
  let ?b = "?a\<lparr>outWm := v, pending := pending ?a @ q\<rparr>"
  let ?fin = "remaining ?b = 0 \<and> \<not> closed ?b"
  let ?qs = "q @ (if ?fin then [EndOfStreamElement] else [])"
  let ?h = "if ?fin then ?b\<lparr>closed := True, pending := pending ?b @ [EndOfStreamElement]\<rparr> else ?b"
  have not_closed: "\<not> closed g"
  proof -
    have "i \<in> {j. j < n \<and> live g j}" using c by simp
    then have "card {j. j < n \<and> live g j} \<noteq> 0" by (auto simp: card_eq_0_iff)
    then show ?thesis using pre by (simp add: gate_pre_def)
  qed
  obtain h where h: "onEndOfStream i g1 = completeAlignment h" and hs: "rest h = rest g1" "live h = live ?a"
    "alignedFor h = alignedFor g" "ahead h = ahead g" "watermarks h = watermarks g" "aligning h = aligning g"
    "pending h = pending g @ ?qs" "outWm h = v" "gateErr h = gateErr g"
    "endOfStream h = (endOfStream g)[i := True]" "buffered h = buffered g" "replay h = replay g1"
    "remaining h = remaining g - 1" "barrier h = barrier g" "closed h = (remaining g = 1)"
  proof (rule that [of ?h])
    show "onEndOfStream i g1 = completeAlignment ?h"
      unfolding onEndOfStream_def Let_def q(1) using c(2) not_closed by (auto simp: g1 live_def)
  qed (use not_closed in \<open>auto simp: g1\<close>)
  have rem: "remaining g - 1 = int (card {j. j < n \<and> live ?a j})"
    using card_live_less [OF c(1) _ len(2)] c(2) pre
    by (simp add: gate_pre_def live_def g1)
  have ali: "aligning g \<Longrightarrow> remaining g \<noteq> 1"
  proof
    assume a: "aligning g" "remaining g = 1"
    then obtain j where "j < n" "alignedFor g ! j" "live g j" using pre by (auto simp: gate_pre_def)
    then have "j \<in> {j. j < n \<and> live ?a j}" using al lv [of j] by auto
    then have "card {j. j < n \<and> live ?a j} \<noteq> 0" by (auto simp: card_eq_0_iff)
    then show False using rem a by auto
  qed
  have vle: "sint v \<le> sint (watermarks g ! j)" if T "j < n" "live ?a j" for j
  proof -
    have "sint (outWm g) \<le> sint (watermarks g ! j)" using that ok lv by (simp add: streams_ok_def inputOk_def)
    moreover have "sint (minLive ?a) \<le> sint (watermarks ?a ! j)"
      by (rule minLive_bounds(1) [of _ n]) (use len that in \<open>simp_all add: g1\<close>)
    ultimately show ?thesis using q(2) by (simp add: g1)
  qed
  have vmax: "v = maxInt64" if "remaining g = 1"
  proof -
    have "{j. j < n \<and> live ?a j} = {}" using rem that by simp
    then have "minLive ?a = maxInt64" using len by (intro minLive_bounds(2) [of _ n]) (auto simp: g1)
    then show ?thesis using q(2) sint64_bounds [of "outWm ?a"] by (intro sint64_eqI) simp
  qed
  have "closed h \<longleftrightarrow> remaining h = 0" using not_closed unfolding hs by auto
  moreover have "remaining h = int (card {j. j < n \<and> live h j})" unfolding hs by (rule rem)
  moreover have "\<forall>j < n. alignedFor h ! j \<longrightarrow> aligning h \<and> live h j"
    unfolding hs using pre al lv by (auto simp: gate_pre_def simp del: live_update)
  moreover have "length (endOfStream h) = n \<and> length (watermarks h) = n \<and> length (alignedFor h) = n \<and>
     length (buffered h) = n \<and> (\<forall>t \<in> set (replay h). fst t < n) \<and>
     (\<forall>i < n. buffered h ! i \<noteq> [] \<longrightarrow> alignedFor h ! i) \<and>
     (aligning h \<longrightarrow> (\<exists>i < n. alignedFor h ! i))"
    unfolding hs using pre c(6) by (auto simp: gate_pre_def)
  ultimately have mid: "gate_pre n h" unfolding gate_pre_def by blast
  have ok_h: "streams_ok E T n h ms1 F"
  proof (rule streams_okI)
    fix j assume j: "j < n"
    show "if live h j then inputOk E T (outWm h) (watermarks h ! j) (rest h ms1 j) \<and>
        numbered (F + ahead h j) (rest h ms1 j) else rest h ms1 j = []"
    proof (cases "live ?a j")
      case True
      then have "inputOk E T (outWm g) (watermarks g ! j) (rest g1 ms1 j) \<and> numbered (F + ahead g j) (rest g1 ms1 j)"
        using ok rj [of j] j lv [OF j] by (auto simp: streams_ok_def)
      then show ?thesis unfolding hs using inputOk_out [OF _ vle [OF _ j True]] True by auto
    next
      case False
      then show ?thesis unfolding hs using ri0 ok rj [of j] j lv [OF j] by (cases "j = i") (auto simp: streams_ok_def)
    qed
  qed (use ok c(5) in \<open>unfold hs, auto simp: streams_ok_def\<close>)
  have tc: "toCome n g ms F = mset [] + toCome n h ms1 F"
    by (rule toCome_consume [OF c(1)]) (use rj ri ri0 in \<open>unfold hs, simp_all\<close>)
  have fin: "EndOfStreamElement \<notin> set ?qs \<and> closed h = closed g \<or>
      wellEnded ?qs \<and> closed h \<and> lastWatermark (outWm g) ?qs = maxInt64 \<and> \<not> aligning h"
    using q(3,8) vmax ali not_closed by (auto simp: g1 wellEnded_append hs)
  have qs: "outWm h = lastWatermark (outWm g) ?qs" "nonlate (outWm g) ?qs" "barrierCount ?qs = 0"
    "numbered F ?qs" "epochs F ?qs = []"
    using q(3-8) by (simp_all add: hs(8) g1 nonlate_append numbered_append epochs_append)
  have tc': "toCome n g ms F = mset (epochs F ?qs) + toCome n h ms1 F" by (simp only: tc qs(5))
  show ?thesis unfolding h by (rule step_complete [OF mid ok_h hs(7) tc' qs(4,3,2,1) hs(9) fin])
qed

lemma step_handle:
  assumes inv: "gate_inv n g" and ok: "streams_ok E T n g ms F" and up: "upcoming g ms = Some (t, g1, ms1)"
  shows "\<exists>q. pending (handle (\<lambda>_ _. None) t g1) = pending g @ q \<and>
    step_ok E T n g ms F (handle (\<lambda>_ _. None) t g1) ms1 q"
proof -
  obtain i e where t: "t = (i, e)" by (cases t)
  have up': "upcoming g ms = Some ((i, e), g1, ms1)" using up t by simp
  obtain r where g1: "g1 = g\<lparr>replay := r\<rparr>" using upcoming_rest(1) [OF up'] by blast
  show ?thesis
  proof (cases "alignedFor g ! i")
    case True
    with step_buffer [OF inv ok up' True] show ?thesis unfolding t by (metis append_Nil2)
  next
    case False
    then have h: "handle (\<lambda>_ _. None) t g1 = deliver (\<lambda>_ _. None) (i, e) g1"
      by (simp add: handle_def t g1)
    show ?thesis
    proof (cases e)
      case (RecordElement r)
      with step_record [OF inv ok up' False] show ?thesis
        unfolding h by (intro exI [of _ "[e]"]) (simp add: g1 step_ok_def)
    next
      case (UnknownElement k)
      with step_record [OF inv ok up' False] show ?thesis
        unfolding h by (intro exI [of _ "[e]"]) (simp add: g1 step_ok_def)
    next
      case (WatermarkElement w)
      with step_watermark [OF inv ok _ False] up' show ?thesis by (simp add: h)
    next
      case (BarrierElement b)
      with step_barrier [OF inv ok _ False] up' show ?thesis by (simp add: h)
    next
      case EndOfStreamElement
      with step_eos [OF inv ok _ False] up' show ?thesis by (simp add: h)
    qed
  qed
qed

section \<open>The whole stream\<close>

lemma closed_nothing_left:
  assumes "gate_inv n g" "streams_ok E T n g ms F" "closed g"
  shows "upcoming g ms = None" "toCome n g ms F = {#}"
proof -
  have "gate_pre n g" using assms(1) by (simp add: gate_inv_def)
  then have "remaining g = int (card {i. i < n \<and> live g i})" "remaining g = 0"
    using assms(3) unfolding gate_pre_def by blast+
  then have "card {i. i < n \<and> live g i} = 0" by linarith
  then have none: "rest g ms i = []" if "i < n" for i
    using that assms(2) by (auto simp: streams_ok_def card_eq_0_iff)
  then show "toCome n g ms F = {#}" by (simp add: toCome_def)
  show "upcoming g ms = None"
  proof (rule ccontr)
    assume "upcoming g ms \<noteq> None"
    then obtain i e g1 ms1 where up: "upcoming g ms = Some ((i, e), g1, ms1)" by fastforce
    have "i < n" using consume(1) [OF assms(1,2) up] .
    then show False using none [of i] upcoming_rest(2) [OF up, of i] by (simp add: rest_def)
  qed
qed

lemma stuck_means_closed:
  assumes inv: "gate_inv n g" and ok: "streams_ok True T n g ms F" and up: "upcoming g ms = None"
  shows "closed g"
proof (rule ccontr)
  assume "\<not> closed g"
  then have "{i. i < n \<and> live g i} \<noteq> {}" using inv by (auto simp: gate_inv_def gate_pre_def)
  then obtain i where i: "i < n" "live g i" by blast
  have buf: "rest g ms j = buffered g ! j" for j using up by (simp add: rest_def upcoming_None)
  have al: "alignedFor g ! j" if "j < n" "live g j" for j
  proof -
    have "wellEnded (buffered g ! j)" using that ok buf by (simp add: streams_ok_def inputOk_def)
    then have "buffered g ! j \<noteq> []" by auto
    then show ?thesis using that(1) inv by (auto simp: gate_inv_def gate_pre_def)
  qed
  then have "aligning g" using i inv by (auto simp: gate_inv_def gate_pre_def)
  then obtain j where "j < n" "live g j" "\<not> alignedFor g ! j"
    using inv awaiting_iff [of g n] by (auto simp: gate_inv_def gate_pre_def)
  then show False using al by blast
qed

text \<open>From any state the gate can be in: the owner receives a finite sequence, and it is the merge of
  what the inputs still had, up to a barrier that some input did not reach; it is all of it, if
  the inputs all end.\<close>

lemma epochs_ge: "(k', r) \<in> set (epochs k es) \<Longrightarrow> k \<le> k'"
  by (induction k es rule: epochs.induct) auto

lemma toCome_ge: "p \<in># toCome n g ms F \<Longrightarrow> F \<le> fst p"
proof -
  assume "p \<in># toCome n g ms F"
  then obtain i where "p \<in> set (epochs (F + ahead g i) (rest g ms i))"
    by (auto simp: toCome_def set_mset_sum)
  then show ?thesis using epochs_ge [of "fst p" "snd p"] by fastforce
qed

lemma gate_runs:
  assumes "gate_inv n g" "streams_ok E T n g ms F" "gateErr g = None" "pending g = []"
  shows "\<exists>es g' left. receives (\<lambda>_ _. None) g ms es g' \<and> gateErr g' = None \<and>
    toCome n g ms F = mset (epochs F es) + left \<and> (\<forall>p \<in># left. F + barrierCount es \<le> fst p) \<and>
    (T \<longrightarrow> nonlate (outWm g) es) \<and> numbered F es \<and>
    (E \<longrightarrow> left = {#} \<and> (if closed g then es = [] else wellEnded es \<and> lastWatermark (outWm g) es = maxInt64))"
  using wf_gate_rel assms
proof (induction "(g, ms)" arbitrary: g ms F rule: wf_induct_rule)
  case less
  show ?case
  proof (cases "upcoming g ms")
    case None
    have "E \<longrightarrow> closed g \<and> toCome n g ms F = {#}"
      using stuck_means_closed [OF less.prems(1) _ None, of T F] closed_nothing_left(2) [OF less.prems(1,2)] less.prems(2) by auto
    with None less.prems toCome_ge [of _ n g ms F] show ?thesis
      by (intro exI [of _ "[]"] exI [of _ g] exI [of _ "toCome n g ms F"]) (simp add: receives_done)
  next
    case (Some u)
    then obtain t g1 ms1 where up: "upcoming g ms = Some (t, g1, ms1)" by (cases u) auto
    then have open_g: "\<not> closed g" using closed_nothing_left(1) less.prems by fastforce
    let ?h = "handle (\<lambda>_ _. None) t g1"
    obtain q where q: "pending ?h = q" "step_ok E T n g ms F ?h ms1 q"
      using step_handle [OF less.prems(1,2) up] less.prems(4) by auto
    let ?g = "?h\<lparr>pending := []\<rparr>"
    have err: "gateErr ?h = None" using q(2) less.prems(3) by (simp add: step_ok_def)
    obtain es g' left where es: "receives (\<lambda>_ _. None) ?g ms1 es g'" "gateErr g' = None"
      "toCome n ?h ms1 (F + barrierCount q) = mset (epochs (F + barrierCount q) es) + left"
      "\<forall>p \<in># left. F + barrierCount q + barrierCount es \<le> fst p"
      "T \<longrightarrow> nonlate (outWm ?h) es" "numbered (F + barrierCount q) es"
      "E \<longrightarrow> left = {#} \<and> (if closed ?h then es = [] else wellEnded es \<and> lastWatermark (outWm ?h) es = maxInt64)"
      using less.hyps [OF handle_decreases [OF up, where fault = "\<lambda>_ _. None" and p = "[]"], of "F + barrierCount q"] q err
      by (auto simp: step_ok_def)
    have "receives (\<lambda>_ _. None) g ms (q @ es) g'"
      using receives_upcoming [OF less.prems(3,4) up] receives_pending [OF err es(1)] q(1) by simp
    then show ?thesis
      using es q(2) open_g
      by (intro exI [of _ "q @ es"] exI [of _ g'] exI [of _ left])
        (auto simp: step_ok_def epochs_append nonlate_append numbered_append wellEnded_append ac_simps)
  qed
qed

section \<open>Properties\<close>

text \<open>The elements \<open>ms\<close> the inputs get onto the merged channel of a job that resumed from checkpoint
  \<open>k\<close>, or of a fresh one, with \<open>k = 0\<close>: each input ends its stream at most once, and its barriers
  are numbered from \<open>k + 1\<close> in sequence.\<close>

definition inputs_ok :: "nat \<Rightarrow> nat \<Rightarrow> tagged list \<Rightarrow> bool" where
  "inputs_ok k n ms \<longleftrightarrow> 0 < n \<and> list_all (\<lambda>t. fst t < n) ms \<and>
     list_all (\<lambda>i. endsOnce (fromInput i ms) \<and> numbered k (fromInput i ms)) [0..<n]"

text \<open>Every input ends its stream; none sends a record at or below its own watermark.\<close>

definition inputs_end :: "nat \<Rightarrow> tagged list \<Rightarrow> bool" where
  "inputs_end n ms \<longleftrightarrow> list_all (\<lambda>i. wellEnded (fromInput i ms)) [0..<n]"

definition inputs_timely :: "nat \<Rightarrow> tagged list \<Rightarrow> bool" where
  "inputs_timely n ms \<longleftrightarrow> list_all (\<lambda>i. nonlate minInt64 (fromInput i ms)) [0..<n]"

text \<open>The records the inputs sent, each with the number of the last barrier before it on its input.\<close>

definition sentRecords :: "nat \<Rightarrow> nat \<Rightarrow> tagged list \<Rightarrow> (nat \<times> Record) multiset" where
  "sentRecords k n ms = (\<Sum>i<n. mset (epochs k (fromInput i ms)))"

lemma NewGate_ok:
  assumes "inputs_ok k n ms"
  shows "gate_inv n (NewGate n)" "streams_ok (inputs_end n ms) (inputs_timely n ms) n (NewGate n) ms k"
    "toCome n (NewGate n) ms k = sentRecords k n ms"
proof -
  have lv: "live (NewGate n) i" if "i < n" for i using that by (simp add: live_def NewGate_def)
  then have "{i. i < n \<and> live (NewGate n) i} = {..<n}" by auto
  then show "gate_inv n (NewGate n)"
    using assms by (auto simp: gate_inv_def gate_pre_def NewGate_def inputs_ok_def)
  have r: "rest (NewGate n) ms i = fromInput i ms" "ahead (NewGate n) i = 0" if "i < n" for i
    using that by (simp_all add: rest_def NewGate_def ahead_def)
  show "streams_ok (inputs_end n ms) (inputs_timely n ms) n (NewGate n) ms k"
    by (rule streams_okI)
      (use assms lv r in \<open>auto simp: inputs_ok_def inputs_end_def inputs_timely_def inputOk_def list_all_iff NewGate_def\<close>)
  show "toCome n (NewGate n) ms k = sentRecords k n ms"
    unfolding toCome_def sentRecords_def by (intro sum.cong) (simp_all add: r)
qed

lemma gate_run_new:
  assumes "inputs_ok k n ms"
  shows "\<exists>es g' left. receives (\<lambda>_ _. None) (NewGate n) ms es g' \<and> gateErr g' = None \<and>
    sentRecords k n ms = mset (epochs k es) + left \<and> (\<forall>p \<in># left. k + barrierCount es \<le> fst p) \<and>
    (inputs_timely n ms \<longrightarrow> nonlate minInt64 es) \<and> numbered k es \<and>
    (inputs_end n ms \<longrightarrow> left = {#} \<and> wellEnded es \<and> lastWatermark minInt64 es = maxInt64)"
proof -
  have "gateErr (NewGate n) = None" "pending (NewGate n) = []" "\<not> closed (NewGate n)" "outWm (NewGate n) = minInt64"
    by (simp_all add: NewGate_def)
  then show ?thesis using gate_runs [OF NewGate_ok(1,2) [OF assms]] unfolding NewGate_ok(3) [OF assms] by simp
qed

text \<open>The records before a barrier are those of the epochs it closes.\<close>

lemma epochs_below: "(e, r) \<in> set (epochs k es) \<Longrightarrow> e \<le> k + barrierCount es"
  by (induction k es rule: epochs.induct) auto

lemma cut_at_barrier:
  assumes "sent = mset (epochs k (xs @ BarrierElement b # ys)) + left" "numbered k (xs @ BarrierElement b # ys)"
    and "\<forall>p \<in># left. k + barrierCount (xs @ BarrierElement b # ys) \<le> fst p"
  shows "mset (epochs k xs) = filter_mset (\<lambda>p. int (fst p) < sint (CheckpointID b)) sent"
proof -
  have b: "sint (CheckpointID b) = int (Suc (k + barrierCount xs))" using assms(2) by (simp add: numbered_append)
  have "filter_mset (\<lambda>p. int (fst p) < sint (CheckpointID b)) (mset (epochs k xs)) = mset (epochs k xs)"
    by (auto simp: filter_mset_eq_conv b dest!: epochs_below)
  moreover have "filter_mset (\<lambda>p. int (fst p) < sint (CheckpointID b)) (mset (epochs (Suc (k + barrierCount xs)) ys)) = {#}"
    by (auto simp: b dest!: epochs_ge)
  moreover have "filter_mset (\<lambda>p. int (fst p) < sint (CheckpointID b)) left = {#}"
    using assms(3) by (fastforce simp: b)
  ultimately show ?thesis unfolding assms(1) by (simp add: epochs_append)
qed

text \<open>C12. Alignment gives a consistent cut. Let the inputs of a gate, of a fresh job or of one that
  resumed from checkpoint \<open>k\<close>, number their barriers in sequence from \<open>k + 1\<close>, end their streams at
  most once and send nothing after that, and let no fault be injected; records may be late, and
  inputs may break off. Whatever the interleaving, barriers come out numbered in sequence from
  \<open>k + 1\<close>, and at each barrier that comes out the owner has received exactly the records that
  every input sent before that barrier of its own, or all of them when it has fewer barriers:
  each once, after as many barriers as preceded it on its input. So a snapshot taken at a
  barrier reflects exactly the records before it, on all inputs. No record is ever received
  twice or in another epoch, and when the inputs all end all records are received.\<close>

theorem gate_consistent_cut:
  assumes "inputs_ok k n ms"
  shows "\<exists>es g'. receives (\<lambda>_ _. None) (NewGate n) ms es g' \<and> numbered k es \<and>
    (\<forall>xs b ys. es = xs @ BarrierElement b # ys \<longrightarrow>
      mset (epochs k xs) = filter_mset (\<lambda>p. int (fst p) < sint (CheckpointID b)) (sentRecords k n ms)) \<and>
    mset (epochs k es) \<subseteq># sentRecords k n ms \<and> (inputs_end n ms \<longrightarrow> mset (epochs k es) = sentRecords k n ms)"
proof -
  obtain es g' left where es: "receives (\<lambda>_ _. None) (NewGate n) ms es g'" "numbered k es"
    "sentRecords k n ms = mset (epochs k es) + left" "\<forall>p \<in># left. k + barrierCount es \<le> fst p" "inputs_end n ms \<longrightarrow> left = {#}"
    using gate_run_new [OF assms] by blast
  have "mset (epochs k xs) = filter_mset (\<lambda>p. int (fst p) < sint (CheckpointID b)) (sentRecords k n ms)"
    if "es = xs @ BarrierElement b # ys" for xs b ys
    using cut_at_barrier [of _ k xs b ys left] es(2-4) unfolding that by blast
  then show ?thesis using es by (intro exI [of _ es] exI [of _ g']) auto
qed

text \<open>Two inputs of a job that resumed from checkpoint 4. The first reaches its barrier early and its
  next record is held back until the second has reached its own; the second breaks off.\<close>

definition example_merged :: "tagged list" where
  "example_merged =
     [(0, RecordElement \<lparr>Key = [1], Value = [], EventTime = 10\<rparr>),
      (0, BarrierElement \<lparr>CheckpointID = 5, Timestamp = 0\<rparr>),
      (0, RecordElement \<lparr>Key = [2], Value = [], EventTime = 20\<rparr>),
      (1, RecordElement \<lparr>Key = [3], Value = [], EventTime = 30\<rparr>),
      (1, WatermarkElement 25),
      (1, BarrierElement \<lparr>CheckpointID = 5, Timestamp = 0\<rparr>),
      (0, WatermarkElement 15)]"

definition example_ended :: "tagged list" where
  "example_ended = example_merged @ [(1, EndOfStreamElement), (0, EndOfStreamElement)]"

lemma example_inputs_ok:
  "inputs_ok 4 2 example_merged" "\<not> inputs_end 2 example_merged"
  "inputs_ok 4 2 example_ended" "inputs_end 2 example_ended" "inputs_timely 2 example_ended"
  by code_simp+

definition example_received :: "StreamElement list" where
  "example_received =
     [RecordElement \<lparr>Key = [1], Value = [], EventTime = 10\<rparr>, RecordElement \<lparr>Key = [3], Value = [], EventTime = 30\<rparr>,
      BarrierElement \<lparr>CheckpointID = 5, Timestamp = 0\<rparr>, RecordElement \<lparr>Key = [2], Value = [], EventTime = 20\<rparr>,
      WatermarkElement 15]"

lemma example_receives: "\<exists>g'. receives (\<lambda>_ _. None) (NewGate 2) example_merged example_received g'"
  unfolding example_received_def
  by (rule exI) (rule receives.intros, code_simp)+

theorem gate_consistent_cut_witness:
  "\<exists>g'. receives (\<lambda>_ _. None) (NewGate 2) example_merged example_received g' \<and> numbered 4 example_received \<and>
    example_received = take 2 example_received @ BarrierElement \<lparr>CheckpointID = 5, Timestamp = 0\<rparr> # drop 3 example_received \<and>
    mset (epochs 4 (take 2 example_received)) = filter_mset (\<lambda>p. int (fst p) < 5) (sentRecords 4 2 example_merged) \<and>
    mset (epochs 4 example_received) \<subseteq># sentRecords 4 2 example_merged"
proof -
  obtain es g' where es: "receives (\<lambda>_ _. None) (NewGate 2) example_merged es g'" "numbered 4 es"
    "\<forall>xs b ys. es = xs @ BarrierElement b # ys \<longrightarrow>
      mset (epochs 4 xs) = filter_mset (\<lambda>p. int (fst p) < sint (CheckpointID b)) (sentRecords 4 2 example_merged)"
    "mset (epochs 4 es) \<subseteq># sentRecords 4 2 example_merged"
    using gate_consistent_cut [OF example_inputs_ok(1)] by blast
  have e: "es = example_received" using example_receives receives_deterministic [OF es(1)] by blast
  have s: "example_received = take 2 example_received @ BarrierElement \<lparr>CheckpointID = 5, Timestamp = 0\<rparr> # drop 3 example_received"
    by (simp add: example_received_def)
  show ?thesis using es s unfolding e by fastforce
qed

text \<open>C13. The combined watermark is safe: if no input sends a record at or below its own watermark, the
  gate's owner never receives one at or below the watermark it has received, whatever the
  interleaving and however long records are held back; and when the inputs all end, the last
  watermark received is the greatest \<open>int64\<close>, so every window is flushed. The inputs number
  their barriers from \<open>k + 1\<close> in sequence and end at most once; no fault is injected.\<close>

theorem gate_watermark_safe:
  assumes "inputs_ok k n ms" "inputs_timely n ms"
  shows "\<exists>es g'. receives (\<lambda>_ _. None) (NewGate n) ms es g' \<and> nonlate minInt64 es \<and>
    (inputs_end n ms \<longrightarrow> lastWatermark minInt64 es = maxInt64)"
  using gate_run_new [OF assms(1)] assms(2) by blast

theorem gate_watermark_safe_witness:
  "\<exists>es g'. receives (\<lambda>_ _. None) (NewGate 2) example_ended es g' \<and> nonlate minInt64 es \<and>
    lastWatermark minInt64 es = maxInt64"
  using gate_watermark_safe [OF example_inputs_ok(3,5)] example_inputs_ok(4) by blast

text \<open>C14. The gate never hangs and ends once: when every input ends, and numbers its barriers in
  sequence from the same number as the others, an owner that keeps calling \<open>Recv\<close> gets
  \<open>ok = false\<close> after finitely many elements, of which the last, and only the last, is the end of
  stream; no alignment is left waiting and no error is set. No fault is injected.\<close>

theorem gate_terminates:
  assumes "inputs_ok k n ms" "inputs_end n ms"
  shows "\<exists>!es. \<exists>g'. receives (\<lambda>_ _. None) (NewGate n) ms es g' \<and> wellEnded es \<and> Gate_Err g' = None"
proof -
  obtain es g' where es: "receives (\<lambda>_ _. None) (NewGate n) ms es g'" "wellEnded es" "Gate_Err g' = None"
    using gate_run_new [OF assms(1)] assms(2) by (auto simp: Gate_Err_def)
  moreover have "fs = es" if "receives (\<lambda>_ _. None) (NewGate n) ms fs g''" for fs g''
    using receives_deterministic [OF that es(1)] by blast
  ultimately show ?thesis by blast
qed

theorem gate_terminates_witness:
  "\<exists>!es. \<exists>g'. receives (\<lambda>_ _. None) (NewGate 2) example_ended es g' \<and> wellEnded es \<and> Gate_Err g' = None"
  by (rule gate_terminates [OF example_inputs_ok(3,4)])

end
