(* ===== verification/Keyed_State.thy ===== *)
theory Keyed_State
  imports Core_Types
begin

text \<open>
  \<open>pkg/state\<close>: the keyed state of one subtask (\<open>state.go\<close>), the order-preserving encoding of
  an \<open>int64\<close> (\<open>encoding.go\<close>) and the snapshot format (\<open>serialize.go\<close>).

  A Go map has no order, so the map inside \<open>Memory\<close> is an association list with distinct
  keys whose order stands for whatever order the Go runtime would range over it in; every
  theorem is about all of them. \<open>Iterate\<close> sorts the keys, takes that list once and looks each
  key up again when it reaches it, as the code does.
\<close>

section \<open>Ordered encoding of an int64\<close>

definition signBit :: uint64 where
  "signBit = push_bit 63 1"

definition EncodeOrderedInt64 :: "int64 \<Rightarrow> bytes" where
  "EncodeOrderedInt64 v = be_put 8 (v XOR signBit)"

definition DecodeOrderedInt64 :: "bytes \<Rightarrow> int64" where
  "DecodeOrderedInt64 b = be_get 8 b XOR signBit"

lemma length_EncodeOrderedInt64 [simp, codec_simps]: "length (EncodeOrderedInt64 v) = 8"
  by (simp add: EncodeOrderedInt64_def)

lemma xor_signBit: "v XOR signBit = v + 2 ^ 63"
proof -
  have two: "(2 ^ 63 + 2 ^ 63 :: uint64) = 0" by simp
  have "v XOR signBit = flip_bit 63 v" by (simp add: signBit_def flip_bit_eq_xor)
  also have "\<dots> = (if bit v 63 then v - 2 ^ 63 else v + 2 ^ 63)"
    by (simp add: flip_bit_eq_if set_bit_eq [of 63 v] unset_bit_eq [of 63 v])
  also have "\<dots> = v + 2 ^ 63" using two by (simp add: algebra_simps)
  finally show ?thesis .
qed

lemma uint_xor_signBit: "uint (v XOR signBit) = sint v + 2 ^ 63"
proof -
  have "v XOR signBit = word_of_int (sint v + 2 ^ 63)"
    unfolding xor_signBit by (simp flip: wi_hom_syms)
  then show ?thesis
    unfolding \<open>v XOR signBit = _\<close> using sint64_bounds [of v] by (intro uint64_of_int) auto
qed

lemma DecodeOrdered_Encode [simp, codec_simps]:
  "DecodeOrderedInt64 (EncodeOrderedInt64 v @ bs) = v"
  "DecodeOrderedInt64 (EncodeOrderedInt64 v) = v"
  by (simp_all add: EncodeOrderedInt64_def DecodeOrderedInt64_def xor.assoc)

lemma EncodeOrdered_Decode:
  "length bs = 8 \<Longrightarrow> EncodeOrderedInt64 (DecodeOrderedInt64 bs) = bs"
  by (simp add: EncodeOrderedInt64_def DecodeOrderedInt64_def xor.assoc be64_put_get)

lemma EncodeOrderedInt64_inj [simp]: "EncodeOrderedInt64 v = EncodeOrderedInt64 w \<longleftrightarrow> v = w"
  by (metis DecodeOrdered_Encode(2))

lemma EncodeOrderedInt64_less: "EncodeOrderedInt64 v < EncodeOrderedInt64 w \<longleftrightarrow> v <s w"
proof -
  have "EncodeOrderedInt64 v < EncodeOrderedInt64 w \<longleftrightarrow> v XOR signBit < w XOR signBit"
    unfolding EncodeOrderedInt64_def by (rule be_put_less) simp
  also have "\<dots> \<longleftrightarrow> v <s w"
    by (simp add: word_less_alt uint_xor_signBit word_sless_alt)
  finally show ?thesis .
qed

section \<open>The in-memory backend\<close>

record Memory =
  entries :: "(bytes \<times> bytes) list"

definition Memory_inv :: "Memory \<Rightarrow> bool" where
  "Memory_inv m \<longleftrightarrow> distinct (map fst (entries m))"

definition NewMemory :: Memory where
  "NewMemory = \<lparr>entries = []\<rparr>"

definition Memory_Get :: "Memory \<Rightarrow> bytes \<Rightarrow> bytes option" where
  "Memory_Get m key = map_of (entries m) key"

definition Memory_Put :: "bytes \<Rightarrow> bytes \<Rightarrow> Memory \<Rightarrow> Memory" where
  "Memory_Put key v m = m\<lparr>entries := AList.update key v (entries m)\<rparr>"

definition Memory_Delete :: "bytes \<Rightarrow> Memory \<Rightarrow> Memory" where
  "Memory_Delete key m = m\<lparr>entries := AList.delete key (entries m)\<rparr>"

text \<open>A callback of \<open>Iterate\<close> closes over local variables, the \<open>'s\<close> below, and may delete
  from the state it is called on; it answers whether the scan goes on.\<close>

type_synonym 's callback = "bytes \<Rightarrow> bytes \<Rightarrow> Memory \<times> 's \<Rightarrow> bool \<times> Memory \<times> 's"

fun Memory_visit :: "'s callback \<Rightarrow> bytes list \<Rightarrow> Memory \<times> 's \<Rightarrow> Memory \<times> 's" where
  "Memory_visit fn [] ms = ms"
| "Memory_visit fn (k # ks) ms =
     (case Memory_Get (fst ms) k of
        None \<Rightarrow> Memory_visit fn ks ms
      | Some v \<Rightarrow>
          (case fn k v ms of
             (True, ms') \<Rightarrow> Memory_visit fn ks ms'
           | (False, ms') \<Rightarrow> ms'))"

definition Memory_Iterate :: "'s callback \<Rightarrow> Memory \<times> 's \<Rightarrow> Memory \<times> 's" where
  "Memory_Iterate fn ms = Memory_visit fn (sort (map fst (entries (fst ms)))) ms"

definition Memory_Err :: "Memory \<Rightarrow> go_error option" where
  "Memory_Err m = None"

definition Memory_Len :: "Memory \<Rightarrow> nat" where
  "Memory_Len m = length (entries m)"

definition PrefixUserState :: byte where "PrefixUserState = 0x00"
definition PrefixTimer :: byte where "PrefixTimer = 0x01"
definition PrefixOperatorState :: byte where "PrefixOperatorState = 0x02"

subsection \<open>The contract of a backend\<close>

text \<open>What \<open>KeyedState\<close> promises the operators and the serialiser: map laws for the three
  point operations, and a scan that lists exactly the entries, in strictly ascending byte
  order of key.\<close>

locale keyed_state =
  fixes new :: "'m"
    and get :: "'m \<Rightarrow> bytes \<Rightarrow> bytes option"
    and put :: "bytes \<Rightarrow> bytes \<Rightarrow> 'm \<Rightarrow> 'm"
    and del :: "bytes \<Rightarrow> 'm \<Rightarrow> 'm"
    and scan :: "'m \<Rightarrow> (bytes \<times> bytes) list"
    and invar :: "'m \<Rightarrow> bool"
  assumes get_new: "get new = Map.empty"
    and get_put: "invar m \<Longrightarrow> get (put k v m) = (get m)(k \<mapsto> v)"
    and get_del: "invar m \<Longrightarrow> get (del k m) = (get m)(k := None)"
    and scan_sorted: "invar m \<Longrightarrow> sorted_wrt (<) (map fst (scan m))"
    and map_of_scan: "invar m \<Longrightarrow> map_of (scan m) = get m"
    and invar_new: "invar new"
    and invar_put: "invar m \<Longrightarrow> invar (put k v m)"
    and invar_del: "invar m \<Longrightarrow> invar (del k m)"
begin

lemma distinct_scan: "invar m \<Longrightarrow> distinct (map fst (scan m))"
  using scan_sorted strict_sorted_iff by blast

lemma in_scan: "invar m \<Longrightarrow> (k, v) \<in> set (scan m) \<longleftrightarrow> get m k = Some v"
  using map_of_scan [of m] distinct_scan [of m] by (metis map_of_eq_Some_iff)

lemma scan_determined:
  assumes "invar m" "invar m'" "get m = get m'"
  shows "scan m = scan m'"
proof (rule map_sorted_distinct_set_unique [where f = fst])
  show "set (scan m) = set (scan m')"
    using assms in_scan by auto
  show "inj_on fst (set (scan m) \<union> set (scan m'))"
    using assms by (auto simp: inj_on_def in_scan)
qed (use assms distinct_scan scan_sorted strict_sorted_iff in \<open>blast+\<close>)

lemma scan_empty_iff: "invar m \<Longrightarrow> scan m = [] \<longleftrightarrow> get m = Map.empty"
  using map_of_scan [of m] by (metis map_of.simps(1) map_of_eq_empty_iff)

lemma get_fold_put:
  "invar m \<Longrightarrow> distinct (map fst kvs) \<Longrightarrow>
    invar (fold (\<lambda>(k, v). put k v) kvs m) \<and>
    get (fold (\<lambda>(k, v). put k v) kvs m) = get m ++ map_of kvs"
proof (induction kvs arbitrary: m)
  case (Cons kv kvs)
  obtain k v where kv: "kv = (k, v)" by (cases kv)
  have "k \<notin> dom (map_of kvs)" using Cons.prems kv by (simp add: dom_map_of_conv_image_fst)
  then show ?case
    using Cons.IH [of "put k v m"] Cons.prems
    by (auto simp: kv invar_put get_put map_add_def dom_def fun_eq_iff split: option.splits)
qed simp

end

section \<open>Memory meets the contract\<close>

text \<open>The entries of a memory in the order \<open>Iterate\<close> visits them.\<close>

definition Memory_scan :: "Memory \<Rightarrow> (bytes \<times> bytes) list" where
  "Memory_scan m = map (\<lambda>k. (k, the (Memory_Get m k))) (sort (map fst (entries m)))"

lemma Memory_scan_keys: "map fst (Memory_scan m) = sort (map fst (entries m))"
  by (simp add: Memory_scan_def comp_def)

lemma map_of_map_the: "map_of (map (\<lambda>k. (k, the (f k))) ks) k = (if k \<in> set ks then Some (the (f k)) else None)"
  by (induction ks) auto

interpretation mem: keyed_state NewMemory Memory_Get Memory_Put Memory_Delete Memory_scan Memory_inv
proof
  fix m :: Memory and k v :: bytes
  show "Memory_Get NewMemory = Map.empty"
    by (simp add: Memory_Get_def NewMemory_def fun_eq_iff)
  show "Memory_Get (Memory_Put k v m) = (Memory_Get m)(k \<mapsto> v)"
    by (simp add: Memory_Get_def Memory_Put_def fun_eq_iff update_conv')
  show "Memory_Get (Memory_Delete k m) = (Memory_Get m)(k := None)"
    by (simp add: Memory_Get_def Memory_Delete_def fun_eq_iff delete_conv')
  show "Memory_inv NewMemory"
    by (simp add: Memory_inv_def NewMemory_def)
  assume inv: "Memory_inv m"
  then show "Memory_inv (Memory_Put k v m)" "Memory_inv (Memory_Delete k m)"
    by (simp_all add: Memory_inv_def Memory_Put_def Memory_Delete_def distinct_update distinct_delete)
  show "sorted_wrt (<) (map fst (Memory_scan m))"
    using inv unfolding Memory_scan_keys Memory_inv_def by (simp add: strict_sorted_iff)
  show "map_of (Memory_scan m) = Memory_Get m"
    by (auto simp: Memory_scan_def map_of_map_the Memory_Get_def fun_eq_iff
        dest: weak_map_of_SomeI) (metis map_of_eq_None_iff)
qed

lemmas mem_laws [simp] =
  mem.get_new mem.get_put mem.get_del mem.invar_new mem.invar_put mem.invar_del

subsection \<open>Callbacks\<close>

text \<open>The callbacks of this code base come in two shapes: one that reads the entry it is
  given and updates captured variables, and one that may also delete that entry.\<close>

definition readonly :: "(bytes \<times> bytes \<Rightarrow> 's \<Rightarrow> bool \<times> 's) \<Rightarrow> 's callback" where
  "readonly f k v ms = (case f (k, v) (snd ms) of (c, s') \<Rightarrow> (c, fst ms, s'))"

definition deleting :: "(bytes \<times> bytes \<Rightarrow> 's \<Rightarrow> bool \<times> bool \<times> 's) \<Rightarrow> 's callback" where
  "deleting f k v ms =
     (case f (k, v) (snd ms) of
        (c, dropped, s') \<Rightarrow> (c, if dropped then Memory_Delete k (fst ms) else fst ms, s'))"

fun fold_while :: "('a \<Rightarrow> 's \<Rightarrow> bool \<times> 's) \<Rightarrow> 'a list \<Rightarrow> 's \<Rightarrow> 's" where
  "fold_while f [] s = s"
| "fold_while f (x # xs) s = (case f x s of (c, s') \<Rightarrow> if c then fold_while f xs s' else s')"

text \<open>A callback that only reads sees \<open>Memory_scan\<close>, entry by entry, until it answers
  \<open>false\<close>.\<close>

lemma Memory_visit_readonly:
  "set ks \<subseteq> dom (Memory_Get m) \<Longrightarrow> Memory_visit (readonly f) ks (m, s) =
    (m, fold_while f (map (\<lambda>k. (k, the (Memory_Get m k))) ks) s)"
proof (induction ks arbitrary: s)
  case (Cons k ks)
  then obtain v where "Memory_Get m k = Some v" by auto
  then show ?case
    using Cons by (auto simp: readonly_def split: prod.splits bool.splits)
qed simp

lemma set_keys_subset: "set (map fst (entries m)) \<subseteq> dom (Memory_Get m)"
  unfolding Memory_Get_def dom_map_of_conv_image_fst by simp

lemma Memory_Iterate_readonly [simp]:
  "Memory_Iterate (readonly f) (m, s) = (m, fold_while f (Memory_scan m) s)"
  unfolding Memory_Iterate_def Memory_scan_def fst_conv
  by (rule Memory_visit_readonly) (use set_keys_subset in simp)

text \<open>A callback that deletes the entry it is given sees the same entries: the lookup
  \<open>Iterate\<close> makes on reaching a key never finds one deleted under it.\<close>

fun fold_deleting ::
  "(bytes \<times> bytes \<Rightarrow> 's \<Rightarrow> bool \<times> bool \<times> 's) \<Rightarrow> (bytes \<times> bytes) list \<Rightarrow> Memory \<Rightarrow> 's \<Rightarrow> Memory \<times> 's"
where
  "fold_deleting f [] m s = (m, s)"
| "fold_deleting f (kv # kvs) m s =
     (case f kv s of (c, dropped, s') \<Rightarrow>
        let m' = (if dropped then Memory_Delete (fst kv) m else m)
        in if c then fold_deleting f kvs m' s' else (m', s'))"

lemma Memory_visit_deleting:
  "distinct ks \<Longrightarrow> \<forall>k\<in>set ks. Memory_Get m k = Memory_Get m0 k \<and> k \<in> dom (Memory_Get m0) \<Longrightarrow>
    Memory_inv m \<Longrightarrow> Memory_visit (deleting f) ks (m, s) =
    fold_deleting f (map (\<lambda>k. (k, the (Memory_Get m0 k))) ks) m s"
proof (induction ks arbitrary: m s)
  case (Cons k ks)
  then obtain v where "Memory_Get m0 k = Some v" "Memory_Get m k = Some v" by auto
  moreover have "\<forall>k'\<in>set ks. Memory_Get (Memory_Delete k m) k' = Memory_Get m0 k'"
    using Cons.prems by auto
  ultimately show ?case
    using Cons by (auto simp: deleting_def Let_def split: prod.splits bool.splits)
qed simp

lemma Memory_Iterate_deleting [simp]:
  "Memory_inv m \<Longrightarrow> Memory_Iterate (deleting f) (m, s) = fold_deleting f (Memory_scan m) m s"
  unfolding Memory_Iterate_def Memory_scan_def fst_conv
  by (rule Memory_visit_deleting) (use set_keys_subset in \<open>auto simp: Memory_inv_def\<close>)

end
