(* ===== verification/Pebble.thy ===== *)
theory Pebble
  imports Keyed_State
begin

text \<open>
  \<open>pkg/state/pebble.go\<close>: the keyed state on disk. The database is a third-party library, so it is
  a table of the methods the file calls, with what its documentation promises as a predicate on
  the table; any call may fail. The operating system's temporary directories are another table.
  The theorem compares the backend, under any sequence of calls, with the one in memory.
\<close>

section \<open>The library\<close>

text \<open>\<open>'d\<close> is an open database and \<open>'i\<close> an iterator, which reads the view it was made on.
  \<open>pd_isNotFound\<close> is \<open>errors.Is(err, pebble.ErrNotFound)\<close>, and \<open>pd_Release\<close> the \<open>Close\<close> of the
  handle that \<open>Get\<close> returns.\<close>

record ('d, 'i) pebbleDB =
  pd_Get :: "bytes \<Rightarrow> 'd \<Rightarrow> 'd \<times> bytes result"
  pd_Release :: "'d \<Rightarrow> 'd \<times> go_error option"
  pd_isNotFound :: "go_error \<Rightarrow> bool"
  pd_Set :: "bytes \<Rightarrow> bytes \<Rightarrow> 'd \<Rightarrow> 'd \<times> go_error option"
  pd_Delete :: "bytes \<Rightarrow> 'd \<Rightarrow> 'd \<times> go_error option"
  pd_NewIter :: "'d \<Rightarrow> 'd \<times> 'i result"
  pd_First :: "'i \<Rightarrow> 'i \<times> bool"
  pd_Next :: "'i \<Rightarrow> 'i \<times> bool"
  pd_Key :: "'i \<Rightarrow> bytes"
  pd_Value :: "'i \<Rightarrow> bytes"
  pd_Error :: "'i \<Rightarrow> go_error option"
  pd_IterClose :: "'i \<Rightarrow> go_error option"
  pd_Close :: "'d \<Rightarrow> go_error option"

record ('w, 'd) pebbleEnv =
  pe_MkdirTemp :: "'w \<Rightarrow> 'w \<times> bytes result"
  pe_Open :: "bytes \<Rightarrow> 'w \<Rightarrow> 'w \<times> 'd result"
  pe_RemoveAll :: "bytes \<Rightarrow> 'w \<Rightarrow> 'w \<times> go_error option"

section \<open>The backend\<close>

record 'd Pebble =
  pb_db :: "'d option"
  pb_dir :: bytes
  pb_ownsDir :: bool
  pb_err :: "go_error option"

definition OpenPebble :: "('w, 'd) pebbleEnv \<Rightarrow> bytes \<Rightarrow> 'w \<Rightarrow> 'w \<times> 'd Pebble result" where
  "OpenPebble PE dir w =
     (case pe_Open PE dir w of
        (w1, Inl e) \<Rightarrow> (w1, Inl e)
      | (w1, Inr d) \<Rightarrow> (w1, Inr \<lparr>pb_db = Some d, pb_dir = dir, pb_ownsDir = False, pb_err = None\<rparr>))"

definition NewTempPebble :: "('w, 'd) pebbleEnv \<Rightarrow> 'w \<Rightarrow> 'w \<times> 'd Pebble result" where
  "NewTempPebble PE w =
     (case pe_MkdirTemp PE w of
        (w1, Inl e) \<Rightarrow> (w1, Inl e)
      | (w1, Inr dir) \<Rightarrow>
          (case OpenPebble PE dir w1 of
             (w2, Inl e) \<Rightarrow> (fst (pe_RemoveAll PE dir w2), Inl e)
           | (w2, Inr p) \<Rightarrow> (w2, Inr (p\<lparr>pb_ownsDir := True\<rparr>))))"

definition Pebble_Dir :: "'d Pebble \<Rightarrow> bytes" where
  "Pebble_Dir p = pb_dir p"

definition Pebble_fail :: "go_error \<Rightarrow> 'd Pebble \<Rightarrow> 'd Pebble" where
  "Pebble_fail e p = (if pb_err p = None then p\<lparr>pb_err := Some e\<rparr> else p)"

definition Pebble_closed :: "'d Pebble \<Rightarrow> 'd Pebble \<times> bool" where
  "Pebble_closed p =
     (if pb_err p \<noteq> None then (p, True)
      else if pb_db p = None then (Pebble_fail (StateErr errClosed) p, True)
      else (p, False))"

definition Pebble_Get :: "('d, 'i) pebbleDB \<Rightarrow> bytes \<Rightarrow> 'd Pebble \<Rightarrow> 'd Pebble \<times> bytes option" where
  "Pebble_Get PD key p =
     (case Pebble_closed p of
        (p, True) \<Rightarrow> (p, None)
      | (p, False) \<Rightarrow>
          (case pd_Get PD key (the (pb_db p)) of
             (d, Inl e) \<Rightarrow>
               if pd_isNotFound PD e then (p\<lparr>pb_db := Some d\<rparr>, None)
               else (Pebble_fail e (p\<lparr>pb_db := Some d\<rparr>), None)
           | (d, Inr v) \<Rightarrow>
               (case pd_Release PD d of
                  (d', Some e) \<Rightarrow> (Pebble_fail e (p\<lparr>pb_db := Some d'\<rparr>), None)
                | (d', None) \<Rightarrow> (p\<lparr>pb_db := Some d'\<rparr>, Some v))))"

definition Pebble_Put :: "('d, 'i) pebbleDB \<Rightarrow> bytes \<Rightarrow> bytes \<Rightarrow> 'd Pebble \<Rightarrow> 'd Pebble" where
  "Pebble_Put PD key v p =
     (case Pebble_closed p of
        (p, True) \<Rightarrow> p
      | (p, False) \<Rightarrow>
          (case pd_Set PD key v (the (pb_db p)) of
             (d, Some e) \<Rightarrow> Pebble_fail e (p\<lparr>pb_db := Some d\<rparr>)
           | (d, None) \<Rightarrow> p\<lparr>pb_db := Some d\<rparr>))"

definition Pebble_Delete :: "('d, 'i) pebbleDB \<Rightarrow> bytes \<Rightarrow> 'd Pebble \<Rightarrow> 'd Pebble" where
  "Pebble_Delete PD key p =
     (case Pebble_closed p of
        (p, True) \<Rightarrow> p
      | (p, False) \<Rightarrow>
          (case pd_Delete PD key (the (pb_db p)) of
             (d, Some e) \<Rightarrow> Pebble_fail e (p\<lparr>pb_db := Some d\<rparr>)
           | (d, None) \<Rightarrow> p\<lparr>pb_db := Some d\<rparr>))"

text \<open>The scan ends when the iterator does, so its loop has fuel; \<open>None\<close> is a loop that has not
  ended. A callback may change the backend it is called from.\<close>

type_synonym ('d, 's) pebble_callback = "bytes \<Rightarrow> bytes \<Rightarrow> 'd Pebble \<times> 's \<Rightarrow> bool \<times> 'd Pebble \<times> 's"

fun Pebble_visit ::
  "('d, 'i) pebbleDB \<Rightarrow> nat \<Rightarrow> ('d, 's) pebble_callback \<Rightarrow> 'i \<times> bool \<Rightarrow> 'd Pebble \<times> 's \<Rightarrow> ('i \<times> 'd Pebble \<times> 's) option"
where
  "Pebble_visit PD fuel fn (it, False) ps = Some (it, ps)"
| "Pebble_visit PD 0 fn (it, True) ps = None"
| "Pebble_visit PD (Suc fuel) fn (it, True) ps =
     (case fn (pd_Key PD it) (pd_Value PD it) ps of
        (False, ps') \<Rightarrow> Some (it, ps')
      | (True, ps') \<Rightarrow> Pebble_visit PD fuel fn (pd_Next PD it) ps')"

definition failIf :: "go_error option \<Rightarrow> 'd Pebble \<Rightarrow> 'd Pebble" where
  "failIf err p = (case err of None \<Rightarrow> p | Some e \<Rightarrow> Pebble_fail e p)"

definition Pebble_Iterate ::
  "('d, 'i) pebbleDB \<Rightarrow> nat \<Rightarrow> ('d, 's) pebble_callback \<Rightarrow> 'd Pebble \<times> 's \<Rightarrow> ('d Pebble \<times> 's) option" where
  "Pebble_Iterate PD fuel fn ps =
     (case Pebble_closed (fst ps) of
        (p, True) \<Rightarrow> Some (p, snd ps)
      | (p, False) \<Rightarrow>
          (case pd_NewIter PD (the (pb_db p)) of
             (d, Inl e) \<Rightarrow> Some (Pebble_fail e (p\<lparr>pb_db := Some d\<rparr>), snd ps)
           | (d, Inr it) \<Rightarrow>
               (case Pebble_visit PD fuel fn (pd_First PD it) (p\<lparr>pb_db := Some d\<rparr>, snd ps) of
                  None \<Rightarrow> None
                | Some (it', p', s') \<Rightarrow> Some (failIf (pd_IterClose PD it') (failIf (pd_Error PD it') p'), s'))))"

definition Pebble_Err :: "'d Pebble \<Rightarrow> go_error option" where
  "Pebble_Err p = pb_err p"

definition Pebble_Close ::
  "('d, 'i) pebbleDB \<Rightarrow> ('w, 'd) pebbleEnv \<Rightarrow> 'd Pebble \<Rightarrow> 'w \<Rightarrow> ('w \<times> 'd Pebble) \<times> go_error option" where
  "Pebble_Close PD PE p w =
     (let err = (case pb_db p of None \<Rightarrow> None | Some d \<Rightarrow> pd_Close PD d); p1 = p\<lparr>pb_db := None\<rparr>
      in if pb_ownsDir p \<and> pb_dir p \<noteq> []
         then case pe_RemoveAll PE (pb_dir p) w of
                (w1, rerr) \<Rightarrow> ((w1, p1\<lparr>pb_dir := []\<rparr>), if rerr \<noteq> None \<and> err = None then rerr else err)
         else ((w, p1), err))"

section \<open>What the library promises\<close>

text \<open>A database holds a map. A call that returns no error read or wrote that map; a read that fails
  leaves it alone, and \<open>ErrNotFound\<close> says that the key is not there. An iterator stands before
  entries in strictly ascending order of key, those of the map it was made on; when it stops
  without an error it has shown them all. A database opened in a new directory is empty.\<close>

definition keepsEntries :: "('d \<Rightarrow> bytes \<Rightarrow> bytes option) \<Rightarrow> ('d, 'i) pebbleDB \<Rightarrow> bool" where
  "keepsEntries content PD \<longleftrightarrow>
     (\<forall>k d d' v. pd_Get PD k d = (d', Inr v) \<longrightarrow> content d k = Some v \<and> content d' = content d) \<and>
     (\<forall>k d d' e. pd_Get PD k d = (d', Inl e) \<longrightarrow> pd_isNotFound PD e \<longrightarrow> content d k = None \<and> content d' = content d) \<and>
     (\<forall>d d'. pd_Release PD d = (d', None) \<longrightarrow> content d' = content d) \<and>
     (\<forall>k v d d'. pd_Set PD k v d = (d', None) \<longrightarrow> content d' = (content d)(k \<mapsto> v)) \<and>
     (\<forall>k d d'. pd_Delete PD k d = (d', None) \<longrightarrow> content d' = (content d)(k := None))"

text \<open>\<open>ahead\<close> is the entries from the current one on, and all of them before the first.\<close>

definition stands :: "('i \<Rightarrow> (bytes \<times> bytes) list) \<Rightarrow> ('d, 'i) pebbleDB \<Rightarrow> (bytes \<times> bytes) list \<Rightarrow> 'i \<times> bool \<Rightarrow> bool" where
  "stands ahead PD kvs itb \<longleftrightarrow>
     (if snd itb then kvs \<noteq> [] \<and> ahead (fst itb) = kvs else kvs = [] \<or> pd_Error PD (fst itb) \<noteq> None)"

definition scansInOrder ::
  "('d \<Rightarrow> bytes \<Rightarrow> bytes option) \<Rightarrow> ('i \<Rightarrow> (bytes \<times> bytes) list) \<Rightarrow> ('d, 'i) pebbleDB \<Rightarrow> bool" where
  "scansInOrder content ahead PD \<longleftrightarrow>
     (\<forall>d d' it. pd_NewIter PD d = (d', Inr it) \<longrightarrow>
        content d' = content d \<and> sorted_wrt (<) (map fst (ahead it)) \<and> map_of (ahead it) = content d) \<and>
     (\<forall>it. stands ahead PD (ahead it) (pd_First PD it)) \<and>
     (\<forall>it kv kvs. ahead it = kv # kvs \<longrightarrow>
        pd_Key PD it = fst kv \<and> pd_Value PD it = snd kv \<and> stands ahead PD kvs (pd_Next PD it))"

definition opensEmpty :: "('d \<Rightarrow> bytes \<Rightarrow> bytes option) \<Rightarrow> ('w, 'd) pebbleEnv \<Rightarrow> bool" where
  "opensEmpty content PE \<longleftrightarrow>
     (\<forall>w w1 w2 dir d. pe_MkdirTemp PE w = (w1, Inr dir) \<longrightarrow> pe_Open PE dir w1 = (w2, Inr d) \<longrightarrow> content d = Map.empty)"

section \<open>The two backends side by side\<close>

text \<open>The calls an operator and the serialiser make. A callback sees an entry and what it has captured,
  and answers whether to go on and whether it deletes that entry.\<close>

datatype 's request =
    GetOf bytes
  | PutOf bytes bytes
  | DeleteOf bytes
  | IterateWith "bytes \<times> bytes \<Rightarrow> 's \<Rightarrow> bool \<times> bool \<times> 's"

definition pebbleDeleting ::
  "('d, 'i) pebbleDB \<Rightarrow> (bytes \<times> bytes \<Rightarrow> 's \<Rightarrow> bool \<times> bool \<times> 's) \<Rightarrow> ('d, 's) pebble_callback" where
  "pebbleDeleting PD f k v ps =
     (case f (k, v) (snd ps) of
        (c, dropped, s') \<Rightarrow> (c, if dropped then Pebble_Delete PD k (fst ps) else fst ps, s'))"

fun onPebble :: "('d, 'i) pebbleDB \<Rightarrow> nat \<Rightarrow> 's request \<Rightarrow> 'd Pebble \<times> 's \<Rightarrow> (('d Pebble \<times> 's) \<times> bytes option) option" where
  "onPebble PD fuel (GetOf k) (p, s) = (case Pebble_Get PD k p of (p', v) \<Rightarrow> Some ((p', s), v))"
| "onPebble PD fuel (PutOf k v) (p, s) = Some ((Pebble_Put PD k v p, s), None)"
| "onPebble PD fuel (DeleteOf k) (p, s) = Some ((Pebble_Delete PD k p, s), None)"
| "onPebble PD fuel (IterateWith f) (p, s) =
     map_option (\<lambda>ps. (ps, None)) (Pebble_Iterate PD fuel (pebbleDeleting PD f) (p, s))"

fun onMemory :: "'s request \<Rightarrow> Memory \<times> 's \<Rightarrow> (Memory \<times> 's) \<times> bytes option" where
  "onMemory (GetOf k) (m, s) = ((m, s), Memory_Get m k)"
| "onMemory (PutOf k v) (m, s) = ((Memory_Put k v m, s), None)"
| "onMemory (DeleteOf k) (m, s) = ((Memory_Delete k m, s), None)"
| "onMemory (IterateWith f) (m, s) = (Memory_Iterate (deleting f) (m, s), None)"

text \<open>The answers, each with the \<open>Err\<close> the runtime collects after the call.\<close>

fun pebbleRun ::
  "('d, 'i) pebbleDB \<Rightarrow> nat \<Rightarrow> 's request list \<Rightarrow> 'd Pebble \<times> 's \<Rightarrow> (('d Pebble \<times> 's) \<times> (bytes option \<times> go_error option) list) option"
where
  "pebbleRun PD fuel [] ps = Some (ps, [])"
| "pebbleRun PD fuel (r # rs) ps =
     (case onPebble PD fuel r ps of
        None \<Rightarrow> None
      | Some (ps1, a) \<Rightarrow>
          map_option (\<lambda>(ps2, as). (ps2, (a, Pebble_Err (fst ps1)) # as)) (pebbleRun PD fuel rs ps1))"

fun memoryRun :: "'s request list \<Rightarrow> Memory \<times> 's \<Rightarrow> (Memory \<times> 's) \<times> bytes option list" where
  "memoryRun [] ms = (ms, [])"
| "memoryRun (r # rs) ms =
     (case onMemory r ms of (ms1, a) \<Rightarrow> (case memoryRun rs ms1 of (ms2, as) \<Rightarrow> (ms2, a # as)))"

section \<open>A backend that has failed\<close>

lemma failed_closed: "pb_err p = Some e \<Longrightarrow> Pebble_closed p = (p, True)"
  by (simp add: Pebble_closed_def)

lemma failed_calls:
  assumes "pb_err p = Some e"
  shows "Pebble_Get PD k p = (p, None)" "Pebble_Put PD k v p = p" "Pebble_Delete PD k p = p"
    "Pebble_Iterate PD fuel fn (p, s) = Some (p, s)"
  using failed_closed [OF assms] by (simp_all add: Pebble_Get_def Pebble_Put_def Pebble_Delete_def Pebble_Iterate_def)

lemma failed_run:
  "pb_err p = Some e \<Longrightarrow> pebbleRun PD fuel rs (p, s) = Some ((p, s), replicate (length rs) (None, Some e))"
proof (induction rs)
  case (Cons r rs)
  then show ?case by (cases r) (simp_all add: failed_calls [OF Cons.prems] Pebble_Err_def)
qed simp

lemma pb_err_fail [simp]: "pb_err (Pebble_fail e p) = (case pb_err p of None \<Rightarrow> Some e | Some x \<Rightarrow> Some x)"
  by (simp add: Pebble_fail_def split: option.split)

lemma failIf_ok [simp]: "failIf None p = p" "failIf (Some e) p = Pebble_fail e p" by (simp_all add: failIf_def)

lemma pb_err_failIf: "pb_err (failIf err p) = None \<longleftrightarrow> err = None \<and> pb_err p = None"
  by (cases err) (auto simp: Pebble_fail_def)

lemma Delete_sticky: "pb_err p \<noteq> None \<Longrightarrow> Pebble_Delete PD k p = p"
  using failed_calls(3) by blast

section \<open>A backend that has not\<close>

definition holdsAs :: "('d \<Rightarrow> bytes \<Rightarrow> bytes option) \<Rightarrow> 'd Pebble \<Rightarrow> Memory \<Rightarrow> bool" where
  "holdsAs content p m \<longleftrightarrow>
     pb_err p = None \<and> Memory_inv m \<and> (\<exists>d. pb_db p = Some d \<and> content d = Memory_Get m)"

lemma holdsAs_open: "holdsAs content p m \<Longrightarrow> Pebble_closed p = (p, False)"
  by (auto simp: holdsAs_def Pebble_closed_def)

lemma get_holds:
  assumes "keepsEntries content PD" "holdsAs content p m" "Pebble_Get PD k p = (p', a)"
  shows "pb_err p' = None \<and> holdsAs content p' m \<and> a = Memory_Get m k \<or> pb_err p' \<noteq> None \<and> a = None"
proof -
  obtain d where d: "pb_db p = Some d" "content d = Memory_Get m" using assms(2) by (auto simp: holdsAs_def)
  show ?thesis
  proof (cases "pd_Get PD k d")
    case (Pair d1 r)
    then show ?thesis
    proof (cases r)
      case (Inl e)
      then show ?thesis
        using assms d Pair holdsAs_open [OF assms(2)]
        by (auto simp: Pebble_Get_def keepsEntries_def holdsAs_def split: if_splits) metis+
    next
      case (Inr v)
      have v: "content d k = Some v" "content d1 = content d" using assms(1) Pair Inr unfolding keepsEntries_def by blast+
      obtain d2 e where rel: "pd_Release PD d1 = (d2, e)" by fastforce
      have "e = None \<Longrightarrow> content d2 = content d1" using assms(1) rel unfolding keepsEntries_def by blast
      then show ?thesis
        using assms(2,3) d Pair Inr v rel holdsAs_open [OF assms(2)]
        by (cases e) (auto simp: Pebble_Get_def holdsAs_def)
    qed
  qed
qed

lemma put_holds:
  assumes "keepsEntries content PD" "holdsAs content p m" "pb_err (Pebble_Put PD k v p) = None"
  shows "holdsAs content (Pebble_Put PD k v p) (Memory_Put k v m)"
proof -
  obtain d where d: "pb_db p = Some d" "content d = Memory_Get m" using assms(2) by (auto simp: holdsAs_def)
  obtain d1 e where s: "pd_Set PD k v d = (d1, e)" by fastforce
  have "e = None \<Longrightarrow> content d1 = (content d)(k \<mapsto> v)" using assms(1) s unfolding keepsEntries_def by blast
  then show ?thesis
    using assms(2,3) d s holdsAs_open [OF assms(2)] by (cases e) (auto simp: Pebble_Put_def holdsAs_def)
qed

lemma delete_holds:
  assumes "keepsEntries content PD" "holdsAs content p m" "pb_err (Pebble_Delete PD k p) = None"
  shows "holdsAs content (Pebble_Delete PD k p) (Memory_Delete k m)"
proof -
  obtain d where d: "pb_db p = Some d" "content d = Memory_Get m" using assms(2) by (auto simp: holdsAs_def)
  obtain d1 e where s: "pd_Delete PD k d = (d1, e)" by fastforce
  have "e = None \<Longrightarrow> content d1 = (content d)(k := None)" using assms(1) s unfolding keepsEntries_def by blast
  then show ?thesis
    using assms(2,3) d s holdsAs_open [OF assms(2)] by (cases e) (auto simp: Pebble_Delete_def holdsAs_def)
qed

text \<open>The scan calls the callback as the memory's does, and an error of the iterator is not lost.\<close>

lemma visit_holds:
  assumes "keepsEntries content PD" "scansInOrder content ahead PD"
  shows "stands ahead PD kvs itb \<Longrightarrow> length kvs \<le> fuel \<Longrightarrow> (pb_err p = None \<Longrightarrow> holdsAs content p m) \<Longrightarrow>
    \<exists>it' p' s'. Pebble_visit PD fuel (pebbleDeleting PD f) itb (p, s) = Some (it', p', s') \<and>
      (pb_err p \<noteq> None \<longrightarrow> p' = p) \<and>
      (pb_err p' = None \<and> pd_Error PD it' = None \<longrightarrow>
        (case fold_deleting f kvs m s of (m', sm) \<Rightarrow> holdsAs content p' m' \<and> s' = sm))"
proof (induction kvs arbitrary: itb fuel p m s)
  case Nil
  obtain it b where "itb = (it, b)" by fastforce
  then show ?case using Nil by (cases b) (auto simp: stands_def)
next
  case (Cons kv kvs)
  obtain it b where itb: "itb = (it, b)" by fastforce
  show ?case
  proof (cases b)
    case False
    then show ?thesis using Cons.prems by (auto simp: stands_def itb)
  next
    case True
    obtain n where n: "fuel = Suc n" "length kvs \<le> n" using Cons.prems(2) by (cases fuel) auto
    have it: "pd_Key PD it = fst kv" "pd_Value PD it = snd kv" "stands ahead PD kvs (pd_Next PD it)"
    proof -
      have "ahead it = kv # kvs" using Cons.prems(1) True by (simp add: stands_def itb)
      then show "pd_Key PD it = fst kv" "pd_Value PD it = snd kv" "stands ahead PD kvs (pd_Next PD it)"
        using assms(2) unfolding scansInOrder_def by blast+
    qed
    obtain c dropped s1 where f: "f kv s = (c, dropped, s1)" by (cases "f kv s") auto
    define p1 where "p1 = (if dropped then Pebble_Delete PD (fst kv) p else p)"
    define m1 where "m1 = (if dropped then Memory_Delete (fst kv) m else m)"
    have stick: "pb_err p \<noteq> None \<Longrightarrow> p1 = p" by (simp add: p1_def Delete_sticky)
    have p1: "holdsAs content p1 m1" if "pb_err p1 = None"
      using that Cons.prems(3) delete_holds [OF assms(1), of p m "fst kv"] stick unfolding p1_def m1_def
      by (cases dropped; cases "pb_err p") auto
    have step: "Pebble_visit PD fuel (pebbleDeleting PD f) itb (p, s) =
        (if c then Pebble_visit PD n (pebbleDeleting PD f) (pd_Next PD it) (p1, s1) else Some (it, p1, s1))"
      by (simp add: itb True n(1) pebbleDeleting_def it(1,2) f p1_def)
    have mem: "fold_deleting f (kv # kvs) m s = (if c then fold_deleting f kvs m1 s1 else (m1, s1))"
      by (simp add: f m1_def)
    show ?thesis
    proof (cases c)
      case True
      from Cons.IH [OF it(3) n(2) p1, of s1] show ?thesis unfolding step mem using True stick by auto
    next
      case False
      then show ?thesis unfolding step mem using p1 stick by simp
    qed
  qed
qed

lemma iterate_holds:
  assumes "keepsEntries content PD" "scansInOrder content ahead PD" "holdsAs content p m" "Memory_Len m \<le> fuel"
  shows "\<exists>p' s'. Pebble_Iterate PD fuel (pebbleDeleting PD f) (p, s) = Some (p', s') \<and>
    (pb_err p' = None \<longrightarrow> (case Memory_Iterate (deleting f) (m, s) of (m', sm) \<Rightarrow> holdsAs content p' m' \<and> s' = sm))"
proof -
  obtain d where d: "pb_db p = Some d" "content d = Memory_Get m" "Memory_inv m" "pb_err p = None"
    using assms(3) by (auto simp: holdsAs_def)
  obtain d1 r where r: "pd_NewIter PD d = (d1, r)" by fastforce
  show ?thesis
  proof (cases r)
    case (Inl e)
    then show ?thesis using d r holdsAs_open [OF assms(3)] by (simp add: Pebble_Iterate_def)
  next
    case (Inr it)
    have a: "content d1 = content d" "sorted_wrt (<) (map fst (ahead it))" "map_of (ahead it) = content d"
      "stands ahead PD (ahead it) (pd_First PD it)"
      using assms(2) r Inr unfolding scansInOrder_def by blast+
    have "set (ahead it) = set (Memory_scan m)"
      using a(2,3) d(2) mem.in_scan [OF d(3)] map_of_eq_Some_iff [of "ahead it"] by (auto simp: strict_sorted_iff)
    then have scan: "ahead it = Memory_scan m"
      using a(2) mem.scan_sorted [OF d(3)] by (intro map_sorted_distinct_set_unique [where f = fst])
        (auto simp: strict_sorted_iff inj_on_def mem.in_scan [OF d(3)])
    have len: "length (ahead it) \<le> fuel" using assms(4) by (simp add: scan Memory_scan_def Memory_Len_def)
    have "holdsAs content (p\<lparr>pb_db := Some d1\<rparr>) m" using d a(1) by (simp add: holdsAs_def)
    from visit_holds [OF assms(1,2) a(4) len this, of f s] obtain it' p' s' where v:
      "Pebble_visit PD fuel (pebbleDeleting PD f) (pd_First PD it) (p\<lparr>pb_db := Some d1\<rparr>, s) = Some (it', p', s')"
      "pb_err p' = None \<and> pd_Error PD it' = None \<longrightarrow>
        (case fold_deleting f (ahead it) m s of (m', sm) \<Rightarrow> holdsAs content p' m' \<and> s' = sm)"
      by (elim exE conjE) (rule that)
    then show ?thesis
      using d r Inr holdsAs_open [OF assms(3)] unfolding Memory_Iterate_deleting [OF d(3)] scan
      by (auto simp: Pebble_Iterate_def pb_err_failIf)
  qed
qed

lemma Memory_Len_put: "Memory_Len (Memory_Put k v m) \<le> Suc (Memory_Len m)"
proof -
  have "length (AList.update k v kvs) \<le> Suc (length kvs)" for kvs :: "(bytes \<times> bytes) list" by (induction kvs) auto
  then show ?thesis by (simp add: Memory_Put_def Memory_Len_def)
qed

lemma Memory_Len_delete: "Memory_Len (Memory_Delete k m) \<le> Memory_Len m"
  by (simp add: Memory_Delete_def Memory_Len_def length_delete_le)

lemma Memory_Len_deleting: "Memory_Len (fst (fold_deleting f kvs m s)) \<le> Memory_Len m"
proof (induction kvs arbitrary: m s)
  case (Cons kv kvs)
  show ?case
    using Cons.IH Memory_Len_delete order_trans by (fastforce simp: Let_def split: prod.split)
qed simp

lemma Memory_Len_step: "Memory_inv m \<Longrightarrow> Memory_Len (fst (fst (onMemory r (m, s)))) \<le> Suc (Memory_Len m)"
  by (cases r) (simp_all add: Memory_Len_put Memory_Len_delete Memory_Len_deleting le_SucI)

text \<open>One call: either both answer alike and stay alike, or the error is there and nothing is
  answered.\<close>

lemma step_holds:
  assumes "keepsEntries content PD" "scansInOrder content ahead PD" "holdsAs content p m" "Memory_Len m \<le> fuel"
  shows "\<exists>p' s' a. onPebble PD fuel r (p, s) = Some ((p', s'), a) \<and>
    (if pb_err p' = None
     then (case onMemory r (m, s) of ((m', sm), am) \<Rightarrow> holdsAs content p' m' \<and> s' = sm \<and> a = am)
     else a = None)"
proof (cases r)
  case (GetOf k)
  obtain p' a where g: "Pebble_Get PD k p = (p', a)" by fastforce
  then show ?thesis using get_holds [OF assms(1,3) g] by (auto simp: GetOf)
next
  case (IterateWith f)
  obtain m' sm where "Memory_Iterate (deleting f) (m, s) = (m', sm)" by fastforce
  with iterate_holds [OF assms, of f s] show ?thesis by (fastforce simp: IterateWith)
qed (use put_holds [OF assms(1,3)] delete_holds [OF assms(1,3)] in simp_all)

lemma run_holds:
  assumes "keepsEntries content PD" "scansInOrder content ahead PD"
  shows "holdsAs content p m \<Longrightarrow> Memory_Len m + length rs \<le> fuel \<Longrightarrow>
    \<exists>p' s' log. pebbleRun PD fuel rs (p, s) = Some ((p', s'), log) \<and>
      (case memoryRun rs (m, s) of ((m', sm), as) \<Rightarrow>
        log = map (\<lambda>a. (a, None)) as \<and> s' = sm \<and> holdsAs content p' m' \<or>
        (\<exists>n < length rs. \<exists>e. log = map (\<lambda>a. (a, None)) (take n as) @ replicate (length rs - n) (None, Some e) \<and> pb_err p' = Some e))"
proof (induction rs arbitrary: p m s)
  case (Cons r rs)
  have inv: "Memory_inv m" using Cons.prems(1) by (simp add: holdsAs_def)
  have "Memory_Len m \<le> fuel" using Cons.prems(2) by simp
  from step_holds [OF assms Cons.prems(1) this, of r s] obtain p1 s1 a where one:
    "onPebble PD fuel r (p, s) = Some ((p1, s1), a)"
    "if pb_err p1 = None then (case onMemory r (m, s) of ((m', sm), am) \<Rightarrow> holdsAs content p1 m' \<and> s1 = sm \<and> a = am)
     else a = None" by blast
  obtain m1 sm am where mem: "onMemory r (m, s) = ((m1, sm), am)" by (metis surj_pair)
  obtain m2 sm2 as where rest: "memoryRun rs (m1, sm) = ((m2, sm2), as)" by (metis surj_pair)
  show ?case
  proof (cases "pb_err p1")
    case None
    then have h: "holdsAs content p1 m1" "s1 = sm" "a = am" using one(2) mem by auto
    have "Memory_Len m1 + length rs \<le> fuel" using Memory_Len_step [OF inv, of r s] mem Cons.prems(2) by simp
    from Cons.IH [OF h(1) this, of sm] obtain p' s' log where run: "pebbleRun PD fuel rs (p1, sm) = Some ((p', s'), log)"
      "log = map (\<lambda>a. (a, None)) as \<and> s' = sm2 \<and> holdsAs content p' m2 \<or>
        (\<exists>n < length rs. \<exists>e. log = map (\<lambda>a. (a, None)) (take n as) @ replicate (length rs - n) (None, Some e) \<and> pb_err p' = Some e)"
      unfolding rest prod.case by (elim exE conjE) (rule that)
    have all: "pebbleRun PD fuel (r # rs) (p, s) = Some ((p', s'), (am, None) # log)"
      "memoryRun (r # rs) (m, s) = ((m2, sm2), am # as)"
      using one(1) run(1) h mem rest None by (simp_all add: Pebble_Err_def)
    from run(2) show ?thesis unfolding all
    proof (elim disjE exE conjE)
      fix n e assume "n < length rs" "log = map (\<lambda>a. (a, None)) (take n as) @ replicate (length rs - n) (None, Some e)" "pb_err p' = Some e"
      then show "\<exists>p'' s'' log'. Some ((p', s'), (am, None) # log) = Some ((p'', s''), log') \<and>
        (case ((m2, sm2), am # as) of ((m', sm), as) \<Rightarrow>
          log' = map (\<lambda>a. (a, None)) as \<and> s'' = sm \<and> holdsAs content p'' m' \<or>
          (\<exists>n < length (r # rs). \<exists>e. log' = map (\<lambda>a. (a, None)) (take n as) @ replicate (length (r # rs) - n) (None, Some e) \<and>
            pb_err p'' = Some e))"
        by (auto intro!: exI [of _ "Suc n"])
    qed simp
  next
    case (Some e)
    then have "pebbleRun PD fuel (r # rs) (p, s) = Some ((p1, s1), replicate (Suc (length rs)) (None, Some e))"
      using one failed_run [OF Some] by (simp add: Pebble_Err_def)
    then show ?thesis using mem rest Some by (auto intro!: exI [of _ 0])
  qed
qed simp

text \<open>After \<open>Close\<close> there is no database.\<close>

lemma unopened_step: "pb_db p = None \<Longrightarrow> pb_err p = None \<Longrightarrow>
    onPebble PD fuel r (p, s) = Some ((p\<lparr>pb_err := Some (StateErr errClosed)\<rparr>, s), None)"
  by (cases r) (simp_all add: Pebble_Get_def Pebble_Put_def Pebble_Delete_def Pebble_Iterate_def Pebble_closed_def Pebble_fail_def)

lemma unopened_run:
  assumes "pb_db p = None"
  shows "\<exists>p'. pebbleRun PD fuel rs (p, s) =
    Some ((p', s), replicate (length rs) (None, Some (case pb_err p of None \<Rightarrow> StateErr errClosed | Some e \<Rightarrow> e)))"
proof (cases "pb_err p")
  case None
  then show ?thesis
    by (cases rs) (simp_all add: unopened_step [OF assms] failed_run [OF select_convs(4)] Pebble_Err_def failed_run)
next
  case (Some e)
  then show ?thesis unfolding failed_run [OF Some] by simp
qed

lemma Close_unopened: "pb_db (snd (fst (Pebble_Close PD PE p w))) = None" "pb_err (snd (fst (Pebble_Close PD PE p w))) = pb_err p"
  by (auto simp: Pebble_Close_def Let_def split: prod.split)

section \<open>Property\<close>

text \<open>C11. A subtask on the backend on disk computes what it would in memory, or fails with the first
  error. Over a database that keeps its promises and may fail at any call, take a backend that
  \<open>NewTempPebble\<close> made and any sequence of calls. It ends, and either every answer is the one
  \<open>Memory\<close> gives, no error is reported, the callbacks of the scans have left the same values behind
  and the database holds the same entries; or the answers are those of \<open>Memory\<close> up to some call,
  and that call and every later one answers nothing and reports the same error. After \<open>Close\<close>
  every call answers nothing and reports that error, or the use after close.\<close>

theorem pebble_agrees_with_memory:
  assumes "keepsEntries content PD" "scansInOrder content ahead PD" "opensEmpty content PE"
    and "NewTempPebble PE w = (w1, Inr p)" "length rs \<le> fuel"
  shows "\<exists>p' s' log. pebbleRun PD fuel rs (p, s) = Some ((p', s'), log) \<and>
    (case memoryRun rs (NewMemory, s) of ((m, sm), as) \<Rightarrow>
      log = map (\<lambda>a. (a, None)) as \<and> s' = sm \<and> pb_err p' = None \<and> map_option content (pb_db p') = Some (Memory_Get m) \<or>
      (\<exists>n < length rs. \<exists>e. log = map (\<lambda>a. (a, None)) (take n as) @ replicate (length rs - n) (None, Some e) \<and> pb_err p' = Some e)) \<and>
    (\<forall>w2 later. \<exists>p''. pebbleRun PD fuel later (snd (fst (Pebble_Close PD PE p' w2)), s') =
      Some ((p'', s'), replicate (length later) (None, Some (case pb_err p' of None \<Rightarrow> StateErr errClosed | Some e \<Rightarrow> e))))"
proof -
  obtain w0 dir w' d where "pe_MkdirTemp PE w = (w0, Inr dir)" "pe_Open PE dir w0 = (w', Inr d)"
    "p = \<lparr>pb_db = Some d, pb_dir = dir, pb_ownsDir = True, pb_err = None\<rparr>"
    using assms(4) by (auto simp: NewTempPebble_def OpenPebble_def split: prod.splits sum.splits)
  then have "holdsAs content p NewMemory" using assms(3) unfolding opensEmpty_def by (auto simp: holdsAs_def)
  moreover have "Memory_Len NewMemory + length rs \<le> fuel" using assms(5) by (simp add: NewMemory_def Memory_Len_def)
  ultimately have "\<exists>p' s' log. pebbleRun PD fuel rs (p, s) = Some ((p', s'), log) \<and>
    (case memoryRun rs (NewMemory, s) of ((m', sm), as) \<Rightarrow>
      log = map (\<lambda>a. (a, None)) as \<and> s' = sm \<and> holdsAs content p' m' \<or>
      (\<exists>n < length rs. \<exists>e. log = map (\<lambda>a. (a, None)) (take n as) @ replicate (length rs - n) (None, Some e) \<and> pb_err p' = Some e))"
    by (rule run_holds [OF assms(1,2)])
  then obtain p' s' log where run: "pebbleRun PD fuel rs (p, s) = Some ((p', s'), log)"
    "case memoryRun rs (NewMemory, s) of ((m', sm), as) \<Rightarrow>
      log = map (\<lambda>a. (a, None)) as \<and> s' = sm \<and> holdsAs content p' m' \<or>
      (\<exists>n < length rs. \<exists>e. log = map (\<lambda>a. (a, None)) (take n as) @ replicate (length rs - n) (None, Some e) \<and> pb_err p' = Some e)"
    by (elim exE conjE) (rule that)
  have "\<exists>p''. pebbleRun PD fuel later (snd (fst (Pebble_Close PD PE p' w2)), s') =
      Some ((p'', s'), replicate (length later) (None, Some (case pb_err p' of None \<Rightarrow> StateErr errClosed | Some e \<Rightarrow> e)))" for w2 later
    using unopened_run [OF Close_unopened(1)] unfolding Close_unopened(2) .
  moreover obtain m sm as where mem: "memoryRun rs (NewMemory, s) = ((m, sm), as)" by (metis surj_pair)
  ultimately show ?thesis
    using run(2) unfolding mem by (intro exI [of _ p'] exI [of _ s'] exI [of _ log] conjI run(1)) (auto simp: holdsAs_def)
qed

text \<open>A database in an association list that fails at every call after its first few.\<close>

definition example_scan :: "(bytes \<times> bytes) list \<Rightarrow> (bytes \<times> bytes) list" where
  "example_scan kvs = map (\<lambda>k. (k, the (map_of kvs k))) (sort (remdups (map fst kvs)))"

definition example_call :: "((bytes \<times> bytes) list \<Rightarrow> 'a) \<Rightarrow> 'a \<Rightarrow> (bytes \<times> bytes) list \<times> nat \<Rightarrow> nat \<times> 'a" where
  "example_call ok failed d = (if snd d = 0 then (0, failed) else (snd d - 1, ok (fst d)))"

definition example_db :: "((bytes \<times> bytes) list \<times> nat, (bytes \<times> bytes) list) pebbleDB" where
  "example_db =
     \<lparr>pd_Get = \<lambda>k d. (case example_call (\<lambda>kvs. case map_of kvs k of None \<Rightarrow> Inl (IoError 0) | Some v \<Rightarrow> Inr v) (Inl (IoError 5)) d of
        (n, r) \<Rightarrow> ((fst d, n), r)),
      pd_Release = \<lambda>d. (d, None), pd_isNotFound = (\<lambda>e. e = IoError 0),
      pd_Set = \<lambda>k v d. (case example_call (\<lambda>kvs. (AList.update k v kvs, None)) (fst d, Some (IoError 5)) d of
        (n, kvs, e) \<Rightarrow> ((kvs, n), e)),
      pd_Delete = \<lambda>k d. (case example_call (\<lambda>kvs. (AList.delete k kvs, None)) (fst d, Some (IoError 5)) d of
        (n, kvs, e) \<Rightarrow> ((kvs, n), e)),
      pd_NewIter = \<lambda>d. (case example_call (\<lambda>kvs. Inr (example_scan kvs)) (Inl (IoError 5)) d of (n, r) \<Rightarrow> ((fst d, n), r)),
      pd_First = (\<lambda>it. (it, it \<noteq> [])), pd_Next = (\<lambda>it. (tl it, tl it \<noteq> [])), pd_Key = (\<lambda>it. fst (hd it)),
      pd_Value = (\<lambda>it. snd (hd it)), pd_Error = (\<lambda>it. None), pd_IterClose = (\<lambda>it. None), pd_Close = (\<lambda>d. None)\<rparr>"

definition example_env :: "(nat, (bytes \<times> bytes) list \<times> nat) pebbleEnv" where
  "example_env =
     \<lparr>pe_MkdirTemp = \<lambda>w. (w, Inr [116]), pe_Open = \<lambda>dir w. (w, Inr ([], w)), pe_RemoveAll = \<lambda>dir w. (w, None)\<rparr>"

definition example_requests :: "bytes list request list" where
  "example_requests = [PutOf [1] [2], GetOf [1], IterateWith (\<lambda>kv s. (True, True, fst kv # s)), GetOf [1], GetOf [1]]"

lemma example_db_keeps: "keepsEntries (map_of \<circ> fst) example_db"
  by (auto simp: keepsEntries_def example_db_def example_call_def update_conv' delete_conv' split: option.splits if_splits)

lemma example_db_scans: "scansInOrder (map_of \<circ> fst) id example_db"
proof -
  have keys: "map fst (example_scan kvs) = sort (remdups (map fst kvs))" for kvs by (simp add: example_scan_def comp_def)
  have "map_of (example_scan kvs) = map_of kvs" for kvs
    by (auto simp: example_scan_def map_of_map_the fun_eq_iff dest: weak_map_of_SomeI) (metis map_of_eq_None_iff)
  moreover have "sorted_wrt (<) (map fst (example_scan kvs))" for kvs unfolding keys by (simp add: strict_sorted_iff)
  ultimately show ?thesis
    by (auto simp: scansInOrder_def example_db_def example_call_def stands_def split: if_splits)
qed

theorem pebble_agrees_with_memory_witness:
  "\<exists>p p' s' e. NewTempPebble example_env 4 = (4, Inr p) \<and>
    pebbleRun example_db 5 example_requests (p, []) =
      Some ((p', s'), [(None, None), (Some [2], None), (None, None), (None, Some e), (None, Some e)]) \<and> s' = [[1]] \<and> pb_err p' = Some e"
proof -
  obtain p where p: "NewTempPebble example_env 4 = (4, Inr p)" "p = \<lparr>pb_db = Some ([], 4), pb_dir = [116], pb_ownsDir = True, pb_err = None\<rparr>"
    by (simp add: NewTempPebble_def OpenPebble_def example_env_def)
  have "opensEmpty (map_of \<circ> fst) example_env" by (simp add: opensEmpty_def example_env_def)
  note run = pebble_agrees_with_memory [OF example_db_keeps example_db_scans this p(1), of example_requests 5 "[]"]
  have "map_option (\<lambda>r. (snd (fst r), snd r)) (pebbleRun example_db 5 example_requests (p, [])) =
      Some ([[1]], [(None, None), (Some [2], None), (None, None), (None, Some (IoError 5)), (None, Some (IoError 5))])"
    unfolding p(2) by code_simp
  then obtain p' where r: "pebbleRun example_db 5 example_requests (p, []) =
      Some ((p', [[1]]), [(None, None), (Some [2], None), (None, None), (None, Some (IoError 5)), (None, Some (IoError 5))])"
    by auto
  define log where "log = [(None, None), (Some [2], None), (None, None), (None, Some (IoError 5)), (None :: bytes option, Some (IoError 5))]"
  have "last log = (None, Some (IoError 5))" "log \<noteq> map (\<lambda>a. (a, None)) as" for as by (auto simp: log_def)
  then have "pb_err p' = Some (IoError 5)"
    using run unfolding r [folded log_def] by (auto simp: example_requests_def last_replicate split: prod.splits)
  then show ?thesis using p(1) r by (intro exI [of _ p] exI [of _ p'] exI [of _ "[[1]]"] exI [of _ "IoError 5"]) simp
qed
end
