(* ===== verification/Transport.thy ===== *)
theory Transport
  imports Core_Types
begin

text \<open>
  \<open>pkg/transport\<close>: the bounded channel between two subtasks, the partitioning writer, and the
  \<open>Output\<close> interface between them. A Go channel blocks its sender while it is full, so a send
  runs against an environment: what the rest of the system does (receives, a cancellation)
  before each evaluation of the sender's \<open>select\<close>. A send that is still blocked when the
  environment has no more moves has not returned, which is \<open>None\<close>.
\<close>

section \<open>The channel\<close>

definition DefaultCapacity :: int64 where
  "DefaultCapacity = 1024"

record Channel =
  ch_capacity :: nat
  ch_elements :: "StreamElement list"
  ch_closed :: bool

definition NewChannel :: "int64 \<Rightarrow> Channel" where
  "NewChannel capacity =
     (let capacity' = if capacity <s 1 then DefaultCapacity else capacity
      in \<lparr>ch_capacity = unat capacity', ch_elements = [], ch_closed = False\<rparr>)"

text \<open>One evaluation of the \<open>select\<close> of \<open>Send\<close>. \<open>done\<close> says that the context is cancelled and
  \<open>pick\<close> is the runtime's choice when both cases are ready. A send on a closed channel
  panics.\<close>

datatype attempt =
    Sent Channel
  | Cancelled
  | Blocked
  | Panicked

definition Send_select :: "bool \<Rightarrow> bool \<Rightarrow> StreamElement \<Rightarrow> Channel \<Rightarrow> attempt" where
  "Send_select don pick e c =
     (let room = ch_closed c \<or> length (ch_elements c) < ch_capacity c
      in if room \<and> (pick \<or> \<not> don)
         then if ch_closed c then Panicked else Sent (c\<lparr>ch_elements := ch_elements c @ [e]\<rparr>)
         else if don then Cancelled
         else Blocked)"

text \<open>A receive: \<open>None\<close> while it blocks, then the pair the code returns.\<close>

definition Channel_Recv :: "Channel \<Rightarrow> (Channel \<times> StreamElement option) option" where
  "Channel_Recv c =
     (case ch_elements c of
        e # es \<Rightarrow> Some (c\<lparr>ch_elements := es\<rparr>, Some e)
      | [] \<Rightarrow> if ch_closed c then Some (c, None) else None)"

definition Channel_Close :: "Channel \<Rightarrow> Channel option" where
  "Channel_Close c = (if ch_closed c then None else Some (c\<lparr>ch_closed := True\<rparr>))"

section \<open>Channels in use\<close>

text \<open>The channels of a job, what the receiver at the end of each has taken, whether the context
  is cancelled, and the environment still to come. Each entry of the environment is the moves
  of the other goroutines before one evaluation of a \<open>select\<close>, with the runtime's choice.\<close>

datatype move =
    Take nat
  | Cancel

record network =
  net_channels :: "nat \<Rightarrow> Channel"
  net_taken :: "nat \<Rightarrow> StreamElement list"
  net_done :: bool
  net_env :: "(move list \<times> bool) list"

fun net_move :: "move \<Rightarrow> network \<Rightarrow> network" where
  "net_move (Take i) n =
     (case Channel_Recv (net_channels n i) of
        Some (c, Some e) \<Rightarrow>
          n\<lparr>net_channels := (net_channels n)(i := c),
            net_taken := (net_taken n)(i := net_taken n i @ [e])\<rparr>
      | _ \<Rightarrow> n)"
| "net_move Cancel n = n\<lparr>net_done := True\<rparr>"

fun Send_loop ::
  "(move list \<times> bool) list \<Rightarrow> nat \<Rightarrow> StreamElement \<Rightarrow> network \<Rightarrow> (network \<times> go_error option) option"
where
  "Send_loop [] i e n = None"
| "Send_loop ((ms, pick) # env) i e n =
     (let n' = (fold net_move ms n)\<lparr>net_env := env\<rparr>
      in case Send_select (net_done n') pick e (net_channels n' i) of
           Sent c \<Rightarrow> Some (n'\<lparr>net_channels := (net_channels n')(i := c)\<rparr>, None)
         | Cancelled \<Rightarrow> Some (n', Some ContextDone)
         | Blocked \<Rightarrow> Send_loop env i e n'
         | Panicked \<Rightarrow> None)"

definition Channel_Send :: "nat \<Rightarrow> StreamElement \<Rightarrow> network \<Rightarrow> (network \<times> go_error option) option" where
  "Channel_Send i e n = Send_loop (net_env n) i e n"

section \<open>The writer\<close>

definition fnvOffset64 :: uint64 where
  "fnvOffset64 = 14695981039346656037"

definition fnvPrime64 :: uint64 where
  "fnvPrime64 = 1099511628211"

definition fnv1a :: "bytes \<Rightarrow> uint64" where
  "fnv1a b = fold (\<lambda>c h. xor h (ucast c) * fnvPrime64) b fnvOffset64"

text \<open>The groups hold one list of outputs per downstream vertex. An output is referred to by a
  pointer \<open>'o\<close>; the store the pointers lead to is the state \<open>'st\<close> of the interface.\<close>

record 'o Writer =
  groups :: "'o list list"
  outputs :: nat

text \<open>\<open>None\<close> is the panic on a group without outputs.\<close>

definition NewWriter :: "'o list list \<Rightarrow> 'o Writer option" where
  "NewWriter gs =
     (if list_ex (\<lambda>g. g = []) gs then None
      else Some \<lparr>groups = gs, outputs = sum_list (map length gs)\<rparr>)"

type_synonym ('o, 'st) sender = "'o \<Rightarrow> StreamElement \<Rightarrow> 'st \<Rightarrow> ('st \<times> go_error option) option"

fun sendEach :: "('o, 'st) sender \<Rightarrow> 'o list \<Rightarrow> StreamElement \<Rightarrow> 'st \<Rightarrow> ('st \<times> go_error option) option" where
  "sendEach send [] e st = Some (st, None)"
| "sendEach send (out # os) e st =
     (case send out e st of
        None \<Rightarrow> None
      | Some (st', Some err) \<Rightarrow> Some (st', Some err)
      | Some (st', None) \<Rightarrow> sendEach send os e st')"

definition pickOutput :: "uint64 \<Rightarrow> 'o list \<Rightarrow> 'o" where
  "pickOutput h og = og ! unat (h mod word_of_nat (length og))"

definition EmitRecord :: "('o, 'st) sender \<Rightarrow> 'o Writer \<Rightarrow> Record \<Rightarrow> 'st \<Rightarrow> ('st \<times> go_error option) option" where
  "EmitRecord send w r st =
     (if groups w = [] then Some (st, None)
      else if Key r = [] then Some (st, Some (TransportErr errEmptyKey))
      else sendEach send (map (pickOutput (fnv1a (Key r))) (groups w)) (NewRecordElement r) st)"

definition Broadcast :: "('o, 'st) sender \<Rightarrow> 'o Writer \<Rightarrow> StreamElement \<Rightarrow> 'st \<Rightarrow> ('st \<times> go_error option) option" where
  "Broadcast send w e st = sendEach send (concat (groups w)) e st"

text \<open>\<open>None\<close> is the panic of a second close.\<close>

fun closeEach :: "('o \<Rightarrow> 'st \<Rightarrow> 'st option) \<Rightarrow> 'o list \<Rightarrow> 'st \<Rightarrow> 'st option" where
  "closeEach cls [] st = Some st"
| "closeEach cls (out # os) st =
     (case cls out st of None \<Rightarrow> None | Some st' \<Rightarrow> closeEach cls os st')"

definition CloseAll :: "('o \<Rightarrow> 'st \<Rightarrow> 'st option) \<Rightarrow> 'o Writer \<Rightarrow> 'st \<Rightarrow> 'st option" where
  "CloseAll cls w st = closeEach cls (concat (groups w)) st"

definition net_close :: "nat \<Rightarrow> network \<Rightarrow> network option" where
  "net_close i n =
     map_option (\<lambda>c. n\<lparr>net_channels := (net_channels n)(i := c)\<rparr>) (Channel_Close (net_channels n i))"

section \<open>The interface of an output\<close>

text \<open>What the writer relies on: a send that returns nil has put its element, once, behind
  everything sent to the same output before, and touched no other; one that returns an error
  has sent nothing.\<close>

locale output_port =
  fixes send :: "('o, 'st) sender"
    and sent :: "'st \<Rightarrow> 'o \<Rightarrow> StreamElement list"
  assumes send_ok: "send out e st = Some (st', None) \<Longrightarrow> sent st' = (sent st)(out := sent st out @ [e])"
    and send_err: "send out e st = Some (st', Some err) \<Longrightarrow> sent st' = sent st"
begin

lemma sendEach_ok:
  assumes "sendEach send os e st = Some (st', None)" "distinct os"
  shows "sent st' out = sent st out @ (if out \<in> set os then [e] else [])"
  using assms
proof (induction os arbitrary: st)
  case (Cons a os)
  then obtain st1 where st1: "send a e st = Some (st1, None)" "sendEach send os e st1 = Some (st', None)"
    by (auto split: option.splits)
  from Cons.IH [OF st1(2)] Cons.prems(2) send_ok [OF st1(1)] show ?case by auto
qed simp

text \<open>An error stops the loop: a proper prefix of the outputs has the element.\<close>

lemma sendEach_err:
  assumes "sendEach send os e st = Some (st', Some err)" "distinct os"
  shows "\<exists>k < length os. \<forall>out. sent st' out = sent st out @ (if out \<in> set (take k os) then [e] else [])"
  using assms
proof (induction os arbitrary: st)
  case (Cons a os)
  show ?case
  proof (cases "send a e st")
    case (Some r)
    obtain st1 er where r: "r = (st1, er)" by (cases r)
    show ?thesis
    proof (cases er)
      case None
      with Some r Cons.prems(1) have "sendEach send os e st1 = Some (st', Some err)" by simp
      from Cons.IH [OF this] Cons.prems(2) obtain k where "k < length os"
        "\<forall>out. sent st' out = sent st1 out @ (if out \<in> set (take k os) then [e] else [])" by auto
      moreover have "sent st1 = (sent st)(a := sent st a @ [e])" using send_ok Some r None by blast
      ultimately show ?thesis
        using Cons.prems(2) by (intro exI [of _ "Suc k"]) (auto dest: in_set_takeD)
    next
      case (Some x)
      then show ?thesis
        using Cons.prems(1) \<open>send a e st = Some r\<close> r send_err by (intro exI [of _ 0]) auto
    qed
  qed (use Cons.prems in simp)
qed simp

end

text \<open>The job's channels are such outputs: what has been sent on one is what its receiver has
  taken and what it still buffers.\<close>

definition net_sent :: "network \<Rightarrow> nat \<Rightarrow> StreamElement list" where
  "net_sent n i = net_taken n i @ ch_elements (net_channels n i)"

lemma net_sent_move [simp]: "net_sent (net_move m n) = net_sent n"
  by (cases m) (auto simp: net_sent_def Channel_Recv_def fun_eq_iff split: option.splits list.splits if_splits)

lemma net_sent_moves [simp]: "net_sent (fold net_move ms n) = net_sent n"
  by (induction ms arbitrary: n) simp_all

lemma net_sent_env [simp]: "net_sent (n\<lparr>net_env := env\<rparr>) = net_sent n"
  by (simp add: net_sent_def fun_eq_iff)

lemma Send_select_Sent:
  "Send_select d p e c = Sent c' \<Longrightarrow> c' = c\<lparr>ch_elements := ch_elements c @ [e]\<rparr>"
  by (auto simp: Send_select_def Let_def split: if_splits)

lemma net_sent_put:
  assumes "c = (net_channels n i)\<lparr>ch_elements := ch_elements (net_channels n i) @ [e]\<rparr>"
  shows "net_sent (n\<lparr>net_channels := (net_channels n)(i := c)\<rparr>) = (net_sent n)(i := net_sent n i @ [e])"
  using assms by (auto simp: net_sent_def fun_eq_iff)

lemma Send_loop_sent:
  assumes "Send_loop env i e n = Some (n', err)"
  shows "net_sent n' = (if err = None then (net_sent n)(i := net_sent n i @ [e]) else net_sent n)"
  using assms
proof (induction env i e n rule: Send_loop.induct)
  case (2 ms pick env i e n)
  let ?n = "(fold net_move ms n)\<lparr>net_env := env\<rparr>"
  have same: "net_sent ?n = net_sent n" by simp
  show ?case
  proof (cases "Send_select (net_done ?n) pick e (net_channels ?n i)")
    case (Sent c)
    with net_sent_put [OF Send_select_Sent [OF Sent]] 2(2) same show ?thesis by (auto simp: Let_def)
  next
    case Blocked
    with 2 same show ?thesis by (simp add: Let_def)
  qed (use 2(2) same in \<open>auto simp: Let_def\<close>)
qed simp

interpretation chan: output_port Channel_Send net_sent
  by unfold_locales (auto simp: Channel_Send_def dest: Send_loop_sent)

section \<open>Partitions\<close>

lemma pickOutput_index:
  assumes "og \<noteq> []" "length og < 2 ^ 64"
  shows "unat (h mod word_of_nat (length og) :: uint64) < length og"
proof -
  have "unat (word_of_nat (length og) :: uint64) = length og"
    using assms(2) by (simp add: unat_of_nat take_bit_nat_eq_self)
  moreover have "unat (h mod word_of_nat (length og) :: uint64) =
      unat h mod unat (word_of_nat (length og) :: uint64)"
    by (rule unat_mod_distrib)
  ultimately show ?thesis using assms(1) by simp
qed

definition wired :: "'o Writer \<Rightarrow> bool" where
  "wired w \<longleftrightarrow> distinct (concat (groups w)) \<and> list_all (\<lambda>g. g \<noteq> [] \<and> length g < 2 ^ 64) (groups w)"

lemma pickOutput_in: "wired w \<Longrightarrow> g \<in> set (groups w) \<Longrightarrow> pickOutput h g \<in> set g"
  by (simp add: wired_def list_all_iff pickOutput_def pickOutput_index)

lemma distinct_picks:
  assumes "distinct (concat gs)" "\<forall>g \<in> set gs. f g \<in> set g"
  shows "distinct (map f gs)"
  using assms
proof (induction gs)
  case (Cons a gs)
  then have "f a \<noteq> f x" if "x \<in> set gs" for x using that by fastforce
  with Cons show ?case by auto
qed simp

lemma wired_picks: "wired w \<Longrightarrow> distinct (map (pickOutput h) (groups w))"
  by (rule distinct_picks) (simp_all add: pickOutput_in wired_def)

section \<open>Properties\<close>

text \<open>C33. A record goes to exactly one subtask of every downstream vertex, the one its key hashes to:
  when \<open>EmitRecord\<close> returns nil on a writer of distinct channels, each group has one channel
  whose sent sequence grew by that record, it is the one at index \<open>fnv1a(key) mod len(og)\<close>,
  which is in range, and every other channel of the job is unchanged. The index depends on the
  key alone, so records of one key stay in the order they were emitted.\<close>

theorem emit_record_partitions:
  assumes "wired w" "Key r \<noteq> []" "EmitRecord Channel_Send w r n = Some (n', None)"
  shows "(\<forall>i. net_sent n' i = net_sent n i @
      (if \<exists>g \<in> set (groups w). i = g ! unat (fnv1a (Key r) mod word_of_nat (length g))
       then [RecordElement r] else [])) \<and>
    list_all (\<lambda>g. unat (fnv1a (Key r) mod word_of_nat (length g)) < length g) (groups w)"
proof -
  have "net_sent n' i = net_sent n i @
      (if i \<in> set (map (pickOutput (fnv1a (Key r))) (groups w)) then [RecordElement r] else [])" for i
  proof (cases "groups w = []")
    case False
    with assms have "sendEach Channel_Send (map (pickOutput (fnv1a (Key r))) (groups w))
        (RecordElement r) n = Some (n', None)" by (simp add: EmitRecord_def)
    from chan.sendEach_ok [OF this wired_picks [OF assms(1)]] show ?thesis .
  qed (use assms in \<open>simp add: EmitRecord_def\<close>)
  moreover have "list_all (\<lambda>g. unat (fnv1a (Key r) mod word_of_nat (length g)) < length g) (groups w)"
    using assms(1) by (auto simp: list_all_iff wired_def intro: pickOutput_index)
  ultimately show ?thesis by (auto simp: pickOutput_def)
qed

definition example_writer :: "nat Writer" where
  "example_writer = \<lparr>groups = [[0, 1], [2, 3, 4]], outputs = 5\<rparr>"

definition example_network :: network where
  "example_network = \<lparr>net_channels = (\<lambda>_. NewChannel 1), net_taken = (\<lambda>_. []), net_done = False,
     net_env = [([], True), ([Take 0], False), ([Cancel], False)]\<rparr>"

definition example_record :: Record where
  "example_record = \<lparr>Key = [7], Value = [1], EventTime = 3\<rparr>"

lemma example_wired: "wired example_writer"
  by (simp add: wired_def example_writer_def)

lemma example_emit_ok: "map_option snd (EmitRecord Channel_Send example_writer example_record example_network) = Some None"
  by code_simp

theorem emit_record_partitions_witness:
  "\<exists>n'. EmitRecord Channel_Send example_writer example_record example_network = Some (n', None) \<and>
    (\<forall>i. net_sent n' i = net_sent example_network i @
      (if \<exists>g \<in> set (groups example_writer).
          i = g ! unat (fnv1a (Key example_record) mod word_of_nat (length g))
       then [RecordElement example_record] else []))"
proof -
  obtain n' where n': "EmitRecord Channel_Send example_writer example_record example_network = Some (n', None)"
    using example_emit_ok by auto
  have "Key example_record \<noteq> []" by (simp add: example_record_def)
  from emit_record_partitions [OF example_wired this n'] n' show ?thesis by blast
qed

text \<open>C34. A broadcast reaches every output once, and a failed one stops at the output that failed:
  \<open>Broadcast\<close> that returns nil has added its element to every channel of every group and to no
  other channel; one that returns an error has added it to a proper prefix of them.\<close>

theorem broadcast_reaches_all:
  assumes "wired w" "Broadcast Channel_Send w e n = Some (n', err)"
  shows "case err of
      None \<Rightarrow> \<forall>i. net_sent n' i = net_sent n i @ (if \<exists>g \<in> set (groups w). i \<in> set g then [e] else [])
    | Some _ \<Rightarrow> \<exists>k < length (concat (groups w)). \<forall>i.
        net_sent n' i = net_sent n i @ (if i \<in> set (take k (concat (groups w))) then [e] else [])"
proof -
  have d: "distinct (concat (groups w))" using assms(1) by (simp add: wired_def)
  have each: "sendEach Channel_Send (concat (groups w)) e n = Some (n', err)"
    using assms(2) by (simp add: Broadcast_def)
  show ?thesis
  proof (cases err)
    case None
    with chan.sendEach_ok [OF _ d] each show ?thesis by simp
  next
    case (Some x)
    with chan.sendEach_err [OF _ d] each show ?thesis by simp
  qed
qed

lemma example_broadcast: "map_option snd (Broadcast Channel_Send example_writer (WatermarkElement 5) example_network) =
    Some (Some ContextDone)"
  by code_simp

theorem broadcast_reaches_all_witness:
  "\<exists>n'. Broadcast Channel_Send example_writer (WatermarkElement 5) example_network = Some (n', Some ContextDone) \<and>
    (\<exists>k < length (concat (groups example_writer)). \<forall>i. net_sent n' i = net_sent example_network i @
      (if i \<in> set (take k (concat (groups example_writer))) then [WatermarkElement 5] else []))"
proof -
  obtain n' where n': "Broadcast Channel_Send example_writer (WatermarkElement 5) example_network =
      Some (n', Some ContextDone)"
    using example_broadcast by auto
  from broadcast_reaches_all [OF example_wired this] n' show ?thesis by simp
qed

definition bounded :: "network \<Rightarrow> bool" where
  "bounded n \<longleftrightarrow> (\<forall>i. length (ch_elements (net_channels n i)) \<le> ch_capacity (net_channels n i))"

lemma Channel_Recv_shrinks:
  "Channel_Recv c = Some (c', r) \<Longrightarrow>
    length (ch_elements c') \<le> length (ch_elements c) \<and> ch_capacity c' = ch_capacity c"
  by (auto simp: Channel_Recv_def split: list.splits if_splits)

lemma bounded_move: "bounded n \<Longrightarrow> bounded (net_move m n)"
  by (cases m) (auto simp: bounded_def split: option.splits dest!: Channel_Recv_shrinks intro: order_trans)

lemma bounded_moves: "bounded n \<Longrightarrow> bounded (fold net_move ms n)"
  by (induction ms arbitrary: n) (simp_all add: bounded_move)

lemma bounded_env [simp]: "bounded (n\<lparr>net_env := env\<rparr>) = bounded n"
  by (simp add: bounded_def)

lemma Send_select_bound:
  "Send_select d p e c = Sent c' \<Longrightarrow>
    length (ch_elements c') \<le> ch_capacity c' \<and> \<not> ch_closed c"
  by (auto simp: Send_select_def Let_def split: if_splits)

lemma Send_loop_bounded:
  assumes "Send_loop env i e n = Some (n', err)" "bounded n"
  shows "bounded n'"
  using assms
proof (induction env i e n rule: Send_loop.induct)
  case (2 ms pick env i e n)
  let ?n = "(fold net_move ms n)\<lparr>net_env := env\<rparr>"
  have b: "bounded ?n" using 2(3) by (simp add: bounded_moves)
  show ?case
  proof (cases "Send_select (net_done ?n) pick e (net_channels ?n i)")
    case (Sent c)
    with Send_select_bound [OF Sent] 2(2) b show ?thesis by (auto simp: Let_def bounded_def)
  qed (use 2 b in \<open>auto simp: Let_def\<close>)
qed simp

text \<open>Backpressure holds: whatever the rest of the system does meanwhile, a send leaves every
  channel with at most its capacity of elements buffered, and a channel made by \<open>NewChannel\<close>
  always has room for at least one.\<close>

theorem send_respects_capacity:
  assumes "bounded n" "Channel_Send i e n = Some (n', err)"
  shows "bounded n' \<and> (\<forall>k. 0 < ch_capacity (NewChannel k))"
proof -
  have "0 < ch_capacity (NewChannel k)" for k
    by (auto simp: NewChannel_def Let_def DefaultCapacity_def unat_gt_0 word_sless_alt)
  moreover have "bounded n'" using Send_loop_bounded assms by (simp add: Channel_Send_def)
  ultimately show ?thesis by blast
qed

theorem send_respects_capacity_witness:
  "\<exists>n'. Channel_Send 0 (WatermarkElement 5) example_network = Some (n', None) \<and> bounded n'"
proof -
  have "map_option snd (Channel_Send 0 (WatermarkElement 5) example_network) = Some None" by code_simp
  then obtain n' where n': "Channel_Send 0 (WatermarkElement 5) example_network = Some (n', None)" by auto
  have "bounded example_network" by (simp add: bounded_def example_network_def NewChannel_def Let_def)
  from send_respects_capacity [OF this n'] n' show ?thesis by blast
qed

end
