(* ===== verification/Job_Graph.thy ===== *)
theory Job_Graph
  imports Core_Types
begin

text \<open>
  \<open>pkg/graph/graph.go\<close>: the job graph, its construction, its validation and its topological
  order. Vertex identifiers are Go strings, compared by their bytes. The vertex map is an
  association list without repeated keys; the adjacency maps are total functions, since
  reading a missing key of a Go map of slices gives the empty slice. A factory is a reference
  to a function, \<open>None\<close> when it is nil.
\<close>

section \<open>Vertices and graphs\<close>

datatype VertexKind =
    VertexSource
  | VertexOperator
  | VertexSink
  | VertexOther byte

definition VertexKind_String :: "VertexKind \<Rightarrow> string" where
  "VertexKind_String k =
     (case k of
        VertexSource \<Rightarrow> ''source''
      | VertexOperator \<Rightarrow> ''operator''
      | VertexSink \<Rightarrow> ''sink''
      | VertexOther _ \<Rightarrow> ''unknown'')"

record Vertex =
  ID :: bytes
  VKind :: VertexKind
  Parallelism :: int64
  NewSource :: "nat option"
  NewOperator :: "nat option"
  NewSink :: "nat option"
  WatermarkIntervalElements :: int64
  MaxOutOfOrderness :: int64
  BarrierIntervalElements :: int64

record Graph =
  byID :: "(bytes \<times> Vertex) list"
  outE :: "bytes \<Rightarrow> bytes list"
  inE :: "bytes \<Rightarrow> bytes list"

definition New :: Graph where
  "New = \<lparr>byID = [], outE = (\<lambda>_. []), inE = (\<lambda>_. [])\<rparr>"

text \<open>The zero vertex is what Go reads for a missing key.\<close>

definition zeroVertex :: Vertex where
  "zeroVertex = \<lparr>ID = [], VKind = VertexSource, Parallelism = 0, NewSource = None, NewOperator = None,
     NewSink = None, WatermarkIntervalElements = 0, MaxOutOfOrderness = 0, BarrierIntervalElements = 0\<rparr>"

definition vertexOf :: "Graph \<Rightarrow> bytes \<Rightarrow> Vertex" where
  "vertexOf g i = (case map_of (byID g) i of None \<Rightarrow> zeroVertex | Some v \<Rightarrow> v)"

definition AddVertex :: "Vertex \<Rightarrow> Graph \<Rightarrow> Graph \<times> go_error option" where
  "AddVertex v g =
     (if ID v = [] then (g, Some (GraphErr errEmptyID))
      else if map_of (byID g) (ID v) \<noteq> None then (g, Some (GraphErr errDuplicateID))
      else (g\<lparr>byID := AList.update (ID v) v (byID g)\<rparr>, None))"

definition Connect :: "bytes \<Rightarrow> bytes \<Rightarrow> Graph \<Rightarrow> Graph \<times> go_error option" where
  "Connect from to g =
     (if map_of (byID g) from = None then (g, Some (GraphErr errUnknownVertex))
      else if map_of (byID g) to = None then (g, Some (GraphErr errUnknownVertex))
      else if List.member (outE g from) to then (g, Some (GraphErr errDuplicateEdge))
      else (g\<lparr>outE := (outE g)(from := outE g from @ [to]),
              inE := (inE g)(to := inE g to @ [from])\<rparr>, None))"

definition Downstream :: "Graph \<Rightarrow> bytes \<Rightarrow> bytes list" where
  "Downstream g i = sort (outE g i)"

definition sortedIDs :: "Graph \<Rightarrow> bytes list" where
  "sortedIDs g = sort (map fst (byID g))"

section \<open>Kahn's algorithm\<close>

fun relax :: "bytes list \<Rightarrow> (bytes \<Rightarrow> int) \<Rightarrow> bytes list \<Rightarrow> (bytes \<Rightarrow> int) \<times> bytes list" where
  "relax [] indeg ready = (indeg, ready)"
| "relax (to # ts) indeg ready =
     (let indeg' = indeg(to := indeg to - 1)
      in relax ts indeg' (if indeg' to = 0 then ready @ [to] else ready))"

text \<open>The loop over \<open>ready\<close>. Each turn emits one vertex; \<open>None\<close> is a loop that has not ended
  after as many turns as the fuel.\<close>

fun kahnLoop :: "nat \<Rightarrow> Graph \<Rightarrow> (bytes \<Rightarrow> int) \<Rightarrow> bytes list \<Rightarrow> Vertex list \<Rightarrow> ((bytes \<Rightarrow> int) \<times> Vertex list) option" where
  "kahnLoop fuel g indeg ready order =
     (case sort ready of
        [] \<Rightarrow> Some (indeg, order)
      | i # rest \<Rightarrow>
          (case fuel of
             0 \<Rightarrow> None
           | Suc fuel' \<Rightarrow>
               (case relax (Downstream g i) indeg rest of
                  (indeg', ready') \<Rightarrow> kahnLoop fuel' g indeg' ready' (order @ [vertexOf g i]))))"

declare kahnLoop.simps [simp del]

definition kahn :: "Graph \<Rightarrow> Vertex list result option" where
  "kahn g =
     (let ids = sortedIDs g;
          indeg = (\<lambda>i. if List.member ids i then int (length (inE g i)) else 0);
          ready = filter (\<lambda>i. indeg i = 0) ids
      in case kahnLoop (length (byID g)) g indeg ready [] of
           None \<Rightarrow> None
         | Some (indeg', order) \<Rightarrow>
             if length order \<noteq> length (byID g)
             then Some (Inl (GraphErr (errCycle (sort (filter (\<lambda>i. 0 < indeg' i) ids)))))
             else Some (Inr order))"

section \<open>Validation\<close>

definition maxParallelism :: int64 where
  "maxParallelism = 256"

definition checkSourceSettings :: "Vertex \<Rightarrow> go_error option" where
  "checkSourceSettings v =
     (if MaxOutOfOrderness v <s 0 then Some (GraphErr errNegativeOutOfOrderness)
      else if VKind v \<noteq> VertexSource then
        if WatermarkIntervalElements v \<noteq> 0 then Some (GraphErr errWatermarkOnNonSource)
        else if MaxOutOfOrderness v \<noteq> 0 then Some (GraphErr errWatermarkOnNonSource)
        else if BarrierIntervalElements v \<noteq> 0 then Some (GraphErr errBarrierOnNonSource)
        else None
      else if WatermarkIntervalElements v <s 1 then Some (GraphErr errWatermarkIntervalUnset)
      else if BarrierIntervalElements v <s 1 then Some (GraphErr errBarrierIntervalUnset)
      else None)"

definition checkFactories :: "Vertex \<Rightarrow> go_error option" where
  "checkFactories v =
     (let set = of_bool (NewSource v \<noteq> None) + of_bool (NewOperator v \<noteq> None) + of_bool (NewSink v \<noteq> None);
          rest = (\<lambda>matching. if \<not> matching then Some (GraphErr errMissingFactory)
            else if set \<noteq> (1::nat) then Some (GraphErr errExtraFactory) else None)
      in case VKind v of
           VertexSource \<Rightarrow> rest (NewSource v \<noteq> None)
         | VertexOperator \<Rightarrow> rest (NewOperator v \<noteq> None)
         | VertexSink \<Rightarrow> rest (NewSink v \<noteq> None)
         | VertexOther _ \<Rightarrow> Some (GraphErr errUnknownKind))"

text \<open>The body of the loop of \<open>Validate\<close> for one vertex, after the configuration checks: the
  edges its kind allows.\<close>

definition checkEdges :: "Graph \<Rightarrow> bytes \<Rightarrow> go_error option" where
  "checkEdges g i =
     (let no_in = inE g i = []; no_out = outE g i = [];
          rest = (if no_in \<and> no_out then Some (GraphErr errDisconnected) else None)
      in case VKind (vertexOf g i) of
           VertexSource \<Rightarrow> if \<not> no_in then Some (GraphErr errSourceHasInbound) else rest
         | VertexSink \<Rightarrow> if \<not> no_out then Some (GraphErr errSinkHasOutbound) else rest
         | VertexOperator \<Rightarrow>
             if no_in then Some (GraphErr errOperatorNoInput)
             else if no_out then Some (GraphErr errOperatorNoOutput) else rest
         | VertexOther _ \<Rightarrow> rest)"

definition checkVertex :: "Graph \<Rightarrow> bytes \<Rightarrow> go_error option" where
  "checkVertex g i =
     (let v = vertexOf g i
      in if Parallelism v <s 1 then Some (GraphErr errParallelismTooLow)
         else if maxParallelism <s Parallelism v then Some (GraphErr errParallelismTooHigh)
         else case checkFactories v of
             Some e \<Rightarrow> Some e
           | None \<Rightarrow> (case checkSourceSettings v of Some e \<Rightarrow> Some e | None \<Rightarrow> checkEdges g i))"

fun checkVertices :: "Graph \<Rightarrow> bytes list \<Rightarrow> nat \<Rightarrow> nat \<Rightarrow> go_error + (nat \<times> nat)" where
  "checkVertices g [] sources sinks = Inr (sources, sinks)"
| "checkVertices g (i # is) sources sinks =
     (case checkVertex g i of
        Some e \<Rightarrow> Inl e
      | None \<Rightarrow> checkVertices g is
          (sources + of_bool (VKind (vertexOf g i) = VertexSource))
          (sinks + of_bool (VKind (vertexOf g i) = VertexSink)))"

definition Validate :: "Graph \<Rightarrow> go_error option option" where
  "Validate g =
     (case checkVertices g (sortedIDs g) 0 0 of
        Inl e \<Rightarrow> Some (Some e)
      | Inr (sources, sinks) \<Rightarrow>
          if sources = 0 then Some (Some (GraphErr errNoSource))
          else if sinks = 0 then Some (Some (GraphErr errNoSink))
          else (case kahn g of None \<Rightarrow> None | Some (Inl e) \<Rightarrow> Some (Some e) | Some (Inr _) \<Rightarrow> Some None))"

definition TopoOrder :: "Graph \<Rightarrow> Vertex list result option" where
  "TopoOrder g =
     (case Validate g of
        None \<Rightarrow> None
      | Some (Some e) \<Rightarrow> Some (Inl e)
      | Some None \<Rightarrow> kahn g)"

section \<open>The invariant of construction\<close>

definition ids :: "Graph \<Rightarrow> bytes set" where
  "ids g = fst ` set (byID g)"

definition edges :: "Graph \<Rightarrow> (bytes \<times> bytes) set" where
  "edges g = {(u, v). v \<in> set (outE g u)}"

definition graph_inv :: "Graph \<Rightarrow> bool" where
  "graph_inv g \<longleftrightarrow> distinct (map fst (byID g)) \<and> (\<forall>(i, v) \<in> set (byID g). i \<noteq> [] \<and> ID v = i) \<and>
     edges g \<subseteq> ids g \<times> ids g \<and> (\<forall>u v. u \<in> set (inE g v) \<longleftrightarrow> v \<in> set (outE g u)) \<and>
     (\<forall>u. distinct (outE g u) \<and> distinct (inE g u))"

lemma map_of_None_ids [simp]: "map_of (byID g) i = None \<longleftrightarrow> i \<notin> ids g"
  by (simp add: map_of_eq_None_iff ids_def)

lemma graph_inv_New: "graph_inv New"
  by (simp add: graph_inv_def New_def edges_def)

lemma update_new: "k \<notin> fst ` set al \<Longrightarrow> AList.update k v al = al @ [(k, v)]"
  by (induction al) auto

lemma AddVertex_ok:
  assumes "graph_inv g" "ID v \<noteq> []" "ID v \<notin> ids g"
  shows "AddVertex v g = (g\<lparr>byID := byID g @ [(ID v, v)]\<rparr>, None)"
  using assms by (simp add: AddVertex_def) (simp add: ids_def update_new)

lemma graph_inv_AddVertex:
  assumes "graph_inv g"
  shows "graph_inv (fst (AddVertex v g))"
proof (cases "ID v = [] \<or> ID v \<in> ids g")
  case False
  with assms show ?thesis
    by (auto simp: AddVertex_ok graph_inv_def edges_def ids_def)
qed (use assms in \<open>auto simp: AddVertex_def\<close>)

lemma ids_edges_update [simp]: "ids (g\<lparr>outE := a, inE := b\<rparr>) = ids g"
  by (simp add: ids_def)

lemma edges_Connect:
  "edges (g\<lparr>outE := (outE g)(u := outE g u @ [v]), inE := b\<rparr>) = insert (u, v) (edges g)"
  by (auto simp: edges_def split: if_splits)

lemma graph_inv_Connect:
  assumes "graph_inv g"
  shows "graph_inv (fst (Connect u v g))"
proof (cases "u \<in> ids g \<and> v \<in> ids g \<and> v \<notin> set (outE g u)")
  case True
  then have "u \<notin> set (inE g v)" using assms by (simp add: graph_inv_def)
  with True assms show ?thesis
    by (auto simp: Connect_def graph_inv_def edges_Connect)
qed (use assms in \<open>auto simp: Connect_def\<close>)

section \<open>The order Kahn's algorithm finds\<close>

lemma relax_eq:
  assumes "distinct ts"
  shows "relax ts indeg ready =
    ((\<lambda>v. indeg v - of_bool (v \<in> set ts)), ready @ filter (\<lambda>v. indeg v = 1) ts)"
  using assms
proof (induction ts arbitrary: indeg ready)
  case (Cons t ts)
  have "filter (\<lambda>v. (indeg(t := indeg t - 1)) v = 1) ts = filter (\<lambda>v. indeg v = 1) ts"
    using Cons.prems by (intro filter_cong) auto
  with Cons show ?case by (auto simp: Let_def fun_eq_iff)
qed (simp add: fun_eq_iff)

text \<open>Every predecessor of a vertex of the list comes before it.\<close>

definition ordered :: "Graph \<Rightarrow> bytes list \<Rightarrow> bool" where
  "ordered g xs \<longleftrightarrow> (\<forall>k < length xs. set (inE g (xs ! k)) \<subseteq> set (take k xs))"

lemma ordered_snoc: "ordered g xs \<Longrightarrow> set (inE g x) \<subseteq> set xs \<Longrightarrow> ordered g (xs @ [x])"
  by (auto simp: ordered_def nth_append less_Suc_eq)

definition kahn_inv :: "Graph \<Rightarrow> bytes list \<Rightarrow> (bytes \<Rightarrow> int) \<Rightarrow> bytes list \<Rightarrow> bool" where
  "kahn_inv g emitted indeg ready \<longleftrightarrow>
     distinct (emitted @ ready) \<and> set (emitted @ ready) \<subseteq> ids g \<and> ordered g emitted \<and>
     (\<forall>v \<in> ids g. indeg v = int (length (filter (\<lambda>u. u \<notin> set emitted) (inE g v)))) \<and>
     (\<forall>v \<in> ids g. indeg v = 0 \<longleftrightarrow> v \<in> set (emitted @ ready))"

lemma filter_notin_insert:
  assumes "distinct us"
  shows "int (length (filter (\<lambda>u. u \<notin> insert x A) us)) =
    int (length (filter (\<lambda>u. u \<notin> A) us)) - of_bool (x \<in> set us \<and> x \<notin> A)"
  using assms
proof (induction us)
  case (Cons u us)
  then show ?case by (cases "u = x") auto
qed simp

lemma kahn_inv_step:
  assumes inv: "graph_inv g" and k: "kahn_inv g emitted indeg ready" and s: "sort ready = i # rest"
    and r: "relax (Downstream g i) indeg rest = (indeg', ready')"
  shows "kahn_inv g (emitted @ [i]) indeg' ready'"
proof -
  have set_r: "set ready = insert i (set rest)" "distinct (i # rest) = distinct ready"
    using s by (metis list.simps(15) set_sort, metis distinct_sort)
  have i: "i \<in> ids g" "i \<notin> set emitted" "distinct (emitted @ i # rest)"
    using k set_r by (auto simp: kahn_inv_def)
  have r': "indeg' = (\<lambda>v. indeg v - of_bool (v \<in> set (outE g i)))"
    "ready' = rest @ filter (\<lambda>v. indeg v = 1) (sort (outE g i))"
    using r inv relax_eq [of "Downstream g i"] by (auto simp: Downstream_def graph_inv_def)
  have in0: "set (inE g i) \<subseteq> set emitted"
    using k i(1) set_r by (auto simp: kahn_inv_def filter_empty_conv)
  have deg: "indeg' v = int (length (filter (\<lambda>u. u \<notin> set (emitted @ [i])) (inE g v)))" if "v \<in> ids g" for v
    using that k inv i(2) filter_notin_insert [of "inE g v" i "set emitted"]
    by (auto simp: r' kahn_inv_def graph_inv_def)
  have pos: "indeg v \<noteq> 0" if "v \<in> set (outE g i)" for v
  proof -
    have "i \<in> set (inE g v)" "v \<in> ids g" using that inv by (auto simp: graph_inv_def edges_def)
    then show ?thesis using k i(2) by (auto simp: kahn_inv_def filter_empty_conv)
  qed
  have zero: "indeg' v = 0 \<longleftrightarrow> v \<in> set ((emitted @ [i]) @ ready')" if "v \<in> ids g" for v
  proof -
    have "indeg v = 0 \<longleftrightarrow> v \<in> set (emitted @ i # rest)" using that k set_r by (auto simp: kahn_inv_def)
    then show ?thesis using pos [of v] by (cases "v \<in> set (outE g i)") (auto simp: r')
  qed
  have "set (outE g i) \<subseteq> ids g" using inv by (auto simp: graph_inv_def edges_def)
  moreover have "v \<notin> set (emitted @ i # rest)" if "v \<in> set (outE g i)" for v
    using pos [OF that] that k set_r calculation by (auto simp: kahn_inv_def)
  ultimately have "distinct ((emitted @ [i]) @ ready')" "set ((emitted @ [i]) @ ready') \<subseteq> ids g"
    using i k set_r inv by (auto simp: r' kahn_inv_def graph_inv_def)
  with deg zero ordered_snoc [OF _ in0] k show ?thesis by (simp add: kahn_inv_def)
qed

lemma kahnLoop_ends:
  assumes "graph_inv g" "kahn_inv g emitted indeg ready" "length (byID g) \<le> fuel + length emitted"
  shows "\<exists>emitted' indeg'. kahnLoop fuel g indeg ready (map (vertexOf g) emitted) =
      Some (indeg', map (vertexOf g) emitted') \<and> kahn_inv g emitted' indeg' []"
  using assms(2,3)
proof (induction fuel arbitrary: emitted indeg ready)
  case 0
  have "ready = []"
  proof (rule ccontr)
    assume "ready \<noteq> []"
    have "length (emitted @ ready) = card (set (emitted @ ready))"
      using 0 by (metis distinct_card kahn_inv_def)
    also have "\<dots> \<le> card (ids g)"
      using 0 by (intro card_mono) (auto simp: kahn_inv_def ids_def)
    also have "\<dots> \<le> length (byID g)" by (metis card_length ids_def length_map set_map)
    finally show False using 0 \<open>ready \<noteq> []\<close> by (cases ready) auto
  qed
  with 0 show ?case by (auto simp: kahnLoop.simps)
next
  case (Suc fuel)
  show ?case
  proof (cases "sort ready")
    case Nil
    then have "ready = []" by (metis set_empty set_sort)
    with Suc.prems show ?thesis by (auto simp: kahnLoop.simps)
  next
    case (Cons i rest)
    obtain indeg' ready' where r: "relax (Downstream g i) indeg rest = (indeg', ready')"
      by (cases "relax (Downstream g i) indeg rest")
    from Suc.IH [OF kahn_inv_step [OF assms(1) Suc.prems(1) Cons r]] Suc.prems(2) Cons r
    show ?thesis by (simp add: kahnLoop.simps)
  qed
qed

lemma set_sortedIDs [simp]: "set (sortedIDs g) = ids g" "distinct (sortedIDs g) = distinct (map fst (byID g))"
  by (simp_all add: sortedIDs_def ids_def)

lemma kahn_inv_init:
  assumes "graph_inv g"
  defines "indeg \<equiv> \<lambda>i. if List.member (sortedIDs g) i then int (length (inE g i)) else 0"
  shows "kahn_inv g [] indeg (filter (\<lambda>i. indeg i = 0) (sortedIDs g))"
  using assms(1) by (auto simp: kahn_inv_def indeg_def ordered_def graph_inv_def)

lemma kahn_cases:
  assumes inv: "graph_inv g"
  obtains (order) emitted where "kahn g = Some (Inr (map (vertexOf g) emitted))" "distinct emitted"
      "set emitted = ids g" "ordered g emitted"
  | (cycle) left where "kahn g = Some (Inl (GraphErr (errCycle left)))" "left \<noteq> []" "set left \<subseteq> ids g"
      "\<And>v. v \<in> set left \<Longrightarrow> \<exists>u \<in> set left. (u, v) \<in> edges g"
proof -
  let ?indeg = "\<lambda>i. if List.member (sortedIDs g) i then int (length (inE g i)) else 0"
  obtain emitted indeg where l: "kahnLoop (length (byID g)) g ?indeg
      (filter (\<lambda>i. ?indeg i = 0) (sortedIDs g)) [] = Some (indeg, map (vertexOf g) emitted)"
    "kahn_inv g emitted indeg []"
    using kahnLoop_ends [OF inv kahn_inv_init [OF inv], of "length (byID g)"] by auto
  have card: "length (byID g) = card (ids g)" "length emitted = card (set emitted)"
    using inv l(2) distinct_card [of "map fst (byID g)"] distinct_card [of emitted]
    by (simp_all add: graph_inv_def kahn_inv_def ids_def)
  have sub: "set emitted \<subseteq> ids g" and fin: "finite (ids g)" using l(2) by (auto simp: kahn_inv_def ids_def)
  show thesis
  proof (cases "length emitted = length (byID g)")
    case True
    then have "set emitted = ids g" using card sub fin by (metis card_subset_eq)
    with True l show thesis by (intro order [of emitted]) (auto simp: kahn_def kahn_inv_def Let_def)
  next
    case False
    then have "set emitted \<noteq> ids g" using card by auto
    then obtain w where w: "w \<in> ids g" "w \<notin> set emitted" using sub by blast
    let ?left = "sort (filter (\<lambda>i. 0 < indeg i) (sortedIDs g))"
    have left: "v \<in> set ?left \<longleftrightarrow> v \<in> ids g \<and> v \<notin> set emitted" for v
      using l(2) by (auto simp: kahn_inv_def)
    show thesis
    proof (rule cycle [of ?left])
      show "kahn g = Some (Inl (GraphErr (errCycle ?left)))" using False l by (simp add: kahn_def Let_def)
      have "w \<in> set ?left" using left w by blast
      then show "?left \<noteq> []" by (metis empty_iff empty_set)
      show "set ?left \<subseteq> ids g" using left by blast
      fix v assume "v \<in> set ?left"
      then have "v \<in> ids g" "indeg v \<noteq> 0" using left [of v] by auto
      then obtain u where "u \<in> set (inE g v)" "u \<notin> set emitted"
        using l(2) by (auto simp: kahn_inv_def filter_empty_conv)
      then have "(u, v) \<in> edges g" "u \<in> set ?left"
        using left [of u] inv by (auto simp: graph_inv_def edges_def)
      then show "\<exists>u \<in> set ?left. (u, v) \<in> edges g" by blast
    qed
  qed
qed

lemma finite_edges: "graph_inv g \<Longrightarrow> finite (edges g)"
  by (rule finite_subset [of _ "ids g \<times> ids g"]) (auto simp: graph_inv_def ids_def)

text \<open>A set in which every vertex has a predecessor holds a cycle; a list in which every vertex
  comes after its predecessors excludes one.\<close>

lemma closed_not_acyclic:
  assumes "graph_inv g" "left \<noteq> []" "\<And>v. v \<in> set left \<Longrightarrow> \<exists>u \<in> set left. (u, v) \<in> edges g"
  shows "\<not> acyclic (edges g)"
proof
  assume "acyclic (edges g)"
  then have "wf (edges g)" using finite_edges [OF assms(1)] by (rule finite_acyclic_wf [rotated])
  then obtain z where "z \<in> set left" "\<forall>y. (y, z) \<in> edges g \<longrightarrow> y \<notin> set left"
    using assms(2) by (metis last_in_set wf_eq_minimal)
  then show False using assms(3) by blast
qed

lemma ordered_edge:
  assumes "graph_inv g" "ordered g xs" "k < length xs" "(u, xs ! k) \<in> edges g"
  shows "\<exists>j < k. xs ! j = u"
proof -
  have "u \<in> set (inE g (xs ! k))" using assms(1,4) by (simp add: graph_inv_def edges_def)
  then have "u \<in> set (take k xs)" using assms(2,3) by (auto simp: ordered_def)
  with assms(3) show ?thesis by (auto simp: in_set_conv_nth)
qed

lemma ordered_acyclic:
  assumes inv: "graph_inv g" and xs: "ordered g xs" "set xs = ids g" "distinct xs"
  shows "acyclic (edges g)"
proof -
  have idx: "\<exists>i j. i < j \<and> j < length xs \<and> xs ! i = u \<and> xs ! j = v" if "(u, v) \<in> (edges g)\<^sup>+" for u v
    using that
  proof (induction rule: trancl_induct)
    case (base v)
    then have "v \<in> set xs" using inv xs(2) by (auto simp: graph_inv_def)
    then show ?case using base ordered_edge [OF inv xs(1)] by (metis in_set_conv_nth)
  next
    case (step v w)
    then obtain i j where ij: "i < j" "j < length xs" "xs ! i = u" "xs ! j = v" by blast
    have "w \<in> set xs" using step inv xs(2) by (auto simp: graph_inv_def)
    then obtain k where k: "k < length xs" "xs ! k = w" by (metis in_set_conv_nth)
    then obtain j' where "j' < k" "xs ! j' = v" using ordered_edge [OF inv xs(1)] step by metis
    then have "j < k" using xs(3) ij k by (metis nth_eq_iff_index_eq order_less_trans)
    then show ?case using ij k by (intro exI [of _ i] exI [of _ k]) auto
  qed
  show ?thesis
    unfolding acyclic_def using idx xs(3) by (metis nth_eq_iff_index_eq order_less_irrefl order_less_trans)
qed

section \<open>What a valid graph is\<close>

text \<open>The conditions of \<open>Validate\<close>, without the order it checks them in.\<close>

definition well_configured :: "Vertex \<Rightarrow> bool" where
  "well_configured v \<longleftrightarrow> 1 \<le> sint (Parallelism v) \<and> sint (Parallelism v) \<le> 256 \<and>
     (case VKind v of
        VertexSource \<Rightarrow> NewSource v \<noteq> None \<and> NewOperator v = None \<and> NewSink v = None \<and>
          0 \<le> sint (MaxOutOfOrderness v) \<and> 1 \<le> sint (WatermarkIntervalElements v) \<and>
          1 \<le> sint (BarrierIntervalElements v)
      | VertexOperator \<Rightarrow> NewSource v = None \<and> NewOperator v \<noteq> None \<and> NewSink v = None \<and>
          MaxOutOfOrderness v = 0 \<and> WatermarkIntervalElements v = 0 \<and> BarrierIntervalElements v = 0
      | VertexSink \<Rightarrow> NewSource v = None \<and> NewOperator v = None \<and> NewSink v \<noteq> None \<and>
          MaxOutOfOrderness v = 0 \<and> WatermarkIntervalElements v = 0 \<and> BarrierIntervalElements v = 0
      | VertexOther _ \<Rightarrow> False)"

definition well_connected :: "Graph \<Rightarrow> bytes \<Rightarrow> bool" where
  "well_connected g i \<longleftrightarrow>
     ((\<exists>u. (u, i) \<in> edges g) \<longleftrightarrow> VKind (vertexOf g i) \<noteq> VertexSource) \<and>
     ((\<exists>v. (i, v) \<in> edges g) \<longleftrightarrow> VKind (vertexOf g i) \<noteq> VertexSink)"

lemma checkVertex_None:
  assumes "graph_inv g"
  shows "checkVertex g i = None \<longleftrightarrow> well_configured (vertexOf g i) \<and> well_connected g i"
proof -
  have "(u, i) \<in> edges g \<longleftrightarrow> u \<in> set (inE g i)" "(i, v) \<in> edges g \<longleftrightarrow> v \<in> set (outE g i)" for u v
    using assms by (simp_all add: graph_inv_def edges_def)
  then have e: "(\<exists>u. (u, i) \<in> edges g) \<longleftrightarrow> inE g i \<noteq> []" "(\<exists>v. (i, v) \<in> edges g) \<longleftrightarrow> outE g i \<noteq> []"
    by (simp_all add: ex_in_conv)
  show ?thesis
    unfolding checkVertex_def well_configured_def well_connected_def e checkFactories_def
      checkSourceSettings_def checkEdges_def Let_def maxParallelism_def word_sless_alt
    by (cases "VKind (vertexOf g i)"; simp split: option.splits; linarith?)
qed

lemma checkVertices_eq:
  "(\<forall>i \<in> set is. checkVertex g i = None) \<Longrightarrow>
    checkVertices g is a b =
      Inr (a + length (filter (\<lambda>i. VKind (vertexOf g i) = VertexSource) is),
           b + length (filter (\<lambda>i. VKind (vertexOf g i) = VertexSink) is))"
  by (induction "is" arbitrary: a b) auto

lemma checkVertices_Inl:
  "(\<exists>e. checkVertices g is a b = Inl e) \<longleftrightarrow> (\<exists>i \<in> set is. checkVertex g i \<noteq> None)"
  by (induction "is" arbitrary: a b) (auto split: option.splits)

definition valid_graph :: "Graph \<Rightarrow> bool" where
  "valid_graph g \<longleftrightarrow> (\<forall>i \<in> ids g. well_configured (vertexOf g i) \<and> well_connected g i) \<and>
     (\<exists>i \<in> ids g. VKind (vertexOf g i) = VertexSource) \<and>
     (\<exists>i \<in> ids g. VKind (vertexOf g i) = VertexSink) \<and> acyclic (edges g)"

lemma kahn_acyclic:
  assumes "graph_inv g"
  shows "(\<exists>order. kahn g = Some (Inr order)) \<longleftrightarrow> acyclic (edges g)" "kahn g \<noteq> None"
  using assms
  by (cases rule: kahn_cases; use assms ordered_acyclic closed_not_acyclic in \<open>simp; blast\<close>)+

lemma Validate_iff:
  assumes "graph_inv g"
  shows "Validate g = Some None \<longleftrightarrow> valid_graph g" "Validate g \<noteq> None"
proof -
  let ?src = "filter (\<lambda>i. VKind (vertexOf g i) = VertexSource) (sortedIDs g)"
  let ?snk = "filter (\<lambda>i. VKind (vertexOf g i) = VertexSink) (sortedIDs g)"
  have kahn: "(case kahn g of None \<Rightarrow> None | Some (Inl e) \<Rightarrow> Some (Some e) | Some (Inr _) \<Rightarrow> Some None) = Some None
      \<longleftrightarrow> acyclic (edges g)" "kahn g \<noteq> None"
    using kahn_acyclic [OF assms] by (auto split: option.splits sum.splits)
  have "(Validate g = Some None \<longleftrightarrow> valid_graph g) \<and> Validate g \<noteq> None"
  proof (cases "\<forall>i \<in> ids g. checkVertex g i = None")
    case True
    then have "checkVertices g (sortedIDs g) 0 0 = Inr (length ?src, length ?snk)"
      by (simp add: checkVertices_eq)
    moreover have "length ?src = 0 \<longleftrightarrow> \<not> (\<exists>i \<in> ids g. VKind (vertexOf g i) = VertexSource)"
      "length ?snk = 0 \<longleftrightarrow> \<not> (\<exists>i \<in> ids g. VKind (vertexOf g i) = VertexSink)"
      by (auto simp: filter_empty_conv)
    ultimately show ?thesis
      using kahn True checkVertex_None [OF assms]
      by (simp add: Validate_def valid_graph_def split: option.splits sum.splits)
  next
    case False
    then obtain e where "checkVertices g (sortedIDs g) 0 0 = Inl e"
      using checkVertices_Inl [of g "sortedIDs g"] by auto
    with False checkVertex_None [OF assms] show ?thesis by (auto simp: Validate_def valid_graph_def)
  qed
  then show "Validate g = Some None \<longleftrightarrow> valid_graph g" "Validate g \<noteq> None" by blast+
qed

lemma ID_vertexOf: "graph_inv g \<Longrightarrow> i \<in> ids g \<Longrightarrow> ID (vertexOf g i) = i"
  by (auto simp: vertexOf_def graph_inv_def split: option.splits dest: map_of_SomeD)

section \<open>Properties\<close>

text \<open>Every graph built by \<open>New\<close>, \<open>AddVertex\<close> and \<open>Connect\<close> is well formed: whatever the order of
  the calls and whichever of them fail, identifiers are distinct, non-empty and those of their
  vertices, every edge joins two vertices, the inbound and outbound lists describe the same
  edges, and no edge is repeated.\<close>

inductive built :: "Graph \<Rightarrow> bool" where
  "built New"
| "built g \<Longrightarrow> built (fst (AddVertex v g))"
| "built g \<Longrightarrow> built (fst (Connect u v g))"

lemma built_inv: "built g \<Longrightarrow> graph_inv g"
  by (induction rule: built.induct) (simp_all add: graph_inv_New graph_inv_AddVertex graph_inv_Connect)

text \<open>C31. \<open>Validate\<close> decides validity: on every graph that can be built it returns, and it returns nil
  exactly when each vertex has the factory, the parallelism and the settings of its kind,
  sources have no inbound edges and everything else has one, sinks have no outbound edges and
  everything else has one, there is a source and a sink, and the edges have no cycle.\<close>

theorem validate_decides_validity:
  assumes "built g"
  shows "\<exists>r. Validate g = Some r \<and> (r = None \<longleftrightarrow> valid_graph g)"
  using Validate_iff [OF built_inv [OF assms]] by (cases "Validate g") auto

text \<open>A source, an operator and a sink in a row, declared out of order.\<close>

definition example_graph :: Graph where
  "example_graph =
     (let src = zeroVertex\<lparr>ID := [2], VKind := VertexSource, Parallelism := 2, NewSource := Some 0,
            WatermarkIntervalElements := 10, BarrierIntervalElements := 100\<rparr>;
          opr = zeroVertex\<lparr>ID := [1], VKind := VertexOperator, Parallelism := 3, NewOperator := Some 1\<rparr>;
          snk = zeroVertex\<lparr>ID := [3], VKind := VertexSink, Parallelism := 1, NewSink := Some 2\<rparr>
      in fst (Connect [2] [1] (fst (Connect [1] [3]
        (fst (AddVertex snk (fst (AddVertex opr (fst (AddVertex src New))))))))))"

lemma example_built: "built example_graph"
  unfolding example_graph_def Let_def by (intro built.intros)

lemma example_validate: "Validate example_graph = Some None"
  by code_simp

lemma example_graph_vertices:
  "vertexOf example_graph [2] = zeroVertex\<lparr>ID := [2], VKind := VertexSource, Parallelism := 2, NewSource := Some 0,
      WatermarkIntervalElements := 10, BarrierIntervalElements := 100\<rparr>"
  "vertexOf example_graph [1] = zeroVertex\<lparr>ID := [1], VKind := VertexOperator, Parallelism := 3, NewOperator := Some 1\<rparr>"
  "Downstream example_graph [2] = [[1]]"
  by code_simp+

lemma example_graph_ids: "[2] \<in> ids example_graph" "[1] \<in> ids example_graph"
  by code_simp+

theorem validate_decides_validity_witness: "valid_graph example_graph"
  using validate_decides_validity [OF example_built] by (simp add: example_validate)

lemma TopoOrder_spec:
  assumes "built g"
  shows "(\<exists>e. TopoOrder g = Some (Inl e)) \<and> \<not> valid_graph g \<or>
    (\<exists>order. TopoOrder g = Some (Inr order) \<and> valid_graph g \<and>
      distinct (map ID order) \<and> set (map ID order) = ids g \<and> set order = vertexOf g ` ids g \<and>
      (\<forall>u v. v \<in> set (Downstream g u) \<longrightarrow>
        (\<exists>i j. i < j \<and> j < length order \<and> ID (order ! i) = u \<and> ID (order ! j) = v)))"
proof -
  have inv: "graph_inv g" by (rule built_inv [OF assms])
  show ?thesis
  proof (cases "valid_graph g")
    case True
    then have v: "Validate g = Some None" using Validate_iff [OF inv] by blast
    obtain emitted where k: "kahn g = Some (Inr (map (vertexOf g) emitted))" "distinct emitted"
      "set emitted = ids g" "ordered g emitted"
      using inv
    proof (cases rule: kahn_cases)
      case (cycle left)
      then show thesis using True closed_not_acyclic [OF inv] by (auto simp: valid_graph_def)
    qed
    have IDs: "map ID (map (vertexOf g) emitted) = emitted"
      using k(3) ID_vertexOf [OF inv] by (auto intro: map_idI)
    have "\<exists>i j. i < j \<and> j < length emitted \<and> emitted ! i = u \<and> emitted ! j = v" if "v \<in> set (Downstream g u)" for u v
    proof -
      have uv: "(u, v) \<in> edges g" using that by (simp add: Downstream_def edges_def)
      then have "v \<in> set emitted" using inv k(3) by (auto simp: graph_inv_def)
      then show ?thesis using uv ordered_edge [OF inv k(4)] by (metis in_set_conv_nth)
    qed
    moreover have "ID (map (vertexOf g) emitted ! i) = emitted ! i" if "i < length emitted" for i
      using IDs that by (metis length_map nth_map)
    ultimately have "\<forall>u v. v \<in> set (Downstream g u) \<longrightarrow> (\<exists>i j. i < j \<and> j < length (map (vertexOf g) emitted) \<and>
        ID (map (vertexOf g) emitted ! i) = u \<and> ID (map (vertexOf g) emitted ! j) = v)"
      by (metis length_map order_less_trans)
    moreover have "ID ` vertexOf g ` ids g = ids g"
      using ID_vertexOf [OF inv] by (force simp: image_image)
    ultimately show ?thesis using True v k IDs by (simp add: TopoOrder_def)
  next
    case False
    then show ?thesis using Validate_iff [OF inv] by (auto simp: TopoOrder_def)
  qed
qed

text \<open>C30. \<open>TopoOrder\<close> lists a valid graph with every edge forward: on every graph that can be built it
  returns, with an error exactly when the graph is not valid; the order holds each vertex of
  the graph once, and the vertex at the start of an edge comes before the one at its end.\<close>

theorem topo_order_correct:
  assumes "built g"
  shows "(\<exists>e. TopoOrder g = Some (Inl e)) \<and> \<not> valid_graph g \<or>
    (\<exists>order. TopoOrder g = Some (Inr order) \<and> valid_graph g \<and>
      distinct (map ID order) \<and> set (map ID order) = ids g \<and> set order = vertexOf g ` ids g \<and>
      (\<forall>u v. v \<in> set (Downstream g u) \<longrightarrow>
        (\<exists>i j. i < j \<and> j < length order \<and> ID (order ! i) = u \<and> ID (order ! j) = v)))"
  by (rule TopoOrder_spec [OF assms])

theorem topo_order_correct_witness:
  "\<exists>order. TopoOrder example_graph = Some (Inr order) \<and> distinct (map ID order) \<and>
    set (map ID order) = ids example_graph"
proof -
  have "TopoOrder example_graph \<noteq> Some (Inl e)" for e
    by (simp add: TopoOrder_def example_validate split: option.splits)
      (use kahn_acyclic(1) [OF built_inv [OF example_built]] Validate_iff(1) [OF built_inv [OF example_built]]
         example_validate in \<open>auto simp: valid_graph_def\<close>)
  with topo_order_correct [OF example_built] show ?thesis by blast
qed

text \<open>C32. No stage of a valid job is cut off: every vertex of a graph that \<open>Validate\<close> accepts is
  reached by a path from a source and reaches a sink, so every subtask both receives elements
  that end and has its output consumed.\<close>

theorem valid_graph_connected:
  assumes "built g" "Validate g = Some None" "i \<in> ids g"
  shows "(\<exists>s \<in> ids g. VKind (vertexOf g s) = VertexSource \<and> (s, i) \<in> (edges g)\<^sup>*) \<and>
    (\<exists>t \<in> ids g. VKind (vertexOf g t) = VertexSink \<and> (i, t) \<in> (edges g)\<^sup>*)"
proof -
  have inv: "graph_inv g" by (rule built_inv [OF assms(1)])
  have v: "valid_graph g" using Validate_iff [OF inv] assms(2) by blast
  have sub: "edges g \<subseteq> ids g \<times> ids g" using inv by (simp add: graph_inv_def)
  have conn: "well_connected g j" if "j \<in> ids g" for j using v that by (simp add: valid_graph_def)
  have ac: "acyclic (edges g)" using v by (simp add: valid_graph_def)
  have wf: "wf (edges g)" "wf ((edges g)\<inverse>)"
    using finite_acyclic_wf finite_acyclic_wf_converse finite_edges [OF inv] ac by blast+
  have up: "\<exists>s \<in> ids g. VKind (vertexOf g s) = VertexSource \<and> (s, j) \<in> (edges g)\<^sup>*" if "j \<in> ids g" for j
    using wf(1) that
  proof (induction j rule: wf_induct_rule)
    case (less j)
    show ?case
    proof (cases "VKind (vertexOf g j) = VertexSource")
      case False
      then obtain u where "(u, j) \<in> edges g" using conn [OF less.prems] by (auto simp: well_connected_def)
      moreover from this have "u \<in> ids g" using sub by blast
      ultimately show ?thesis using less.IH [of u] by (blast intro: rtrancl.rtrancl_into_rtrancl)
    qed (use less.prems in blast)
  qed
  have down: "\<exists>t \<in> ids g. VKind (vertexOf g t) = VertexSink \<and> (j, t) \<in> (edges g)\<^sup>*" if "j \<in> ids g" for j
    using wf(2) that
  proof (induction j rule: wf_induct_rule)
    case (less j)
    show ?case
    proof (cases "VKind (vertexOf g j) = VertexSink")
      case False
      then obtain u where "(j, u) \<in> edges g" using conn [OF less.prems] by (auto simp: well_connected_def)
      moreover from this have "u \<in> ids g" using sub by blast
      ultimately show ?thesis using less.IH [of u] by (blast intro: converse_rtrancl_into_rtrancl)
    qed (use less.prems in blast)
  qed
  show ?thesis using up down assms(3) by blast
qed

theorem valid_graph_connected_witness:
  "\<exists>s \<in> ids example_graph. VKind (vertexOf example_graph s) = VertexSource \<and> (s, [1]) \<in> (edges example_graph)\<^sup>*"
proof -
  show ?thesis using valid_graph_connected [OF example_built example_validate example_graph_ids(2)] by blast
qed

end
