(* ===== verification/Checkpoint_Format.thy ===== *)
theory Checkpoint_Format
  imports Core_Types
begin

text \<open>
  The file formats of \<open>pkg/checkpoint/storage.go\<close>: the state file of one subtask, the metadata of
  a checkpoint, the checksum both end in, the names of the files, and the comparison of a
  checkpoint with a job. \<open>crc32.ChecksumIEEE\<close> and \<open>strconv\<close> are the standard library's.
\<close>

unbundle bit_operations_syntax

section \<open>Standard library\<close>

text \<open>The reflected CRC-32 of the IEEE polynomial, a bit at a time.\<close>

definition crcBit :: "uint32 \<Rightarrow> uint32" where
  "crcBit c = (if bit c 0 then drop_bit 1 c XOR 0xEDB88320 else drop_bit 1 c)"

definition crcByte :: "byte \<Rightarrow> uint32 \<Rightarrow> uint32" where
  "crcByte b c = (crcBit ^^ 8) (c XOR ucast b)"

definition ChecksumIEEE :: "bytes \<Rightarrow> uint32" where
  "ChecksumIEEE bs = NOT (fold crcByte bs (NOT 0))"

text \<open>\<open>FormatInt(n, 10)\<close>.\<close>

fun digits :: "nat \<Rightarrow> bytes" where
  "digits n = (if n < 10 then [word_of_nat (48 + n)] else digits (n div 10) @ [word_of_nat (48 + n mod 10)])"

declare digits.simps [simp del]

definition FormatInt :: "int64 \<Rightarrow> bytes" where
  "FormatInt n = (if n <s 0 then 45 # digits (nat (- sint n)) else digits (nat (sint n)))"

section \<open>Keys, metadata and names\<close>

definition magic :: bytes where "magic = [0x54, 0x44, 0x4D, 0x4B]"
definition formatVer :: uint16 where "formatVer = 1"
definition metadataVer :: uint16 where "metadataVer = 1"
definition completeName :: bytes where "completeName = map of_char ''_COMPLETE''"
definition metadataName :: bytes where "metadataName = map of_char ''_METADATA''"
definition stateSuffix :: bytes where "stateSuffix = map of_char ''.state''"
definition tempSuffix :: bytes where "tempSuffix = map of_char ''.tmp''"
definition dirPrefix :: bytes where "dirPrefix = map of_char ''chk-''"

record SubtaskKey =
  sk_VertexID :: bytes
  sk_Index :: int64

definition fileName :: "SubtaskKey \<Rightarrow> bytes" where
  "fileName k = sk_VertexID k @ [45] @ FormatInt (sk_Index k) @ stateSuffix"

record VertexMeta =
  vm_ID :: bytes
  vm_Parallelism :: int64
  vm_Count :: int64

record Metadata =
  md_Vertices :: "VertexMeta list"
  md_Seed :: uint64

fun checkVertices_against :: "VertexMeta list \<Rightarrow> VertexMeta list \<Rightarrow> go_error option" where
  "checkVertices_against (got # gs) (exp # es) =
     (if vm_ID got \<noteq> vm_ID exp then Some (CheckpointErr errVertexMismatch)
      else if vm_Parallelism got \<noteq> vm_Parallelism exp then Some (CheckpointErr errParallelismDiff)
      else if vm_Count got \<noteq> vm_Count exp then Some (CheckpointErr errCountDiff)
      else checkVertices_against gs es)"
| "checkVertices_against _ _ = None"

definition CheckAgainst :: "Metadata \<Rightarrow> Metadata \<Rightarrow> go_error option" where
  "CheckAgainst m want =
     (if length (md_Vertices m) \<noteq> length (md_Vertices want) then Some (CheckpointErr errVertexMismatch)
      else checkVertices_against (md_Vertices m) (md_Vertices want))"

definition Subtasks :: "Metadata \<Rightarrow> SubtaskKey list" where
  "Subtasks m = concat (map (\<lambda>v. map (\<lambda>i. \<lparr>sk_VertexID = vm_ID v, sk_Index = word_of_nat i\<rparr>)
     [0..<nat (sint (vm_Parallelism v))]) (md_Vertices m))"

definition checkVertexID :: "bytes \<Rightarrow> go_error option" where
  "checkVertexID i =
     (if i = [] then Some (CheckpointErr errBadVertexID)
      else if i = [46] \<or> i = [46, 46] then Some (CheckpointErr errBadVertexID)
      else if List.member i 47 then Some (CheckpointErr errBadVertexID)
      else if 65535 < length i then Some (CheckpointErr errBadVertexID)
      else None)"

section \<open>Encoding\<close>

definition sealed :: "bytes \<Rightarrow> bytes" where
  "sealed buf = buf @ be_put 4 (ChecksumIEEE buf)"

definition subtaskBody :: "int64 \<Rightarrow> SubtaskKey \<Rightarrow> bytes \<Rightarrow> bytes" where
  "subtaskBody i key payload =
     be_put 8 i @ be_put 2 (word_of_nat (length (sk_VertexID key)) :: uint16) @ sk_VertexID key @
     be_put 4 (ucast (sk_Index key) :: uint32) @ be_put 8 (word_of_nat (length payload) :: uint64) @ payload"

definition encodeSubtaskState :: "int64 \<Rightarrow> SubtaskKey \<Rightarrow> bytes \<Rightarrow> bytes" where
  "encodeSubtaskState i key payload = sealed (magic @ be_put 2 formatVer @ subtaskBody i key payload)"

definition encodeVertex :: "VertexMeta \<Rightarrow> bytes" where
  "encodeVertex v =
     be_put 2 (word_of_nat (length (vm_ID v)) :: uint16) @ vm_ID v @
     be_put 4 (ucast (vm_Parallelism v) :: uint32) @ be_put 8 (vm_Count v)"

definition encodeMetadata :: "Metadata \<Rightarrow> bytes" where
  "encodeMetadata m =
     sealed (magic @ be_put 2 metadataVer @ be_put 8 (md_Seed m) @
       be_put 4 (word_of_nat (length (md_Vertices m)) :: uint32) @ concat (map encodeVertex (md_Vertices m)))"

section \<open>Decoding\<close>

record reader =
  rd_buf :: bytes
  rd_pos :: nat

definition newReader :: "bytes \<Rightarrow> uint16 \<Rightarrow> reader result" where
  "newReader raw wantVersion =
     (if length raw < length magic + 2 + 4 then Inl (CheckpointErr errShortFile)
      else if take (length magic) raw \<noteq> magic then Inl (CheckpointErr errBadMagic)
      else let body = take (length raw - 4) raw; sum = be_get 4 (drop (length raw - 4) raw)
           in if ChecksumIEEE body \<noteq> sum then Inl (CheckpointErr errCRCMismatch)
              else if be_get 2 (drop (length magic) raw) \<noteq> wantVersion then Inl (CheckpointErr errBadVersion)
              else Inr \<lparr>rd_buf = body, rd_pos = length magic + 2\<rparr>)"

definition rd_take :: "nat \<Rightarrow> reader \<Rightarrow> (bytes \<times> reader) result" where
  "rd_take n r =
     (if length (rd_buf r) < rd_pos r + n then Inl (CheckpointErr errShortFile)
      else Inr (take n (drop (rd_pos r) (rd_buf r)), r\<lparr>rd_pos := rd_pos r + n\<rparr>))"

definition rd_uint32 :: "reader \<Rightarrow> (uint32 \<times> reader) result" where
  "rd_uint32 r = (case rd_take 4 r of Inl e \<Rightarrow> Inl e | Inr (b, r') \<Rightarrow> Inr (be_get 4 b, r'))"

definition rd_uint64 :: "reader \<Rightarrow> (uint64 \<times> reader) result" where
  "rd_uint64 r = (case rd_take 8 r of Inl e \<Rightarrow> Inl e | Inr (b, r') \<Rightarrow> Inr (be_get 8 b, r'))"

definition rd_shortString :: "reader \<Rightarrow> (bytes \<times> reader) result" where
  "rd_shortString r =
     (case rd_take 2 r of
        Inl e \<Rightarrow> Inl e
      | Inr (b, r') \<Rightarrow> rd_take (unat (be_get 2 b :: uint16)) r')"

definition rd_bytes :: "uint64 \<Rightarrow> reader \<Rightarrow> bytes result" where
  "rd_bytes n r =
     (if word_of_nat (length (rd_buf r) - rd_pos r) < n then Inl (CheckpointErr errShortFile)
      else case rd_take (unat n) r of
          Inl e \<Rightarrow> Inl e
        | Inr (out, r') \<Rightarrow>
            if rd_pos r' \<noteq> length (rd_buf r') then Inl (CheckpointErr errShortFile) else Inr out)"

definition decodeSubtaskState :: "bytes \<Rightarrow> int64 \<Rightarrow> SubtaskKey \<Rightarrow> bytes result" where
  "decodeSubtaskState raw wantID wantKey =
     (case newReader raw formatVer of
        Inl e \<Rightarrow> Inl e
      | Inr r \<Rightarrow>
     (case rd_uint64 r of
        Inl e \<Rightarrow> Inl e
      | Inr (i, r) \<Rightarrow>
          if i \<noteq> wantID then Inl (CheckpointErr errWrongCheckpoint)
          else
     (case rd_shortString r of
        Inl e \<Rightarrow> Inl e
      | Inr (vertexID, r) \<Rightarrow>
     (case rd_uint32 r of
        Inl e \<Rightarrow> Inl e
      | Inr (index, r) \<Rightarrow>
          if vertexID \<noteq> sk_VertexID wantKey \<or> ucast index \<noteq> sk_Index wantKey
          then Inl (CheckpointErr errWrongSubtask)
          else
     (case rd_uint64 r of
        Inl e \<Rightarrow> Inl e
      | Inr (payloadLen, r) \<Rightarrow> rd_bytes payloadLen r)))))"

primrec decodeVertices :: "nat \<Rightarrow> reader \<Rightarrow> VertexMeta list result" where
  "decodeVertices 0 r = Inr []"
| "decodeVertices (Suc n) r =
     (case rd_shortString r of
        Inl e \<Rightarrow> Inl e
      | Inr (i, r) \<Rightarrow>
     (case rd_uint32 r of
        Inl e \<Rightarrow> Inl e
      | Inr (parallelism, r) \<Rightarrow>
     (case rd_uint64 r of
        Inl e \<Rightarrow> Inl e
      | Inr (cnt, r) \<Rightarrow>
     (case decodeVertices n r of
        Inl e \<Rightarrow> Inl e
      | Inr vs \<Rightarrow> Inr (\<lparr>vm_ID = i, vm_Parallelism = ucast parallelism, vm_Count = cnt\<rparr> # vs)))))"

definition decodeMetadata :: "bytes \<Rightarrow> Metadata result" where
  "decodeMetadata raw =
     (case newReader raw metadataVer of
        Inl e \<Rightarrow> Inl e
      | Inr r \<Rightarrow>
     (case rd_uint64 r of
        Inl e \<Rightarrow> Inl e
      | Inr (seed, r) \<Rightarrow>
     (case rd_uint32 r of
        Inl e \<Rightarrow> Inl e
      | Inr (n, r) \<Rightarrow>
     (case decodeVertices (unat n) r of
        Inl e \<Rightarrow> Inl e
      | Inr vs \<Rightarrow> Inr \<lparr>md_Vertices = vs, md_Seed = seed\<rparr>))))"

section \<open>Reading back what was written\<close>

text \<open>A reader with \<open>bs\<close> still to read.\<close>

definition at :: "bytes \<Rightarrow> reader \<Rightarrow> bool" where
  "at bs r \<longleftrightarrow> rd_pos r \<le> length (rd_buf r) \<and> drop (rd_pos r) (rd_buf r) = bs"

lemma rd_take_at:
  assumes "at (xs @ bs) r" "n = length xs"
  shows "\<exists>r'. rd_take n r = Inr (xs, r') \<and> at bs r'"
proof -
  have d: "drop (rd_pos r) (rd_buf r) = xs @ bs" "rd_pos r \<le> length (rd_buf r)" using assms by (simp_all add: at_def)
  then have "length (rd_buf r) - rd_pos r = length xs + length bs" by (metis length_append length_drop)
  moreover have "drop (rd_pos r + length xs) (rd_buf r) = bs"
    using d(1) by (metis append_eq_conv_conj drop_drop add.commute)
  ultimately show ?thesis using d assms(2) by (auto simp: rd_take_def at_def)
qed

lemma rd_uint32_at: "at (be_put 4 w @ bs) r \<Longrightarrow> \<exists>r'. rd_uint32 r = Inr (w, r') \<and> at bs r'"
  using rd_take_at [of "be_put 4 w" bs r 4] by (auto simp: rd_uint32_def)

lemma rd_uint64_at: "at (be_put 8 w @ bs) r \<Longrightarrow> \<exists>r'. rd_uint64 r = Inr (w, r') \<and> at bs r'"
  using rd_take_at [of "be_put 8 w" bs r 8] by (auto simp: rd_uint64_def)

lemma rd_shortString_at:
  assumes "at (be_put 2 (word_of_nat (length s) :: uint16) @ s @ bs) r" "length s \<le> 65535"
  shows "\<exists>r'. rd_shortString r = Inr (s, r') \<and> at bs r'"
proof -
  obtain r1 where "rd_take 2 r = Inr (be_put 2 (word_of_nat (length s) :: uint16), r1)" "at (s @ bs) r1"
    using rd_take_at [OF assms(1), of 2] by auto
  moreover have "unat (word_of_nat (length s) :: uint16) = length s"
    using assms(2) by (simp add: unat_of_nat take_bit_nat_eq_self)
  ultimately show ?thesis using rd_take_at [of s bs r1 "length s"] by (simp add: rd_shortString_def)
qed

lemma rd_bytes_at:
  assumes "at bs r" "length (rd_buf r) < 2 ^ 64"
  shows "rd_bytes (word_of_nat (length bs)) r = Inr bs"
proof -
  have l: "length (rd_buf r) - rd_pos r = length bs" using assms(1) by (auto simp: at_def)
  have "unat (word_of_nat (length bs) :: uint64) = length bs"
    using assms(2) l by (simp add: unat_of_nat take_bit_nat_eq_self)
  moreover obtain r' where "rd_take (length bs) r = Inr (bs, r')" "at [] r'"
    using rd_take_at [of bs "[]" r "length bs"] assms(1) by auto
  ultimately show ?thesis using l by (auto simp: rd_bytes_def at_def)
qed

lemma length_magic [simp]: "length magic = 4"
  by (simp add: magic_def)

lemma newReader_sealed:
  assumes "length body < 2 ^ 60"
  shows "\<exists>r. newReader (sealed (magic @ be_put 2 v @ body)) v = Inr r \<and> at body r \<and>
    length (rd_buf r) < 2 ^ 64"
proof -
  let ?buf = "magic @ be_put 2 v @ body"
  have raw: "length (sealed ?buf) - 4 = length ?buf" "take (length ?buf) (sealed ?buf) = ?buf"
    "drop (length ?buf) (sealed ?buf) = be_put 4 (ChecksumIEEE ?buf)"
    "drop 4 (sealed ?buf) = be_put 2 v @ body @ be_put 4 (ChecksumIEEE ?buf)"
    "take 4 (sealed ?buf) = magic" "\<not> length (sealed ?buf) < 4 + 2 + 4"
    by (simp_all add: sealed_def)
  show ?thesis
    unfolding newReader_def length_magic raw(1-5) Let_def using raw(6) assms by (simp add: at_def)
qed

lemma newReader_refuses:
  assumes "newReader raw v = Inr r"
  shows "\<not> length raw < 10" "ChecksumIEEE (take (length raw - 4) raw) = be_get 4 (drop (length raw - 4) raw)"
  using assms by (auto simp: newReader_def Let_def split: if_splits)

section \<open>What the checksum catches\<close>

lemma xor_cancel:
  fixes a b x :: "'a::len word"
  shows "a XOR x = b XOR x \<longleftrightarrow> a = b" "x XOR a = x XOR b \<longleftrightarrow> a = b"
proof -
  have "(y XOR x) XOR x = y" for y :: "'a word" by (simp add: xor.assoc)
  then show "a XOR x = b XOR x \<longleftrightarrow> a = b" by metis
  then show "x XOR a = x XOR b \<longleftrightarrow> a = b" by (simp only: xor.commute [of x])
qed

lemma bit_poly: "bit (0xEDB88320 :: uint32) 31" "\<not> bit (drop_bit 1 (c :: uint32)) 31"
  by (simp, auto simp: bit_drop_bit_eq dest: bit_imp_le_length)

lemma crcBit_inj: "inj crcBit"
proof (rule injI)
  fix c d :: uint32
  assume e: "crcBit c = crcBit d"
  have top: "bit (crcBit x) 31 \<longleftrightarrow> bit x 0" for x
    using bit_poly by (auto simp: crcBit_def bit_xor_iff)
  have b0: "bit c 0 \<longleftrightarrow> bit d 0" using top [of c] top [of d] e by simp
  then have "drop_bit 1 c = drop_bit 1 d"
    using e by (auto simp: crcBit_def xor_cancel split: if_splits)
  then have "bit (drop_bit 1 c) n \<longleftrightarrow> bit (drop_bit 1 d) n" for n by simp
  then have "bit c (Suc n) \<longleftrightarrow> bit d (Suc n)" for n by (simp add: bit_drop_bit_eq)
  then have "bit c n \<longleftrightarrow> bit d n" for n using b0 by (cases n) auto
  then show "c = d" by (intro bit_eqI) simp
qed

lemma crcByte_inj: "inj (crcByte b)"
proof -
  have "inj (crcBit ^^ 8)" using crcBit_inj by (rule inj_fn)
  then have "x XOR ucast b = y XOR ucast b" if "crcByte b x = crcByte b y" for x y
    using that by (auto simp: crcByte_def dest: injD)
  then show ?thesis by (auto simp: inj_def xor_cancel)
qed

lemma crcByte_inj2: "crcByte a c = crcByte b c \<Longrightarrow> a = b"
proof -
  assume "crcByte a c = crcByte b c"
  then have "c XOR ucast a = c XOR ucast b"
    using inj_fn [OF crcBit_inj, of 8] by (auto simp: crcByte_def inj_def)
  then have "(ucast a :: uint32) = ucast b" by (simp only: xor_cancel)
  moreover have "unat (ucast x :: uint32) = unat x" for x :: byte
    using unsigned_less [of x, where ?'a = nat] by (simp add: unsigned_ucast_eq take_bit_nat_eq_self)
  ultimately show "a = b" by (metis word_unat_eq_iff)
qed

lemma fold_crc_inj: "fold crcByte bs c = fold crcByte bs d \<Longrightarrow> c = d"
  by (induction bs arbitrary: c d) (auto dest: injD [OF crcByte_inj])

text \<open>Two messages that differ in one byte have different checksums.\<close>

lemma checksum_one_byte:
  assumes "a \<noteq> b"
  shows "ChecksumIEEE (xs @ a # ys) \<noteq> ChecksumIEEE (xs @ b # ys)"
proof
  assume "ChecksumIEEE (xs @ a # ys) = ChecksumIEEE (xs @ b # ys)"
  then have "fold crcByte ys (crcByte a (fold crcByte xs (NOT 0))) =
      fold crcByte ys (crcByte b (fold crcByte xs (NOT 0)))"
    by (simp only: ChecksumIEEE_def bit.compl_eq_compl_iff fold_append fold_simps comp_apply)
  with assms show False using fold_crc_inj crcByte_inj2 by blast
qed

lemma be32_get_inj: "length xs = 4 \<Longrightarrow> length ys = 4 \<Longrightarrow> be_get 4 xs = (be_get 4 ys :: uint32) \<Longrightarrow> xs = ys"
proof -
  assume l: "length xs = 4" "length ys = 4" and e: "be_get 4 xs = (be_get 4 ys :: uint32)"
  have "be_put 4 (be_get 4 xs :: uint32) = xs" "be_put 4 (be_get 4 ys :: uint32) = ys"
    by (simp_all add: be_put_get l)
  then show ?thesis using e by (metis (no_types))
qed

lemma newReader_one_byte:
  assumes j: "j < length (sealed buf)" and b: "b \<noteq> sealed buf ! j"
  shows "\<exists>e. newReader ((sealed buf)[j := b]) v = Inl e"
proof -
  let ?raw = "(sealed buf)[j := b]"
  have len: "length ?raw - 4 = length buf" by (simp add: sealed_def)
  have "ChecksumIEEE (take (length buf) ?raw) \<noteq> be_get 4 (drop (length buf) ?raw)"
  proof (cases "j < length buf")
    case True
    then have "?raw = buf[j := b] @ be_put 4 (ChecksumIEEE buf)"
      by (simp add: sealed_def list_update_append)
    then have "take (length buf) ?raw = buf[j := b]" "drop (length buf) ?raw = be_put 4 (ChecksumIEEE buf)"
      by simp_all
    then have "take (length buf) ?raw = take j buf @ b # drop (Suc j) buf"
      "drop (length buf) ?raw = be_put 4 (ChecksumIEEE buf)"
      by (simp_all only: upd_conv_take_nth_drop [OF True])
    moreover have "buf = take j buf @ buf ! j # drop (Suc j) buf" using True by (rule id_take_nth_drop)
    moreover have "buf ! j \<noteq> b" using b True by (simp add: sealed_def nth_append)
    ultimately show ?thesis
      using checksum_one_byte [of b "buf ! j" "take j buf" "drop (Suc j) buf"] by simp
  next
    case False
    let ?s = "be_put 4 (ChecksumIEEE buf)"
    have k: "j - length buf < 4" using j False by (simp add: sealed_def)
    have d: "take (length buf) ?raw = buf" "drop (length buf) ?raw = ?s[j - length buf := b]"
      using False by (simp_all add: sealed_def list_update_append)
    have "?s ! (j - length buf) \<noteq> b" using b False by (simp add: sealed_def nth_append)
    then have "?s[j - length buf := b] \<noteq> ?s" using k by (metis length_be_put nth_list_update_eq)
    then have "be_get 4 (?s[j - length buf := b]) \<noteq> (be_get 4 ?s :: uint32)"
      using be32_get_inj [of "?s[j - length buf := b]" ?s] by auto
    then show ?thesis by (simp add: d)
  qed
  then show ?thesis
    unfolding newReader_def len Let_def by simp
qed

section \<open>Properties\<close>

definition validKey :: "SubtaskKey \<Rightarrow> bool" where
  "validKey k \<longleftrightarrow> checkVertexID (sk_VertexID k) = None \<and> 0 \<le> sint (sk_Index k) \<and> sint (sk_Index k) < 2 ^ 32"

lemma validKey_short: "validKey k \<Longrightarrow> length (sk_VertexID k) \<le> 65535"
  by (auto simp: validKey_def checkVertexID_def split: if_splits)

lemma ucast_index:
  assumes "0 \<le> sint (x :: int64)" "sint x < 2 ^ 32"
  shows "ucast (ucast x :: uint32) = x"
proof -
  have "uint x = sint x" using uint64_of_int [of "sint x"] assms by simp
  then have "uint (ucast (ucast x :: uint32) :: uint64) = uint x"
    using assms by (simp add: unsigned_ucast_eq unsigned_take_bit_eq take_bit_int_eq_self)
  then show ?thesis by (simp add: word_uint_eq_iff)
qed

lemma decode_header:
  assumes "validKey key" "length payload < 2 ^ 59"
  shows "decodeSubtaskState (encodeSubtaskState i key payload) i' key' =
    (if i \<noteq> i' then Inl (CheckpointErr errWrongCheckpoint)
     else if key \<noteq> key' then Inl (CheckpointErr errWrongSubtask) else Inr payload)"
proof -
  have "length (subtaskBody i key payload) < 2 ^ 60"
    using assms validKey_short [OF assms(1)] by (simp add: subtaskBody_def)
  then obtain r where r: "newReader (encodeSubtaskState i key payload) formatVer = Inr r"
    "at (subtaskBody i key payload) r" "length (rd_buf r) < 2 ^ 64"
    using newReader_sealed unfolding encodeSubtaskState_def by blast
  obtain r1 where r1: "rd_uint64 r = Inr (i, r1)"
    "at (be_put 2 (word_of_nat (length (sk_VertexID key)) :: uint16) @ sk_VertexID key @
      be_put 4 (ucast (sk_Index key) :: uint32) @ be_put 8 (word_of_nat (length payload) :: uint64) @ payload) r1"
    using rd_uint64_at r(2) unfolding subtaskBody_def by blast
  obtain r2 where r2: "rd_shortString r1 = Inr (sk_VertexID key, r2)"
    "at (be_put 4 (ucast (sk_Index key) :: uint32) @ be_put 8 (word_of_nat (length payload) :: uint64) @ payload) r2"
    using rd_shortString_at [OF r1(2) validKey_short [OF assms(1)]] by blast
  obtain r3 where r3: "rd_uint32 r2 = Inr (ucast (sk_Index key), r3)"
    "at (be_put 8 (word_of_nat (length payload) :: uint64) @ payload) r3"
    using rd_uint32_at [OF r2(2)] by blast
  obtain r4 where r4: "rd_uint64 r3 = Inr (word_of_nat (length payload), r4)" "at payload r4"
    using rd_uint64_at [OF r3(2)] by blast
  have "rd_buf r4 = rd_buf r"
    using r1(1) r2(1) r3(1) r4(1)
    by (auto simp: rd_uint64_def rd_uint32_def rd_shortString_def rd_take_def split: if_splits sum.splits)
  then have p: "rd_bytes (word_of_nat (length payload)) r4 = Inr payload"
    using rd_bytes_at [OF r4(2)] r(3) by simp
  have idx: "ucast (ucast (sk_Index key) :: uint32) = sk_Index key"
    using assms(1) by (intro ucast_index) (auto simp: validKey_def)
  have key: "(sk_VertexID key \<noteq> sk_VertexID key' \<or> sk_Index key \<noteq> sk_Index key') = (key \<noteq> key')"
    by (cases key; cases key') auto
  show ?thesis
    unfolding decodeSubtaskState_def by (simp add: r r1 r2 r3 r4 p idx key)
qed

text \<open>C39. A state file reads back to its payload, and only for the subtask and the checkpoint it was
  written for: asked for another checkpoint or another subtask, the decoder returns the error
  that says so, never the payload.\<close>

theorem subtask_state_roundtrip:
  assumes "validKey key" "length payload < 2 ^ 59"
  shows "decodeSubtaskState (encodeSubtaskState i key payload) i key = Inr payload \<and>
    (\<forall>i' key'. (i', key') \<noteq> (i, key) \<longrightarrow>
      decodeSubtaskState (encodeSubtaskState i key payload) i' key' =
        Inl (CheckpointErr (if i' \<noteq> i then errWrongCheckpoint else errWrongSubtask)))"
  using decode_header [OF assms] by auto

definition example_key :: SubtaskKey where
  "example_key = \<lparr>sk_VertexID = [97, 45, 98], sk_Index = 3\<rparr>"

lemma example_key_valid: "validKey example_key"
  by (simp add: validKey_def example_key_def checkVertexID_def)

theorem subtask_state_roundtrip_witness:
  "decodeSubtaskState (encodeSubtaskState 7 example_key [1, 2, 3]) 7 example_key = Inr [1, 2, 3] \<and>
    decodeSubtaskState (encodeSubtaskState 7 example_key [1, 2, 3]) 8 example_key =
      Inl (CheckpointErr errWrongCheckpoint)"
  using subtask_state_roundtrip [OF example_key_valid, of "[1, 2, 3]" 7] by auto

text \<open>C40. One corrupted byte is always caught: whichever byte of a state file is changed, the header,
  the payload or the checksum itself, decoding it fails.\<close>

theorem corrupted_byte_detected:
  assumes "j < length (encodeSubtaskState i key payload)" "b \<noteq> encodeSubtaskState i key payload ! j"
  shows "\<exists>e. decodeSubtaskState ((encodeSubtaskState i key payload)[j := b]) i' key' = Inl e"
proof -
  obtain e where "newReader ((encodeSubtaskState i key payload)[j := b]) formatVer = Inl e"
    using newReader_one_byte [OF assms [unfolded encodeSubtaskState_def]] unfolding encodeSubtaskState_def
    by blast
  then show ?thesis by (simp add: decodeSubtaskState_def)
qed

theorem corrupted_byte_detected_witness:
  "\<exists>e. decodeSubtaskState ((encodeSubtaskState 7 example_key [1, 2, 3])[32 := 9]) 7 example_key = Inl e"
proof (rule corrupted_byte_detected)
  show "32 < length (encodeSubtaskState 7 example_key [1, 2, 3])"
    by (simp add: encodeSubtaskState_def sealed_def subtaskBody_def example_key_def)
  show "9 \<noteq> encodeSubtaskState 7 example_key [1, 2, 3] ! 32"
    by (simp add: encodeSubtaskState_def sealed_def subtaskBody_def example_key_def nth_append del: be_put.simps)
qed

definition validMeta :: "Metadata \<Rightarrow> bool" where
  "validMeta m \<longleftrightarrow> length (md_Vertices m) < 2 ^ 32 \<and>
     list_all (\<lambda>v. length (vm_ID v) \<le> 65535 \<and> 0 \<le> sint (vm_Parallelism v) \<and> sint (vm_Parallelism v) < 2 ^ 32)
       (md_Vertices m)"

lemma length_vertices:
  "list_all (\<lambda>v. length (vm_ID v) \<le> 65535) vs \<Longrightarrow> length (concat (map encodeVertex vs)) \<le> 65549 * length vs"
  by (induction vs) (simp_all add: encodeVertex_def)

lemma decodeVertices_at:
  assumes "at (concat (map encodeVertex vs) @ bs) r"
    and "list_all (\<lambda>v. length (vm_ID v) \<le> 65535 \<and> 0 \<le> sint (vm_Parallelism v) \<and> sint (vm_Parallelism v) < 2 ^ 32) vs"
  shows "decodeVertices (length vs) r = Inr vs"
  using assms
proof (induction vs arbitrary: r)
  case (Cons v vs)
  let ?bs = "concat (map encodeVertex vs) @ bs"
  have len: "length (vm_ID v) \<le> 65535" using Cons.prems(2) by simp
  have "at (be_put 2 (word_of_nat (length (vm_ID v)) :: uint16) @ vm_ID v @
      be_put 4 (ucast (vm_Parallelism v) :: uint32) @ be_put 8 (vm_Count v) @ ?bs) r"
    using Cons.prems(1) by (simp add: encodeVertex_def [of v])
  from rd_shortString_at [OF this len] obtain r1 where r1: "rd_shortString r = Inr (vm_ID v, r1)"
    "at (be_put 4 (ucast (vm_Parallelism v) :: uint32) @ be_put 8 (vm_Count v) @ ?bs) r1" by blast
  from rd_uint32_at [OF r1(2)] obtain r2 where r2: "rd_uint32 r1 = Inr (ucast (vm_Parallelism v), r2)"
    "at (be_put 8 (vm_Count v) @ ?bs) r2" by blast
  from rd_uint64_at [OF r2(2)] obtain r3 where r3: "rd_uint64 r2 = Inr (vm_Count v, r3)" "at ?bs r3" by blast
  from Cons.IH [OF r3(2)] Cons.prems(2) have "decodeVertices (length vs) r3 = Inr vs" by simp
  moreover have "ucast (ucast (vm_Parallelism v) :: uint32) = vm_Parallelism v"
    using Cons.prems(2) by (intro ucast_index) auto
  ultimately show ?case by (simp add: r1 r2 r3)
qed simp

lemma decode_encode_metadata:
  assumes "validMeta m"
  shows "decodeMetadata (encodeMetadata m) = Inr m"
proof -
  let ?vs = "md_Vertices m"
  let ?body = "be_put 8 (md_Seed m) @ be_put 4 (word_of_nat (length ?vs) :: uint32) @ concat (map encodeVertex ?vs)"
  have n: "length ?vs < 4294967296" using assms by (simp add: validMeta_def)
  have "length (concat (map encodeVertex ?vs)) \<le> 65549 * length ?vs"
    using assms by (intro length_vertices) (simp add: validMeta_def list_all_iff)
  then have "length ?body < 2 ^ 60" using n by simp
  from newReader_sealed [OF this] obtain r where r: "newReader (encodeMetadata m) metadataVer = Inr r" "at ?body r"
    unfolding encodeMetadata_def by blast
  from rd_uint64_at [OF r(2)] obtain r1 where r1: "rd_uint64 r = Inr (md_Seed m, r1)"
    "at (be_put 4 (word_of_nat (length ?vs) :: uint32) @ concat (map encodeVertex ?vs)) r1" by blast
  from rd_uint32_at [OF r1(2)] obtain r2 where r2: "rd_uint32 r1 = Inr (word_of_nat (length ?vs), r2)"
    "at (concat (map encodeVertex ?vs)) r2" by blast
  have "decodeVertices (length ?vs) r2 = Inr ?vs"
    by (rule decodeVertices_at [where bs = "[]"]) (use r2 assms in \<open>simp_all add: validMeta_def\<close>)
  moreover have "unat (word_of_nat (length ?vs) :: uint32) = length ?vs"
    using n by (simp add: unat_of_nat take_bit_nat_eq_self)
  ultimately show ?thesis by (simp add: decodeMetadata_def r r1 r2)
qed

text \<open>The metadata of a checkpoint reads back: for every job whose vertex identifiers and
  parallelisms fit their fields, decoding what \<open>encodeMetadata\<close> wrote gives the same vertices, in
  the same order, and the same seed.\<close>

theorem metadata_roundtrip:
  assumes "validMeta m"
  shows "decodeMetadata (encodeMetadata m) = Inr m"
  by (rule decode_encode_metadata [OF assms])

definition example_meta :: Metadata where
  "example_meta = \<lparr>md_Vertices = [\<lparr>vm_ID = [97], vm_Parallelism = 2, vm_Count = 100\<rparr>,
     \<lparr>vm_ID = [98], vm_Parallelism = 1, vm_Count = 0\<rparr>], md_Seed = 42\<rparr>"

lemma example_meta_valid: "validMeta example_meta"
  by (simp add: validMeta_def example_meta_def)

theorem metadata_roundtrip_witness: "decodeMetadata (encodeMetadata example_meta) = Inr example_meta"
  by (rule metadata_roundtrip [OF example_meta_valid])

lemma checkVertices_against_None:
  "length gs = length es \<Longrightarrow> checkVertices_against gs es = None \<longleftrightarrow> gs = es"
  by (induction gs es rule: list_induct2) (auto intro: VertexMeta.equality)

text \<open>A checkpoint is restored only into the job that took it: \<open>CheckAgainst\<close> returns nil exactly
  when the two list the same vertices, in the same order, with the same parallelism and the
  same source counts; and then both have the same subtasks.\<close>

theorem check_against_exact:
  "CheckAgainst m want = None \<longleftrightarrow> md_Vertices m = md_Vertices want \<and> Subtasks m = Subtasks want"
  using checkVertices_against_None [of "md_Vertices m" "md_Vertices want"]
  by (auto simp: CheckAgainst_def Subtasks_def)

section \<open>Names\<close>

lemma unat_digit [simp]: "k < 10 \<Longrightarrow> unat (48 + word_of_nat k :: byte) = 48 + k"
proof -
  assume "k < 10"
  then have "unat (word_of_nat (48 + k) :: byte) = 48 + k"
    by (simp only: unat_of_nat) simp
  then show ?thesis by simp
qed

lemma digits_range: "d \<in> set (digits n) \<Longrightarrow> 48 \<le> unat d \<and> unat d \<le> 57"
proof (induction n arbitrary: d rule: digits.induct)
  case (1 n)
  show ?case
  proof (cases "n < 10")
    case True
    then show ?thesis using 1(2) by (subst (asm) digits.simps) auto
  next
    case False
    then show ?thesis using 1 by (subst (asm) (2) digits.simps) auto
  qed
qed

lemma digits_value: "foldl (\<lambda>a d. 10 * a + (unat d - 48)) 0 (digits n) = n"
proof (induction n rule: digits.induct)
  case (1 n)
  show ?case
  proof (cases "n < 10")
    case True
    then show ?thesis by (subst digits.simps) auto
  next
    case False
    then show ?thesis using 1 by (subst digits.simps) auto
  qed
qed

lemma digits_inj: "digits m = digits n \<Longrightarrow> m = n"
  by (metis digits_value)

lemma split_last: "xs @ a # ds = ys @ a # es \<Longrightarrow> a \<notin> set ds \<Longrightarrow> a \<notin> set es \<Longrightarrow> xs = ys \<and> ds = es"
  by (induction xs arbitrary: ys) (auto simp: Cons_eq_append_conv append_eq_Cons_conv)

lemma no_dash: "45 \<notin> set (digits n)"
  using digits_range [of 45 n] by auto

lemma FormatInt_nonneg: "0 \<le> sint i \<Longrightarrow> FormatInt i = digits (nat (sint i))"
  by (simp add: FormatInt_def word_sless_alt)

lemma fileName_inj:
  assumes "validKey a" "validKey b" "fileName a = fileName b"
  shows "a = b"
proof -
  have i: "0 \<le> sint (sk_Index a)" "0 \<le> sint (sk_Index b)" using assms by (auto simp: validKey_def)
  have "sk_VertexID a @ 45 # digits (nat (sint (sk_Index a))) = sk_VertexID b @ 45 # digits (nat (sint (sk_Index b)))"
  proof -
    have "fileName k = (sk_VertexID k @ 45 # digits (nat (sint (sk_Index k)))) @ stateSuffix"
      if "0 \<le> sint (sk_Index k)" for k using that by (simp add: fileName_def FormatInt_nonneg)
    then show ?thesis using assms(3) i by (simp only: append_same_eq)
  qed
  from split_last [OF this no_dash no_dash] have "sk_VertexID a = sk_VertexID b"
    "nat (sint (sk_Index a)) = nat (sint (sk_Index b))" by (auto dest: digits_inj)
  moreover from this i have "sk_Index a = sk_Index b" by (intro sint64_eqI) simp
  ultimately show ?thesis by (intro SubtaskKey.equality) simp_all
qed

lemma names_last:
  "last (fileName k) = 101" "last completeName = 69" "last metadataName = 65" "last (n @ tempSuffix) = 112"
  by (simp_all add: fileName_def stateSuffix_def completeName_def metadataName_def tempSuffix_def)

lemma names_distinct [simp]:
  "fileName k \<noteq> completeName" "fileName k \<noteq> metadataName" "completeName \<noteq> metadataName"
  "n @ tempSuffix \<noteq> completeName" "n @ tempSuffix \<noteq> metadataName" "n @ tempSuffix \<noteq> fileName k"
  by (rule notI, drule arg_cong [where f = last], simp only: names_last, simp)+

lemmas names_distinct' [simp] = names_distinct [symmetric]

end
