(* ===== verification/Subtask.thy ===== *)
theory Subtask
  imports Checkpoint_Format
begin

text \<open>
  What the three kinds of subtask in \<open>pkg/runtime/subtask.go\<close> share: the writer downstream and
  the coordinator, as tables of their methods; the checkpointer and the fault injector, each of
  which a job may do without; and the payload of a source.

  The state of a coordinator is as this subtask sees it: other subtasks call it too, and what
  they do between two calls of this one is part of what the second does.
\<close>

section \<open>The writer\<close>

record 'e outlet =
  ol_EmitRecord :: "Record \<Rightarrow> 'e \<Rightarrow> 'e \<times> go_error option"
  ol_Broadcast :: "StreamElement \<Rightarrow> 'e \<Rightarrow> 'e \<times> go_error option"

section \<open>The checkpointer\<close>

record subtaskID =
  si_vertexID :: bytes
  si_index :: int64

definition checkpointKey :: "subtaskID \<Rightarrow> SubtaskKey" where
  "checkpointKey i = \<lparr>sk_VertexID = si_vertexID i, sk_Index = si_index i\<rparr>"

text \<open>The coordinator's methods for one subtask: its key is part of the table. A job without
  checkpoints has none. A wait that has not ended gives \<open>None\<close>.\<close>

record 'c coordinator_calls =
  cc_Acknowledge :: "int64 \<Rightarrow> bytes \<Rightarrow> 'c \<Rightarrow> 'c \<times> go_error option"
  cc_Fail :: "int64 \<Rightarrow> 'c \<Rightarrow> 'c"
  cc_Finished :: "bytes \<Rightarrow> 'c \<Rightarrow> 'c \<times> go_error option"
  cc_CompletedAmong :: "int64 list \<Rightarrow> 'c \<Rightarrow> 'c \<times> int64 list"
  cc_AwaitCompletedAmong :: "int64 list \<Rightarrow> 'c \<Rightarrow> ('c \<times> int64 list) option"

type_synonym 'c checkpointer = "'c coordinator_calls option"

definition cp_enabled :: "'c checkpointer \<Rightarrow> bool" where
  "cp_enabled cp \<longleftrightarrow> cp \<noteq> None"

definition cp_snapshot :: "'c checkpointer \<Rightarrow> int64 \<Rightarrow> bytes \<Rightarrow> 'c \<Rightarrow> 'c \<times> go_error option" where
  "cp_snapshot cp i payload c = (case cp of None \<Rightarrow> (c, None) | Some co \<Rightarrow> cc_Acknowledge co i payload c)"

definition cp_fail :: "'c checkpointer \<Rightarrow> int64 \<Rightarrow> 'c \<Rightarrow> 'c" where
  "cp_fail cp i c = (case cp of None \<Rightarrow> c | Some co \<Rightarrow> cc_Fail co i c)"

definition cp_finished :: "'c checkpointer \<Rightarrow> bytes \<Rightarrow> 'c \<Rightarrow> 'c \<times> go_error option" where
  "cp_finished cp payload c = (case cp of None \<Rightarrow> (c, None) | Some co \<Rightarrow> cc_Finished co payload c)"

definition cp_completedAmong :: "'c checkpointer \<Rightarrow> int64 list \<Rightarrow> 'c \<Rightarrow> 'c \<times> int64 list" where
  "cp_completedAmong cp ids c = (case cp of None \<Rightarrow> (c, []) | Some co \<Rightarrow> cc_CompletedAmong co ids c)"

definition cp_awaitCompletedAmong :: "'c checkpointer \<Rightarrow> int64 list \<Rightarrow> 'c \<Rightarrow> ('c \<times> int64 list) option" where
  "cp_awaitCompletedAmong cp ids c = (case cp of None \<Rightarrow> Some (c, []) | Some co \<Rightarrow> cc_AwaitCompletedAmong co ids c)"

section \<open>Fault injection\<close>

record FaultInjector =
  fi_BeforeElement :: "bytes \<Rightarrow> int64 \<Rightarrow> int64 \<Rightarrow> bool"
  fi_AfterBarrierForwarded :: "bytes \<Rightarrow> int64 \<Rightarrow> int64 \<Rightarrow> bool"
  fi_DuringAlignment :: "bytes \<Rightarrow> int64 \<Rightarrow> int64 \<Rightarrow> nat \<Rightarrow> bool"

record faults =
  fa_injector :: "FaultInjector option"
  fa_id :: subtaskID

definition beforeElement :: "faults \<Rightarrow> int64 \<Rightarrow> go_error option" where
  "beforeElement f n =
     (case fa_injector f of
        None \<Rightarrow> None
      | Some fi \<Rightarrow>
          if \<not> fi_BeforeElement fi (si_vertexID (fa_id f)) (si_index (fa_id f)) n then None
          else Some (RuntimeErr ErrFaultInjected))"

definition afterBarrierForwarded :: "faults \<Rightarrow> int64 \<Rightarrow> go_error option" where
  "afterBarrierForwarded f i =
     (case fa_injector f of
        None \<Rightarrow> None
      | Some fi \<Rightarrow>
          if \<not> fi_AfterBarrierForwarded fi (si_vertexID (fa_id f)) (si_index (fa_id f)) i then None
          else Some (RuntimeErr ErrFaultInjected))"

definition duringAlignment :: "faults \<Rightarrow> int64 \<Rightarrow> nat \<Rightarrow> go_error option" where
  "duringAlignment f i delivered =
     (case fa_injector f of
        None \<Rightarrow> None
      | Some fi \<Rightarrow>
          if \<not> fi_DuringAlignment fi (si_vertexID (fa_id f)) (si_index (fa_id f)) i delivered then None
          else Some (RuntimeErr ErrFaultInjected))"

abbreviation noFaults :: "subtaskID \<Rightarrow> faults" where
  "noFaults i \<equiv> \<lparr>fa_injector = None, fa_id = i\<rparr>"

lemma no_injector [simp]:
  "fa_injector f = None \<Longrightarrow> beforeElement f n = None"
  "fa_injector f = None \<Longrightarrow> afterBarrierForwarded f i = None"
  "fa_injector f = None \<Longrightarrow> duringAlignment f i d = None"
  by (simp_all add: beforeElement_def afterBarrierForwarded_def duringAlignment_def)

section \<open>The payload of a source\<close>

definition positionBytes :: nat where
  "positionBytes = 8"

definition encodePosition :: "int64 \<Rightarrow> bytes" where
  "encodePosition offset = be_put positionBytes offset"

definition decodePosition :: "bytes \<Rightarrow> int64 result" where
  "decodePosition payload =
     (if length payload \<noteq> positionBytes then Inl (RuntimeErr errPositionLength)
      else Inr (be_get positionBytes payload))"

lemma decode_encode_position [simp]: "decodePosition (encodePosition n) = Inr n"
  by (simp add: decodePosition_def encodePosition_def positionBytes_def)

lemma decodePosition_iff: "decodePosition bs = Inr n \<longleftrightarrow> bs = encodePosition n"
proof
  assume a: "decodePosition bs = Inr n"
  then have "length bs = 8" "n = be_get 8 bs" by (auto simp: decodePosition_def positionBytes_def split: if_splits)
  then show "bs = encodePosition n" using be64_put_get [of bs] by (simp add: encodePosition_def positionBytes_def)
qed simp

end
