(* ===== verification/Checkpoint_Storage.thy ===== *)
theory Checkpoint_Storage
  imports Checkpoint_Format
begin

text \<open>
  The durable half of \<open>pkg/checkpoint/storage.go\<close>: the sequence of file operations that writes a
  checkpoint and the functions that find and load one. The operating system's file system,
  which the code reaches through its \<open>fileSystem\<close> and \<open>syncFile\<close> interfaces, is a method table; a
  disk with the documented behaviour of its operations, failures and crashes included, is the
  instance the theorems are about. A path is the name of a directory of the storage's root
  and a name in it.
\<close>

type_synonym path = "bytes \<times> bytes"

record 'd fileSystem =
  fs_MkdirAll :: "bytes \<Rightarrow> 'd \<Rightarrow> 'd \<times> go_error option"
  fs_Create :: "path \<Rightarrow> 'd \<Rightarrow> 'd \<times> nat result"
  fs_Write :: "nat \<Rightarrow> bytes \<Rightarrow> 'd \<Rightarrow> 'd \<times> go_error option"
  fs_Sync :: "nat \<Rightarrow> 'd \<Rightarrow> 'd \<times> go_error option"
  fs_Close :: "nat \<Rightarrow> 'd \<Rightarrow> 'd \<times> go_error option"
  fs_Rename :: "path \<Rightarrow> path \<Rightarrow> 'd \<Rightarrow> 'd \<times> go_error option"
  fs_SyncDir :: "bytes \<Rightarrow> 'd \<Rightarrow> 'd \<times> go_error option"
  fs_Remove :: "path \<Rightarrow> 'd \<Rightarrow> 'd \<times> go_error option"

section \<open>Writing\<close>

text \<open>The error of \<open>Remove\<close> and of the \<open>Close\<close> after a failure is dropped, as in the source.\<close>

definition writeFileSynced :: "'d fileSystem \<Rightarrow> bytes \<Rightarrow> bytes \<Rightarrow> bytes \<Rightarrow> 'd \<Rightarrow> 'd \<times> go_error option" where
  "writeFileSynced FS dir name data d =
     (let tmp = (dir, name @ tempSuffix)
      in case fs_Create FS tmp d of
           (d1, Inl e) \<Rightarrow> (d1, Some e)
         | (d1, Inr f) \<Rightarrow>
             (case fs_Write FS f data d1 of
                (d2, Some e) \<Rightarrow> (fst (fs_Remove FS tmp (fst (fs_Close FS f d2))), Some e)
              | (d2, None) \<Rightarrow>
                  (case fs_Sync FS f d2 of
                     (d3, Some e) \<Rightarrow> (fst (fs_Remove FS tmp (fst (fs_Close FS f d3))), Some e)
                   | (d3, None) \<Rightarrow>
                       (case fs_Close FS f d3 of
                          (d4, Some e) \<Rightarrow> (fst (fs_Remove FS tmp d4), Some e)
                        | (d4, None) \<Rightarrow> fs_Rename FS tmp (dir, name) d4))))"

definition storage_dir :: "int64 \<Rightarrow> bytes" where
  "storage_dir i = dirPrefix @ FormatInt i"

definition WriteSubtaskState :: "'d fileSystem \<Rightarrow> int64 \<Rightarrow> SubtaskKey \<Rightarrow> bytes \<Rightarrow> 'd \<Rightarrow> 'd \<times> go_error option" where
  "WriteSubtaskState FS i key payload d =
     (case checkVertexID (sk_VertexID key) of
        Some e \<Rightarrow> (d, Some e)
      | None \<Rightarrow>
          (case fs_MkdirAll FS (storage_dir i) d of
             (d1, Some e) \<Rightarrow> (d1, Some e)
           | (d1, None) \<Rightarrow>
               writeFileSynced FS (storage_dir i) (fileName key) (encodeSubtaskState i key payload) d1))"

definition storage_Complete :: "'d fileSystem \<Rightarrow> int64 \<Rightarrow> Metadata \<Rightarrow> 'd \<Rightarrow> 'd \<times> go_error option" where
  "storage_Complete FS i meta d =
     (let dir = storage_dir i
      in case fs_MkdirAll FS dir d of
           (d1, Some e) \<Rightarrow> (d1, Some e)
         | (d1, None) \<Rightarrow>
             (case writeFileSynced FS dir metadataName (encodeMetadata meta) d1 of
                (d2, Some e) \<Rightarrow> (d2, Some e)
              | (d2, None) \<Rightarrow>
                  (case fs_SyncDir FS dir d2 of
                     (d3, Some e) \<Rightarrow> (d3, Some e)
                   | (d3, None) \<Rightarrow>
                       (case writeFileSynced FS dir completeName (FormatInt i @ [10]) d3 of
                          (d4, Some e) \<Rightarrow> (d4, Some e)
                        | (d4, None) \<Rightarrow> fs_SyncDir FS dir d4))))"

section \<open>Reading\<close>

text \<open>The reads go to the operating system directly: \<open>rd\<close> gives the contents of a file, \<open>None\<close>
  when it does not exist, and \<open>ls\<close> the directories of the root, \<open>None\<close> when the root does not
  exist.\<close>

fun loadStates ::
  "(path \<Rightarrow> bytes option) \<Rightarrow> int64 \<Rightarrow> SubtaskKey list \<Rightarrow> (SubtaskKey \<times> bytes) list result" where
  "loadStates rd i [] = Inr []"
| "loadStates rd i (key # keys) =
     (case rd (storage_dir i, fileName key) of
        None \<Rightarrow> Inl (CheckpointErr errMissingStateFile)
      | Some raw \<Rightarrow>
          (case decodeSubtaskState raw i key of
             Inl e \<Rightarrow> Inl e
           | Inr payload \<Rightarrow>
               (case loadStates rd i keys of Inl e \<Rightarrow> Inl e | Inr ps \<Rightarrow> Inr ((key, payload) # ps))))"

definition storage_Load ::
  "(path \<Rightarrow> bytes option) \<Rightarrow> int64 \<Rightarrow> (Metadata \<times> (SubtaskKey \<times> bytes) list) result" where
  "storage_Load rd i =
     (case rd (storage_dir i, completeName) of
        None \<Rightarrow> Inl (CheckpointErr errNoCheckpoint)
      | Some _ \<Rightarrow>
          (case rd (storage_dir i, metadataName) of
             None \<Rightarrow> Inl (IoError 1)
           | Some raw \<Rightarrow>
               (case decodeMetadata raw of
                  Inl e \<Rightarrow> Inl e
                | Inr meta \<Rightarrow>
                    (case loadStates rd i (Subtasks meta) of Inl e \<Rightarrow> Inl e | Inr ps \<Rightarrow> Inr (meta, ps)))))"

text \<open>\<open>strconv.ParseInt(s, 10, 64)\<close>: an optional sign, decimal digits, a value in range.\<close>

definition digitsValue :: "bytes \<Rightarrow> nat option" where
  "digitsValue s =
     (if s \<noteq> [] \<and> list_all (\<lambda>d. 48 \<le> d \<and> d \<le> 57) s
      then Some (foldl (\<lambda>a d. 10 * a + (unat d - 48)) 0 s) else None)"

definition ParseInt :: "bytes \<Rightarrow> int64 option" where
  "ParseInt s =
     (let (neg, ds) = (case s of c # cs \<Rightarrow> if c = 45 then (True, cs) else if c = 43 then (False, cs) else (False, s) | [] \<Rightarrow> (False, []))
      in case digitsValue ds of
           None \<Rightarrow> None
         | Some n \<Rightarrow>
             (let v = (if neg then - int n else int n)
              in if - (2 ^ 63) \<le> v \<and> v < 2 ^ 63 then Some (word_of_int v) else None))"

fun latestAmong :: "(path \<Rightarrow> bytes option) \<Rightarrow> bytes list \<Rightarrow> int64 option \<Rightarrow> int64 option" where
  "latestAmong rd [] best = best"
| "latestAmong rd (e # es) best =
     (if take (length dirPrefix) e \<noteq> dirPrefix then latestAmong rd es best
      else case ParseInt (drop (length dirPrefix) e) of
          None \<Rightarrow> latestAmong rd es best
        | Some n \<Rightarrow>
            if rd (e, completeName) = None then latestAmong rd es best
            else latestAmong rd es
                (case best of None \<Rightarrow> Some n | Some b \<Rightarrow> if b <s n then Some n else best))"

definition storage_Latest :: "bytes list option \<Rightarrow> (path \<Rightarrow> bytes option) \<Rightarrow> int64 option" where
  "storage_Latest ls rd = (case ls of None \<Rightarrow> None | Some es \<Rightarrow> latestAmong rd es None)"

section \<open>The contract of the file operations\<close>

text \<open>\<open>cur\<close> is what a reader sees under a final name, \<open>may\<close> everything a reader may see there after
  a crash. A synced write through a temporary name takes effect as one step; its effect may
  or may not survive a crash until the directory is synced; a failure of either changes
  nothing.\<close>

definition finalName :: "bytes \<Rightarrow> bool" where
  "finalName name \<longleftrightarrow> \<not> (\<exists>n. name = n @ tempSuffix)"

lemma finalNames [simp]: "finalName completeName" "finalName metadataName" "finalName (fileName k)"
  by (auto simp: finalName_def)

locale synced_files =
  fixes FS :: "'d fileSystem"
    and good :: "'d \<Rightarrow> bool"
    and cur :: "'d \<Rightarrow> path \<Rightarrow> bytes option"
    and may :: "'d \<Rightarrow> path \<Rightarrow> bytes option set"
  assumes cur_may: "good d \<Longrightarrow> finalName (snd p) \<Longrightarrow> cur d p \<in> may d p"
    and mkdir_all: "good d \<Longrightarrow> fs_MkdirAll FS dir d = (d', err) \<Longrightarrow>
      good d' \<and> (\<forall>p. finalName (snd p) \<longrightarrow> cur d' p = cur d p \<and> may d' p = may d p)"
    and write_file: "good d \<Longrightarrow> finalName name \<Longrightarrow> writeFileSynced FS dir name data d = (d', err) \<Longrightarrow>
      good d' \<and> (\<forall>p. finalName (snd p) \<longrightarrow>
        cur d' p = (if err = None \<and> p = (dir, name) then Some data else cur d p) \<and>
        may d' p = (if err = None \<and> p = (dir, name) then insert (Some data) (may d p) else may d p))"
    and sync_dir: "good d \<Longrightarrow> fs_SyncDir FS dir d = (d', err) \<Longrightarrow>
      good d' \<and> (\<forall>p. finalName (snd p) \<longrightarrow> cur d' p = cur d p \<and>
        may d' p = (if err = None \<and> fst p = dir then {cur d p} else may d p))"

begin

lemma WriteSubtaskState_spec:
  assumes "good d" "WriteSubtaskState FS i key payload d = (d', err)" "finalName (snd p)"
  shows "good d' \<and>
    cur d' p = (if err = None \<and> p = (storage_dir i, fileName key)
      then Some (encodeSubtaskState i key payload) else cur d p) \<and>
    may d' p = (if err = None \<and> p = (storage_dir i, fileName key)
      then insert (Some (encodeSubtaskState i key payload)) (may d p) else may d p)"
proof (cases "checkVertexID (sk_VertexID key)")
  case None
  obtain d1 e1 where m: "fs_MkdirAll FS (storage_dir i) d = (d1, e1)" by fastforce
  note m' = mkdir_all [OF assms(1) m]
  show ?thesis
  proof (cases e1)
    case e1: None
    with None m assms(2) have "writeFileSynced FS (storage_dir i) (fileName key) (encodeSubtaskState i key payload) d1 = (d', err)"
      by (simp add: WriteSubtaskState_def)
    from write_file [OF _ _ this] m' assms(3) show ?thesis by (cases p) simp
  qed (use None m m' assms in \<open>cases p; simp add: WriteSubtaskState_def; blast\<close>)
qed (use assms in \<open>auto simp: WriteSubtaskState_def\<close>)

lemma WriteSubtaskState_ok:
  "WriteSubtaskState FS i key payload d = (d', None) \<Longrightarrow> checkVertexID (sk_VertexID key) = None"
  by (simp add: WriteSubtaskState_def split: option.splits)

text \<open>The marker goes last: whatever fails, and whenever, the marker can only be on the disk once
  the metadata is, and every state file that was in place when \<open>Complete\<close> was called.\<close>

definition vouched :: "'d \<Rightarrow> int64 \<Rightarrow> bool" where
  "vouched d i \<longleftrightarrow> (\<forall>p. finalName (snd p) \<and> fst p = storage_dir i \<and> snd p \<noteq> completeName \<longrightarrow> may d p = {cur d p})"

lemma Complete_spec:
  assumes g: "good d" and c: "storage_Complete FS i meta d = (d', err)"
    and unmarked: "may d (storage_dir i, completeName) = {None}"
  shows "good d' \<and>
    (\<forall>p. finalName (snd p) \<and> fst p \<noteq> storage_dir i \<longrightarrow> cur d' p = cur d p \<and> may d' p = may d p) \<and>
    (\<forall>p. finalName (snd p) \<and> fst p = storage_dir i \<and> snd p \<noteq> completeName \<and> snd p \<noteq> metadataName \<longrightarrow>
      cur d' p = cur d p \<and> (may d' p = {cur d p} \<or> may d' p = may d p)) \<and>
    (may d' (storage_dir i, completeName) \<noteq> {None} \<longrightarrow>
      vouched d' i \<and> cur d' (storage_dir i, metadataName) = Some (encodeMetadata meta)) \<and>
    (err = None \<longrightarrow> may d' (storage_dir i, completeName) = {Some (FormatInt i @ [10])} \<and>
      cur d' (storage_dir i, completeName) = Some (FormatInt i @ [10]))"
proof -
  let ?D = "storage_dir i"
  have cu: "cur d (?D, completeName) = None" using cur_may [OF g, of "(?D, completeName)"] unmarked by simp
  obtain d1 e1 where m: "fs_MkdirAll FS ?D d = (d1, e1)" by fastforce
  note s1 = mkdir_all [OF g m]
  obtain d2 e2 where w: "writeFileSynced FS ?D metadataName (encodeMetadata meta) d1 = (d2, e2)" by fastforce
  note s2 = write_file [OF s1 [THEN conjunct1] finalNames(2) w]
  obtain d3 e3 where sy: "fs_SyncDir FS ?D d2 = (d3, e3)" by fastforce
  note s3 = sync_dir [OF s2 [THEN conjunct1] sy]
  obtain d4 e4 where w2: "writeFileSynced FS ?D completeName (FormatInt i @ [10]) d3 = (d4, e4)" by fastforce
  note s4 = write_file [OF s3 [THEN conjunct1] finalNames(1) w2]
  obtain d5 e5 where sy2: "fs_SyncDir FS ?D d4 = (d5, e5)" by fastforce
  note s5 = sync_dir [OF s4 [THEN conjunct1] sy2]
  consider "e1 \<noteq> None" "d' = d1" "err \<noteq> None"
    | "e1 = None" "e2 \<noteq> None" "d' = d2" "err \<noteq> None"
    | "e1 = None" "e2 = None" "e3 \<noteq> None" "d' = d3" "err \<noteq> None"
    | "e1 = None" "e2 = None" "e3 = None" "e4 \<noteq> None" "d' = d4" "err \<noteq> None"
    | "e1 = None" "e2 = None" "e3 = None" "e4 = None" "d' = d5" "err = e5"
    using c m w sy w2 sy2 by (auto simp: storage_Complete_def Let_def split: option.splits)
  then show ?thesis
  proof cases
    case 1
    then show ?thesis using s1 unmarked by auto
  next
    case 2
    then show ?thesis using s1 s2 unmarked by auto
  next
    case 3
    then show ?thesis using s1 s2 s3 unmarked by auto
  next
    case 4
    then show ?thesis using s1 s2 s3 s4 unmarked cu by (auto simp: vouched_def)
  next
    case 5
    then show ?thesis using s1 s2 s3 s4 s5 unmarked cu by (auto simp: vouched_def)
  qed
qed

end

section \<open>A disk\<close>

text \<open>The behaviour POSIX documents of the calls behind the interface. A directory entry names an
  inode, an inode has contents, and an \<open>fsync\<close> of the file makes them durable; the entry itself
  becomes durable when the directory is synced, and until then a crash leaves any of the
  inodes the name has had since. The script says how each call turns out: it may fail, a
  \<open>Write\<close> after a part of its data, and at \<open>Down\<close> the machine stops, so that nothing from there on
  has an effect. Directories are never removed.\<close>

datatype outcome = Goes | Fails go_error nat | Down

record disk =
  dk_inodes :: "nat \<Rightarrow> bytes \<times> bool"
  dk_fresh :: nat
  dk_names :: "path \<Rightarrow> nat option"
  dk_maybe :: "path \<Rightarrow> nat option list"
  dk_dirs :: "bytes list"
  dk_script :: "outcome list"
  dk_down :: bool

definition tick :: "disk \<Rightarrow> disk \<times> outcome" where
  "tick d = (if dk_down d then (d, Down)
     else case dk_script d of
         [] \<Rightarrow> (d, Goes)
       | t # ts \<Rightarrow> (d\<lparr>dk_script := ts, dk_down := (t = Down)\<rparr>, t))"

definition disk_do :: "(disk \<Rightarrow> disk \<times> go_error option) \<Rightarrow> disk \<Rightarrow> disk \<times> go_error option" where
  "disk_do f d = (case tick d of
       (d1, Goes) \<Rightarrow> f d1
     | (d1, Fails e n) \<Rightarrow> (d1, Some e)
     | (d1, Down) \<Rightarrow> (d1, Some (IoError 0)))"

definition disk_MkdirAll :: "bytes \<Rightarrow> disk \<Rightarrow> disk \<times> go_error option" where
  "disk_MkdirAll dir = disk_do (\<lambda>d. (d\<lparr>dk_dirs := List.insert dir (dk_dirs d)\<rparr>, None))"

definition disk_open :: "path \<Rightarrow> disk \<Rightarrow> disk \<times> nat result" where
  "disk_open p d =
     (if fst p \<notin> set (dk_dirs d) then (d, Inl (IoError 2))
      else case dk_names d p of
          Some n \<Rightarrow> (d\<lparr>dk_inodes := (dk_inodes d)(n := ([], False))\<rparr>, Inr n)
        | None \<Rightarrow>
            (let n = dk_fresh d
             in (d\<lparr>dk_inodes := (dk_inodes d)(n := ([], False)), dk_fresh := n + 1,
                   dk_names := (dk_names d)(p := Some n),
                   dk_maybe := (dk_maybe d)(p := Some n # dk_maybe d p)\<rparr>, Inr n)))"

definition disk_Create :: "path \<Rightarrow> disk \<Rightarrow> disk \<times> nat result" where
  "disk_Create p d = (case tick d of
       (d1, Goes) \<Rightarrow> disk_open p d1
     | (d1, Fails e n) \<Rightarrow> (d1, Inl e)
     | (d1, Down) \<Rightarrow> (d1, Inl (IoError 0)))"

definition disk_append :: "nat \<Rightarrow> bytes \<Rightarrow> disk \<Rightarrow> disk" where
  "disk_append f data d = d\<lparr>dk_inodes := (dk_inodes d)(f := (fst (dk_inodes d f) @ data, False))\<rparr>"

definition disk_Write :: "nat \<Rightarrow> bytes \<Rightarrow> disk \<Rightarrow> disk \<times> go_error option" where
  "disk_Write f data d = (case tick d of
       (d1, Goes) \<Rightarrow> (disk_append f data d1, None)
     | (d1, Fails e n) \<Rightarrow> (disk_append f (take n data) d1, Some e)
     | (d1, Down) \<Rightarrow> (d1, Some (IoError 0)))"

definition disk_Sync :: "nat \<Rightarrow> disk \<Rightarrow> disk \<times> go_error option" where
  "disk_Sync f = disk_do (\<lambda>d. (d\<lparr>dk_inodes := (dk_inodes d)(f := (fst (dk_inodes d f), True))\<rparr>, None))"

definition disk_Close :: "nat \<Rightarrow> disk \<Rightarrow> disk \<times> go_error option" where
  "disk_Close f = disk_do (\<lambda>d. (d, None))"

definition disk_relink :: "path \<Rightarrow> nat option \<Rightarrow> disk \<Rightarrow> disk" where
  "disk_relink p n d = d\<lparr>dk_names := (dk_names d)(p := n), dk_maybe := (dk_maybe d)(p := n # dk_maybe d p)\<rparr>"

definition disk_Rename :: "path \<Rightarrow> path \<Rightarrow> disk \<Rightarrow> disk \<times> go_error option" where
  "disk_Rename p q = disk_do (\<lambda>d. case dk_names d p of
       None \<Rightarrow> (d, Some (IoError 2))
     | Some n \<Rightarrow> (disk_relink p None (disk_relink q (Some n) d), None))"

definition disk_SyncDir :: "bytes \<Rightarrow> disk \<Rightarrow> disk \<times> go_error option" where
  "disk_SyncDir dir = disk_do (\<lambda>d.
     (d\<lparr>dk_maybe := (\<lambda>p. if fst p = dir then [dk_names d p] else dk_maybe d p)\<rparr>, None))"

definition disk_Remove :: "path \<Rightarrow> disk \<Rightarrow> disk \<times> go_error option" where
  "disk_Remove p = disk_do (\<lambda>d. (disk_relink p None d, None))"

definition diskFS :: "disk fileSystem" where
  "diskFS = \<lparr>fs_MkdirAll = disk_MkdirAll, fs_Create = disk_Create, fs_Write = disk_Write, fs_Sync = disk_Sync,
     fs_Close = disk_Close, fs_Rename = disk_Rename, fs_SyncDir = disk_SyncDir, fs_Remove = disk_Remove\<rparr>"

text \<open>What a reader finds under a name: now, and after a crash. The contents of an inode that was
  not synced may be anything.\<close>

definition disk_cur :: "disk \<Rightarrow> path \<Rightarrow> bytes option" where
  "disk_cur d p = map_option (\<lambda>n. fst (dk_inodes d n)) (dk_names d p)"

definition linkView :: "(nat \<Rightarrow> bytes \<times> bool) \<Rightarrow> nat option \<Rightarrow> bytes option set" where
  "linkView inodes l = (case l of
       None \<Rightarrow> {None}
     | Some n \<Rightarrow> if snd (inodes n) then {Some (fst (inodes n))} else range Some)"

definition disk_may :: "disk \<Rightarrow> path \<Rightarrow> bytes option set" where
  "disk_may d p = (\<Union>l \<in> set (dk_maybe d p). linkView (dk_inodes d) l)"

definition disk_good :: "disk \<Rightarrow> bool" where
  "disk_good d \<longleftrightarrow>
     (\<forall>p n. dk_names d p = Some n \<longrightarrow> n < dk_fresh d) \<and>
     (\<forall>p n. finalName (snd p) \<and> Some n \<in> set (dk_maybe d p) \<longrightarrow>
        n < dk_fresh d \<and> snd (dk_inodes d n) \<and> (\<forall>q. \<not> finalName (snd q) \<longrightarrow> dk_names d q \<noteq> Some n)) \<and>
     (\<forall>p. finalName (snd p) \<longrightarrow> dk_names d p \<in> set (dk_maybe d p)) \<and>
     (\<forall>p q n. \<not> finalName (snd p) \<and> dk_names d p = Some n \<and> dk_names d q = Some n \<longrightarrow> q = p)"

lemma tick_fields [simp]:
  assumes "tick d = (d', t)"
  shows "dk_inodes d' = dk_inodes d" "dk_fresh d' = dk_fresh d" "dk_names d' = dk_names d"
    "dk_maybe d' = dk_maybe d" "dk_dirs d' = dk_dirs d"
  using assms by (auto simp: tick_def split: if_splits list.splits)

definition sameView :: "disk \<Rightarrow> disk \<Rightarrow> bool" where
  "sameView d d' \<longleftrightarrow> (\<forall>p. finalName (snd p) \<longrightarrow> disk_cur d' p = disk_cur d p \<and> disk_may d' p = disk_may d p)"

lemma sameView_refl [simp]: "sameView d d"
  by (simp add: sameView_def)

lemma sameView_trans: "sameView d d' \<Longrightarrow> sameView d' d'' \<Longrightarrow> sameView d d''"
  by (simp add: sameView_def)

lemma tick_good:
  assumes "tick d = (d', t)"
  shows "disk_good d' = disk_good d" "sameView d d'"
  unfolding disk_good_def sameView_def disk_cur_def disk_may_def tick_fields [OF assms] by (rule refl, simp)

lemma disk_goodI:
  assumes "\<And>p n. dk_names d p = Some n \<Longrightarrow> n < dk_fresh d"
    and "\<And>p n. finalName (snd p) \<Longrightarrow> Some n \<in> set (dk_maybe d p) \<Longrightarrow> n < dk_fresh d \<and> snd (dk_inodes d n)"
    and "\<And>p n q. finalName (snd p) \<Longrightarrow> Some n \<in> set (dk_maybe d p) \<Longrightarrow> \<not> finalName (snd q) \<Longrightarrow> dk_names d q \<noteq> Some n"
    and "\<And>p. finalName (snd p) \<Longrightarrow> dk_names d p \<in> set (dk_maybe d p)"
    and "\<And>p q n. \<not> finalName (snd p) \<Longrightarrow> dk_names d p = Some n \<Longrightarrow> dk_names d q = Some n \<Longrightarrow> q = p"
  shows "disk_good d"
  unfolding disk_good_def using assms by blast

lemma disk_goodD:
  assumes "disk_good d"
  shows "dk_names d p = Some n \<Longrightarrow> n < dk_fresh d"
    and "finalName (snd p) \<Longrightarrow> Some n \<in> set (dk_maybe d p) \<Longrightarrow> n < dk_fresh d \<and> snd (dk_inodes d n)"
    and "finalName (snd p) \<Longrightarrow> Some n \<in> set (dk_maybe d p) \<Longrightarrow> \<not> finalName (snd q) \<Longrightarrow> dk_names d q \<noteq> Some n"
    and "finalName (snd p) \<Longrightarrow> dk_names d p \<in> set (dk_maybe d p)"
    and "\<not> finalName (snd p) \<Longrightarrow> dk_names d p = Some n \<Longrightarrow> dk_names d q = Some n \<Longrightarrow> q = p"
  using assms unfolding disk_good_def by blast+

text \<open>A file open under a temporary name.\<close>

definition opened :: "path \<Rightarrow> nat \<Rightarrow> bytes \<Rightarrow> bool \<Rightarrow> disk \<Rightarrow> bool" where
  "opened p n data s d \<longleftrightarrow> disk_good d \<and> dk_names d p = Some n \<and> dk_inodes d n = (data, s)"

lemma tick_opened: "tick d = (d', t) \<Longrightarrow> opened p n data s d' = opened p n data s d"
  by (simp add: opened_def tick_good)

lemma inode_update:
  assumes "disk_good d" "dk_names d p = Some n" "\<not> finalName (snd p)"
  shows "disk_good (d\<lparr>dk_inodes := (dk_inodes d)(n := x)\<rparr>) \<and> sameView d (d\<lparr>dk_inodes := (dk_inodes d)(n := x)\<rparr>)"
proof -
  have ne: "m \<noteq> n" if "finalName (snd q)" "Some m \<in> set (dk_maybe d q)" for q m
    using assms that unfolding disk_good_def by blast
  have cn: "dk_names d q \<noteq> Some n" if "finalName (snd q)" for q
    using assms that unfolding disk_good_def by (cases "q = p") blast+
  have "disk_may (d\<lparr>dk_inodes := (dk_inodes d)(n := x)\<rparr>) q = disk_may d q" if "finalName (snd q)" for q
    unfolding disk_may_def using ne [OF that] by (intro SUP_cong) (auto simp: linkView_def split: option.splits)
  moreover have "disk_cur (d\<lparr>dk_inodes := (dk_inodes d)(n := x)\<rparr>) q = disk_cur d q" if "finalName (snd q)" for q
    using cn [OF that] by (cases "dk_names d q") (auto simp: disk_cur_def)
  moreover have "disk_good (d\<lparr>dk_inodes := (dk_inodes d)(n := x)\<rparr>)"
    by (rule disk_goodI) (use disk_goodD [OF assms(1)] ne in \<open>auto simp del: split_paired_All\<close>)
  ultimately show ?thesis by (simp add: sameView_def)
qed

lemma disk_open_spec:
  assumes "disk_good d" "disk_open p d = (d', r)" "\<not> finalName (snd p)"
  shows "disk_good d' \<and> sameView d d' \<and> (\<forall>n. r = Inr n \<longrightarrow> opened p n [] False d')"
proof (cases "fst p \<in> set (dk_dirs d)")
  case True
  show ?thesis
  proof (cases "dk_names d p")
    case None
    let ?n = "dk_fresh d"
    have d': "d' = d\<lparr>dk_inodes := (dk_inodes d)(?n := ([], False)), dk_fresh := ?n + 1,
        dk_names := (dk_names d)(p := Some ?n), dk_maybe := (dk_maybe d)(p := Some ?n # dk_maybe d p)\<rparr>" "r = Inr ?n"
      using assms(2) True None by (simp_all add: disk_open_def Let_def)
    have old: "m < ?n" if "finalName (snd q)" "Some m \<in> set (dk_maybe d q)" for q m
      using assms(1) that unfolding disk_good_def by blast
    have ne: "q \<noteq> p" if "finalName (snd q)" for q using assms(3) that by blast
    have cn: "m < ?n" if "dk_names d q = Some m" for q m
      using assms(1) that unfolding disk_good_def by blast
    have "disk_may d' q = disk_may d q" if "finalName (snd q)" for q
      unfolding disk_may_def d' using old [OF that] ne [OF that]
      by (intro SUP_cong) (auto simp: linkView_def split: option.splits)
    moreover have "disk_cur d' q = disk_cur d q" if "finalName (snd q)" for q
      using cn [of q] ne [OF that] by (cases "dk_names d q") (auto simp: disk_cur_def d')
    moreover have "disk_good d'"
    proof -
      have "dk_names d q \<noteq> Some ?n" for q using cn [of q] by blast
      moreover have "Some ?n \<notin> set (dk_maybe d q)" if "finalName (snd q)" for q using old [OF that] by blast
      ultimately show ?thesis unfolding d' using disk_goodD [OF assms(1)] ne
        by (intro disk_goodI) (auto simp: less_Suc_eq split: if_splits)
    qed
    ultimately show ?thesis by (simp add: sameView_def opened_def d')
  next
    case (Some n)
    then show ?thesis using assms inode_update [OF assms(1) Some assms(3)] True
      by (auto simp: disk_open_def opened_def)
  qed
qed (use assms in \<open>auto simp: disk_open_def\<close>)

lemma disk_Create_spec:
  assumes "disk_good d" "disk_Create p d = (d', r)" "\<not> finalName (snd p)"
  shows "disk_good d' \<and> sameView d d' \<and> (\<forall>n. r = Inr n \<longrightarrow> opened p n [] False d')"
proof -
  obtain d1 t where t: "tick d = (d1, t)" by fastforce
  note g = tick_good [OF t]
  show ?thesis
  proof (cases t)
    case Goes
    then have o: "disk_open p d1 = (d', r)" using assms(2) t by (simp add: disk_Create_def)
    show ?thesis using disk_open_spec [OF _ o assms(3)] g assms(1) sameView_trans by blast
  qed (use assms t g in \<open>auto simp: disk_Create_def\<close>)
qed

lemma disk_append_spec:
  assumes "opened p n data s d" "\<not> finalName (snd p)"
  shows "opened p n (data @ xs) False (disk_append n xs d) \<and> sameView d (disk_append n xs d)"
  using assms inode_update [of d p n] by (simp add: opened_def disk_append_def)

lemma disk_Write_spec:
  assumes "opened p n data s d" "disk_Write n xs d = (d', err)" "\<not> finalName (snd p)"
  shows "disk_good d' \<and> sameView d d' \<and> (err = None \<longrightarrow> opened p n (data @ xs) False d')"
proof -
  obtain d1 t where t: "tick d = (d1, t)" by fastforce
  note o = tick_opened [OF t, THEN iffD2, OF assms(1)]
  show ?thesis
    using assms(2) t tick_good [OF t] disk_append_spec [OF o assms(3)] assms(1) sameView_trans [of d d1]
    by (auto simp: disk_Write_def opened_def split: outcome.splits)
qed

lemma disk_do_spec:
  assumes "disk_do f d = (d', err)"
  obtains (goes) d1 where "tick d = (d1, Goes)" "f d1 = (d', err)"
  | (fails) t where "tick d = (d', t)" "err \<noteq> None"
  using assms by (auto simp: disk_do_def split: prod.splits outcome.splits)

lemma disk_Sync_spec:
  assumes "opened p n data s d" "disk_Sync n d = (d', err)" "\<not> finalName (snd p)"
  shows "disk_good d' \<and> sameView d d' \<and> (err = None \<longrightarrow> opened p n data True d')"
  using assms(2) [unfolded disk_Sync_def]
proof (cases rule: disk_do_spec)
  case (goes d1)
  note o = tick_opened [OF goes(1), THEN iffD2, OF assms(1)]
  show ?thesis
    using goes tick_good [OF goes(1)] inode_update [of d1 p n] o assms(3) sameView_trans [of d d1]
    by (auto simp: opened_def)
next
  case (fails t)
  then show ?thesis using assms(1) tick_good [OF fails(1)] by (auto simp: opened_def)
qed

lemma disk_Close_spec:
  assumes "disk_Close n d = (d', err)"
  shows "disk_good d' = disk_good d \<and> sameView d d' \<and> opened p m data s d' = opened p m data s d"
  using assms [unfolded disk_Close_def]
  by (cases rule: disk_do_spec) (simp_all add: tick_good tick_opened)

lemma relink_temp:
  assumes "disk_good d" "\<not> finalName (snd p)"
  shows "disk_good (disk_relink p None d) \<and> sameView d (disk_relink p None d)"
proof -
  have ne: "q \<noteq> p" if "finalName (snd q)" for q using assms(2) that by blast
  have "disk_good (disk_relink p None d)"
    unfolding disk_relink_def
    by (rule disk_goodI) (use disk_goodD [OF assms(1)] ne in \<open>auto simp del: split_paired_All split: if_splits\<close>)
  then show ?thesis
    using ne by (auto simp: sameView_def disk_relink_def disk_cur_def disk_may_def)
qed

lemma disk_Remove_spec:
  assumes "disk_good d" "disk_Remove p d = (d', err)" "\<not> finalName (snd p)"
  shows "disk_good d' \<and> sameView d d'"
  using assms(2) [unfolded disk_Remove_def]
proof (cases rule: disk_do_spec)
  case (goes d1)
  then show ?thesis
    using relink_temp [OF _ assms(3)] tick_good [OF goes(1)] assms(1) sameView_trans [of d d1] by auto
next
  case (fails t)
  then show ?thesis using assms(1) tick_good [OF fails(1)] by simp
qed

lemma relink_final:
  assumes "opened p n data True d" "\<not> finalName (snd p)" "finalName (snd q)"
    and d': "d' = disk_relink p None (disk_relink q (Some n) d)"
  shows "disk_good d'"
    and "finalName (snd r) \<Longrightarrow> disk_cur d' r = (if r = q then Some data else disk_cur d r)"
    and "finalName (snd r) \<Longrightarrow> disk_may d' r = (if r = q then insert (Some data) (disk_may d r) else disk_may d r)"
proof -
  have g: "disk_good d" and n: "dk_names d p = Some n" "dk_inodes d n = (data, True)"
    using assms(1) by (auto simp: opened_def)
  have ne: "r \<noteq> p" if "finalName (snd r)" for r using assms(2) that by blast
  note f = disk_goodD [OF g]
  have only: "dk_names d r \<noteq> Some n" if "r \<noteq> p" for r using f(5) [OF assms(2) n(1)] that by blast
  have nm: "dk_names d' r = (if r = p then None else if r = q then Some n else dk_names d r)" for r
    by (simp add: d' disk_relink_def)
  have mb: "Some m \<in> set (dk_maybe d' r) \<longleftrightarrow> (r = q \<and> m = n) \<or> Some m \<in> set (dk_maybe d r)" if "finalName (snd r)" for r m
    using ne [OF that] by (auto simp: d' disk_relink_def)
  have rest: "dk_fresh d' = dk_fresh d" "dk_inodes d' = dk_inodes d" by (simp_all add: d' disk_relink_def)
  show "disk_good d'"
  proof (rule disk_goodI)
    show "m < dk_fresh d'" if "dk_names d' r = Some m" for r m
      using that f(1) n(1) unfolding nm rest by (metis option.distinct(1) option.inject)
    show "m < dk_fresh d' \<and> snd (dk_inodes d' m)" if "finalName (snd r)" "Some m \<in> set (dk_maybe d' r)" for r m
      using that f(1) [OF n(1)] f(2) n(2) unfolding rest mb [OF that(1)] by (metis snd_conv)
    show "dk_names d' s \<noteq> Some m"
      if "finalName (snd r)" "Some m \<in> set (dk_maybe d' r)" "\<not> finalName (snd s)" for r m s
      using that f(3) only assms(3) unfolding nm mb [OF that(1)] by (metis option.distinct(1))
    show "dk_names d' r \<in> set (dk_maybe d' r)" if "finalName (snd r)" for r
      using ne [OF that] f(4) [OF that] by (simp add: d' disk_relink_def)
    show "s = r" if "\<not> finalName (snd r)" "dk_names d' r = Some m" "dk_names d' s = Some m" for r s m
      using that f(5) only assms(3) unfolding nm by (metis option.distinct(1))
  qed
  show "disk_cur d' r = (if r = q then Some data else disk_cur d r)" if "finalName (snd r)"
    using ne [OF that] n by (simp add: d' disk_relink_def disk_cur_def)
  show "disk_may d' r = (if r = q then insert (Some data) (disk_may d r) else disk_may d r)" if "finalName (snd r)"
    using ne [OF that] n by (simp add: d' disk_relink_def disk_may_def linkView_def)
qed

lemma disk_Rename_spec:
  assumes o: "opened p n data True d" and r: "disk_Rename p q d = (d', err)"
    and pq: "\<not> finalName (snd p)" "finalName (snd q)"
  shows "disk_good d' \<and> (\<forall>r. finalName (snd r) \<longrightarrow>
    disk_cur d' r = (if err = None \<and> r = q then Some data else disk_cur d r) \<and>
    disk_may d' r = (if err = None \<and> r = q then insert (Some data) (disk_may d r) else disk_may d r))"
  using r [unfolded disk_Rename_def]
proof (cases rule: disk_do_spec)
  case (goes d1)
  note o1 = tick_opened [OF goes(1), THEN iffD2, OF o]
  have d': "d' = disk_relink p None (disk_relink q (Some n) d1)" "err = None"
    using goes(2) o1 by (simp_all add: opened_def)
  have v: "sameView d d1" by (rule tick_good(2) [OF goes(1)])
  show ?thesis
    using relink_final [OF o1 pq d'(1)] v pq(2) unfolding sameView_def d'(2) by (simp del: split_paired_All)
next
  case (fails t)
  then show ?thesis using o tick_good [OF fails(1)] unfolding opened_def sameView_def by auto
qed

lemma temp_name: "\<not> finalName (snd (dir, name @ tempSuffix))"
  by (auto simp: finalName_def)

lemma disk_cleanup:
  assumes "disk_good d" "sameView b d"
  shows "disk_good (fst (disk_Remove (dir, name @ tempSuffix) d))" "sameView b (fst (disk_Remove (dir, name @ tempSuffix) d))"
  using disk_Remove_spec [OF assms(1) _ temp_name] sameView_trans [OF assms(2)]
  by (metis prod.collapse)+

lemma disk_write_file:
  assumes g: "disk_good d" and fin: "finalName name" and w: "writeFileSynced diskFS dir name data d = (d', err)"
  shows "disk_good d' \<and> (\<forall>p. finalName (snd p) \<longrightarrow>
    disk_cur d' p = (if err = None \<and> p = (dir, name) then Some data else disk_cur d p) \<and>
    disk_may d' p = (if err = None \<and> p = (dir, name) then insert (Some data) (disk_may d p) else disk_may d p))"
proof -
  let ?t = "(dir, name @ tempSuffix)"
  have failed: ?thesis if "disk_good d'" "sameView d d'" "err \<noteq> None"
    using that unfolding sameView_def by auto
  obtain d1 r where c: "disk_Create ?t d = (d1, r)" by fastforce
  note c' = disk_Create_spec [OF g c temp_name]
  show ?thesis
  proof (cases r)
    case (Inl e)
    then show ?thesis using c c' w by (intro failed) (auto simp: writeFileSynced_def diskFS_def)
  next
    case (Inr f)
    obtain d2 e2 where wr: "disk_Write f data d1 = (d2, e2)" by fastforce
    note wr' = disk_Write_spec [OF _ wr temp_name, of dir name]
    obtain d3 e3 where sy: "disk_Sync f d2 = (d3, e3)" by fastforce
    note sy' = disk_Sync_spec [OF _ sy temp_name, of dir name]
    obtain d2c e2c where cl2: "disk_Close f d2 = (d2c, e2c)" by fastforce
    obtain d4 e4 where cl: "disk_Close f d3 = (d4, e4)" by fastforce
    note close = disk_Close_spec [OF cl2] disk_Close_spec [OF cl]
    note ops = c Inr wr sy cl cl2
    have o1: "opened ?t f [] False d1" "sameView d d1" using c' Inr by auto
    show ?thesis
    proof (cases e2)
      case (Some e)
      have "disk_good d2c" "sameView d d2c" using wr' [OF o1(1)] o1(2) close(1) sameView_trans by blast+
      then show ?thesis using w ops Some disk_cleanup [of d2c d dir name]
        by (intro failed) (auto simp: writeFileSynced_def diskFS_def)
    next
      case e2: None
      have o2: "opened ?t f data False d2" "sameView d d2"
        using wr' [OF o1(1)] o1(2) e2 by (auto intro: sameView_trans)
      show ?thesis
      proof (cases "e3 = None \<and> e4 = None")
        case True
        have o4: "opened ?t f data True d4" "sameView d d4"
          using sy' [OF o2(1)] o2(2) close(2) True by (auto intro: sameView_trans)
        have rn: "disk_Rename ?t (dir, name) d4 = (d', err)"
          using w ops e2 True by (simp add: writeFileSynced_def diskFS_def)
        have "finalName (snd (dir, name))" using fin by simp
        note rename = disk_Rename_spec [OF o4(1) rn temp_name this]
        then show ?thesis using o4(2) unfolding sameView_def by simp
      next
        case False
        have "disk_good d4" "sameView d d4" using sy' [OF o2(1)] o2(2) close(2) sameView_trans by blast+
        moreover from False have "d' = fst (disk_Remove ?t d4)" "err \<noteq> None"
          using w ops e2 by (cases e3; cases e4; simp add: writeFileSynced_def diskFS_def; blast)+
        ultimately show ?thesis using failed disk_cleanup [of d4 d dir name] by simp
      qed
    qed
  qed
qed

interpretation ds: synced_files diskFS disk_good disk_cur disk_may
proof
  fix d and p :: path assume "disk_good d" "finalName (snd p)"
  then show "disk_cur d p \<in> disk_may d p"
    using disk_goodD(2,4) [of d p] unfolding disk_cur_def disk_may_def
    by (cases "dk_names d p") (force simp: linkView_def)+
next
  fix d dir d' err assume g: "disk_good d" and m: "fs_MkdirAll diskFS dir d = (d', err)"
  from m have "disk_MkdirAll dir d = (d', err)" by (simp add: diskFS_def)
  from this [unfolded disk_MkdirAll_def]
  show "disk_good d' \<and> (\<forall>p. finalName (snd p) \<longrightarrow> disk_cur d' p = disk_cur d p \<and> disk_may d' p = disk_may d p)"
    unfolding sameView_def [symmetric]
  proof (cases rule: disk_do_spec)
    case (goes d1)
    then have "d' = d1\<lparr>dk_dirs := List.insert dir (dk_dirs d1)\<rparr>" by simp
    then have "disk_good d' = disk_good d1" "sameView d1 d'"
      by (simp_all add: disk_good_def sameView_def disk_cur_def disk_may_def)
    then show "disk_good d' \<and> sameView d d'"
      using g tick_good [OF goes(1)] sameView_trans by blast
  next
    case (fails t)
    then show "disk_good d' \<and> sameView d d'" using g tick_good [OF fails(1)] by simp
  qed
next
  fix d dir d' err assume g: "disk_good d" and m: "fs_SyncDir diskFS dir d = (d', err)"
  from m have "disk_SyncDir dir d = (d', err)" by (simp add: diskFS_def)
  from this [unfolded disk_SyncDir_def]
  show "disk_good d' \<and> (\<forall>p. finalName (snd p) \<longrightarrow> disk_cur d' p = disk_cur d p \<and>
      disk_may d' p = (if err = None \<and> fst p = dir then {disk_cur d p} else disk_may d p))"
  proof (cases rule: disk_do_spec)
    case (goes d1)
    note t = tick_good [OF goes(1)]
    have d': "d' = d1\<lparr>dk_maybe := (\<lambda>p. if fst p = dir then [dk_names d1 p] else dk_maybe d1 p)\<rparr>" "err = None"
      using goes(2) by simp_all
    have g1: "disk_good d1" using g t(1) by simp
    have "disk_good d'"
    proof (rule disk_goodI)
      show "n < dk_fresh d'" if "dk_names d' p = Some n" for p n
        using that disk_goodD(1) [OF g1, of p] by (simp add: d')
      show "n < dk_fresh d' \<and> snd (dk_inodes d' n)" if "finalName (snd p)" "Some n \<in> set (dk_maybe d' p)" for p n
        using that disk_goodD(2,4) [OF g1, of p] by (simp add: d' split: if_splits)
      show "dk_names d' q \<noteq> Some n"
        if "finalName (snd p)" "Some n \<in> set (dk_maybe d' p)" "\<not> finalName (snd q)" for p n q
        using that disk_goodD(3) [OF g1 that(1) _ that(3), of n] disk_goodD(4) [OF g1 that(1)]
        by (simp add: d' split: if_splits)
      show "dk_names d' p \<in> set (dk_maybe d' p)" if "finalName (snd p)" for p
        using that disk_goodD(4) [OF g1, of p] by (simp add: d')
      show "q = p" if "\<not> finalName (snd p)" "dk_names d' p = Some n" "dk_names d' q = Some n" for p q n
        using that disk_goodD(5) [OF g1, of p n q] by (simp add: d')
    qed
    moreover have "disk_cur d' p = disk_cur d p" if "finalName (snd p)" for p
      using t(2) that unfolding sameView_def disk_cur_def by (simp add: d' del: split_paired_All)
    moreover have "disk_may d' p = (if fst p = dir then {disk_cur d p} else disk_may d p)" if "finalName (snd p)" for p
    proof (cases "fst p = dir")
      case True
      have "disk_may d' p = {disk_cur d1 p}"
        using True disk_goodD(2) [OF g1 that] disk_goodD(4) [OF g1 that]
        by (cases "dk_names d1 p") (auto simp: d' disk_may_def disk_cur_def linkView_def)
      then show ?thesis using t(2) that True unfolding sameView_def by (simp del: split_paired_All)
    next
      case False
      then have "disk_may d' p = disk_may d1 p" by (simp add: d' disk_may_def)
      then show ?thesis using t(2) that False unfolding sameView_def by (simp del: split_paired_All)
    qed
    ultimately show ?thesis using d'(2) by (simp del: split_paired_All)
  next
    case (fails t)
    then show ?thesis using g tick_good [OF fails(1)] unfolding sameView_def by auto
  qed
qed (rule disk_write_file)

section \<open>What a reader finds after a crash\<close>

text \<open>The contents a crash can leave: every final name has one of the values it may have, except
  that a directory whose own entry in the root did not become durable is gone with all its
  files.\<close>

definition crash_view :: "disk \<Rightarrow> (path \<Rightarrow> bytes option) \<Rightarrow> bool" where
  "crash_view d rd \<longleftrightarrow> (\<exists>lost. \<forall>p. finalName (snd p) \<longrightarrow>
     (if fst p \<in> lost then rd p = None else rd p \<in> disk_may d p))"

lemma crash_view_cur: "disk_good d \<Longrightarrow> crash_view d (disk_cur d)"
  unfolding crash_view_def by (intro exI [of _ "{}"]) (simp add: ds.cur_may)

lemma crash_view_marked:
  assumes "crash_view d rd" "rd (dir, n) \<noteq> None" "finalName n" "finalName m"
  shows "rd (dir, m) \<in> disk_may d (dir, m)" "rd (dir, n) \<in> disk_may d (dir, n)"
  using assms unfolding crash_view_def by (metis fst_conv snd_conv)+

lemma subtask_index_valid:
  assumes "validMeta m" "k \<in> set (Subtasks m)" "checkVertexID (sk_VertexID k) = None"
  shows "validKey k"
proof -
  obtain v j where v: "v \<in> set (md_Vertices m)" "j < nat (sint (vm_Parallelism v))"
    "k = \<lparr>sk_VertexID = vm_ID v, sk_Index = word_of_nat j\<rparr>"
    using assms(2) by (auto simp: Subtasks_def)
  have "sint (vm_Parallelism v) < 2 ^ 32" using assms(1) v(1) by (auto simp: validMeta_def list_all_iff)
  then have "j < 2 ^ 32" using v(2) by simp
  then have "sint (word_of_nat j :: int64) = int j" using sint64_of_int [of "int j"] by simp
  then show ?thesis using assms(3) v(3) \<open>j < 2 ^ 32\<close> by (simp add: validKey_def)
qed

definition statesHeld :: "(path \<Rightarrow> bytes option) \<Rightarrow> int64 \<Rightarrow> Metadata \<Rightarrow> (SubtaskKey \<Rightarrow> bytes) \<Rightarrow> bool" where
  "statesHeld rd i meta pay \<longleftrightarrow> (\<forall>k \<in> set (Subtasks meta). checkVertexID (sk_VertexID k) = None \<and>
     length (pay k) < 2 ^ 59 \<and> rd (storage_dir i, fileName k) = Some (encodeSubtaskState i k (pay k)))"

lemma loadStates_ok:
  assumes "\<And>k. k \<in> set ks \<Longrightarrow> validKey k \<and> length (pay k) < 2 ^ 59 \<and>
    rd (storage_dir i, fileName k) = Some (encodeSubtaskState i k (pay k))"
  shows "loadStates rd i ks = Inr (map (\<lambda>k. (k, pay k)) ks)"
  using assms by (induction ks) (simp_all add: decode_header)

lemma Load_held:
  assumes "validMeta meta" "statesHeld rd i meta pay" "rd (storage_dir i, metadataName) = Some (encodeMetadata meta)"
    "rd (storage_dir i, completeName) \<noteq> None"
  shows "storage_Load rd i = Inr (meta, map (\<lambda>k. (k, pay k)) (Subtasks meta))"
proof -
  have "loadStates rd i (Subtasks meta) = Inr (map (\<lambda>k. (k, pay k)) (Subtasks meta))"
    using assms(1,2) by (intro loadStates_ok) (auto simp: statesHeld_def intro: subtask_index_valid)
  then show ?thesis using assms(3,4) by (auto simp: storage_Load_def decode_encode_metadata [OF assms(1)])
qed

lemma Load_vouched:
  assumes "validMeta meta" "statesHeld (disk_cur d) i meta pay"
    "disk_cur d (storage_dir i, metadataName) = Some (encodeMetadata meta)" "ds.vouched d i"
    "crash_view d rd" "rd (storage_dir i, completeName) \<noteq> None"
  shows "storage_Load rd i = Inr (meta, map (\<lambda>k. (k, pay k)) (Subtasks meta))"
proof -
  have same: "rd (storage_dir i, n) = disk_cur d (storage_dir i, n)" if "finalName n" "n \<noteq> completeName" for n
    using crash_view_marked(1) [OF assms(5,6) _ that(1)] assms(4) that by (auto simp: ds.vouched_def)
  show ?thesis
    by (rule Load_held) (use assms(1-3,6) same in \<open>simp_all add: statesHeld_def\<close>)
qed

lemma Load_unmarked:
  "rd (storage_dir i, completeName) = None \<Longrightarrow> storage_Load rd i = Inl (CheckpointErr errNoCheckpoint)"
  by (simp add: storage_Load_def)

section \<open>A disk on which nothing fails\<close>

definition newDisk :: "outcome list \<Rightarrow> disk" where
  "newDisk script = \<lparr>dk_inodes = (\<lambda>_. ([], True)), dk_fresh = 0, dk_names = (\<lambda>_. None), dk_maybe = (\<lambda>_. [None]),
     dk_dirs = [], dk_script = script, dk_down = False\<rparr>"

lemma newDisk_empty [simp]:
  "disk_good (newDisk script)" "disk_may (newDisk script) p = {None}" "disk_cur (newDisk script) p = None"
  by (rule disk_goodI) (simp_all add: newDisk_def disk_may_def disk_cur_def linkView_def)

definition clean :: "disk \<Rightarrow> bool" where
  "clean d \<longleftrightarrow> dk_script d = [] \<and> \<not> dk_down d"

lemma clean_newDisk [simp]: "clean (newDisk [])"
  by (simp add: clean_def newDisk_def)

lemma clean_tick [simp]: "clean d \<Longrightarrow> tick d = (d, Goes)"
  by (simp add: clean_def tick_def)

lemma clean_simps [simp]:
  "clean (d\<lparr>dk_inodes := a\<rparr>) = clean d" "clean (d\<lparr>dk_fresh := b\<rparr>) = clean d" "clean (d\<lparr>dk_names := c\<rparr>) = clean d"
  "clean (d\<lparr>dk_maybe := e\<rparr>) = clean d" "clean (d\<lparr>dk_dirs := f\<rparr>) = clean d" "clean (disk_append n bs d) = clean d"
  "clean (disk_relink p l d) = clean d"
  by (simp_all add: clean_def disk_append_def disk_relink_def)

lemma clean_MkdirAll: "clean d \<Longrightarrow> \<exists>d'. fs_MkdirAll diskFS dir d = (d', None) \<and> clean d' \<and> dir \<in> set (dk_dirs d')"
  by (simp add: diskFS_def disk_MkdirAll_def disk_do_def)

lemma clean_SyncDir: "clean d \<Longrightarrow> \<exists>d'. fs_SyncDir diskFS dir d = (d', None) \<and> clean d' \<and> dk_dirs d' = dk_dirs d"
  by (simp add: diskFS_def disk_SyncDir_def disk_do_def)

lemma clean_writeFile:
  assumes "clean d" "dir \<in> set (dk_dirs d)"
  shows "\<exists>d'. writeFileSynced diskFS dir name data d = (d', None) \<and> clean d' \<and> dk_dirs d' = dk_dirs d"
proof -
  let ?t = "(dir, name @ tempSuffix)"
  obtain d1 n where c: "disk_Create ?t d = (d1, Inr n)" "clean d1" "dk_dirs d1 = dk_dirs d" "dk_names d1 ?t = Some n"
    using assms by (cases "dk_names d ?t") (simp_all add: disk_Create_def disk_open_def Let_def)
  show ?thesis
    using c by (simp add: writeFileSynced_def diskFS_def disk_Write_def disk_Sync_def disk_Close_def disk_Rename_def
      disk_do_def disk_append_def disk_relink_def Let_def)
qed

lemma clean_WriteSubtaskState:
  assumes "clean d" "checkVertexID (sk_VertexID key) = None"
  shows "\<exists>d'. WriteSubtaskState diskFS i key payload d = (d', None) \<and> clean d'"
proof -
  obtain d1 where d1: "fs_MkdirAll diskFS (storage_dir i) d = (d1, None)" "clean d1" "storage_dir i \<in> set (dk_dirs d1)"
    using clean_MkdirAll [OF assms(1)] by blast
  then show ?thesis
    using clean_writeFile [OF d1(2,3), of "fileName key" "encodeSubtaskState i key payload"] assms(2)
    by (auto simp: WriteSubtaskState_def)
qed

lemma clean_Complete:
  assumes "clean d"
  shows "\<exists>d'. storage_Complete diskFS i meta d = (d', None) \<and> clean d'"
proof -
  obtain d1 where d1: "fs_MkdirAll diskFS (storage_dir i) d = (d1, None)" "clean d1" "storage_dir i \<in> set (dk_dirs d1)"
    using clean_MkdirAll [OF assms] by blast
  obtain d2 where d2: "writeFileSynced diskFS (storage_dir i) metadataName (encodeMetadata meta) d1 = (d2, None)"
    "clean d2" "storage_dir i \<in> set (dk_dirs d2)" using clean_writeFile [OF d1(2,3)] d1(3) by metis
  obtain d3 where d3: "fs_SyncDir diskFS (storage_dir i) d2 = (d3, None)" "clean d3" "storage_dir i \<in> set (dk_dirs d3)"
    using clean_SyncDir [OF d2(2)] d2(3) by metis
  obtain d4 where d4: "writeFileSynced diskFS (storage_dir i) completeName (FormatInt i @ [10]) d3 = (d4, None)"
    "clean d4" using clean_writeFile [OF d3(2,3)] by metis
  obtain d5 where d5: "fs_SyncDir diskFS (storage_dir i) d4 = (d5, None)" "clean d5"
    using clean_SyncDir [OF d4(2)] by metis
  show ?thesis using d1(1) d2(1) d3(1) d4(1) d5 by (simp add: storage_Complete_def)
qed

text \<open>C18. \<open>Complete\<close> is all or nothing. Once the state file of every subtask is in place, whatever fails
  during \<open>Complete\<close>, wherever the machine stops in it and whatever of the unsynced directory
  entries survives: a reader that finds the marker loads exactly the metadata and every
  payload, and one that does not find it is refused. When it returns nil the marker is there,
  unless the directory of the checkpoint itself is gone.\<close>

theorem complete_all_or_nothing:
  assumes "disk_good d" "validMeta meta" "statesHeld (disk_cur d) i meta pay"
    and "disk_may d (storage_dir i, completeName) = {None}"
    and "storage_Complete diskFS i meta d = (d', err)"
    and "crash_view d' rd"
  shows "storage_Load rd i =
      (if rd (storage_dir i, completeName) = None then Inl (CheckpointErr errNoCheckpoint)
       else Inr (meta, map (\<lambda>k. (k, pay k)) (Subtasks meta))) \<and>
    (err = None \<longrightarrow> (\<forall>n. finalName n \<longrightarrow> rd (storage_dir i, n) = None) \<or>
      rd (storage_dir i, completeName) = Some (FormatInt i @ [10]))"
proof -
  note c = ds.Complete_spec [OF assms(1,5,4)]
  note c_states = c [THEN conjunct2, THEN conjunct2, THEN conjunct1]
  note c_marked = c [THEN conjunct2, THEN conjunct2, THEN conjunct2, THEN conjunct1]
  note c_done = c [THEN conjunct2, THEN conjunct2, THEN conjunct2, THEN conjunct2]
  have "disk_cur d' (storage_dir i, fileName k) = disk_cur d (storage_dir i, fileName k)" for k
    using c_states [THEN spec [of _ "(storage_dir i, fileName k)"]] by simp
  then have held: "statesHeld (disk_cur d') i meta pay"
    using assms(3) unfolding statesHeld_def by simp
  have "storage_Load rd i = Inr (meta, map (\<lambda>k. (k, pay k)) (Subtasks meta))"
    if "rd (storage_dir i, completeName) \<noteq> None"
  proof -
    note m = that
    have "disk_may d' (storage_dir i, completeName) \<noteq> {None}" using crash_view_marked(2) [OF assms(6) m finalNames(1) finalNames(1)] m by fastforce
    then have "ds.vouched d' i" "disk_cur d' (storage_dir i, metadataName) = Some (encodeMetadata meta)"
      using c_marked by blast+
    then show ?thesis using Load_vouched [OF assms(2) held _ _ assms(6) m] by blast
  qed
  moreover have "(\<forall>n. finalName n \<longrightarrow> rd (storage_dir i, n) = None) \<or>
      rd (storage_dir i, completeName) = Some (FormatInt i @ [10])" if "err = None"
  proof -
    obtain lost where l: "\<And>p. finalName (snd p) \<Longrightarrow> if fst p \<in> lost then rd p = None else rd p \<in> disk_may d' p"
      using assms(6) unfolding crash_view_def by blast
    have "disk_may d' (storage_dir i, completeName) = {Some (FormatInt i @ [10])}" using c_done that by blast
    then show ?thesis using l [of "(storage_dir i, completeName)"] l [of "(storage_dir i, n)" for n]
      by (cases "storage_dir i \<in> lost") simp_all
  qed
  ultimately show ?thesis by (simp add: Load_unmarked)
qed

definition example_job :: Metadata where
  "example_job = \<lparr>md_Vertices = [\<lparr>vm_ID = [97, 45, 98], vm_Parallelism = 1, vm_Count = 100\<rparr>], md_Seed = 42\<rparr>"

lemma example_job_facts:
  "validMeta example_job" "Subtasks example_job = [\<lparr>sk_VertexID = [97, 45, 98], sk_Index = 0\<rparr>]"
  "checkVertexID [97, 45, 98] = None"
  by (simp_all add: validMeta_def example_job_def Subtasks_def checkVertexID_def)

theorem complete_all_or_nothing_witness:
  "\<exists>d d'. WriteSubtaskState diskFS 7 \<lparr>sk_VertexID = [97, 45, 98], sk_Index = 0\<rparr> [1, 2] (newDisk []) = (d, None) \<and>
    storage_Complete diskFS 7 example_job d = (d', None) \<and>
    storage_Load (disk_cur d') 7 = Inr (example_job, [(\<lparr>sk_VertexID = [97, 45, 98], sk_Index = 0\<rparr>, [1, 2])])"
proof -
  let ?k = "\<lparr>sk_VertexID = [97, 45, 98], sk_Index = 0\<rparr>"
  obtain d where d: "WriteSubtaskState diskFS 7 ?k [1, 2] (newDisk []) = (d, None)" "clean d"
    using clean_WriteSubtaskState [OF clean_newDisk, of ?k] by (auto simp: example_job_facts)
  obtain d' where d': "storage_Complete diskFS 7 example_job d = (d', None)"
    using clean_Complete [OF d(2)] by blast
  note w = ds.WriteSubtaskState_spec [OF newDisk_empty(1) d(1)]
  have g: "disk_good d" and u: "disk_may d (storage_dir 7, completeName) = {None}"
    and s: "disk_cur d (storage_dir 7, fileName ?k) = Some (encodeSubtaskState 7 ?k [1, 2])"
    using w [of "(storage_dir 7, completeName)"] w [of "(storage_dir 7, fileName ?k)"] by simp_all
  have h: "statesHeld (disk_cur d) 7 example_job (\<lambda>_. [1, 2])"
    using s by (simp add: statesHeld_def example_job_facts)
  have g': "disk_good d'" "disk_cur d' (storage_dir 7, completeName) \<noteq> None"
    using ds.Complete_spec [OF g d' u] by auto
  show ?thesis
    using complete_all_or_nothing [OF g example_job_facts(1) h u d' crash_view_cur [OF g'(1)]] d(1) d' g'(2)
    by (auto simp: example_job_facts)
qed

section \<open>The latest checkpoint\<close>

lemma digitsValue_digits: "digitsValue (digits n) = Some n"
proof -
  have "digits n \<noteq> []" by (subst digits.simps) simp
  moreover have "48 \<le> d \<and> d \<le> 57" if "d \<in> set (digits n)" for d
    using digits_range [OF that] by (simp add: word_le_nat_alt)
  ultimately show ?thesis by (simp add: digitsValue_def list_all_iff digits_value)
qed

lemma digits_first: "\<exists>d ds. digits n = d # ds \<and> d \<noteq> 45 \<and> d \<noteq> 43"
proof (cases "digits n")
  case Nil
  then show ?thesis by (subst (asm) digits.simps) (simp split: if_splits)
next
  case (Cons d ds)
  then show ?thesis using digits_range [of d n] by auto
qed

lemma ParseInt_FormatInt: "ParseInt (FormatInt i) = Some i"
proof -
  obtain d ds where d: "digits (nat (sint i)) = d # ds" "d \<noteq> 45" "d \<noteq> 43" using digits_first by blast
  show ?thesis
  proof (cases "i <s 0")
    case True
    then show ?thesis using sint64_bounds [of i]
      by (simp add: ParseInt_def FormatInt_def digitsValue_digits word_sless_alt)
  next
    case False
    then show ?thesis using d sint64_bounds [of i] digitsValue_digits [of "nat (sint i)"]
      by (simp add: ParseInt_def FormatInt_def word_sless_alt)
  qed
qed

definition complete_ids :: "(path \<Rightarrow> bytes option) \<Rightarrow> bytes list \<Rightarrow> int64 set" where
  "complete_ids rd es = {i. storage_dir i \<in> set es \<and> rd (storage_dir i, completeName) \<noteq> None}"

definition best_of :: "int64 option \<Rightarrow> int64 set \<Rightarrow> int64 option \<Rightarrow> bool" where
  "best_of b A r \<longleftrightarrow> (case r of
       None \<Rightarrow> b = None \<and> A = {}
     | Some n \<Rightarrow> n \<in> A \<union> set_option b \<and> (\<forall>m \<in> A \<union> set_option b. sint m \<le> sint n))"

lemma best_of_insert:
  assumes "best_of (case b of None \<Rightarrow> Some i | Some m \<Rightarrow> if m <s i then Some i else b) A r"
  shows "best_of b (insert i A) r"
proof -
  let ?c = "case b of None \<Rightarrow> Some i | Some m \<Rightarrow> if m <s i then Some i else b"
  have c: "?c \<noteq> None" "set_option ?c \<subseteq> insert i (set_option b)"
    "\<forall>m \<in> insert i (set_option b). \<exists>c \<in> set_option ?c. sint m \<le> sint c"
    by (auto simp: word_sless_alt split: option.splits)
  then obtain n where n: "r = Some n" "n \<in> A \<union> set_option ?c" "\<forall>m \<in> A \<union> set_option ?c. sint m \<le> sint n"
    using assms by (cases r) (auto simp: best_of_def)
  have "sint m \<le> sint n" if "m \<in> insert i A \<union> set_option b" for m
  proof (cases "m \<in> A")
    case False
    then have "m \<in> insert i (set_option b)" using that by blast
    then obtain k where k: "k \<in> set_option ?c" "sint m \<le> sint k" using c(3) by blast
    then show ?thesis using n(3) [THEN bspec, OF UnI2 [OF k(1)]] by linarith
  qed (use n(3) in blast)
  then show ?thesis using n(1,2) c(2) by (auto simp: best_of_def)
qed

lemma latestAmong_best:
  assumes "\<forall>e \<in> set es. take (length dirPrefix) e = dirPrefix \<longrightarrow> (\<exists>i. e = storage_dir i)"
  shows "best_of b (complete_ids rd es) (latestAmong rd es b)"
  using assms
proof (induction es arbitrary: b)
  case Nil
  then show ?case by (cases b) (simp_all add: best_of_def complete_ids_def)
next
  case (Cons e es)
  have inj: "storage_dir i = storage_dir j \<longleftrightarrow> i = j" for i j
    by (auto simp: storage_dir_def dest: arg_cong [of _ _ ParseInt] simp: ParseInt_FormatInt)
  show ?case
  proof (cases "\<exists>i. e = storage_dir i \<and> rd (e, completeName) \<noteq> None")
    case True
    then obtain i where i: "e = storage_dir i" "rd (storage_dir i, completeName) \<noteq> None" by blast
    let ?b = "case b of None \<Rightarrow> Some i | Some m \<Rightarrow> if m <s i then Some i else b"
    have "latestAmong rd (e # es) b = latestAmong rd es ?b"
      using i by (auto simp: storage_dir_def ParseInt_FormatInt)
    moreover have "complete_ids rd (e # es) = insert i (complete_ids rd es)"
      using i inj by (auto simp: complete_ids_def)
    moreover have "best_of ?b (complete_ids rd es) (latestAmong rd es ?b)"
      using Cons by simp
    ultimately show ?thesis using best_of_insert [of i b] by simp
  next
    case False
    have "latestAmong rd (e # es) b = latestAmong rd es b"
    proof (cases "take (length dirPrefix) e = dirPrefix")
      case True
      then obtain i where "e = storage_dir i" using Cons.prems by auto
      then show ?thesis using False by (auto simp: storage_dir_def ParseInt_FormatInt)
    qed simp
    moreover have "complete_ids rd (e # es) = complete_ids rd es"
      using False by (auto simp: complete_ids_def)
    ultimately show ?thesis using Cons by simp
  qed
qed

text \<open>C19. \<open>Latest\<close> on a root in which every directory named like a checkpoint was made by the storage:
  it returns an identifier exactly when some checkpoint has its marker, and then the greatest
  of those, whatever the order of the listing, whatever other entries the root holds and
  however many later checkpoints are incomplete; the name of a directory reads back to its
  identifier, negative ones included.\<close>

theorem latest_is_greatest_complete:
  assumes "\<forall>e \<in> set es. take (length dirPrefix) e = dirPrefix \<longrightarrow> (\<exists>i. e = storage_dir i)"
  shows "case storage_Latest (Some es) rd of
      None \<Rightarrow> complete_ids rd es = {}
    | Some n \<Rightarrow> n \<in> complete_ids rd es \<and> (\<forall>m \<in> complete_ids rd es. sint m \<le> sint n)"
  using latestAmong_best [OF assms, of None rd]
  by (simp add: storage_Latest_def best_of_def split: option.splits)

theorem latest_is_greatest_complete_witness:
  "storage_Latest (Some [[120], storage_dir 2, storage_dir 11, storage_dir 30])
     (\<lambda>p. if p = (storage_dir 11, completeName) \<or> p = (storage_dir 2, completeName) then Some [] else None) = Some 11"
proof -
  let ?es = "[[120], storage_dir 2, storage_dir 11, storage_dir 30]"
  let ?rd = "\<lambda>p. if p = (storage_dir 11, completeName) \<or> p = (storage_dir 2, completeName) then Some [] else None"
  have inj: "storage_dir i = storage_dir j \<longleftrightarrow> i = j" for i j
    by (auto simp: storage_dir_def dest: arg_cong [of _ _ ParseInt] simp: ParseInt_FormatInt)
  have ids: "complete_ids ?rd ?es = {2, 11}" by (auto simp: complete_ids_def inj split: if_splits)
  have "\<forall>e \<in> set ?es. take (length dirPrefix) e = dirPrefix \<longrightarrow> (\<exists>i. e = storage_dir i)"
    by (auto simp: dirPrefix_def)
  from latest_is_greatest_complete [OF this, of ?rd] show ?thesis
    unfolding ids by (auto split: option.splits)
qed

end
