(* ===== verification/Coordinator.thy ===== *)
theory Coordinator
  imports Checkpoint_Storage
begin

text \<open>
  The checkpoint coordinator of \<open>pkg/checkpoint/coordinator.go\<close>. Every method holds the mutex for
  its whole body, so a concurrent execution is a sequence of calls; the theorems are about
  every such sequence. The iteration order of a Go map is an argument of the operations that
  iterate over one. The channel \<open>changed\<close>, which is closed and replaced at every announcement, is
  the number of its replacements.
\<close>

section \<open>State\<close>

record checkpointState =
  cs_acked :: "SubtaskKey list"
  cs_complete :: bool
  cs_abandoned :: bool

definition terminal :: "checkpointState \<Rightarrow> bool" where
  "terminal s \<longleftrightarrow> cs_complete s \<or> cs_abandoned s"

record 'd Coordinator =
  co_storage :: 'd
  co_meta :: Metadata
  co_expected :: "SubtaskKey list"
  co_state :: "int64 \<rightharpoonup> checkpointState"
  co_done :: "SubtaskKey \<rightharpoonup> bytes"
  co_changed :: nat

definition NewCoordinator :: "'d \<Rightarrow> Metadata \<Rightarrow> 'd Coordinator" where
  "NewCoordinator storage meta =
     \<lparr>co_storage = storage, co_meta = meta, co_expected = remdups (Subtasks meta), co_state = Map.empty,
      co_done = Map.empty, co_changed = 0\<rparr>"

definition Expected :: "'d Coordinator \<Rightarrow> nat" where
  "Expected c = length (co_expected c)"

section \<open>Operations\<close>

definition announce :: "'d Coordinator \<Rightarrow> 'd Coordinator" where
  "announce c = c\<lparr>co_changed := co_changed c + 1\<rparr>"

definition abandon :: "int64 \<Rightarrow> checkpointState \<Rightarrow> 'd Coordinator \<Rightarrow> 'd Coordinator" where
  "abandon i st c = announce (c\<lparr>co_state := (co_state c)(i \<mapsto> st\<lparr>cs_abandoned := True, cs_acked := []\<rparr>)\<rparr>)"

definition stateFor :: "int64 \<Rightarrow> 'd Coordinator \<Rightarrow> checkpointState \<times> 'd Coordinator" where
  "stateFor i c =
     (case co_state c i of
        Some st \<Rightarrow> (st, c)
      | None \<Rightarrow>
          (let st = \<lparr>cs_acked = [], cs_complete = False, cs_abandoned = False\<rparr>
           in (st, c\<lparr>co_state := (co_state c)(i \<mapsto> st)\<rparr>)))"

definition outstanding :: "'d Coordinator \<Rightarrow> checkpointState \<Rightarrow> nat" where
  "outstanding c st = length (filter (\<lambda>k. k \<notin> set (cs_acked st) \<and> co_done c k = None) (co_expected c))"

text \<open>\<open>c.done[key]\<close> is the nil slice for a key that is not there.\<close>

definition doneOf :: "'d Coordinator \<Rightarrow> SubtaskKey \<Rightarrow> bytes" where
  "doneOf c k = (case co_done c k of None \<Rightarrow> [] | Some p \<Rightarrow> p)"

fun writeMissing ::
  "'d fileSystem \<Rightarrow> int64 \<Rightarrow> SubtaskKey list \<Rightarrow> (SubtaskKey \<Rightarrow> bytes) \<Rightarrow> SubtaskKey list \<Rightarrow> 'd \<Rightarrow> 'd \<times> go_error option" where
  "writeMissing FS i acked dn [] d = (d, None)"
| "writeMissing FS i acked dn (k # ks) d =
     (if k \<in> set acked then writeMissing FS i acked dn ks d
      else case WriteSubtaskState FS i k (dn k) d of
          (d', Some e) \<Rightarrow> (d', Some e)
        | (d', None) \<Rightarrow> writeMissing FS i acked dn ks d')"

definition coordinator_complete ::
  "'d fileSystem \<Rightarrow> SubtaskKey list \<Rightarrow> int64 \<Rightarrow> checkpointState \<Rightarrow> 'd Coordinator \<Rightarrow> 'd Coordinator \<times> go_error option" where
  "coordinator_complete FS ord i st c =
     (case writeMissing FS i (cs_acked st) (doneOf c) ord (co_storage c) of
        (d1, Some e) \<Rightarrow> (abandon i st (c\<lparr>co_storage := d1\<rparr>), Some e)
      | (d1, None) \<Rightarrow>
          (case storage_Complete FS i (co_meta c) d1 of
             (d2, Some e) \<Rightarrow> (abandon i st (c\<lparr>co_storage := d2\<rparr>), Some e)
           | (d2, None) \<Rightarrow>
               (announce (c\<lparr>co_storage := d2,
                  co_state := (co_state c)(i \<mapsto> st\<lparr>cs_complete := True, cs_acked := []\<rparr>)\<rparr>), None)))"

definition Acknowledge ::
  "'d fileSystem \<Rightarrow> SubtaskKey list \<Rightarrow> int64 \<Rightarrow> SubtaskKey \<Rightarrow> bytes \<Rightarrow> 'd Coordinator \<Rightarrow> 'd Coordinator \<times> go_error option" where
  "Acknowledge FS ord i key payload c =
     (if key \<notin> set (co_expected c) then (c, Some (CheckpointErr errUnknownSubtask))
      else let (st, c1) = stateFor i c
           in if cs_abandoned st then (c1, None)
              else if cs_complete st \<or> key \<in> set (cs_acked st) then (c1, Some (CheckpointErr errDuplicateAck))
              else case WriteSubtaskState FS i key payload (co_storage c1) of
                  (d, Some e) \<Rightarrow> (abandon i st (c1\<lparr>co_storage := d\<rparr>), Some e)
                | (d, None) \<Rightarrow>
                    (let st' = st\<lparr>cs_acked := key # cs_acked st\<rparr>;
                         c2 = c1\<lparr>co_storage := d, co_state := (co_state c1)(i \<mapsto> st')\<rparr>
                     in if 0 < outstanding c2 st' then (c2, None)
                        else coordinator_complete FS ord i st' c2))"

fun completeWaiting ::
  "'d fileSystem \<Rightarrow> (int64 \<Rightarrow> SubtaskKey list) \<Rightarrow> int64 list \<Rightarrow> 'd Coordinator \<Rightarrow> 'd Coordinator \<times> go_error option" where
  "completeWaiting FS ord [] c = (c, None)"
| "completeWaiting FS ord (i # ids) c =
     (case co_state c i of
        None \<Rightarrow> completeWaiting FS ord ids c
      | Some st \<Rightarrow>
          if terminal st then completeWaiting FS ord ids c
          else if 0 < outstanding c st then completeWaiting FS ord ids c
          else case coordinator_complete FS (ord i) i st c of
              (c', Some e) \<Rightarrow> (c', Some e)
            | (c', None) \<Rightarrow> completeWaiting FS ord ids c')"

definition Finished ::
  "'d fileSystem \<Rightarrow> (int64 \<Rightarrow> SubtaskKey list) \<Rightarrow> int64 list \<Rightarrow> SubtaskKey \<Rightarrow> bytes \<Rightarrow> 'd Coordinator \<Rightarrow> 'd Coordinator \<times> go_error option" where
  "Finished FS ord ids key payload c =
     (if key \<notin> set (co_expected c) then (c, Some (CheckpointErr errUnknownSubtask))
      else if co_done c key \<noteq> None then (c, Some (CheckpointErr errDuplicateFinish))
      else completeWaiting FS ord ids (c\<lparr>co_done := (co_done c)(key \<mapsto> payload)\<rparr>))"

definition Fail :: "int64 \<Rightarrow> SubtaskKey \<Rightarrow> 'd Coordinator \<Rightarrow> 'd Coordinator" where
  "Fail i key c = (let (st, c1) = stateFor i c in if cs_complete st then c1 else abandon i st c1)"

definition Completed :: "int64 \<Rightarrow> 'd Coordinator \<Rightarrow> bool" where
  "Completed i c = (case co_state c i of Some st \<Rightarrow> cs_complete st | None \<Rightarrow> False)"

definition Abandoned :: "int64 \<Rightarrow> 'd Coordinator \<Rightarrow> bool" where
  "Abandoned i c = (case co_state c i of Some st \<Rightarrow> cs_abandoned st | None \<Rightarrow> False)"

definition Acked :: "int64 \<Rightarrow> 'd Coordinator \<Rightarrow> nat" where
  "Acked i c = (case co_state c i of Some st \<Rightarrow> length (cs_acked st) | None \<Rightarrow> 0)"

definition CompletedAmong :: "int64 list \<Rightarrow> 'd Coordinator \<Rightarrow> int64 list" where
  "CompletedAmong ids c = filter (\<lambda>i. Completed i c) ids"

definition settled :: "int64 list \<Rightarrow> 'd Coordinator \<Rightarrow> bool" where
  "settled ids c = list_all (\<lambda>i. case co_state c i of Some st \<Rightarrow> terminal st | None \<Rightarrow> False) ids"

text \<open>Each turn of the loop of \<open>AwaitCompletedAmong\<close> takes the lock once: \<open>woken c\<close> is a turn the
  waiter reaches because the channel it read was closed, \<open>cancelled c\<close> the turn after the
  context was done, with the coordinator as it then is. A wait that is still going on gives
  \<open>None\<close>.\<close>

datatype 'd turn = woken "'d Coordinator" | cancelled "'d Coordinator"

fun AwaitCompletedAmong :: "int64 list \<Rightarrow> 'd Coordinator \<Rightarrow> 'd turn list \<Rightarrow> int64 list option" where
  "AwaitCompletedAmong ids c ts =
     (if settled ids c then Some (CompletedAmong ids c)
      else case ts of
          [] \<Rightarrow> None
        | woken c' # ts' \<Rightarrow> AwaitCompletedAmong ids c' ts'
        | cancelled c' # ts' \<Rightarrow> Some (CompletedAmong ids c'))"

section \<open>Executions\<close>

datatype call = AckCall int64 SubtaskKey bytes | FinCall SubtaskKey bytes | FailCall int64 SubtaskKey

definition rangesOver :: "'a list \<Rightarrow> 'a set \<Rightarrow> bool" where
  "rangesOver xs A \<longleftrightarrow> distinct xs \<and> set xs = A"

inductive co_step :: "'d fileSystem \<Rightarrow> 'd Coordinator \<Rightarrow> call \<Rightarrow> go_error option \<Rightarrow> 'd Coordinator \<Rightarrow> bool" for FS where
  ack: "rangesOver ord (set (co_expected c)) \<Longrightarrow> Acknowledge FS ord i key payload c = (c', err) \<Longrightarrow>
    co_step FS c (AckCall i key payload) err c'"
| fin: "\<forall>i. rangesOver (ord i) (set (co_expected c)) \<Longrightarrow> rangesOver ids (dom (co_state c)) \<Longrightarrow>
    Finished FS ord ids key payload c = (c', err) \<Longrightarrow> co_step FS c (FinCall key payload) err c'"
| fail: "co_step FS c (FailCall i key) None (Fail i key c)"

inductive co_run :: "'d fileSystem \<Rightarrow> 'd Coordinator \<Rightarrow> (call \<times> go_error option) list \<Rightarrow> 'd Coordinator \<Rightarrow> bool" for FS c where
  start: "co_run FS c [] c"
| call: "co_run FS c h c' \<Longrightarrow> co_step FS c' a err c'' \<Longrightarrow> co_run FS c (h @ [(a, err)]) c''"

inductive_cases co_stepE: "co_step FS c a err c'"

section \<open>The invariant\<close>

text \<open>The payload of the first acknowledgement of a checkpoint by a subtask, and of its first report
  that it has finished, in a history of calls.\<close>

fun firstAck :: "(call \<times> go_error option) list \<Rightarrow> int64 \<Rightarrow> SubtaskKey \<Rightarrow> bytes option" where
  "firstAck [] i k = None"
| "firstAck ((AckCall j l p, e) # h) i k = (if j = i \<and> l = k then Some p else firstAck h i k)"
| "firstAck (_ # h) i k = firstAck h i k"

fun firstFin :: "(call \<times> go_error option) list \<Rightarrow> SubtaskKey \<Rightarrow> bytes option" where
  "firstFin [] k = None"
| "firstFin ((FinCall l p, e) # h) k = (if l = k then Some p else firstFin h k)"
| "firstFin (_ # h) k = firstFin h k"

lemma firstAck_append: "firstAck (h @ h') i k = (case firstAck h i k of None \<Rightarrow> firstAck h' i k | r \<Rightarrow> r)"
  by (induction h i k rule: firstAck.induct) (auto split: option.splits)

lemma firstFin_append: "firstFin (h @ h') k = (case firstFin h k of None \<Rightarrow> firstFin h' k | r \<Rightarrow> r)"
  by (induction h k rule: firstFin.induct) (auto split: option.splits)

text \<open>The state file of a subtask is in place.\<close>

definition held :: "disk \<Rightarrow> int64 \<Rightarrow> SubtaskKey \<Rightarrow> bytes \<Rightarrow> bool" where
  "held d i k p \<longleftrightarrow> checkVertexID (sk_VertexID k) = None \<and> length p < 2 ^ 59 \<and>
     disk_cur d (storage_dir i, fileName k) = Some (encodeSubtaskState i k p)"

abbreviation marker :: "int64 \<Rightarrow> path" where
  "marker i \<equiv> (storage_dir i, completeName)"

text \<open>The disk holds the whole of checkpoint \<open>i\<close>, whatever happens: durable metadata and durable
  state files, with payloads out of the history.\<close>

definition certified ::
  "(int64 \<Rightarrow> SubtaskKey \<Rightarrow> bytes option) \<Rightarrow> (SubtaskKey \<Rightarrow> bytes option) \<Rightarrow> Metadata \<Rightarrow> disk \<Rightarrow> int64 \<Rightarrow> bool" where
  "certified fa ff meta d i \<longleftrightarrow> ds.vouched d i \<and>
     disk_cur d (storage_dir i, metadataName) = Some (encodeMetadata meta) \<and>
     (\<exists>pay. statesHeld (disk_cur d) i meta pay \<and>
       (\<forall>k \<in> set (Subtasks meta). fa i k = Some (pay k) \<or> ff k = Some (pay k)))"

definition idInv ::
  "(int64 \<Rightarrow> SubtaskKey \<Rightarrow> bytes option) \<Rightarrow> (SubtaskKey \<Rightarrow> bytes option) \<Rightarrow> Metadata \<Rightarrow> disk \<Rightarrow> int64 \<Rightarrow> checkpointState option \<Rightarrow> bool" where
  "idInv fa ff meta d i so \<longleftrightarrow>
     (case so of
        None \<Rightarrow> disk_may d (marker i) = {None} \<and> (\<forall>k \<in> set (Subtasks meta). fa i k = None)
      | Some s \<Rightarrow>
          if cs_complete s
          then \<not> cs_abandoned s \<and> disk_may d (marker i) = {Some (FormatInt i @ [10])} \<and> certified fa ff meta d i
          else if cs_abandoned s
          then disk_may d (marker i) = {None} \<or> certified fa ff meta d i
          else disk_may d (marker i) = {None} \<and>
            (\<forall>k \<in> set (cs_acked s). k \<in> set (Subtasks meta) \<and> (\<exists>p. fa i k = Some p \<and> held d i k p)) \<and>
            (\<forall>k \<in> set (Subtasks meta). fa i k \<noteq> None \<longrightarrow> k \<in> set (cs_acked s)))"

definition coInv ::
  "(int64 \<Rightarrow> SubtaskKey \<Rightarrow> bytes option) \<Rightarrow> (SubtaskKey \<Rightarrow> bytes option) \<Rightarrow> Metadata \<Rightarrow> int64 set \<Rightarrow> disk Coordinator \<Rightarrow> bool" where
  "coInv fa ff meta U c \<longleftrightarrow> disk_good (co_storage c) \<and> co_meta c = meta \<and> co_expected c = remdups (Subtasks meta) \<and>
     (\<forall>k \<in> set (Subtasks meta). co_done c k = ff k) \<and> (\<forall>k p. ff k = Some p \<longrightarrow> length p < 2 ^ 59) \<and>
     dom (co_state c) \<subseteq> U \<and> (\<forall>i \<in> U. idInv fa ff meta (co_storage c) i (co_state c i))"

text \<open>What a checkpoint rests on is in its own directory.\<close>

definition sameDir :: "int64 \<Rightarrow> disk \<Rightarrow> disk \<Rightarrow> bool" where
  "sameDir i d d' \<longleftrightarrow> (\<forall>n. finalName n \<longrightarrow>
     disk_cur d' (storage_dir i, n) = disk_cur d (storage_dir i, n) \<and>
     disk_may d' (storage_dir i, n) = disk_may d (storage_dir i, n))"

lemma storage_dir_inj [simp]: "storage_dir i = storage_dir j \<longleftrightarrow> i = j"
  by (auto simp: storage_dir_def dest: arg_cong [of _ _ ParseInt] simp: ParseInt_FormatInt)

lemma sameDir_refl [simp]: "sameDir i d d"
  by (simp add: sameDir_def)

lemma sameDir_trans: "sameDir i a b \<Longrightarrow> sameDir i b c \<Longrightarrow> sameDir i a c"
  by (simp add: sameDir_def)

lemma sameDir_simps:
  assumes "sameDir i d d'"
  shows "disk_may d' (marker i) = disk_may d (marker i)" "held d' i k p = held d i k p"
    "certified fa ff meta d' i = certified fa ff meta d i"
proof -
  show "disk_may d' (marker i) = disk_may d (marker i)" "held d' i k p = held d i k p"
    using assms by (simp_all add: sameDir_def held_def)
  have "ds.vouched d' i = ds.vouched d i"
    using assms unfolding ds.vouched_def sameDir_def by auto
  moreover have "statesHeld (disk_cur d') i meta pay = statesHeld (disk_cur d) i meta pay" for pay
    using assms by (simp add: sameDir_def statesHeld_def)
  ultimately show "certified fa ff meta d' i = certified fa ff meta d i"
    using assms by (simp add: certified_def sameDir_def)
qed

lemma idInv_sameDir: "sameDir i d d' \<Longrightarrow> idInv fa ff meta d' i so = idInv fa ff meta d i so"
  unfolding idInv_def sameDir_simps by (simp add: sameDir_simps cong: option.case_cong)

text \<open>A longer history keeps what the shorter one says.\<close>

definition extends :: "('a \<Rightarrow> 'b option) \<Rightarrow> ('a \<Rightarrow> 'b option) \<Rightarrow> bool" where
  "extends f g \<longleftrightarrow> (\<forall>x y. f x = Some y \<longrightarrow> g x = Some y)"

lemma extends_refl [simp]: "extends f f"
  by (simp add: extends_def)

lemma certified_mono:
  "certified fa ff meta d i \<Longrightarrow> extends (fa i) (fa' i) \<Longrightarrow> extends ff ff' \<Longrightarrow> certified fa' ff' meta d i"
  unfolding certified_def extends_def by blast

lemma idInv_mono:
  assumes "idInv fa ff meta d i so" "extends (fa i) (fa' i)" "extends ff ff'"
    "(case so of None \<Rightarrow> True | Some s \<Rightarrow> \<not> terminal s) \<Longrightarrow> \<forall>k \<in> set (Subtasks meta). fa i k = None \<longrightarrow> fa' i k = None"
  shows "idInv fa' ff' meta d i so"
proof -
  have cert: "certified fa' ff' meta d i" if "certified fa ff meta d i"
    using certified_mono [where fa' = fa', OF that assms(2,3)] .
  have ack: "\<exists>p. fa' i k = Some p \<and> held d i k p" if "\<exists>p. fa i k = Some p \<and> held d i k p" for k
    using that assms(2) by (auto simp: extends_def)
  have mono: "k \<in> A" if "\<forall>k \<in> set (Subtasks meta). fa i k = None \<longrightarrow> fa' i k = None"
    "\<forall>k \<in> set (Subtasks meta). fa i k \<noteq> None \<longrightarrow> k \<in> A" "k \<in> set (Subtasks meta)" "fa' i k \<noteq> None" for k A
    using that by (metis (no_types))
  show ?thesis
  proof (cases so)
    case None
    then show ?thesis using assms(1,4) by (simp add: idInv_def)
  next
    case (Some s)
    consider "cs_complete s" | "\<not> cs_complete s" "cs_abandoned s" | "\<not> cs_complete s" "\<not> cs_abandoned s" by blast
    then show ?thesis
    proof cases
      case 3
      then have keep: "\<forall>k \<in> set (Subtasks meta). fa i k = None \<longrightarrow> fa' i k = None" using assms(4) Some by (simp add: terminal_def)
      have a: "disk_may d (marker i) = {None}"
        "\<forall>k \<in> set (cs_acked s). k \<in> set (Subtasks meta) \<and> (\<exists>p. fa i k = Some p \<and> held d i k p)"
        "\<forall>k \<in> set (Subtasks meta). fa i k \<noteq> None \<longrightarrow> k \<in> set (cs_acked s)"
        using 3 assms(1) unfolding idInv_def Some by simp_all
      have "\<forall>k \<in> set (cs_acked s). k \<in> set (Subtasks meta) \<and> (\<exists>p. fa' i k = Some p \<and> held d i k p)"
        using a(2) ack by blast
      moreover have "\<forall>k \<in> set (Subtasks meta). fa' i k \<noteq> None \<longrightarrow> k \<in> set (cs_acked s)"
        using mono [OF keep a(3)] by blast
      ultimately show ?thesis using 3 a(1) unfolding idInv_def Some by simp
    qed (use assms(1) cert Some in \<open>auto simp: idInv_def\<close>)
  qed
qed

lemma idInv_marked: "idInv fa ff meta d i so \<Longrightarrow> disk_may d (marker i) \<noteq> {None} \<Longrightarrow> certified fa ff meta d i"
  by (auto simp: idInv_def split: option.splits if_splits)

section \<open>Writing a checkpoint\<close>

lemma WriteSubtaskState_disk:
  assumes "disk_good d" "WriteSubtaskState diskFS i k p d = (d', err)" "validMeta meta" "k \<in> set (Subtasks meta)"
  shows "disk_good d'" "j \<noteq> i \<Longrightarrow> sameDir j d d'" "disk_may d' (marker i) = disk_may d (marker i)"
    "l \<in> set (Subtasks meta) \<Longrightarrow> l \<noteq> k \<or> err \<noteq> None \<Longrightarrow> held d i l q \<Longrightarrow> held d' i l q"
    "err = None \<Longrightarrow> length p < 2 ^ 59 \<Longrightarrow> held d' i k p"
proof -
  note s = ds.WriteSubtaskState_spec [OF assms(1,2)]
  show "disk_good d'" using s [of "marker i"] by simp
  show "sameDir j d d'" if "j \<noteq> i"
    using s [of "(storage_dir j, n)" for n] that unfolding sameDir_def by simp
  show "disk_may d' (marker i) = disk_may d (marker i)" using s [of "marker i"] by simp
  show "held d' i k p" if "err = None" "length p < 2 ^ 59"
    using s [of "(storage_dir i, fileName k)"] ds.WriteSubtaskState_ok [of i k p d d'] assms(2) that
    by (simp add: held_def)
  assume l: "l \<in> set (Subtasks meta)" "l \<noteq> k \<or> err \<noteq> None" "held d i l q"
  have "fileName l \<noteq> fileName k" if "err = None"
  proof
    assume "fileName l = fileName k"
    moreover have "checkVertexID (sk_VertexID k) = None"
      using ds.WriteSubtaskState_ok [of i k p d d'] assms(2) that by simp
    ultimately have "l = k" using fileName_inj subtask_index_valid [OF assms(3)] assms(4) l unfolding held_def by blast
    then show False using l(2) that by simp
  qed
  then show "held d' i l q" using s [of "(storage_dir i, fileName l)"] l(3) by (auto simp: held_def)
qed

lemma writeMissing_disk:
  assumes "disk_good d" "writeMissing diskFS i acked dn ks d = (d', err)" "validMeta meta"
    "set ks \<subseteq> set (Subtasks meta)" "distinct ks" "\<forall>k. length (dn k) < 2 ^ 59"
  shows "disk_good d' \<and> (\<forall>j. j \<noteq> i \<longrightarrow> sameDir j d d') \<and> disk_may d' (marker i) = disk_may d (marker i) \<and>
    (\<forall>l q. l \<in> set (Subtasks meta) \<and> (l \<notin> set ks \<or> l \<in> set acked) \<and> held d i l q \<longrightarrow> held d' i l q) \<and>
    (err = None \<longrightarrow> (\<forall>k \<in> set ks. k \<notin> set acked \<longrightarrow> held d' i k (dn k)))"
  using assms(1,2,4,5)
proof (induction ks arbitrary: d)
  case (Cons k ks)
  show ?case
  proof (cases "k \<in> set acked")
    case True
    then show ?thesis using Cons.IH [OF Cons.prems(1)] Cons.prems by auto
  next
    case False
    obtain d1 e1 where w: "WriteSubtaskState diskFS i k (dn k) d = (d1, e1)" by fastforce
    note w' = WriteSubtaskState_disk [OF Cons.prems(1) w assms(3)]
    have k: "k \<in> set (Subtasks meta)" using Cons.prems by simp
    show ?thesis
    proof (cases e1)
      case None
      then have r: "writeMissing diskFS i acked dn ks d1 = (d', err)" using Cons.prems(2) False w by simp
      have sub: "set ks \<subseteq> set (Subtasks meta)" "distinct ks" "k \<notin> set ks" using Cons.prems(3,4) by auto
      note ih = Cons.IH [OF w'(1) [OF k] r sub(1,2)]
      have "held d1 i k (dn k)" using w'(5) [OF k None] assms(6) by blast
      then have "held d' i k (dn k)" using ih k sub(3) by blast
      then have "\<forall>l \<in> set (k # ks). l \<notin> set acked \<longrightarrow> held d' i l (dn l)" if "err = None" using ih that by simp
      moreover have "held d' i l q" if "l \<in> set (Subtasks meta)" "l \<notin> set (k # ks) \<or> l \<in> set acked" "held d i l q" for l q
      proof -
        have "l \<noteq> k" "l \<notin> set ks \<or> l \<in> set acked" using that(2) False by auto
        then show ?thesis using ih w'(4) [OF k that(1) _ that(3)] that(1) by blast
      qed
      moreover have "sameDir j d d'" if "j \<noteq> i" for j
        using w'(2) [OF k that] ih that sameDir_trans by blast
      ultimately show ?thesis using ih w'(3) [OF k] by auto
    next
      case (Some e)
      then show ?thesis using w' [OF k] Cons.prems(2) False w by auto
    qed
  qed
qed auto

lemma Complete_disk:
  assumes "disk_good d" "storage_Complete diskFS i meta d = (d', err)" "disk_may d (marker i) = {None}"
  shows "disk_good d'" "j \<noteq> i \<Longrightarrow> sameDir j d d'" "held d i k p \<Longrightarrow> held d' i k p"
    "disk_may d' (marker i) \<noteq> {None} \<Longrightarrow>
      ds.vouched d' i \<and> disk_cur d' (storage_dir i, metadataName) = Some (encodeMetadata meta)"
    "err = None \<Longrightarrow> disk_may d' (marker i) = {Some (FormatInt i @ [10])}"
proof -
  note c = ds.Complete_spec [OF assms]
  show "disk_good d'" using c by blast
  show "sameDir j d d'" if "j \<noteq> i"
    using c [THEN conjunct2, THEN conjunct1, THEN spec [of _ "(storage_dir j, n)" for n]] that by (simp add: sameDir_def)
  show "held d' i k p" if "held d i k p"
    using c [THEN conjunct2, THEN conjunct2, THEN conjunct1, THEN spec [of _ "(storage_dir i, fileName k)"]] that
    by (simp add: held_def)
  show "disk_may d' (marker i) \<noteq> {None} \<Longrightarrow>
      ds.vouched d' i \<and> disk_cur d' (storage_dir i, metadataName) = Some (encodeMetadata meta)"
    "err = None \<Longrightarrow> disk_may d' (marker i) = {Some (FormatInt i @ [10])}"
    using c by blast+
qed

lemma outstanding_zero:
  "outstanding c st = 0 \<longleftrightarrow> (\<forall>k \<in> set (co_expected c). k \<in> set (cs_acked st) \<or> co_done c k \<noteq> None)"
  by (auto simp: outstanding_def filter_empty_conv)

lemma certified_written:
  assumes "ds.vouched d i" "disk_cur d (storage_dir i, metadataName) = Some (encodeMetadata meta)"
    "\<And>k. k \<in> set (Subtasks meta) \<Longrightarrow> held d i k (pay k) \<and> (fa i k = Some (pay k) \<or> ff k = Some (pay k))"
  shows "certified fa ff meta d i"
  using assms unfolding certified_def statesHeld_def held_def by blast

text \<open>\<open>complete\<close>, called once nothing is outstanding, ends the checkpoint and keeps the invariant.\<close>

lemma coordinator_complete_disk:
  assumes inv: "coInv fa ff meta U c" and v: "validMeta meta" and i: "i \<in> U"
    and st: "co_state c i = Some st" "\<not> terminal st" "outstanding c st = 0"
    and ord: "rangesOver ord (set (co_expected c))"
    and run: "coordinator_complete diskFS ord i st c = (c', err)"
  obtains d where "disk_good d" "\<And>j. j \<noteq> i \<Longrightarrow> sameDir j (co_storage c) d"
    "disk_may d (marker i) = {None} \<or> certified fa ff meta d i"
    "err = None \<Longrightarrow> disk_may d (marker i) = {Some (FormatInt i @ [10])} \<and>
      c' = announce (c\<lparr>co_storage := d, co_state := (co_state c)(i \<mapsto> st\<lparr>cs_complete := True, cs_acked := []\<rparr>)\<rparr>)"
    "err \<noteq> None \<Longrightarrow> c' = abandon i st (c\<lparr>co_storage := d\<rparr>)"
proof -
  have g: "disk_good (co_storage c)" and ex: "set (co_expected c) = set (Subtasks meta)" and m: "co_meta c = meta"
    and dn: "\<And>k. k \<in> set (Subtasks meta) \<Longrightarrow> co_done c k = ff k" "\<And>k p. ff k = Some p \<Longrightarrow> length p < 2 ^ 59"
    using inv by (auto simp: coInv_def)
  have id: "idInv fa ff meta (co_storage c) i (Some st)" using inv i st(1) by (auto simp: coInv_def)
  have un: "disk_may (co_storage c) (marker i) = {None}"
    and ak: "\<And>k. k \<in> set (cs_acked st) \<Longrightarrow> \<exists>p. fa i k = Some p \<and> held (co_storage c) i k p"
    using id st(2) by (auto simp: idInv_def terminal_def)
  define dn' where "dn' k = (if k \<in> set (Subtasks meta) then doneOf c k else [])" for k
  obtain d1 e1 where w: "writeMissing diskFS i (cs_acked st) (doneOf c) ord (co_storage c) = (d1, e1)" by fastforce
  have sub: "set ord \<subseteq> set (Subtasks meta)" "distinct ord" using ord ex by (auto simp: rangesOver_def)
  have eq: "writeMissing diskFS i (cs_acked st) (doneOf c) ks d = writeMissing diskFS i (cs_acked st) dn' ks d"
    if "set ks \<subseteq> set (Subtasks meta)" for ks d
    using that by (induction ks arbitrary: d) (auto simp: dn'_def split: option.splits)
  have short: "\<forall>k. length (dn' k) < 2 ^ 59"
    using dn by (auto simp: dn'_def doneOf_def split: option.splits)
  note w' = writeMissing_disk [OF g w [unfolded eq [OF sub(1)]] v sub short]
  obtain d2 e2 where cp: "storage_Complete diskFS i meta d1 = (d2, e2)" by fastforce
  have un1: "disk_may d1 (marker i) = {None}" using w' un by simp
  note cp' = Complete_disk [OF w' [THEN conjunct1] cp un1]
  define pay where "pay k = (if k \<in> set (cs_acked st) then the (fa i k) else doneOf c k)" for k
  have all: "held d1 i k (pay k) \<and> (fa i k = Some (pay k) \<or> ff k = Some (pay k))"
    if "e1 = None" "k \<in> set (Subtasks meta)" for k
  proof (cases "k \<in> set (cs_acked st)")
    case True
    then show ?thesis using ak [OF True] w' that by (auto simp: pay_def)
  next
    case False
    then have "co_done c k \<noteq> None" using st(3) that(2) ex by (auto simp: outstanding_zero)
    moreover have "k \<in> set ord" using that(2) ord ex by (simp add: rangesOver_def)
    ultimately show ?thesis using w' that False dn(1) by (auto simp: pay_def dn'_def doneOf_def)
  qed
  show thesis
  proof (cases "e1 = None")
    case True
    have "disk_may d2 (marker i) = {None} \<or> certified fa ff meta d2 i"
      using cp'(4) certified_written [of d2 i meta pay fa ff] all [OF True] cp'(3) by blast
    moreover have "sameDir j (co_storage c) d2" if "j \<noteq> i" for j
      using w' cp'(2) [OF that] that sameDir_trans by blast
    ultimately show thesis using cp' True run w cp m
      by (intro that [of d2]) (auto simp: coordinator_complete_def split: option.splits)
  next
    case False
    then show thesis using w' un1 run w
      by (intro that [of d1]) (auto simp: coordinator_complete_def split: option.splits)
  qed
qed

lemma coordinator_complete_inv:
  assumes inv: "coInv fa ff meta U c" and v: "validMeta meta" and i: "i \<in> U"
    and st: "co_state c i = Some st" "\<not> terminal st" "outstanding c st = 0"
    and ord: "rangesOver ord (set (co_expected c))"
    and run: "coordinator_complete diskFS ord i st c = (c', err)"
  shows "coInv fa ff meta U c'" "\<exists>st'. co_state c' = (co_state c)(i \<mapsto> st') \<and> terminal st' \<and> (err = None \<longrightarrow> cs_complete st')"
    "co_done c' = co_done c" "co_expected c' = co_expected c" "co_changed c' = co_changed c + 1"
proof -
  obtain d where d: "disk_good d" "\<And>j. j \<noteq> i \<Longrightarrow> sameDir j (co_storage c) d"
    "disk_may d (marker i) = {None} \<or> certified fa ff meta d i"
    "err = None \<Longrightarrow> disk_may d (marker i) = {Some (FormatInt i @ [10])} \<and>
      c' = announce (c\<lparr>co_storage := d, co_state := (co_state c)(i \<mapsto> st\<lparr>cs_complete := True, cs_acked := []\<rparr>)\<rparr>)"
    "err \<noteq> None \<Longrightarrow> c' = abandon i st (c\<lparr>co_storage := d\<rparr>)"
    using coordinator_complete_disk [OF assms] by metis
  obtain st' where c': "c' = announce (c\<lparr>co_storage := d, co_state := (co_state c)(i \<mapsto> st')\<rparr>)"
    and st': "idInv fa ff meta d i (Some st')" "terminal st'" "err = None \<longrightarrow> cs_complete st'"
  proof (cases "err = None")
    case True
    show thesis
      by (rule that [of "st\<lparr>cs_complete := True, cs_acked := []\<rparr>"])
        (use d(3) d(4) [OF True] st(2) in \<open>auto simp: idInv_def terminal_def\<close>)
  next
    case False
    show thesis
      by (rule that [of "st\<lparr>cs_abandoned := True, cs_acked := []\<rparr>"])
        (use d(3) d(5) [OF False] st(2) False in \<open>auto simp: idInv_def terminal_def abandon_def\<close>)
  qed
  show "coInv fa ff meta U c'"
    using inv d(1) idInv_sameDir [OF d(2)] st'(1) i unfolding c' coInv_def announce_def by auto
  show "\<exists>st'. co_state c' = (co_state c)(i \<mapsto> st') \<and> terminal st' \<and> (err = None \<longrightarrow> cs_complete st')"
    "co_done c' = co_done c" "co_expected c' = co_expected c" "co_changed c' = co_changed c + 1"
    using st' by (auto simp: c' announce_def)
qed

section \<open>Every call keeps the invariant\<close>

lemma stateFor_spec:
  assumes "coInv fa ff meta U c" "i \<in> U" "stateFor i c = (st, c1)"
  shows "coInv fa ff meta U c1" "co_state c1 = (co_state c)(i \<mapsto> st)"
    "co_expected c1 = co_expected c" "co_storage c1 = co_storage c" "idInv fa ff meta (co_storage c) i (Some st)"
proof -
  have id: "idInv fa ff meta (co_storage c) i (co_state c i)" using assms(1,2) by (simp add: coInv_def)
  then show new: "idInv fa ff meta (co_storage c) i (Some st)"
    using assms(3) by (auto simp: stateFor_def idInv_def Let_def split: option.splits)
  have c1: "c1 = c\<lparr>co_state := (co_state c)(i \<mapsto> st)\<rparr>"
    using assms(3) by (auto simp: stateFor_def Let_def fun_upd_idem split: option.splits)
  then show "coInv fa ff meta U c1"
    using assms(1,2) new by (auto simp: coInv_def)
  show "co_state c1 = (co_state c)(i \<mapsto> st)" "co_expected c1 = co_expected c" "co_storage c1 = co_storage c"
    by (simp_all add: c1)
qed

lemma coInv_extend:
  assumes "coInv fa ff meta U c" "\<And>j. j \<noteq> i \<Longrightarrow> fa' j = fa j"
    "i \<in> U \<Longrightarrow> idInv fa' ff meta (co_storage c) i (co_state c i)"
  shows "coInv fa' ff meta U c"
proof -
  have "idInv fa' ff meta (co_storage c) j (co_state c j)" if "j \<in> U" for j
    using assms(1) assms(3) that idInv_mono [of fa ff meta "co_storage c" j "co_state c j" fa' ff] assms(2) [of j]
    by (cases "j = i") (auto simp: coInv_def)
  then show ?thesis using assms(1) by (simp add: coInv_def)
qed

text \<open>The state of checkpoint \<open>i\<close> and the disk are replaced, in a way that leaves the other
  checkpoints alone.\<close>

lemma coInv_update:
  assumes "coInv fa ff meta U c" "\<And>j. j \<noteq> i \<Longrightarrow> fa' j = fa j" "i \<in> U" "disk_good d"
    "\<And>j. j \<noteq> i \<Longrightarrow> sameDir j (co_storage c) d" "idInv fa' ff meta d i (Some st')"
  shows "coInv fa' ff meta U (c\<lparr>co_storage := d, co_state := (co_state c)(i \<mapsto> st')\<rparr>)"
proof -
  have "idInv fa' ff meta d j (co_state c j)" if "j \<in> U" "j \<noteq> i" for j
  proof -
    have "idInv fa ff meta (co_storage c) j (co_state c j)" using assms(1) that(1) by (simp add: coInv_def)
    then show ?thesis
      using idInv_mono [of fa ff meta d j "co_state c j" fa' ff] assms(2) [OF that(2)] idInv_sameDir [OF assms(5) [OF that(2)]]
      by simp
  qed
  then show ?thesis using assms(1,3,4,6) by (auto simp: coInv_def)
qed

lemma coInv_announce [simp]: "coInv fa ff meta U (announce c) = coInv fa ff meta U c"
  by (simp add: coInv_def announce_def)

lemma Acknowledge_inv:
  assumes inv: "coInv fa ff meta U c" and v: "validMeta meta" and i: "i \<in> U" and len: "length payload < 2 ^ 59"
    and ord: "rangesOver ord (set (co_expected c))" and run: "Acknowledge diskFS ord i key payload c = (c', err)"
    and fa': "\<And>j. j \<noteq> i \<Longrightarrow> fa' j = fa j" "extends (fa i) (fa' i)" "\<And>k. k \<noteq> key \<Longrightarrow> fa' i k = fa i k"
      "fa i key = None \<Longrightarrow> fa' i key = Some payload"
  shows "coInv fa' ff meta U c'"
proof (cases "key \<in> set (co_expected c)")
  case False
  then have "idInv fa' ff meta (co_storage c) i (co_state c i)"
    using inv i idInv_mono [of fa ff meta "co_storage c" i "co_state c i" fa' ff] fa'(2) fa'(3)
    by (simp add: coInv_def) metis
  then show ?thesis using False run coInv_extend [OF inv fa'(1)] by (auto simp: Acknowledge_def)
next
  case True
  obtain st c1 where s: "stateFor i c = (st, c1)" by fastforce
  note s' = stateFor_spec [OF inv i s]
  have key: "key \<in> set (Subtasks meta)" using True inv by (simp add: coInv_def)
  have st1: "co_state c1 i = Some st" by (simp add: s'(2))
  have noop: ?thesis if "c' = c1" "terminal st \<or> key \<in> set (cs_acked st)"
  proof -
    have "fa i key \<noteq> None" if "\<not> terminal st"
      using s'(5) that \<open>terminal st \<or> key \<in> set (cs_acked st)\<close> by (auto simp: idInv_def terminal_def)
    then have "idInv fa' ff meta (co_storage c1) i (Some st)"
      using idInv_mono [where fa' = fa', OF s'(5) fa'(2)] fa'(3) unfolding s'(4) by (metis extends_refl option.simps(5))
    then show ?thesis using that(1) coInv_extend [OF s'(1) fa'(1)] by (simp add: st1)
  qed
  show ?thesis
  proof (cases "cs_abandoned st \<or> cs_complete st \<or> key \<in> set (cs_acked st)")
    case True
    then have "c' = c1" using run s \<open>key \<in> set (co_expected c)\<close> by (auto simp: Acknowledge_def split: if_splits)
    then show ?thesis using noop True by (auto simp: terminal_def)
  next
    case False
    then have live: "\<not> terminal st" "key \<notin> set (cs_acked st)" by (auto simp: terminal_def)
    have un: "disk_may (co_storage c1) (marker i) = {None}"
      and ak: "\<And>k. k \<in> set (cs_acked st) \<Longrightarrow> k \<in> set (Subtasks meta) \<and> (\<exists>p. fa i k = Some p \<and> held (co_storage c1) i k p)"
      and no: "\<And>k. k \<in> set (Subtasks meta) \<Longrightarrow> fa i k \<noteq> None \<Longrightarrow> k \<in> set (cs_acked st)"
      using s'(5) live(1) unfolding s'(4) by (auto simp: idInv_def terminal_def)
    obtain d e where w: "WriteSubtaskState diskFS i key payload (co_storage c1) = (d, e)" by fastforce
    have g1: "disk_good (co_storage c1)" using s'(1) by (simp add: coInv_def)
    note w' = WriteSubtaskState_disk [OF g1 w v key]
    show ?thesis
    proof (cases e)
      case (Some x)
      then have c': "c' = abandon i st (c1\<lparr>co_storage := d\<rparr>)"
        using run s True False w by (simp add: Acknowledge_def)
      have "idInv fa' ff meta d i (Some (st\<lparr>cs_abandoned := True, cs_acked := []\<rparr>))"
        using w'(3) un live(1) by (simp add: idInv_def terminal_def)
      from coInv_update [OF s'(1) fa'(1) i w'(1,2) this] show ?thesis
        unfolding c' abandon_def by simp
    next
      case None
      let ?st = "st\<lparr>cs_acked := key # cs_acked st\<rparr>"
      let ?c = "c1\<lparr>co_storage := d, co_state := (co_state c1)(i \<mapsto> ?st)\<rparr>"
      have new: "fa' i key = Some payload" using no [OF key] live(2) fa'(4) by blast
      have "k \<in> set (Subtasks meta) \<and> (\<exists>p. fa' i k = Some p \<and> held d i k p)" if "k \<in> set (cs_acked ?st)" for k
      proof (cases "k = key")
        case True
        then show ?thesis using w'(5) [OF None len] new key by simp
      next
        case False
        then have "k \<in> set (cs_acked st)" using that by simp
        then obtain p where p: "k \<in> set (Subtasks meta)" "fa i k = Some p" "held (co_storage c1) i k p"
          using ak by blast
        then show ?thesis using w'(4) [of k p] fa'(3) [OF False] False by simp
      qed
      moreover have "k \<in> set (cs_acked ?st)" if "k \<in> set (Subtasks meta)" "fa' i k \<noteq> None" for k
        using no that fa'(3) [of k] by (cases "k = key") auto
      ultimately have "idInv fa' ff meta d i (Some ?st)"
        using w'(3) un live(1) by (simp add: idInv_def terminal_def)
      from coInv_update [OF s'(1) fa'(1) i w'(1,2) this] have inv2: "coInv fa' ff meta U ?c" .
      have run': "(if 0 < outstanding ?c ?st then (?c, None) else coordinator_complete diskFS ord i ?st ?c) = (c', err)"
        using run s True False w None by (simp add: Acknowledge_def Let_def)
      show ?thesis
      proof (cases "0 < outstanding ?c ?st")
        case True
        then show ?thesis using run' inv2 by simp
      next
        case False
        then have "coordinator_complete diskFS ord i ?st ?c = (c', err)" using run' by simp
        from coordinator_complete_inv(1) [OF inv2 v i _ _ _ _ this] show ?thesis
          using False ord s'(3) live(1) by (simp add: terminal_def)
      qed
    qed
  qed
qed

lemma completeWaiting_inv:
  assumes "coInv fa ff meta U c" "validMeta meta" "\<forall>i. rangesOver (ord i) (set (co_expected c))"
    "completeWaiting diskFS ord ids c = (c', err)"
  shows "coInv fa ff meta U c'"
  using assms(1,3,4)
proof (induction ids arbitrary: c)
  case (Cons i ids)
  show ?case
  proof (cases "\<exists>st. co_state c i = Some st \<and> \<not> terminal st \<and> outstanding c st = 0")
    case True
    then obtain st where st: "co_state c i = Some st" "\<not> terminal st" "outstanding c st = 0" by blast
    obtain c1 e1 where r: "coordinator_complete diskFS (ord i) i st c = (c1, e1)" by fastforce
    have "i \<in> U" using st(1) Cons.prems(1) by (auto simp: coInv_def)
    note r' = coordinator_complete_inv [OF Cons.prems(1) assms(2) this st spec [OF Cons.prems(2)] r]
    show ?thesis using r'(1,4) Cons r st by (cases e1) auto
  next
    case False
    then have "completeWaiting diskFS ord ids c = (c', err)"
      using Cons.prems(3) by (auto split: option.splits if_splits)
    then show ?thesis using Cons by blast
  qed
qed simp

lemma Finished_inv:
  assumes inv: "coInv fa ff meta U c" and v: "validMeta meta" and len: "length payload < 2 ^ 59"
    and ord: "\<forall>i. rangesOver (ord i) (set (co_expected c))" and run: "Finished diskFS ord ids key payload c = (c', err)"
    and ff': "extends ff ff'" "\<And>k. k \<noteq> key \<Longrightarrow> ff' k = ff k" "ff key = None \<Longrightarrow> ff' key = Some payload"
  shows "coInv fa ff' meta U c'"
proof -
  have short: "length p < 2 ^ 59" if "ff' k = Some p" for k p
    using that ff'(2) [of k] ff'(1,3) inv len
    by (cases "k = key"; cases "ff key") (auto simp: coInv_def extends_def)
  have ids: "idInv fa ff' meta (co_storage c) i (co_state c i)" if "i \<in> U" for i
    using idInv_mono [of fa ff meta "co_storage c" i "co_state c i" fa ff'] inv that ff'(1) by (simp add: coInv_def)
  have same: "coInv fa ff' meta U c" if "key \<in> set (Subtasks meta) \<longrightarrow> ff key \<noteq> None"
  proof -
    have "ff' k = ff k" if "k \<in> set (Subtasks meta)" for k
      using \<open>key \<in> set (Subtasks meta) \<longrightarrow> ff key \<noteq> None\<close> that ff'(1,2) by (cases "k = key") (auto simp: extends_def)
    then show ?thesis using inv ids short by (simp add: coInv_def)
  qed
  have ex: "set (co_expected c) = set (Subtasks meta)" and dn: "\<And>k. k \<in> set (Subtasks meta) \<Longrightarrow> co_done c k = ff k"
    using inv by (auto simp: coInv_def)
  show ?thesis
  proof (cases "key \<in> set (Subtasks meta) \<and> ff key = None")
    case True
    have "coInv fa ff' meta U (c\<lparr>co_done := (co_done c)(key \<mapsto> payload)\<rparr>)"
      using inv ids short True ff'(2,3) by (simp add: coInv_def)
    from completeWaiting_inv [OF this v] show ?thesis
      using run True ord ex dn by (simp add: Finished_def)
  next
    case False
    then have "c' = c" using run ex dn by (auto simp: Finished_def split: if_splits)
    then show ?thesis using same False by simp
  qed
qed

lemma Fail_inv:
  assumes inv: "coInv fa ff meta U c" and i: "i \<in> U"
  shows "coInv fa ff meta U (Fail i key c)"
proof -
  obtain st c1 where s: "stateFor i c = (st, c1)" by fastforce
  note s' = stateFor_spec [OF inv i s]
  show ?thesis
  proof (cases "cs_complete st")
    case False
    have "idInv fa ff meta (co_storage c1) i (Some (st\<lparr>cs_abandoned := True, cs_acked := []\<rparr>))"
      using s'(5) False unfolding s'(4) by (auto simp: idInv_def split: if_splits)
    then have "coInv fa ff meta U (c1\<lparr>co_storage := co_storage c1, co_state := (co_state c1)(i \<mapsto> st\<lparr>cs_abandoned := True, cs_acked := []\<rparr>)\<rparr>)"
      using s'(1) i by (intro coInv_update) (auto simp: coInv_def)
    then show ?thesis using s False by (simp add: Fail_def abandon_def)
  qed (use s s'(1) in \<open>simp add: Fail_def\<close>)
qed

text \<open>The calls of a run in which no checkpoint identifier is used for which the disk, at the start,
  may hold a marker, and no payload is larger than its length field allows.\<close>

definition admissible :: "disk \<Rightarrow> call \<Rightarrow> bool" where
  "admissible d a = (case a of
       AckCall i k p \<Rightarrow> disk_may d (marker i) = {None} \<and> length p < 2 ^ 59
     | FinCall k p \<Rightarrow> length p < 2 ^ 59
     | FailCall i k \<Rightarrow> disk_may d (marker i) = {None})"

lemma run_inv:
  assumes "co_run diskFS (NewCoordinator d meta) h c" "disk_good d" "validMeta meta" "\<forall>(a, e) \<in> set h. admissible d a"
  shows "coInv (firstAck h) (firstFin h) meta {i. disk_may d (marker i) = {None}} c"
  using assms(1,4)
proof (induction rule: co_run.induct)
  case start
  show ?case using assms(2) by (simp add: coInv_def NewCoordinator_def idInv_def)
next
  case (call h c a err c')
  let ?U = "{i. disk_may d (marker i) = {None}}"
  have inv: "coInv (firstAck h) (firstFin h) meta ?U c" and adm: "admissible d a"
    using call by auto
  from call.hyps(2) show ?case
  proof cases
    case (ack ord i key payload)
    have ff: "firstFin (h @ [(a, err)]) = firstFin h"
      by (rule ext) (simp add: ack(1) firstFin_append split: option.splits)
    show ?thesis unfolding ff
      by (rule Acknowledge_inv [OF inv assms(3) _ _ ack(2,3)])
        (use adm in \<open>auto simp: ack(1) admissible_def firstAck_append extends_def fun_eq_iff split: option.splits\<close>)
  next
    case (fin ord ids key payload)
    have fa: "firstAck (h @ [(a, err)]) = firstAck h"
      by (intro ext) (simp add: fin(1) firstAck_append split: option.splits)
    show ?thesis unfolding fa
      by (rule Finished_inv [OF inv assms(3) _ fin(2,4)])
        (use adm in \<open>auto simp: fin(1) admissible_def firstFin_append extends_def split: option.splits\<close>)
  next
    case (fail i key)
    have "firstAck (h @ [(a, err)]) = firstAck h" "firstFin (h @ [(a, err)]) = firstFin h"
      by (auto simp: fun_eq_iff fail(1) firstAck_append firstFin_append split: option.splits)
    then show ?thesis using Fail_inv [OF inv, of i key] adm fail by (simp add: admissible_def)
  qed
qed

text \<open>A run leaves alone the directory of every checkpoint for which the disk may already hold a marker:
  each call writes in the directory of its own checkpoint, or of one that is being taken.\<close>

definition confined :: "int64 \<Rightarrow> disk \<Rightarrow> disk \<Rightarrow> bool" where
  "confined i d d' \<longleftrightarrow> (disk_good d \<longrightarrow> disk_good d') \<and> (disk_good d \<longrightarrow> (\<forall>j. j \<noteq> i \<longrightarrow> sameDir j d d'))"

lemma confined_refl [simp]: "confined i d d"
  by (simp add: confined_def)

lemma confined_trans [trans]: "confined i a b \<Longrightarrow> confined i b c \<Longrightarrow> confined i a c"
  unfolding confined_def using sameDir_trans by blast

lemma confined_MkdirAll: "fs_MkdirAll diskFS (storage_dir i) d = (d', e) \<Longrightarrow> confined i d d'"
  using ds.mkdir_all [of d "storage_dir i" d' e] by (simp add: confined_def sameDir_def)

lemma confined_SyncDir: "fs_SyncDir diskFS (storage_dir i) d = (d', e) \<Longrightarrow> confined i d d'"
  using ds.sync_dir [of d "storage_dir i" d' e] by (simp add: confined_def sameDir_def)

lemma confined_writeFile:
  assumes "finalName name" "writeFileSynced diskFS (storage_dir i) name data d = (d', e)"
  shows "confined i d d'"
proof (cases "disk_good d")
  case True
  note w = ds.write_file [OF True assms]
  then have "sameDir j d d'" if "j \<noteq> i" for j unfolding sameDir_def using that by simp
  then show ?thesis using w by (simp add: confined_def)
qed (simp add: confined_def)

lemmas confined_ops = confined_MkdirAll confined_SyncDir confined_writeFile [OF finalNames(1)]
  confined_writeFile [OF finalNames(2)] confined_writeFile [OF finalNames(3)]

lemma confined_WriteSubtaskState: "WriteSubtaskState diskFS i k p d = (d', e) \<Longrightarrow> confined i d d'"
  by (auto simp: WriteSubtaskState_def split: option.splits prod.splits dest!: confined_ops dest: confined_trans)

lemma confined_Complete: "storage_Complete diskFS i meta d = (d', e) \<Longrightarrow> confined i d d'"
  by (auto simp: storage_Complete_def Let_def split: option.splits prod.splits dest!: confined_ops) (blast intro: confined_trans)+

lemma confined_writeMissing: "writeMissing diskFS i acked dn ks d = (d', e) \<Longrightarrow> confined i d d'"
proof (induction ks arbitrary: d)
  case (Cons k ks)
  obtain d1 e1 where w: "WriteSubtaskState diskFS i k (dn k) d = (d1, e1)" by fastforce
  show ?case using Cons w confined_trans [OF confined_WriteSubtaskState [OF w]] confined_WriteSubtaskState [OF w]
    by (auto split: if_splits option.splits)
qed simp

lemma confined_complete:
  assumes "coordinator_complete diskFS ord i st c = (c', e)"
  shows "confined i (co_storage c) (co_storage c') \<and> dom (co_state c') = insert i (dom (co_state c))"
proof -
  obtain d1 e1 where w: "writeMissing diskFS i (cs_acked st) (doneOf c) ord (co_storage c) = (d1, e1)" by fastforce
  obtain d2 e2 where f: "storage_Complete diskFS i (co_meta c) d1 = (d2, e2)" by fastforce
  note w' = confined_writeMissing [OF w] and f' = confined_trans [OF confined_writeMissing [OF w] confined_Complete [OF f]]
  show ?thesis using assms w f w' f' by (auto simp: coordinator_complete_def abandon_def announce_def split: option.splits)
qed

lemma stateFor_storage: "stateFor i c = (st, c1) \<Longrightarrow> co_storage c1 = co_storage c"
  by (auto simp: stateFor_def Let_def split: option.splits)

lemma confined_Acknowledge:
  assumes "Acknowledge diskFS ord i key payload c = (c', e)"
  shows "confined i (co_storage c) (co_storage c')"
proof -
  obtain st c1 where s: "stateFor i c = (st, c1)" by fastforce
  obtain d e1 where w: "WriteSubtaskState diskFS i key payload (co_storage c1) = (d, e1)" by fastforce
  note w' = confined_WriteSubtaskState [OF w]
  show ?thesis
    using assms s w w' stateFor_storage [OF s] confined_trans [OF w']
    by (auto simp: Acknowledge_def Let_def abandon_def announce_def split: if_splits option.splits dest!: confined_complete)
qed

lemma completeWaiting_sameDir:
  assumes "completeWaiting diskFS ord ids c = (c', e)" "disk_good (co_storage c)" "co_state c j = None"
  shows "disk_good (co_storage c') \<and> sameDir j (co_storage c) (co_storage c')"
  using assms
proof (induction ids arbitrary: c)
  case (Cons i ids)
  show ?case
  proof (cases "\<exists>st. co_state c i = Some st \<and> \<not> terminal st \<and> outstanding c st = 0")
    case True
    then obtain st where st: "co_state c i = Some st" "\<not> terminal st" "outstanding c st = 0" by blast
    obtain c1 e1 where r: "coordinator_complete diskFS (ord i) i st c = (c1, e1)" by fastforce
    have ij: "j \<noteq> i" using st(1) Cons.prems(3) by auto
    have c1: "disk_good (co_storage c1)" "sameDir j (co_storage c) (co_storage c1)" "co_state c1 j = None"
      using confined_complete [OF r] Cons.prems(2,3) ij by (auto simp: confined_def domIff)
    show ?thesis
    proof (cases e1)
      case None
      then show ?thesis using Cons.IH [OF _ c1(1,3)] Cons.prems(1) r st sameDir_trans [OF c1(2)] by simp
    next
      case (Some x)
      then show ?thesis using Cons.prems(1) r st c1 by simp
    qed
  next
    case False
    then have "completeWaiting diskFS ord ids c = (c', e)" using Cons.prems(1) by (auto split: option.splits if_splits)
    then show ?thesis using Cons by blast
  qed
qed simp

lemma run_sameDir:
  assumes "co_run diskFS (NewCoordinator d meta) h c" "disk_good d" "validMeta meta" "\<forall>(a, e) \<in> set h. admissible d a"
    and "disk_may d (marker j) \<noteq> {None}"
  shows "sameDir j d (co_storage c)"
  using assms(1,4)
proof (induction rule: co_run.induct)
  case start
  show ?case by (simp add: NewCoordinator_def)
next
  case (call h c a err c')
  have inv: "coInv (firstAck h) (firstFin h) meta {i. disk_may d (marker i) = {None}} c"
    using run_inv [OF call.hyps(1) assms(2,3)] call.prems by auto
  then have g: "disk_good (co_storage c)" "co_state c j = None" using assms(5) by (auto simp: coInv_def)
  have same: "sameDir j d (co_storage c)" and adm: "admissible d a" using call by auto
  from call.hyps(2) show ?case
  proof cases
    case (ack ord i key payload)
    then have "j \<noteq> i" using adm assms(5) by (auto simp: admissible_def)
    then show ?thesis using confined_Acknowledge [OF ack(3)] g(1) same by (auto simp: confined_def intro: sameDir_trans)
  next
    case (fin ord ids key payload)
    have "sameDir j (co_storage c) (co_storage c')"
    proof (cases "c' = c")
      case False
      then have "completeWaiting diskFS ord ids (c\<lparr>co_done := (co_done c)(key \<mapsto> payload)\<rparr>) = (c', err)"
        using fin(4) by (auto simp: Finished_def split: if_splits)
      from completeWaiting_sameDir [OF this, of j] show ?thesis using g by simp
    qed simp
    then show ?thesis using same by (rule sameDir_trans [rotated])
  next
    case (fail i key)
    obtain st c1 where s: "stateFor i c = (st, c1)" by fastforce
    then have "co_storage c' = co_storage c" using fail stateFor_storage [OF s] by (simp add: Fail_def abandon_def announce_def)
    then show ?thesis using same by simp
  qed
qed

section \<open>Settled checkpoints\<close>

text \<open>What every call, on any file system, leaves alone: a checkpoint that completed or was abandoned
  stays so, and one becomes so only together with an announcement.\<close>

definition fate :: "'d Coordinator \<Rightarrow> int64 \<Rightarrow> bool \<times> bool" where
  "fate c i = (Completed i c, Abandoned i c)"

lemma fate_state:
  "fate c i = (case co_state c i of None \<Rightarrow> (False, False) | Some s \<Rightarrow> (cs_complete s, cs_abandoned s))"
  by (simp add: fate_def Completed_def Abandoned_def split: option.split)

definition evolves :: "'d Coordinator \<Rightarrow> 'd Coordinator \<Rightarrow> bool" where
  "evolves c c' \<longleftrightarrow> co_expected c' = co_expected c \<and> co_changed c \<le> co_changed c' \<and>
     (\<forall>i. fate c i \<noteq> (False, False) \<longrightarrow> fate c' i = fate c i) \<and> (co_changed c' = co_changed c \<longrightarrow> fate c' = fate c)"

lemma evolves_refl [simp]: "evolves c c"
  by (simp add: evolves_def)

lemma evolves_trans: "evolves a b \<Longrightarrow> evolves b c \<Longrightarrow> evolves a c"
  unfolding evolves_def by (metis dual_order.antisym order_trans)

lemma evolves_same:
  "co_expected c' = co_expected c \<Longrightarrow> co_changed c' = co_changed c \<Longrightarrow> fate c' = fate c \<Longrightarrow> evolves c c'"
  by (simp add: evolves_def)

lemma fate_update: "fate (c\<lparr>co_state := m(i \<mapsto> s)\<rparr>) j = (if j = i then (cs_complete s, cs_abandoned s) else fate (c\<lparr>co_state := m\<rparr>) j)"
  by (simp add: fate_state)

lemma evolves_end:
  assumes "fate c i = (False, False) \<or> fate c i = (cs_complete st', cs_abandoned st')" "co_expected c' = co_expected c"
    "co_changed c' = co_changed c + 1" "co_state c' = (co_state c)(i \<mapsto> st')"
  shows "evolves c c'"
proof -
  have "fate c' j = (if j = i then (cs_complete st', cs_abandoned st') else fate c j)" for j
    using assms(4) by (simp add: fate_state)
  then show ?thesis using assms(1-3) by (auto simp: evolves_def)
qed

lemma fate_live: "co_state c i = Some st \<Longrightarrow> \<not> terminal st \<Longrightarrow> fate c i = (False, False)"
  by (simp add: fate_state terminal_def)

lemma stateFor_evolves:
  assumes "stateFor i c = (st, c1)"
  shows "evolves c c1" "co_state c1 i = Some st"
proof -
  show "co_state c1 i = Some st" using assms by (auto simp: stateFor_def Let_def split: option.splits)
  show "evolves c c1"
    using assms by (intro evolves_same; cases "co_state c i") (auto simp: stateFor_def Let_def fun_eq_iff fate_state)
qed

lemma complete_evolves:
  assumes "\<not> terminal st" "co_state c i = Some st" "coordinator_complete FS ord i st c = (c', err)"
  shows "evolves c c'"
proof -
  have "\<exists>st'. co_state c' = (co_state c)(i \<mapsto> st')" "co_changed c' = co_changed c + 1" "co_expected c' = co_expected c"
    using assms(3)
    by (auto simp: coordinator_complete_def abandon_def announce_def split: prod.splits option.splits)
  then show ?thesis using evolves_end fate_live [OF assms(2,1)] by blast
qed

lemma ack_evolves:
  assumes "\<not> terminal st" "co_state c i = Some st"
  shows "evolves c (c\<lparr>co_storage := d, co_state := (co_state c)(i \<mapsto> st\<lparr>cs_acked := ks\<rparr>)\<rparr>)"
  using fate_live [OF assms(2,1)] assms(1) by (intro evolves_same) (auto simp: fun_eq_iff fate_state terminal_def)

lemma Acknowledge_evolves:
  assumes "Acknowledge FS ord i key payload c = (c', err)"
  shows "evolves c c'"
proof (cases "key \<in> set (co_expected c)")
  case True
  obtain st c1 where s: "stateFor i c = (st, c1)" by fastforce
  note s' = stateFor_evolves [OF s]
  obtain d e where w: "WriteSubtaskState FS i key payload (co_storage c1) = (d, e)" by fastforce
  let ?st = "st\<lparr>cs_acked := key # cs_acked st\<rparr>"
  let ?c = "c1\<lparr>co_storage := d, co_state := (co_state c1)(i \<mapsto> ?st)\<rparr>"
  consider "c' = c1"
    | "\<not> terminal st" "c' = abandon i st (c1\<lparr>co_storage := d\<rparr>)"
    | "\<not> terminal st" "c' = ?c" | "\<not> terminal st" "coordinator_complete FS ord i ?st ?c = (c', err)"
    using assms True s w
    by (cases e) (auto simp: Acknowledge_def terminal_def Let_def split: if_splits)
  then have "evolves c1 c'"
  proof cases
    case 2
    then show ?thesis using fate_live [OF s'(2)] by (intro evolves_end [of c1 i]) (auto simp: abandon_def announce_def)
  next
    case 3
    then show ?thesis using ack_evolves [OF 3(1) s'(2)] by simp
  next
    case 4
    have "evolves ?c c'" by (rule complete_evolves [OF _ _ 4(2)]) (use 4(1) in \<open>simp_all add: terminal_def\<close>)
    then show ?thesis using ack_evolves [OF 4(1) s'(2)] evolves_trans by blast
  qed simp
  then show ?thesis using s'(1) evolves_trans by blast
qed (use assms in \<open>simp add: Acknowledge_def\<close>)

lemma completeWaiting_evolves: "completeWaiting FS ord ids c = (c', err) \<Longrightarrow> evolves c c'"
proof (induction ids arbitrary: c)
  case (Cons i ids)
  show ?case
  proof (cases "\<exists>st. co_state c i = Some st \<and> \<not> terminal st \<and> outstanding c st = 0")
    case True
    then obtain st where st: "co_state c i = Some st" "\<not> terminal st" "outstanding c st = 0" by blast
    obtain c1 e1 where r: "coordinator_complete FS (ord i) i st c = (c1, e1)" by fastforce
    note r' = complete_evolves [OF st(2,1) r]
    show ?thesis
    proof (cases e1)
      case None
      then have "evolves c1 c'" using Cons r st by simp
      then show ?thesis using r' evolves_trans by blast
    qed (use r' Cons.prems r st in auto)
  next
    case False
    then have "completeWaiting FS ord ids c = (c', err)"
      using Cons.prems by (auto split: option.splits if_splits)
    then show ?thesis using Cons by blast
  qed
qed simp

lemma Fail_evolves: "evolves c (Fail i key c)"
proof -
  obtain st c1 where s: "stateFor i c = (st, c1)" by fastforce
  note s' = stateFor_evolves [OF s]
  have "evolves c1 (abandon i st c1)" if "\<not> cs_complete st"
    by (rule evolves_end [of c1 i]) (use s'(2) that in \<open>auto simp: abandon_def announce_def fate_state\<close>)
  then show ?thesis using s s'(1) evolves_trans by (auto simp: Fail_def)
qed

lemma step_evolves: "co_step FS c a err c' \<Longrightarrow> evolves c c'"
proof (induction rule: co_step.induct)
  case (fin ord c ids key payload c' err)
  let ?c = "c\<lparr>co_done := (co_done c)(key \<mapsto> payload)\<rparr>"
  have "evolves c ?c" by (rule evolves_same) (auto simp: fun_eq_iff fate_state)
  moreover have "c' = c \<or> completeWaiting FS ord ids ?c = (c', err)"
    using fin by (auto simp: Finished_def split: if_splits)
  ultimately show ?case using completeWaiting_evolves evolves_trans evolves_refl by metis
next
  case (fail c i key)
  show ?case by (rule Fail_evolves)
qed (rule Acknowledge_evolves)

lemma run_evolves: "co_run FS c h c' \<Longrightarrow> evolves c c'"
  by (induction rule: co_run.induct) (simp, blast intro: evolves_trans step_evolves)

lemma settled_fate: "settled ids c \<longleftrightarrow> (\<forall>i \<in> set ids. fate c i \<noteq> (False, False))"
  by (auto simp: settled_def list_all_iff fate_state terminal_def split: option.splits)

section \<open>Progress\<close>

text \<open>The bookkeeping of a run in which no call returned an error, on any file system.\<close>

definition failCalls :: "(call \<times> go_error option) list \<Rightarrow> int64 set" where
  "failCalls h = {i. \<exists>k e. (FailCall i k, e) \<in> set h}"

definition everyone :: "(call \<times> go_error option) list \<Rightarrow> 'd Coordinator \<Rightarrow> int64 \<Rightarrow> bool" where
  "everyone h c i \<longleftrightarrow> (\<forall>k \<in> set (co_expected c). firstAck h i k \<noteq> None \<or> firstFin h k \<noteq> None)"

definition tracks :: "(call \<times> go_error option) list \<Rightarrow> 'd Coordinator \<Rightarrow> int64 \<Rightarrow> bool" where
  "tracks h c i \<longleftrightarrow>
     (case co_state c i of
        None \<Rightarrow> (\<forall>k. firstAck h i k = None) \<and> i \<notin> failCalls h
      | Some s \<Rightarrow>
          if cs_complete s then everyone h c i \<and> \<not> cs_abandoned s
          else if cs_abandoned s then i \<in> failCalls h
          else i \<notin> failCalls h \<and> (\<forall>k. k \<in> set (cs_acked s) \<longleftrightarrow> firstAck h i k \<noteq> None) \<and> 0 < outstanding c s)"

definition bookkept :: "(call \<times> go_error option) list \<Rightarrow> 'd Coordinator \<Rightarrow> bool" where
  "bookkept h c \<longleftrightarrow> co_done c = firstFin h \<and> (\<forall>i. tracks h c i)"

lemma everyone_outstanding:
  assumes "co_done c = firstFin h" "\<forall>k. k \<in> set (cs_acked s) \<longleftrightarrow> firstAck h i k \<noteq> None"
  shows "outstanding c s = 0 \<longleftrightarrow> everyone h c i"
  using assms by (auto simp: outstanding_zero everyone_def)

lemma everyone_cong: "co_expected c' = co_expected c \<Longrightarrow> everyone h c' i = everyone h c i"
  by (simp add: everyone_def)

lemma outstanding_cong:
  "co_expected c' = co_expected c \<Longrightarrow> co_done c' = co_done c \<Longrightarrow> outstanding c' s = outstanding c s"
  by (simp add: outstanding_def)

lemma tracks_cong:
  assumes "co_expected c' = co_expected c" "co_done c' = co_done c" "co_state c' i = co_state c i"
    "firstAck h' i = firstAck h i" "firstFin h' = firstFin h" "i \<in> failCalls h' \<longleftrightarrow> i \<in> failCalls h"
  shows "tracks h' c' i = tracks h c i"
  using assms by (simp add: tracks_def everyone_def outstanding_def cong: option.case_cong)

lemma coordinator_complete_ok:
  assumes "coordinator_complete FS ord i st c = (c', None)"
  obtains d where "c' = announce (c\<lparr>co_storage := d, co_state := (co_state c)(i \<mapsto> st\<lparr>cs_complete := True, cs_acked := []\<rparr>)\<rparr>)"
  using assms by (auto simp: coordinator_complete_def split: prod.splits option.splits)

lemma Acknowledge_bookkept:
  assumes b: "bookkept h c" and r: "Acknowledge FS ord i key payload c = (c', None)"
  shows "bookkept (h @ [(AckCall i key payload, None)]) c'"
proof -
  let ?h = "h @ [(AckCall i key payload, None)]"
  have ff: "firstFin ?h = firstFin h" by (rule ext) (simp add: firstFin_append split: option.splits)
  have fc: "failCalls ?h = failCalls h" by (auto simp: failCalls_def)
  have fa: "firstAck ?h j k = (if j = i \<and> k = key \<and> firstAck h i key = None then Some payload else firstAck h j k)" for j k
    by (auto simp: firstAck_append split: option.splits)
  have dn: "co_done c = firstFin h" and tr: "tracks h c i" using b by (auto simp: bookkept_def)
  obtain st c1 where s: "stateFor i c = (st, c1)" by fastforce
  have c1: "c1 = c\<lparr>co_state := (co_state c)(i \<mapsto> st)\<rparr>"
    "co_state c i = Some st \<or> co_state c i = None \<and> st = \<lparr>cs_acked = [], cs_complete = False, cs_abandoned = False\<rparr>"
    using s by (auto simp: stateFor_def Let_def fun_upd_idem split: option.splits)
  have key: "key \<in> set (co_expected c)" using r by (auto simp: Acknowledge_def split: if_splits)
  have finish: ?thesis if "co_expected c' = co_expected c" "co_done c' = co_done c"
    "\<And>j. j \<noteq> i \<Longrightarrow> co_state c' j = co_state c j" "tracks ?h c' i"
  proof -
    have "tracks ?h c' j" for j
    proof (cases "j = i")
      case False
      then have "firstAck ?h j = firstAck h j" using fa by auto
      then show ?thesis using tracks_cong [OF that(1,2) that(3) [OF False]] b ff fc by (simp add: bookkept_def)
    qed (simp add: that(4))
    then show ?thesis using that(2) dn ff by (simp add: bookkept_def)
  qed
  show ?thesis
  proof (cases "cs_abandoned st")
    case True
    then have "c' = c1" using r s key by (simp add: Acknowledge_def)
    moreover have "co_state c i = Some st" using c1(2) True by auto
    ultimately have c': "c' = c" using c1(1) by (simp add: fun_upd_idem)
    moreover have "tracks ?h c i"
      using tr True \<open>co_state c i = Some st\<close> fc by (auto simp: tracks_def)
    ultimately show ?thesis using finish by simp
  next
    case False
    then have live: "\<not> cs_complete st" "key \<notin> set (cs_acked st)"
      using r s key by (auto simp: Acknowledge_def split: if_splits)
    have acks: "\<forall>k. k \<in> set (cs_acked st) \<longleftrightarrow> firstAck h i k \<noteq> None" "i \<notin> failCalls h"
      using tr c1(2) live(1) False by (auto simp: tracks_def)
    obtain d where w: "WriteSubtaskState FS i key payload (co_storage c1) = (d, None)"
      using r s key False live by (auto simp: Acknowledge_def split: prod.splits option.splits)
    let ?st = "st\<lparr>cs_acked := key # cs_acked st\<rparr>"
    let ?c = "c1\<lparr>co_storage := d, co_state := (co_state c1)(i \<mapsto> ?st)\<rparr>"
    have r': "(if 0 < outstanding ?c ?st then (?c, None) else coordinator_complete FS ord i ?st ?c) = (c', None)"
      using r s key False live w by (simp add: Acknowledge_def Let_def)
    have acks': "\<forall>k. k \<in> set (cs_acked ?st) \<longleftrightarrow> firstAck ?h i k \<noteq> None"
      using acks(1) live(2) fa by auto
    have zero: "outstanding ?c ?st = 0 \<longleftrightarrow> everyone ?h ?c i"
      by (rule everyone_outstanding [OF _ acks']) (simp add: c1 dn ff)
    show ?thesis
    proof (cases "0 < outstanding ?c ?st")
      case True
      then have c': "c' = ?c" using r' by simp
      have "tracks ?h c' i" using True acks' acks(2) live(1) False unfolding c' by (simp add: tracks_def fc)
      then show ?thesis by (intro finish) (simp_all add: c' c1)
    next
      case False': False
      then have "coordinator_complete FS ord i ?st ?c = (c', None)" using r' by simp
      then obtain d2 where c': "c' = announce (?c\<lparr>co_storage := d2, co_state := (co_state ?c)(i \<mapsto> ?st\<lparr>cs_complete := True, cs_acked := []\<rparr>)\<rparr>)"
        by (rule coordinator_complete_ok)
      have "everyone ?h c' i" using zero False' by (simp add: everyone_def c' announce_def)
      then have "tracks ?h c' i" using False by (simp add: tracks_def c' announce_def)
      then show ?thesis by (intro finish) (simp_all add: c' c1 announce_def)
    qed
  qed
qed

text \<open>A checkpoint that waits for nobody any more, in the middle of \<open>Finished\<close>.\<close>

definition ready :: "(call \<times> go_error option) list \<Rightarrow> 'd Coordinator \<Rightarrow> int64 \<Rightarrow> bool" where
  "ready h c i \<longleftrightarrow> (\<exists>s. co_state c i = Some s \<and> \<not> terminal s \<and> outstanding c s = 0 \<and>
     (\<forall>k. k \<in> set (cs_acked s) \<longleftrightarrow> firstAck h i k \<noteq> None))"

lemma completeWaiting_tracks:
  assumes "completeWaiting FS ord ids c = (c', None)" "co_done c = firstFin h"
    "\<And>i. tracks h c i \<or> i \<in> set ids \<and> ready h c i"
  shows "bookkept h c'"
  using assms
proof (induction ids arbitrary: c)
  case Nil
  then show ?case by (auto simp: bookkept_def)
next
  case (Cons i ids)
  show ?case
  proof (cases "ready h c i")
    case True
    then obtain s where s: "co_state c i = Some s" "\<not> terminal s" "outstanding c s = 0"
      "\<forall>k. k \<in> set (cs_acked s) \<longleftrightarrow> firstAck h i k \<noteq> None" by (auto simp: ready_def)
    from Cons.prems(1) s obtain c1 where r: "coordinator_complete FS (ord i) i s c = (c1, None)"
      "completeWaiting FS ord ids c1 = (c', None)" by (auto split: prod.splits option.splits)
    from r(1) obtain d where c1: "c1 = announce (c\<lparr>co_storage := d, co_state := (co_state c)(i \<mapsto> s\<lparr>cs_complete := True, cs_acked := []\<rparr>)\<rparr>)"
      by (rule coordinator_complete_ok)
    have fields: "co_expected c1 = co_expected c" "co_done c1 = co_done c" by (simp_all add: c1 announce_def)
    have "tracks h c1 j \<or> j \<in> set ids \<and> ready h c1 j" for j
    proof (cases "j = i")
      case True
      have "everyone h c1 i" using everyone_outstanding [OF Cons.prems(2) s(4)] s(3) everyone_cong [OF fields(1)] by simp
      then show ?thesis using True s(2) by (simp add: tracks_def c1 announce_def terminal_def)
    next
      case False
      then have "co_state c1 j = co_state c j" by (simp add: c1 announce_def)
      then show ?thesis
        using Cons.prems(3) [of j] tracks_cong [OF fields, of j h h] outstanding_cong [OF fields] False
        by (auto simp: ready_def)
    qed
    then show ?thesis using Cons.IH [OF r(2)] Cons.prems(2) fields(2) by simp
  next
    case False
    then have "tracks h c i" using Cons.prems(3) [of i] by simp
    then have "\<And>j. tracks h c j \<or> j \<in> set ids \<and> ready h c j" using Cons.prems(3) False by auto
    moreover have "completeWaiting FS ord ids c = (c', None)"
      using Cons.prems(1) \<open>tracks h c i\<close>
      by (auto simp: tracks_def terminal_def split: option.splits if_splits)
    ultimately show ?thesis using Cons.IH Cons.prems(2) by blast
  qed
qed

lemma Finished_bookkept:
  assumes b: "bookkept h c" and ids: "set ids = dom (co_state c)" and r: "Finished FS ord ids key payload c = (c', None)"
  shows "bookkept (h @ [(FinCall key payload, None)]) c'"
proof -
  let ?h = "h @ [(FinCall key payload, None)]" and ?c = "c\<lparr>co_done := (co_done c)(key \<mapsto> payload)\<rparr>"
  have k: "co_done c key = None" "completeWaiting FS ord ids ?c = (c', None)"
    using r by (auto simp: Finished_def split: if_splits)
  have dn: "co_done c = firstFin h" using b by (simp add: bookkept_def)
  have ff: "firstFin ?h = (firstFin h)(key \<mapsto> payload)"
    using k(1) dn by (auto simp: fun_eq_iff firstFin_append split: option.splits)
  have fa: "firstAck ?h = firstAck h" by (intro ext) (simp add: firstAck_append split: option.splits)
  have fc: "failCalls ?h = failCalls h" by (auto simp: failCalls_def)
  show ?thesis
  proof (rule completeWaiting_tracks [OF k(2)])
    show "co_done ?c = firstFin ?h" by (simp add: dn ff)
    show "tracks ?h ?c i \<or> i \<in> set ids \<and> ready ?h ?c i" for i
    proof -
      have tr: "tracks h c i" using b by (simp add: bookkept_def)
      have mono: "everyone h c i \<Longrightarrow> everyone ?h ?c i" by (auto simp: everyone_def fa ff)
      show ?thesis
      proof (cases "co_state c i")
        case None
        then show ?thesis using tr by (simp add: tracks_def fa fc)
      next
        case (Some s)
        then have "i \<in> set ids" using ids by auto
        then show ?thesis using tr mono Some by (auto simp: tracks_def ready_def fa fc terminal_def)
      qed
    qed
  qed
qed

lemma Fail_bookkept:
  assumes b: "bookkept h c"
  shows "bookkept (h @ [(FailCall i key, None)]) (Fail i key c)"
proof -
  let ?h = "h @ [(FailCall i key, None)]"
  have ff: "firstFin ?h = firstFin h" by (rule ext) (simp add: firstFin_append split: option.splits)
  have fa: "firstAck ?h = firstAck h" by (intro ext) (simp add: firstAck_append split: option.splits)
  have fc: "failCalls ?h = insert i (failCalls h)" by (auto simp: failCalls_def)
  obtain st c1 where s: "stateFor i c = (st, c1)" by fastforce
  have c1: "c1 = c\<lparr>co_state := (co_state c)(i \<mapsto> st)\<rparr>"
    using s by (auto simp: stateFor_def Let_def fun_upd_idem split: option.splits)
  obtain st' where f: "co_state (Fail i key c) = (co_state c)(i \<mapsto> st')" "co_done (Fail i key c) = co_done c"
    "co_expected (Fail i key c) = co_expected c" "cs_complete st \<and> st' = st \<or> \<not> cs_complete st \<and> \<not> cs_complete st' \<and> cs_abandoned st'"
    using s by (cases "cs_complete st") (auto simp: Fail_def c1 abandon_def announce_def)
  have "tracks ?h (Fail i key c) j" for j
  proof (cases "j = i")
    case True
    have "cs_complete st \<Longrightarrow> co_state c i = Some st"
      using s by (auto simp: stateFor_def Let_def split: option.splits)
    moreover have "tracks h c i" using b by (simp add: bookkept_def)
    moreover have "everyone ?h (Fail i key c) i = everyone h c i" by (simp add: everyone_def fa ff f(3))
    ultimately show ?thesis using f True by (auto simp: tracks_def fc)
  next
    case False
    then show ?thesis using tracks_cong [OF f(3,2), of j ?h h] b f(1) fa ff fc by (simp add: bookkept_def)
  qed
  then show ?thesis using b f(2) ff by (simp add: bookkept_def)
qed

lemma run_bookkept:
  assumes "co_run FS (NewCoordinator d meta) h c" "\<forall>(a, e) \<in> set h. e = None"
  shows "bookkept h c"
  using assms
proof (induction rule: co_run.induct)
  case start
  show ?case by (simp add: bookkept_def tracks_def NewCoordinator_def failCalls_def fun_eq_iff)
next
  case (call h c a err c')
  have b: "bookkept h c" and e: "err = None" using call by auto
  from call.hyps(2) show ?case
    by cases (use b e Acknowledge_bookkept Finished_bookkept Fail_bookkept in \<open>auto simp: rangesOver_def\<close>)
qed

text \<open>A run of a job of one subtask, on a disk on which nothing fails: its acknowledgement of
  checkpoint 7 completes it.\<close>

definition example_subtask :: SubtaskKey where
  "example_subtask = \<lparr>sk_VertexID = [97, 45, 98], sk_Index = 0\<rparr>"

definition example_history :: "(call \<times> go_error option) list" where
  "example_history = [(AckCall 7 example_subtask [1, 2], None)]"

lemma example_ack_run:
  assumes "clean d0"
  shows "\<exists>c. co_run diskFS (NewCoordinator d0 example_job) [(AckCall i example_subtask p, None)] c \<and> clean (co_storage c)"
proof -
  let ?c = "NewCoordinator d0 example_job"
  have ex: "co_expected ?c = [example_subtask]" by (simp add: NewCoordinator_def example_job_facts example_subtask_def)
  obtain d where d: "WriteSubtaskState diskFS i example_subtask p d0 = (d, None)" "clean d"
    using clean_WriteSubtaskState [OF assms, of example_subtask] by (auto simp: example_job_facts example_subtask_def)
  obtain d' where d': "storage_Complete diskFS i example_job d = (d', None)" "clean d'" using clean_Complete [OF d(2)] by blast
  have "\<exists>c. Acknowledge diskFS [example_subtask] i example_subtask p ?c = (c, None) \<and> clean (co_storage c)"
    using d(1) d' ex by (simp add: Acknowledge_def stateFor_def coordinator_complete_def outstanding_def NewCoordinator_def announce_def Let_def)
  then obtain c where c: "Acknowledge diskFS [example_subtask] i example_subtask p ?c = (c, None)" "clean (co_storage c)" by blast
  then have "co_step diskFS ?c (AckCall i example_subtask p) None c"
    by (intro co_step.ack [of "[example_subtask]"]) (simp_all add: ex rangesOver_def)
  from co_run.call [OF co_run.start this] show ?thesis using c(2) by auto
qed

lemma example_run: "\<exists>c. co_run diskFS (NewCoordinator (newDisk []) example_job) example_history c"
  using example_ack_run [OF clean_newDisk] by (auto simp: example_history_def)

lemma example_history_facts:
  "\<forall>(a, e) \<in> set example_history. admissible (newDisk []) a" "\<forall>(a, e) \<in> set example_history. e = None"
  "firstAck example_history 7 example_subtask = Some [1, 2]" "\<forall>l e. (FailCall 7 l, e) \<notin> set example_history"
  "Subtasks example_job = [example_subtask]"
  by (simp_all add: example_history_def admissible_def example_job_facts example_subtask_def)

lemma example_ack_completed:
  assumes "co_run diskFS (NewCoordinator d0 example_job) [(AckCall i example_subtask p, None)] c"
  shows "Completed i c"
proof -
  let ?h = "[(AckCall i example_subtask p, None)]"
  have tr: "tracks ?h c i" and ex: "co_expected c = [example_subtask]"
    using run_bookkept [OF assms] run_evolves [OF assms]
    by (auto simp: bookkept_def evolves_def NewCoordinator_def example_history_facts)
  obtain s where s: "co_state c i = Some s"
    using tr by (auto simp: tracks_def split: option.splits dest: spec [of _ example_subtask])
  show ?thesis using tr s ex by (auto simp: tracks_def Completed_def outstanding_def failCalls_def split: if_splits)
qed

lemma example_completed: "co_run diskFS (NewCoordinator (newDisk []) example_job) example_history c \<Longrightarrow> Completed 7 c"
  by (rule example_ack_completed) (simp add: example_history_def)

section \<open>Properties\<close>

lemma marker_loads:
  assumes "co_run diskFS (NewCoordinator d meta) h c" "disk_good d" "validMeta meta" "\<forall>(a, e) \<in> set h. admissible d a"
    and "disk_may d (storage_dir i, completeName) = {None}" "crash_view (co_storage c) rd" "rd (storage_dir i, completeName) \<noteq> None"
  shows "\<exists>pay. storage_Load rd i = Inr (meta, map (\<lambda>k. (k, pay k)) (Subtasks meta)) \<and>
      (\<forall>k \<in> set (Subtasks meta). firstAck h i k = Some (pay k) \<or> firstFin h k = Some (pay k))"
proof -
  have "idInv (firstAck h) (firstFin h) meta (co_storage c) i (co_state c i)"
    using run_inv [OF assms(1-4)] assms(5) by (simp add: coInv_def)
  moreover have "disk_may (co_storage c) (marker i) \<noteq> {None}"
    using crash_view_marked(2) [OF assms(6,7) finalNames(1) finalNames(1)] assms(7) by fastforce
  ultimately have "certified (firstAck h) (firstFin h) meta (co_storage c) i"
    by (auto simp: idInv_def split: option.splits if_splits)
  then show ?thesis
    using Load_vouched [OF assms(3) _ _ _ assms(6,7)] unfolding certified_def by blast
qed

text \<open>C1. Recovery is safe at every moment of every run. Take any sequence of calls by the subtasks, in
  any order and with any payloads, file operations that fail anywhere, and a machine that
  stops anywhere: in what the crash leaves, a marker for a checkpoint of this run means that
  \<open>Load\<close> returns the job's metadata and, for every subtask, the payload it acknowledged that
  checkpoint with or the one it finished with. And a checkpoint that the coordinator reports
  as completed has its marker, unless the checkpoint's whole directory is gone.\<close>

theorem marker_means_complete:
  assumes "co_run diskFS (NewCoordinator d meta) h c" "disk_good d" "validMeta meta" "\<forall>(a, e) \<in> set h. admissible d a"
    and "disk_may d (storage_dir i, completeName) = {None}" "crash_view (co_storage c) rd"
  shows "(rd (storage_dir i, completeName) \<noteq> None \<longrightarrow>
      (\<exists>pay. storage_Load rd i = Inr (meta, map (\<lambda>k. (k, pay k)) (Subtasks meta)) \<and>
        (\<forall>k \<in> set (Subtasks meta). firstAck h i k = Some (pay k) \<or> firstFin h k = Some (pay k)))) \<and>
    (Completed i c \<longrightarrow> rd (storage_dir i, completeName) \<noteq> None \<or> (\<forall>n. finalName n \<longrightarrow> rd (storage_dir i, n) = None))"
proof -
  have inv: "idInv (firstAck h) (firstFin h) meta (co_storage c) i (co_state c i)"
    using run_inv [OF assms(1-4)] assms(5) by (simp add: coInv_def)
  obtain lost where l: "\<And>p. finalName (snd p) \<Longrightarrow> if fst p \<in> lost then rd p = None else rd p \<in> disk_may (co_storage c) p"
    using assms(6) unfolding crash_view_def by blast
  have "\<exists>pay. storage_Load rd i = Inr (meta, map (\<lambda>k. (k, pay k)) (Subtasks meta)) \<and>
      (\<forall>k \<in> set (Subtasks meta). firstAck h i k = Some (pay k) \<or> firstFin h k = Some (pay k))"
    if "rd (marker i) \<noteq> None"
    using marker_loads [OF assms that] .
  moreover have "rd (marker i) \<noteq> None \<or> (\<forall>n. finalName n \<longrightarrow> rd (storage_dir i, n) = None)" if "Completed i c"
  proof -
    have "disk_may (co_storage c) (marker i) = {Some (FormatInt i @ [10])}"
      using that inv by (auto simp: Completed_def idInv_def split: option.splits)
    then show ?thesis using l [of "marker i"] l [of "(storage_dir i, n)" for n]
      by (cases "storage_dir i \<in> lost") simp_all
  qed
  ultimately show ?thesis by blast
qed

theorem marker_means_complete_witness:
  "\<exists>c. co_run diskFS (NewCoordinator (newDisk []) example_job) example_history c \<and>
    storage_Load (disk_cur (co_storage c)) 7 = Inr (example_job, [(example_subtask, [1, 2])])"
proof -
  obtain c where c: "co_run diskFS (NewCoordinator (newDisk []) example_job) example_history c" using example_run by blast
  have inv: "coInv (firstAck example_history) (firstFin example_history) example_job UNIV c"
    using run_inv [OF c newDisk_empty(1) example_job_facts(1) example_history_facts(1)] by simp
  have g: "disk_good (co_storage c)" using inv by (simp add: coInv_def)
  have "Completed 7 c" by (rule example_completed [OF c])
  then have "disk_may (co_storage c) (marker 7) = {Some (FormatInt 7 @ [10])}"
    using inv by (auto simp: coInv_def idInv_def Completed_def split: option.splits)
  then have "disk_cur (co_storage c) (marker 7) \<noteq> None" using ds.cur_may [OF g, of "marker 7"] by auto
  then show ?thesis
    using marker_means_complete [OF c newDisk_empty(1) example_job_facts(1) example_history_facts(1) newDisk_empty(2) crash_view_cur [OF g], of 7] c
    by (auto simp: example_history_facts firstFin.simps example_history_def intro!: exI [of _ c])
qed

text \<open>C15. A checkpoint completes exactly when it should. In a run in which no call returned an error and
  on any file system, a checkpoint that some subtask acknowledged and none failed at is
  completed if and only if every subtask of the job has acknowledged it or has finished; and a
  checkpoint is abandoned only if some subtask failed at it.\<close>

theorem completes_exactly:
  assumes "co_run FS (NewCoordinator d meta) h c" "\<forall>(a, e) \<in> set h. e = None"
    and "firstAck h i k \<noteq> None" "\<forall>l e. (FailCall i l, e) \<notin> set h"
  shows "(Completed i c \<longleftrightarrow> (\<forall>l \<in> set (Subtasks meta). firstAck h i l \<noteq> None \<or> firstFin h l \<noteq> None)) \<and> \<not> Abandoned i c"
proof -
  have ex: "set (co_expected c) = set (Subtasks meta)"
    using run_evolves [OF assms(1)] by (simp add: evolves_def NewCoordinator_def)
  have dn: "co_done c = firstFin h" and tr: "tracks h c i"
    using run_bookkept [OF assms(1,2)] by (auto simp: bookkept_def)
  have nf: "i \<notin> failCalls h" using assms(4) by (auto simp: failCalls_def)
  obtain s where s: "co_state c i = Some s" using tr assms(3) by (auto simp: tracks_def split: option.splits)
  have ev: "everyone h c i \<longleftrightarrow> (\<forall>l \<in> set (Subtasks meta). firstAck h i l \<noteq> None \<or> firstFin h l \<noteq> None)"
    by (simp add: everyone_def ex)
  show ?thesis
  proof (cases "cs_complete s")
    case True
    then show ?thesis using tr s ev by (simp add: tracks_def Completed_def Abandoned_def)
  next
    case False
    then have live: "\<not> cs_abandoned s" "\<forall>k. k \<in> set (cs_acked s) \<longleftrightarrow> firstAck h i k \<noteq> None" "0 < outstanding c s"
      using tr s nf by (simp_all add: tracks_def split: if_splits)
    then have "\<not> everyone h c i" using everyone_outstanding [OF dn live(2)] by simp
    then show ?thesis using False live(1) s ev by (simp add: Completed_def Abandoned_def)
  qed
qed

theorem completes_exactly_witness:
  "\<exists>c. co_run diskFS (NewCoordinator (newDisk []) example_job) example_history c \<and> Completed 7 c"
proof -
  obtain c where c: "co_run diskFS (NewCoordinator (newDisk []) example_job) example_history c" using example_run by blast
  show ?thesis
    using completes_exactly [OF c example_history_facts(2) _ example_history_facts(4), of example_subtask] c
    by (auto simp: example_history_facts)
qed

text \<open>C16. A checkpoint has one outcome. From the state in which a checkpoint is reported completed, or
  abandoned, no call by any subtask changes the report; and in no state that a run reaches is
  a checkpoint both.\<close>

theorem outcome_is_final:
  assumes "co_run diskFS (NewCoordinator d meta) h c" "disk_good d" "validMeta meta" "\<forall>(a, e) \<in> set h. admissible d a"
    and "co_run diskFS c h' c'"
  shows "\<not> (Completed i c \<and> Abandoned i c) \<and> (Completed i c \<longrightarrow> Completed i c' \<and> \<not> Abandoned i c') \<and>
    (Abandoned i c \<longrightarrow> Abandoned i c' \<and> \<not> Completed i c')"
proof -
  have inv: "coInv (firstAck h) (firstFin h) meta {i. disk_may d (marker i) = {None}} c"
    by (rule run_inv [OF assms(1-4)])
  have "\<not> (Completed i c \<and> Abandoned i c)"
  proof (cases "co_state c i")
    case (Some s)
    then have "i \<in> {i. disk_may d (marker i) = {None}}" using inv unfolding coInv_def by blast
    then have "idInv (firstAck h) (firstFin h) meta (co_storage c) i (Some s)"
      using inv Some unfolding coInv_def by metis
    then show ?thesis using Some by (auto simp: idInv_def Completed_def Abandoned_def)
  qed (simp add: Completed_def)
  moreover have "fate c i \<noteq> (False, False) \<Longrightarrow> fate c' i = fate c i"
    using run_evolves [OF assms(5)] by (simp add: evolves_def)
  ultimately show ?thesis by (auto simp: fate_def)
qed

theorem outcome_is_final_witness:
  "\<exists>c c'. co_run diskFS (NewCoordinator (newDisk []) example_job) example_history c \<and> Completed 7 c \<and>
    co_run diskFS c [(FailCall 7 example_subtask, None)] c' \<and> Completed 7 c' \<and> \<not> Abandoned 7 c'"
proof -
  obtain c where c: "co_run diskFS (NewCoordinator (newDisk []) example_job) example_history c" using example_run by blast
  note dn = example_completed [OF c]
  have r: "co_run diskFS c [(FailCall 7 example_subtask, None)] (Fail 7 example_subtask c)"
    using co_run.call [OF co_run.start co_step.fail] by fastforce
  show ?thesis
    using outcome_is_final [OF c newDisk_empty(1) example_job_facts(1) example_history_facts(1) r, of 7] c r dn by blast
qed

text \<open>C17. No completion is missed by a waiter. Suppose a sink examined the checkpoints it waits for while
  not all were settled, and some calls later they are. Then the channel it took in that
  examination has been closed, so it runs again; and whenever it does, however many calls
  later, \<open>AwaitCompletedAmong\<close> returns with exactly the checkpoints that had completed at the
  moment they were all settled.\<close>

theorem await_not_missed:
  assumes "co_run FS c h c'" "\<not> settled ids c" "settled ids c'" "co_run FS c' h' c''"
  shows "co_changed c < co_changed c' \<and>
    AwaitCompletedAmong ids c (woken c'' # ts) = Some (filter (\<lambda>i. Completed i c') ids)"
proof -
  note e = run_evolves [OF assms(1)] and e' = run_evolves [OF assms(4)]
  have "co_changed c \<noteq> co_changed c'" using e assms(2,3) by (auto simp: evolves_def settled_fate)
  moreover have same: "fate c'' i = fate c' i" if "i \<in> set ids" for i
    using e' assms(3) that by (auto simp: evolves_def settled_fate)
  moreover have "settled ids c''" using assms(3) same by (simp add: settled_fate)
  moreover have "filter (\<lambda>i. Completed i c'') ids = filter (\<lambda>i. Completed i c') ids"
    using same by (intro filter_cong) (auto simp: fate_def)
  ultimately show ?thesis using e assms(2) by (simp add: evolves_def CompletedAmong_def)
qed

theorem await_not_missed_witness:
  "\<exists>c. co_run diskFS (NewCoordinator (newDisk []) example_job) example_history c \<and>
    AwaitCompletedAmong [7] (NewCoordinator (newDisk []) example_job) [woken c] = Some [7]"
proof -
  obtain c where c: "co_run diskFS (NewCoordinator (newDisk []) example_job) example_history c" using example_run by blast
  note dn = example_completed [OF c]
  have "\<not> settled [7] (NewCoordinator (newDisk []) example_job)" by (simp add: settled_def NewCoordinator_def)
  moreover have "settled [7] c" using dn by (simp add: settled_fate fate_def)
  ultimately show ?thesis
    using await_not_missed [OF c _ _ co_run.start, of "[7]" "[]"] c dn by auto
qed

end
