(* ===== verification/Shared_Coordinator.thy ===== *)
theory Shared_Coordinator
  imports Subtask Coordinator
begin

text \<open>
  The coordinator as one subtask calls it, while the others call it too: the interface the
  subtasks rely on, and its implementation by \<open>Coordinator\<close>. The calls of the other subtasks are
  a list of turns, each what they do to the coordinator between two examinations of it by this
  subtask, and whether its context is done by then.
\<close>

section \<open>The interface\<close>

text \<open>A coordinator answers with the checkpoints, among those it is asked about, that have
  completed, and one that has completed stays so.\<close>

locale checkpoint_service =
  fixes co :: "'c coordinator_calls" and completed :: "'c \<Rightarrow> int64 set" and good :: "'c \<Rightarrow> bool"
  assumes acknowledge: "good c \<Longrightarrow> cc_Acknowledge co i payload c = (c', err) \<Longrightarrow> good c' \<and> completed c \<subseteq> completed c'"
    and fail: "good c \<Longrightarrow> good (cc_Fail co i c) \<and> completed c \<subseteq> completed (cc_Fail co i c)"
    and completed_among: "good c \<Longrightarrow> cc_CompletedAmong co ids c = (c', r) \<Longrightarrow>
      good c' \<and> completed c \<subseteq> completed c' \<and> set r = set ids \<inter> completed c'"
    and await: "good c \<Longrightarrow> cc_AwaitCompletedAmong co ids c = Some (c', r) \<Longrightarrow>
      good c' \<and> completed c \<subseteq> completed c' \<and> set r = set ids \<inter> completed c'"

section \<open>The implementation\<close>

type_synonym 'd others = "(bool \<times> ('d Coordinator \<Rightarrow> 'd Coordinator)) list"

record 'd shared =
  sh_co :: "'d Coordinator"
  sh_others :: "'d others"

definition othersTurn :: "'d shared \<Rightarrow> 'd shared" where
  "othersTurn w = (case sh_others w of [] \<Rightarrow> w | (_, f) # r \<Rightarrow> w\<lparr>sh_co := f (sh_co w), sh_others := r\<rparr>)"

text \<open>\<open>AwaitCompletedAmong\<close>, with the coordinator as it is afterwards.\<close>

fun awaitShared :: "int64 list \<Rightarrow> 'd Coordinator \<Rightarrow> 'd others \<Rightarrow> ('d shared \<times> int64 list) option" where
  "awaitShared ids c os =
     (if settled ids c then Some (\<lparr>sh_co = c, sh_others = os\<rparr>, CompletedAmong ids c)
      else case os of
          [] \<Rightarrow> None
        | (True, f) # r \<Rightarrow> Some (\<lparr>sh_co = f c, sh_others = r\<rparr>, CompletedAmong ids (f c))
        | (False, f) # r \<Rightarrow> awaitShared ids (f c) r)"

declare awaitShared.simps [simp del]

lemma awaitShared_cases [simp]:
  "awaitShared ids c [] = (if settled ids c then Some (\<lparr>sh_co = c, sh_others = []\<rparr>, CompletedAmong ids c) else None)"
  "awaitShared ids c ((b, f) # r) =
     (if settled ids c then Some (\<lparr>sh_co = c, sh_others = (b, f) # r\<rparr>, CompletedAmong ids c)
      else if b then Some (\<lparr>sh_co = f c, sh_others = r\<rparr>, CompletedAmong ids (f c))
      else awaitShared ids (f c) r)"
  by (subst awaitShared.simps, cases b, simp_all)+

fun turnsOf :: "'d Coordinator \<Rightarrow> 'd others \<Rightarrow> 'd turn list" where
  "turnsOf c [] = []"
| "turnsOf c ((ctxDone, f) # r) = (if ctxDone then cancelled (f c) else woken (f c)) # turnsOf (f c) r"

lemma awaitShared_await: "map_option snd (awaitShared ids c os) = AwaitCompletedAmong ids c (turnsOf c os)"
proof (induction os arbitrary: c)
  case (Cons o1 os)
  then show ?case by (cases o1) auto
qed simp

text \<open>The iteration orders over the coordinator's maps may depend on anything.\<close>

definition sharedCalls ::
  "'d fileSystem \<Rightarrow> ('d Coordinator \<Rightarrow> SubtaskKey list) \<Rightarrow> ('d Coordinator \<Rightarrow> int64 \<Rightarrow> SubtaskKey list) \<Rightarrow>
   ('d Coordinator \<Rightarrow> int64 list) \<Rightarrow> SubtaskKey \<Rightarrow> 'd shared coordinator_calls" where
  "sharedCalls FS ord ords idOrd key =
     \<lparr>cc_Acknowledge = \<lambda>i payload w. (let w1 = othersTurn w
        in case Acknowledge FS (ord (sh_co w1)) i key payload (sh_co w1) of (c, e) \<Rightarrow> (w1\<lparr>sh_co := c\<rparr>, e)),
      cc_Fail = \<lambda>i w. (let w1 = othersTurn w in w1\<lparr>sh_co := Fail i key (sh_co w1)\<rparr>),
      cc_Finished = \<lambda>payload w. (let w1 = othersTurn w
        in case Finished FS (ords (sh_co w1)) (idOrd (sh_co w1)) key payload (sh_co w1) of (c, e) \<Rightarrow> (w1\<lparr>sh_co := c\<rparr>, e)),
      cc_CompletedAmong = \<lambda>ids w. (let w1 = othersTurn w in (w1, CompletedAmong ids (sh_co w1))),
      cc_AwaitCompletedAmong = \<lambda>ids w. awaitShared ids (sh_co w) (sh_others w)\<rparr>"

definition completedIn :: "'d shared \<Rightarrow> int64 set" where
  "completedIn w = {i. Completed i (sh_co w)}"

text \<open>What the others do is what calls of the coordinator do.\<close>

definition goodShared :: "'d shared \<Rightarrow> bool" where
  "goodShared w \<longleftrightarrow> (\<forall>o1 \<in> set (sh_others w). \<forall>c. evolves c (snd o1 c))"

lemma evolves_completed: "evolves c c' \<Longrightarrow> Completed i c \<Longrightarrow> Completed i c'"
  by (auto simp: evolves_def fate_def)

lemma othersTurn_good:
  assumes "goodShared w"
  shows "goodShared (othersTurn w)" "evolves (sh_co w) (sh_co (othersTurn w))"
  using assms by (auto simp: goodShared_def othersTurn_def split: list.splits)

lemma awaitShared_good:
  "awaitShared ids c os = Some (w, r) \<Longrightarrow> \<forall>o1 \<in> set os. \<forall>c. evolves c (snd o1 c) \<Longrightarrow>
    goodShared w \<and> evolves c (sh_co w) \<and> set r = set ids \<inter> completedIn w"
proof (induction os arbitrary: c)
  case Nil
  then show ?case by (auto simp: goodShared_def completedIn_def CompletedAmong_def split: if_splits)
next
  case (Cons o1 os)
  obtain b f where o1: "o1 = (b, f)" by fastforce
  consider "settled ids c" | "\<not> settled ids c" "b" | "\<not> settled ids c" "\<not> b" by blast
  then show ?case
  proof cases
    case 3
    then have a: "awaitShared ids (f c) os = Some (w, r)" using Cons.prems(1) o1 by simp
    have "evolves c (f c)" using Cons.prems(2) o1 by simp
    then show ?thesis using Cons.IH [OF a] Cons.prems(2) evolves_trans [of c "f c"] by simp
  qed (use Cons.prems o1 in \<open>auto simp: goodShared_def completedIn_def CompletedAmong_def\<close>)
qed

interpretation shc: checkpoint_service "sharedCalls FS ord ords idOrd key" completedIn goodShared
  for FS ord ords idOrd key
proof (unfold_locales, goal_cases)
  case (1 c i payload c' err)
  note t = othersTurn_good [OF 1(1)]
  obtain d where a: "Acknowledge FS (ord (sh_co (othersTurn c))) i key payload (sh_co (othersTurn c)) = (d, err)"
    "c' = (othersTurn c)\<lparr>sh_co := d\<rparr>" using 1(2) by (auto simp: sharedCalls_def Let_def split: prod.splits)
  have "evolves (sh_co c) d" using evolves_trans [OF t(2) Acknowledge_evolves [OF a(1)]] .
  then show ?case using t(1) a(2) evolves_completed by (auto simp: goodShared_def completedIn_def)
next
  case (2 c i)
  note t = othersTurn_good [OF 2]
  have "evolves (sh_co c) (Fail i key (sh_co (othersTurn c)))" using evolves_trans [OF t(2) Fail_evolves] .
  then show ?case using t(1) evolves_completed by (auto simp: sharedCalls_def Let_def goodShared_def completedIn_def)
next
  case (3 c ids c' r)
  note t = othersTurn_good [OF 3(1)]
  show ?case using 3(2) t evolves_completed [OF t(2)] by (auto simp: sharedCalls_def Let_def completedIn_def CompletedAmong_def)
next
  case (4 c ids c' r)
  have "awaitShared ids (sh_co c) (sh_others c) = Some (c', r)" using 4(2) by (simp add: sharedCalls_def)
  from awaitShared_good [OF this] 4(1) show ?case
    using evolves_completed unfolding goodShared_def completedIn_def by blast
qed

end
