(* ===== verification/Sink_Format.thy ===== *)
theory Sink_Format
  imports Checkpoint_Storage
begin

text \<open>
  The record format and the file names of the transactional sink
  (\<open>pkg/sinks/transactional.go\<close>).
\<close>

section \<open>Records\<close>

definition recordCRCBytes :: nat where "recordCRCBytes = 4"

definition recordBody :: "Record \<Rightarrow> bytes" where
  "recordBody rec =
     be_put 8 (EventTime rec) @ be_put 4 (word_of_nat (length (Key rec)) :: uint32) @ Key rec @
     be_put 4 (word_of_nat (length (Value rec)) :: uint32) @ Value rec"

definition encodeRecord :: "Record \<Rightarrow> bytes" where
  "encodeRecord rec = recordBody rec @ be_put 4 (ChecksumIEEE (recordBody rec))"

text \<open>The lengths are \<open>uint32\<close> values converted to a 64-bit \<open>int\<close>, so they are never negative.\<close>

definition decodeRecord :: "bytes \<Rightarrow> (Record \<times> nat) result" where
  "decodeRecord raw =
     (if length raw < 8 + 4 + 4 + recordCRCBytes then Inl (SinkErr ErrCorruptRecord)
      else let eventTime = be_get 8 raw; keyLen = unat (be_get 4 (drop 8 raw) :: uint32)
           in if length raw < 12 + keyLen + 4 + recordCRCBytes then Inl (SinkErr ErrCorruptRecord)
              else let key = take keyLen (drop 12 raw);
                       valueLen = unat (be_get 4 (drop (12 + keyLen) raw) :: uint32);
                       start = 12 + keyLen + 4
                   in if length raw < start + valueLen + recordCRCBytes then Inl (SinkErr ErrCorruptRecord)
                      else let val = take valueLen (drop start raw);
                               n = start + valueLen + recordCRCBytes;
                               body = take (n - recordCRCBytes) raw
                           in if ChecksumIEEE body \<noteq> be_get 4 (drop (n - recordCRCBytes) raw)
                              then Inl (SinkErr ErrCorruptRecord)
                              else Inr (\<lparr>Key = key, Value = val, EventTime = eventTime\<rparr>, n))"

lemma decodeRecord_progress: "decodeRecord raw = Inr (rec, n) \<Longrightarrow> 0 < n \<and> n \<le> length raw"
  by (auto simp: decodeRecord_def Let_def recordCRCBytes_def split: if_splits)

function decodeRecords :: "bytes \<Rightarrow> Record list result" where
  "decodeRecords raw =
     (if raw = [] then Inr []
      else case decodeRecord raw of
          Inl e \<Rightarrow> Inl e
        | Inr (rec, n) \<Rightarrow> (case decodeRecords (drop n raw) of Inl e \<Rightarrow> Inl e | Inr out \<Rightarrow> Inr (rec # out)))"
  by pat_completeness auto
termination
  by (relation "measure length") (auto dest: decodeRecord_progress)

declare decodeRecords.simps [simp del]

definition fitsRecord :: "Record \<Rightarrow> bool" where
  "fitsRecord rec \<longleftrightarrow> length (Key rec) < 2 ^ 32 \<and> length (Value rec) < 2 ^ 32"

lemma decodeRecord_encode:
  assumes "fitsRecord rec"
  shows "decodeRecord (encodeRecord rec @ bs) = Inr (rec, length (encodeRecord rec))"
proof -
  let ?k = "length (Key rec)" and ?v = "length (Value rec)" and ?c = "be_put 4 (ChecksumIEEE (recordBody rec))"
  have k: "unat (word_of_nat ?k :: uint32) = ?k" and v: "unat (word_of_nat ?v :: uint32) = ?v"
    using assms by (simp_all add: fitsRecord_def unat_of_nat take_bit_nat_eq_self)
  let ?raw = "encodeRecord rec @ bs"
  have body: "length (recordBody rec) = 16 + ?k + ?v" by (simp add: recordBody_def)
  have len: "length ?raw = 20 + ?k + ?v + length bs" by (simp add: encodeRecord_def body)
  have parts: "be_get 8 ?raw = EventTime rec" "unat (be_get 4 (drop 8 ?raw) :: uint32) = ?k"
    "take ?k (drop 12 ?raw) = Key rec" "unat (be_get 4 (drop (12 + ?k) ?raw) :: uint32) = ?v"
    "take ?v (drop (12 + ?k + 4) ?raw) = Value rec" "take (16 + ?k + ?v) ?raw = recordBody rec"
    "be_get 4 (drop (16 + ?k + ?v) ?raw) = ChecksumIEEE (recordBody rec)"
    using k v body by (simp_all add: encodeRecord_def recordBody_def)
  show ?thesis
    unfolding decodeRecord_def recordCRCBytes_def Let_def parts(1-5) len
    using parts(6,7) by (simp add: encodeRecord_def body add.assoc)
qed

lemma encodeRecord_not_Nil [simp]: "encodeRecord rec \<noteq> []"
proof -
  have "length (encodeRecord rec) \<noteq> 0" by (simp add: encodeRecord_def)
  then show ?thesis by auto
qed

definition encodeRecords :: "Record list \<Rightarrow> bytes" where
  "encodeRecords rs = concat (map encodeRecord rs)"

lemma decode_encode_records: "list_all fitsRecord rs \<Longrightarrow> decodeRecords (encodeRecords rs) = Inr rs"
proof (induction rs)
  case Nil
  then show ?case by (subst decodeRecords.simps) (simp add: encodeRecords_def)
next
  case (Cons r rs)
  then have "decodeRecords (encodeRecords rs) = Inr rs" by simp
  then show ?case using Cons.prems
    by (subst decodeRecords.simps) (simp add: encodeRecords_def decodeRecord_encode)
qed

section \<open>Names\<close>

definition stagingDir :: bytes where "stagingDir = map of_char ''staging''"
definition committedDir :: bytes where "committedDir = map of_char ''committed''"
definition stagingSuffix :: bytes where "stagingSuffix = map of_char ''.tmp''"
definition commitSuffix :: bytes where "commitSuffix = map of_char ''.out''"

text \<open>The names of one subtask: its vertex and its index.\<close>

definition sink_fileName :: "SubtaskKey \<Rightarrow> int64 \<Rightarrow> bytes \<Rightarrow> bytes" where
  "sink_fileName t checkpointID suffix =
     sk_VertexID t @ [45] @ FormatInt (sk_Index t) @ [45] @ FormatInt checkpointID @ suffix"

definition stagingPath :: "SubtaskKey \<Rightarrow> int64 \<Rightarrow> path" where
  "stagingPath t checkpointID = (stagingDir, sink_fileName t checkpointID stagingSuffix)"

definition committedPath :: "SubtaskKey \<Rightarrow> int64 \<Rightarrow> path" where
  "committedPath t checkpointID = (committedDir, sink_fileName t checkpointID commitSuffix)"

definition CutSuffix :: "bytes \<Rightarrow> bytes \<Rightarrow> bytes option" where
  "CutSuffix name suffix =
     (let n = length name - length suffix
      in if length suffix \<le> length name \<and> drop n name = suffix then Some (take n name) else None)"

text \<open>\<open>strings.LastIndexByte(s, c)\<close> together with the two parts around it.\<close>

fun cutLast :: "byte \<Rightarrow> bytes \<Rightarrow> (bytes \<times> bytes) option" where
  "cutLast c [] = None"
| "cutLast c (x # xs) =
     (case cutLast c xs of
        Some (a, b) \<Rightarrow> Some (x # a, b)
      | None \<Rightarrow> if x = c then Some ([], xs) else None)"

definition checkpointOf :: "SubtaskKey \<Rightarrow> bytes \<Rightarrow> int64 option" where
  "checkpointOf t name =
     (case CutSuffix name stagingSuffix of
        None \<Rightarrow> None
      | Some rest \<Rightarrow>
          (case cutLast 45 rest of
             None \<Rightarrow> None
           | Some (pre, post) \<Rightarrow>
               (case ParseInt post of
                  None \<Rightarrow> None
                | Some i \<Rightarrow> if pre \<noteq> sk_VertexID t @ [45] @ FormatInt (sk_Index t) then None else Some i)))"

definition sink_checkVertexID :: "bytes \<Rightarrow> go_error option" where
  "sink_checkVertexID i =
     (if i = [] then Some (CheckpointErr errBadVertexID)
      else if i = [46] \<or> i = [46, 46] then Some (CheckpointErr errBadVertexID)
      else if List.member i 47 then Some (CheckpointErr errBadVertexID)
      else None)"

lemma CutSuffix_append [simp]: "CutSuffix (a @ s) s = Some a"
  by (simp add: CutSuffix_def)

lemma CutSuffix_Some: "CutSuffix name s = Some a \<Longrightarrow> name = a @ s"
  by (auto simp: CutSuffix_def Let_def split: if_splits) (metis append_take_drop_id)

lemma cutLast_None: "c \<notin> set xs \<Longrightarrow> cutLast c xs = None"
  by (induction xs) auto

lemma cutLast_append: "c \<notin> set b \<Longrightarrow> cutLast c (a @ c # b) = Some (a, b)"
  by (induction a) (auto simp: cutLast_None)

lemma cutLast_Some: "cutLast c xs = Some (a, b) \<Longrightarrow> xs = a @ c # b"
  by (induction xs arbitrary: a) (auto split: option.splits if_splits)

text \<open>Only checkpoint identifiers that are not negative occur in names.\<close>

lemma checkpointOf_fileName:
  assumes "0 \<le> sint i"
  shows "checkpointOf t (sink_fileName t i stagingSuffix) = Some i"
proof -
  let ?p = "sk_VertexID t @ [45] @ FormatInt (sk_Index t)"
  have "sink_fileName t i stagingSuffix = (?p @ 45 # FormatInt i) @ stagingSuffix"
    by (simp add: sink_fileName_def)
  then have c: "CutSuffix (sink_fileName t i stagingSuffix) stagingSuffix = Some (?p @ 45 # FormatInt i)"
    by (simp only: CutSuffix_append)
  have l: "cutLast 45 (?p @ 45 # FormatInt i) = Some (?p, FormatInt i)"
    using assms by (intro cutLast_append) (simp add: FormatInt_nonneg no_dash)
  show ?thesis unfolding checkpointOf_def c option.case l prod.case by (simp add: ParseInt_FormatInt)
qed

end
