(* ===== verification/Transactional.thy ===== *)
theory Transactional
  imports Sink_Format "HOL-Library.AList"
begin

text \<open>
  The transactional sink of \<open>pkg/sinks/transactional.go\<close> and what it leaves in its directories
  over any number of runs that are killed anywhere. The operating system's calls act on a store of files with
  the behaviour the \<open>os\<close> package documents; a script says how each call turns out: it may fail,
  a write after a part of its data, and at \<open>Down\<close> the process is killed, so that nothing from
  there on has an effect until the next run.
\<close>

section \<open>The operating system\<close>

definition ErrNotExist :: go_error where "ErrNotExist = IoError 2"

text \<open>A call fails with \<open>ErrNotExist\<close> only where the file does not exist.\<close>

definition callError :: "go_error \<Rightarrow> go_error" where
  "callError e = (case e of IoError n \<Rightarrow> if n = 2 then IoError 5 else IoError n | _ \<Rightarrow> IoError 5)"

record store =
  sto_files :: "(path \<times> bytes) list"
  sto_dirs :: "bytes list"
  sto_script :: "outcome list"
  sto_down :: bool

definition fileAt :: "store \<Rightarrow> path \<Rightarrow> bytes option" where
  "fileAt s p = map_of (sto_files s) p"

definition os_tick :: "store \<Rightarrow> store \<times> outcome" where
  "os_tick s = (if sto_down s then (s, Down)
     else case sto_script s of
         [] \<Rightarrow> (s, Goes)
       | t # ts \<Rightarrow> (s\<lparr>sto_script := ts, sto_down := (t = Down)\<rparr>, t))"

definition os_do :: "(store \<Rightarrow> store \<times> go_error option) \<Rightarrow> store \<Rightarrow> store \<times> go_error option" where
  "os_do f s = (case os_tick s of
       (s1, Goes) \<Rightarrow> f s1
     | (s1, Fails e n) \<Rightarrow> (s1, Some (callError e))
     | (s1, Down) \<Rightarrow> (s1, Some (IoError 0)))"

definition putFile :: "path \<Rightarrow> bytes \<Rightarrow> store \<Rightarrow> store" where
  "putFile p b s = s\<lparr>sto_files := AList.update p b (sto_files s)\<rparr>"

definition dropFile :: "path \<Rightarrow> store \<Rightarrow> store" where
  "dropFile p s = s\<lparr>sto_files := AList.delete p (sto_files s)\<rparr>"

definition os_MkdirAll :: "bytes \<Rightarrow> store \<Rightarrow> store \<times> go_error option" where
  "os_MkdirAll dir = os_do (\<lambda>s. (s\<lparr>sto_dirs := List.insert dir (sto_dirs s)\<rparr>, None))"

text \<open>\<open>OpenFile\<close> with \<open>O_WRONLY|O_CREATE|O_TRUNC\<close>.\<close>

definition os_OpenFile :: "path \<Rightarrow> store \<Rightarrow> store \<times> go_error option" where
  "os_OpenFile p = os_do (\<lambda>s. if fst p \<in> set (sto_dirs s) then (putFile p [] s, None) else (s, Some ErrNotExist))"

definition appendFile :: "path \<Rightarrow> bytes \<Rightarrow> store \<Rightarrow> store" where
  "appendFile p data s = putFile p ((case fileAt s p of None \<Rightarrow> [] | Some b \<Rightarrow> b) @ data) s"

definition os_Write :: "path \<Rightarrow> bytes \<Rightarrow> store \<Rightarrow> store \<times> go_error option" where
  "os_Write p data s = (case os_tick s of
       (s1, Goes) \<Rightarrow> (appendFile p data s1, None)
     | (s1, Fails e n) \<Rightarrow> (appendFile p (take n data) s1, Some (callError e))
     | (s1, Down) \<Rightarrow> (s1, Some (IoError 0)))"

definition os_Sync :: "store \<Rightarrow> store \<times> go_error option" where
  "os_Sync = os_do (\<lambda>s. (s, None))"

definition os_Close :: "store \<Rightarrow> store \<times> go_error option" where
  "os_Close = os_do (\<lambda>s. (s, None))"

definition os_Rename :: "path \<Rightarrow> path \<Rightarrow> store \<Rightarrow> store \<times> go_error option" where
  "os_Rename p q = os_do (\<lambda>s. case fileAt s p of
       None \<Rightarrow> (s, Some ErrNotExist)
     | Some b \<Rightarrow> (dropFile p (putFile q b s), None))"

definition os_Remove :: "path \<Rightarrow> store \<Rightarrow> store \<times> go_error option" where
  "os_Remove p = os_do (\<lambda>s. case fileAt s p of None \<Rightarrow> (s, Some ErrNotExist) | Some _ \<Rightarrow> (dropFile p s, None))"

definition os_Stat :: "path \<Rightarrow> store \<Rightarrow> store \<times> go_error option" where
  "os_Stat p = os_do (\<lambda>s. case fileAt s p of None \<Rightarrow> (s, Some ErrNotExist) | Some _ \<Rightarrow> (s, None))"

text \<open>\<open>ReadDir\<close> lists the names in order.\<close>

definition os_ReadDir :: "bytes \<Rightarrow> store \<Rightarrow> store \<times> bytes list result" where
  "os_ReadDir dir s = (case os_tick s of
       (s1, Goes) \<Rightarrow>
         (s1, if dir \<in> set (sto_dirs s1)
              then Inr (sort (map snd (filter (\<lambda>p. fst p = dir) (map fst (sto_files s1))))) else Inl ErrNotExist)
     | (s1, Fails e n) \<Rightarrow> (s1, Inl (callError e))
     | (s1, Down) \<Rightarrow> (s1, Inl (IoError 0)))"

text \<open>A \<open>bufio.Writer\<close> of the default size over an open file, which is known by its name: the
  sink neither renames nor removes a file it has open. After an error the writer returns it
  for ever.\<close>

record bufio =
  bw_file :: path
  bw_buf :: bytes
  bw_err :: "go_error option"

definition bufioSize :: nat where "bufioSize = 4096"

definition bw_Flush :: "bufio \<Rightarrow> store \<Rightarrow> (bufio \<times> store) \<times> go_error option" where
  "bw_Flush b s =
     (if bw_err b \<noteq> None then ((b, s), bw_err b)
      else if bw_buf b = [] then ((b, s), None)
      else case os_Write (bw_file b) (bw_buf b) s of
          (s', Some e) \<Rightarrow> ((b\<lparr>bw_err := Some e\<rparr>, s'), Some e)
        | (s', None) \<Rightarrow> ((b\<lparr>bw_buf := []\<rparr>, s'), None))"

definition bw_direct :: "bufio \<Rightarrow> bytes \<Rightarrow> store \<Rightarrow> (bufio \<times> store) \<times> go_error option" where
  "bw_direct b p s =
     (case os_Write (bw_file b) p s of
        (s', Some e) \<Rightarrow> ((b\<lparr>bw_err := Some e\<rparr>, s'), Some e)
      | (s', None) \<Rightarrow> ((b, s'), None))"

definition bw_Write :: "bufio \<Rightarrow> bytes \<Rightarrow> store \<Rightarrow> (bufio \<times> store) \<times> go_error option" where
  "bw_Write b p s =
     (if bw_err b \<noteq> None then ((b, s), bw_err b)
      else if length p \<le> bufioSize - length (bw_buf b) then ((b\<lparr>bw_buf := bw_buf b @ p\<rparr>, s), None)
      else if bw_buf b = [] then bw_direct b p s
      else let n = bufioSize - length (bw_buf b)
           in case bw_Flush (b\<lparr>bw_buf := bw_buf b @ take n p\<rparr>) s of
               ((b1, s1), Some e) \<Rightarrow> ((b1, s1), Some e)
             | ((b1, s1), None) \<Rightarrow>
                 if length (drop n p) \<le> bufioSize then ((b1\<lparr>bw_buf := drop n p\<rparr>, s1), None)
                 else bw_direct b1 (drop n p) s1)"

section \<open>The sink\<close>

record Transactional =
  tx_key :: SubtaskKey
  tx_epoch :: int64
  tx_firstEpoch :: int64
  tx_written :: "int64 list"
  tx_opened :: bool
  tx_buf :: "bufio option"

definition NewTransactional :: Transactional where
  "NewTransactional = \<lparr>tx_key = \<lparr>sk_VertexID = [], sk_Index = 0\<rparr>, tx_epoch = 1, tx_firstEpoch = 1, tx_written = [],
     tx_opened = False, tx_buf = None\<rparr>"

text \<open>\<open>os.Open\<close> of a directory. The root, the empty name here, exists once the sink is open.\<close>

definition os_OpenDir :: "bytes \<Rightarrow> store \<Rightarrow> store \<times> go_error option" where
  "os_OpenDir dir = os_do (\<lambda>s. (s, if dir = [] \<or> dir \<in> set (sto_dirs s) then None else Some ErrNotExist))"

definition syncDir :: "bytes \<Rightarrow> store \<Rightarrow> store \<times> go_error option" where
  "syncDir dir s =
     (case os_OpenDir dir s of
        (s1, Some e) \<Rightarrow> (s1, Some e)
      | (s1, None) \<Rightarrow>
          (case os_Sync s1 of
             (s2, Some e) \<Rightarrow> (fst (os_Close s2), Some e)
           | (s2, None) \<Rightarrow> os_Close s2))"

definition sink_Open :: "SubtaskKey \<Rightarrow> Transactional \<Rightarrow> store \<Rightarrow> (Transactional \<times> store) \<times> go_error option" where
  "sink_Open key t s =
     (if tx_opened t then ((t, s), Some (SinkErr errOpenedTwice))
      else let t1 = t\<lparr>tx_opened := True, tx_key := key\<rparr>
           in case sink_checkVertexID (sk_VertexID key) of
               Some e \<Rightarrow> ((t1, s), Some e)
             | None \<Rightarrow>
                 (case os_MkdirAll stagingDir s of
                    (s1, Some e) \<Rightarrow> ((t1, s1), Some e)
                  | (s1, None) \<Rightarrow>
                      (case os_MkdirAll committedDir s1 of
                         (s2, Some e) \<Rightarrow> ((t1, s2), Some e)
                       | (s2, None) \<Rightarrow> (case syncDir [] s2 of (s3, e) \<Rightarrow> ((t1, s3), e)))))"

definition openEpoch :: "Transactional \<Rightarrow> store \<Rightarrow> (Transactional \<times> store) \<times> go_error option" where
  "openEpoch t s =
     (let p = stagingPath (tx_key t) (tx_epoch t)
      in case os_OpenFile p s of
           (s1, Some e) \<Rightarrow> ((t, s1), Some e)
         | (s1, None) \<Rightarrow>
             ((t\<lparr>tx_buf := Some \<lparr>bw_file = p, bw_buf = [], bw_err = None\<rparr>,
                 tx_written := List.insert (tx_epoch t) (tx_written t)\<rparr>, s1), None))"

text \<open>The write of one encoded record into the buffered writer.\<close>

definition writeRecord :: "Record \<Rightarrow> Transactional \<Rightarrow> store \<Rightarrow> (Transactional \<times> store) \<times> go_error option" where
  "writeRecord rec t s =
     (case tx_buf t of
        None \<Rightarrow> ((t, s), None)
      | Some b \<Rightarrow> (case bw_Write b (encodeRecord rec) s of ((b', s'), e) \<Rightarrow> ((t\<lparr>tx_buf := Some b'\<rparr>, s'), e)))"

definition sink_Write :: "Record \<Rightarrow> Transactional \<Rightarrow> store \<Rightarrow> (Transactional \<times> store) \<times> go_error option" where
  "sink_Write rec t s =
     (if tx_buf t = None
      then case openEpoch t s of
          ((t1, s1), Some e) \<Rightarrow> ((t1, s1), Some e)
        | ((t1, s1), None) \<Rightarrow> writeRecord rec t1 s1
      else writeRecord rec t s)"

definition closeEpoch :: "Transactional \<Rightarrow> store \<Rightarrow> (Transactional \<times> store) \<times> go_error option" where
  "closeEpoch t s =
     (case tx_buf t of
        None \<Rightarrow> ((t, s), None)
      | Some b \<Rightarrow>
          (let t1 = t\<lparr>tx_buf := None\<rparr>
           in case bw_Flush b s of
                ((b1, s1), Some e) \<Rightarrow> ((t1, fst (os_Close s1)), Some e)
              | ((b1, s1), None) \<Rightarrow>
                  (case os_Sync s1 of
                     (s2, Some e) \<Rightarrow> ((t1, fst (os_Close s2)), Some e)
                   | (s2, None) \<Rightarrow>
                       (case os_Close s2 of
                          (s3, Some e) \<Rightarrow> ((t1, s3), Some e)
                        | (s3, None) \<Rightarrow> (case syncDir stagingDir s3 of (s4, e) \<Rightarrow> ((t1, s4), e))))))"

text \<open>\<open>Snapshot\<close> into a buffer, to which a write never fails; the payload is its contents.\<close>

definition sink_Snapshot :: "Transactional \<Rightarrow> store \<Rightarrow> (Transactional \<times> store) \<times> bytes result" where
  "sink_Snapshot t s =
     (case closeEpoch t s of
        ((t1, s1), Some e) \<Rightarrow> ((t1, s1), Inl e)
      | ((t1, s1), None) \<Rightarrow> ((t1\<lparr>tx_epoch := tx_epoch t1 + 1\<rparr>, s1), Inr (be_put 8 (tx_epoch t1))))"

definition NotifyCheckpointComplete :: "int64 \<Rightarrow> Transactional \<Rightarrow> store \<Rightarrow> store \<times> go_error option" where
  "NotifyCheckpointComplete i t s =
     (case os_Rename (stagingPath (tx_key t) i) (committedPath (tx_key t) i) s of
        (s1, None) \<Rightarrow> syncDir committedDir s1
      | (s1, Some e) \<Rightarrow>
          if e \<noteq> ErrNotExist then (s1, Some e)
          else case os_Stat (committedPath (tx_key t) i) s1 of
              (s2, None) \<Rightarrow> (s2, None)
            | (s2, Some _) \<Rightarrow>
                if tx_firstEpoch t \<le>s i \<and> i <s tx_epoch t \<and> i \<in> set (tx_written t)
                then (s2, Some (SinkErr ErrStagedFileMissing)) else (s2, None))"

fun settleEntries ::
  "SubtaskKey \<Rightarrow> int64 \<Rightarrow> bytes list \<Rightarrow> bool \<Rightarrow> bool \<Rightarrow> store \<Rightarrow> (store \<times> bool \<times> bool) \<times> go_error option" where
  "settleEntries t k [] committed discarded s = ((s, committed, discarded), None)"
| "settleEntries t k (name # es) committed discarded s =
     (case checkpointOf t name of
        None \<Rightarrow> settleEntries t k es committed discarded s
      | Some i \<Rightarrow>
          if k <s i
          then case os_Remove (stagingDir, name) s of
              (s1, e) \<Rightarrow> if e \<noteq> None \<and> e \<noteq> Some ErrNotExist then ((s1, committed, discarded), e)
                         else settleEntries t k es committed True s1
          else case os_Rename (stagingDir, name) (committedPath t i) s of
              (s1, e) \<Rightarrow> if e \<noteq> None \<and> e \<noteq> Some ErrNotExist then ((s1, committed, discarded), e)
                         else settleEntries t k es (committed \<or> e = None) discarded s1)"

definition settleStaged :: "SubtaskKey \<Rightarrow> int64 \<Rightarrow> store \<Rightarrow> store \<times> go_error option" where
  "settleStaged t k s =
     (case os_ReadDir stagingDir s of
        (s1, Inl e) \<Rightarrow> (s1, if e = ErrNotExist then None else Some e)
      | (s1, Inr es) \<Rightarrow>
          (case settleEntries t k es False False s1 of
             ((s2, committed, discarded), Some e) \<Rightarrow> (s2, Some e)
           | ((s2, committed, discarded), None) \<Rightarrow>
               (case (if committed then syncDir committedDir s2 else (s2, None)) of
                  (s3, Some e) \<Rightarrow> (s3, Some e)
                | (s3, None) \<Rightarrow> if committed \<or> discarded then syncDir stagingDir s3 else (s3, None))))"

definition sink_Restore :: "bytes \<Rightarrow> Transactional \<Rightarrow> store \<Rightarrow> (Transactional \<times> store) \<times> go_error option" where
  "sink_Restore payload t s =
     (if length payload \<noteq> 0 \<and> length payload \<noteq> 8 then ((t, s), Some (SinkErr errRestorePayload))
      else let k = (if payload = [] then 0 else be_get 8 payload :: int64)
           in if k <s 0 then ((t, s), Some (SinkErr errRestorePayload))
              else case settleStaged (tx_key t) k s of
                  (s1, Some e) \<Rightarrow> ((t, s1), Some e)
                | (s1, None) \<Rightarrow>
                    ((t\<lparr>tx_epoch := k + 1, tx_firstEpoch := k + 1, tx_written := []\<rparr>, s1), None))"

text \<open>The loop from \<open>firstEpoch\<close> to \<open>epoch\<close>, as many turns as there are epochs.\<close>

fun commitEpochs :: "nat \<Rightarrow> SubtaskKey \<Rightarrow> int64 \<Rightarrow> bool \<Rightarrow> store \<Rightarrow> (store \<times> bool) \<times> go_error option" where
  "commitEpochs 0 t i committed s = ((s, committed), None)"
| "commitEpochs (Suc n) t i committed s =
     (case os_Rename (stagingPath t i) (committedPath t i) s of
        (s1, None) \<Rightarrow> commitEpochs n t (i + 1) True s1
      | (s1, Some e) \<Rightarrow> if e = ErrNotExist then commitEpochs n t (i + 1) committed s1 else ((s1, committed), Some e))"

definition CommitFinalEpoch :: "Transactional \<Rightarrow> store \<Rightarrow> (Transactional \<times> store) \<times> go_error option" where
  "CommitFinalEpoch t s =
     (case closeEpoch t s of
        ((t1, s1), Some e) \<Rightarrow> ((t1, s1), Some e)
      | ((t1, s1), None) \<Rightarrow>
          (case commitEpochs (nat (sint (tx_epoch t1) - sint (tx_firstEpoch t1) + 1)) (tx_key t1) (tx_firstEpoch t1) False s1 of
             ((s2, committed), Some e) \<Rightarrow> ((t1, s2), Some e)
           | ((s2, committed), None) \<Rightarrow>
               if \<not> committed then ((t1, s2), None)
               else (case syncDir committedDir s2 of (s3, e) \<Rightarrow> ((t1, s3), e))))"

definition sink_Close :: "Transactional \<Rightarrow> store \<Rightarrow> (Transactional \<times> store) \<times> go_error option" where
  "sink_Close t s = (if tx_buf t = None then ((t, s), None) else closeEpoch t s)"

definition Epoch :: "Transactional \<Rightarrow> int64" where
  "Epoch t = tx_epoch t"

section \<open>Reading the output\<close>

definition HasSuffix :: "bytes \<Rightarrow> bytes \<Rightarrow> bool" where
  "HasSuffix name suffix \<longleftrightarrow> CutSuffix name suffix \<noteq> None"

fun readFiles :: "store \<Rightarrow> bytes list \<Rightarrow> Record list result" where
  "readFiles s [] = Inr []"
| "readFiles s (name # es) =
     (if \<not> HasSuffix name commitSuffix then readFiles s es
      else case fileAt s (committedDir, name) of
          None \<Rightarrow> Inl ErrNotExist
        | Some raw \<Rightarrow>
            (case decodeRecords raw of
               Inl e \<Rightarrow> Inl e
             | Inr recs \<Rightarrow> (case readFiles s es of Inl e \<Rightarrow> Inl e | Inr out \<Rightarrow> Inr (recs @ out))))"

definition ReadCommitted :: "store \<Rightarrow> Record list result" where
  "ReadCommitted s =
     (case os_ReadDir committedDir s of
        (_, Inl e) \<Rightarrow> if e = ErrNotExist then Inr [] else Inl e
      | (_, Inr es) \<Rightarrow> readFiles s es)"

definition namesUnder :: "bytes \<Rightarrow> bytes \<Rightarrow> store \<Rightarrow> bytes list result" where
  "namesUnder dir suffix s =
     (case os_ReadDir dir s of
        (_, Inl e) \<Rightarrow> if e = ErrNotExist then Inr [] else Inl e
      | (_, Inr es) \<Rightarrow> Inr (filter (\<lambda>n. HasSuffix n suffix) es))"

definition CommittedFiles :: "store \<Rightarrow> bytes list result" where
  "CommittedFiles = namesUnder committedDir commitSuffix"

definition StagingFiles :: "store \<Rightarrow> bytes list result" where
  "StagingFiles = namesUnder stagingDir stagingSuffix"

section \<open>The calls, by their effect on the files\<close>

lemma fileAt_simps [simp]:
  "fileAt (putFile p b s) = (fileAt s)(p \<mapsto> b)" "fileAt (dropFile p s) = (fileAt s)(p := None)"
  "fileAt (s\<lparr>sto_dirs := x\<rparr>) = fileAt s"
  "sto_dirs (putFile p b s) = sto_dirs s" "sto_dirs (dropFile p s) = sto_dirs s"
  by (simp_all add: fileAt_def [abs_def] putFile_def dropFile_def update_conv' delete_conv' fun_eq_iff)

text \<open>The files and the directories are as before.\<close>

definition sameFiles :: "store \<Rightarrow> store \<Rightarrow> bool" where
  "sameFiles s s' \<longleftrightarrow> sto_files s' = sto_files s \<and> sto_dirs s' = sto_dirs s"

lemma sameFiles_refl [simp]: "sameFiles s s"
  by (simp add: sameFiles_def)

lemma sameFiles_trans: "sameFiles a b \<Longrightarrow> sameFiles b c \<Longrightarrow> sameFiles a c"
  by (simp add: sameFiles_def)

lemma sameFiles_fileAt: "sameFiles s s' \<Longrightarrow> fileAt s' = fileAt s"
  by (simp add: sameFiles_def fileAt_def [abs_def] fun_eq_iff)

lemma os_tick_same: "os_tick s = (s', t) \<Longrightarrow> sameFiles s s'"
  by (auto simp: os_tick_def sameFiles_def split: if_splits list.splits)

lemma os_do_cases:
  assumes "os_do f s = (s', err)"
  obtains (goes) s1 where "sameFiles s s1" "f s1 = (s', err)"
  | (fails) "sameFiles s s'" "err \<noteq> None" "err \<noteq> Some ErrNotExist"
  using assms os_tick_same [of s]
  by (auto simp: os_do_def callError_def ErrNotExist_def split: prod.splits outcome.splits if_splits go_error.splits)

lemma os_pure:
  assumes "os_do (\<lambda>s. (s, r s)) s = (s', err)"
  shows "sameFiles s s'"
  using assms by (cases rule: os_do_cases) auto

lemma os_Sync_same: "os_Sync s = (s', err) \<Longrightarrow> sameFiles s s'"
  unfolding os_Sync_def by (rule os_pure)

lemma os_Close_same: "os_Close s = (s', err) \<Longrightarrow> sameFiles s s'"
  unfolding os_Close_def by (rule os_pure)

lemma os_OpenDir_same: "os_OpenDir dir s = (s', err) \<Longrightarrow> sameFiles s s'"
  unfolding os_OpenDir_def by (rule os_pure)

lemma syncDir_same:
  assumes "syncDir dir s = (s', err)"
  shows "sameFiles s s'"
proof -
  obtain s1 e1 where o1: "os_OpenDir dir s = (s1, e1)" by fastforce
  obtain s2 e2 where o2: "os_Sync s1 = (s2, e2)" by fastforce
  obtain s3 e3 where o3: "os_Close s2 = (s3, e3)" by fastforce
  note s = os_OpenDir_same [OF o1] os_Sync_same [OF o2] os_Close_same [OF o3]
  show ?thesis using assms o1 o2 o3 s sameFiles_trans [OF s(1,2)] sameFiles_trans [OF sameFiles_trans [OF s(1,2)] s(3)]
    by (auto simp: syncDir_def split: option.splits)
qed

lemma os_Rename_spec:
  assumes "os_Rename p q s = (s', err)" "p \<noteq> q"
  obtains (moved) b where "err = None" "fileAt s p = Some b" "fileAt s' = (fileAt s)(q \<mapsto> b, p := None)" "sto_dirs s' = sto_dirs s"
  | (absent) "err = Some ErrNotExist" "fileAt s p = None" "fileAt s' = fileAt s" "sto_dirs s' = sto_dirs s"
  | (failed) "err \<noteq> None" "err \<noteq> Some ErrNotExist" "fileAt s' = fileAt s" "sto_dirs s' = sto_dirs s"
  using assms(1) [unfolded os_Rename_def]
proof (cases rule: os_do_cases)
  case (goes s1)
  note f = sameFiles_fileAt [OF goes(1)]
  have d: "sto_dirs s1 = sto_dirs s" using goes(1) by (simp add: sameFiles_def)
  show thesis
  proof (cases "fileAt s p")
    case None
    then show thesis using goes(2) f d by (intro absent) auto
  next
    case (Some b)
    then show thesis using goes(2) f d by (intro moved [of b]) auto
  qed
next
  case fails
  then show thesis using sameFiles_fileAt [OF fails(1)] by (intro failed) (auto simp: sameFiles_def)
qed

lemma os_Remove_spec:
  assumes "os_Remove p s = (s', err)"
  obtains (removed) "err = None \<or> err = Some ErrNotExist" "fileAt s' = (fileAt s)(p := None)" "sto_dirs s' = sto_dirs s"
  | (failed) "err \<noteq> None" "err \<noteq> Some ErrNotExist" "fileAt s' = fileAt s" "sto_dirs s' = sto_dirs s"
  using assms [unfolded os_Remove_def]
proof (cases rule: os_do_cases)
  case (goes s1)
  then show thesis using sameFiles_fileAt [OF goes(1)]
    by (intro removed; cases "fileAt s p") (auto simp: sameFiles_def fun_upd_idem)
next
  case fails
  then show thesis using sameFiles_fileAt [OF fails(1)] by (intro failed) (auto simp: sameFiles_def)
qed

lemma os_OpenFile_spec:
  assumes "os_OpenFile p s = (s', err)"
  shows "sto_dirs s' = sto_dirs s \<and> fileAt s' = (if err = None then (fileAt s)(p \<mapsto> []) else fileAt s)"
  using assms [unfolded os_OpenFile_def]
proof (cases rule: os_do_cases)
  case (goes s1)
  then show ?thesis using sameFiles_fileAt [OF goes(1)] by (auto simp: sameFiles_def split: if_splits)
next
  case fails
  then show ?thesis using sameFiles_fileAt [OF fails(1)] by (auto simp: sameFiles_def)
qed

lemma os_Write_spec:
  assumes "os_Write p data s = (s', err)" "fileAt s p = Some b"
  shows "sto_dirs s' = sto_dirs s \<and> (\<exists>x. fileAt s' = (fileAt s)(p \<mapsto> b @ x) \<and> (err = None \<longrightarrow> x = data))"
proof -
  obtain s1 t where t: "os_tick s = (s1, t)" by fastforce
  note f = sameFiles_fileAt [OF os_tick_same [OF t]]
  have "sto_dirs s1 = sto_dirs s" using os_tick_same [OF t] by (simp add: sameFiles_def)
  moreover have "fileAt s = (fileAt s)(p \<mapsto> b @ [])" using assms(2) by (auto simp: fun_upd_idem)
  ultimately show ?thesis
    using assms t f by (cases t) (auto simp: os_Write_def appendFile_def intro: exI [of _ "[]"])
qed

lemma os_ReadDir_spec:
  assumes "os_ReadDir dir s = (s', r)"
  shows "sameFiles s s'" "r = Inr es \<Longrightarrow> set es = {n. fileAt s (dir, n) \<noteq> None}"
    "r = Inl ErrNotExist \<Longrightarrow> dir \<notin> set (sto_dirs s)"
proof -
  obtain s1 t where t: "os_tick s = (s1, t)" by fastforce
  note same = os_tick_same [OF t]
  have s': "s' = s1" using assms t by (auto simp: os_ReadDir_def split: outcome.splits)
  show "sameFiles s s'" using same s' by simp
  show "dir \<notin> set (sto_dirs s)" if "r = Inl ErrNotExist"
    using assms t that same
    by (auto simp: os_ReadDir_def callError_def ErrNotExist_def sameFiles_def split: outcome.splits if_splits go_error.splits)
  show "set es = {n. fileAt s (dir, n) \<noteq> None}" if "r = Inr es"
    using assms t that same
    by (auto simp: os_ReadDir_def fileAt_def sameFiles_def map_of_eq_None_iff image_iff split: outcome.splits if_splits; force)
qed

section \<open>The operations, by their effect on the files\<close>

text \<open>The writer has taken \<open>xs\<close>, some of it in the file and the rest in its buffer.\<close>

definition holds :: "bufio \<Rightarrow> (path \<Rightarrow> bytes option) \<Rightarrow> bytes \<Rightarrow> bool" where
  "holds b F xs \<longleftrightarrow> bw_err b = None \<and> (\<exists>c. F (bw_file b) = Some c \<and> c @ bw_buf b = xs)"

lemma bw_Flush_spec:
  assumes "holds b (fileAt s) xs" "bw_Flush b s = ((b', s'), err)"
  shows "bw_file b' = bw_file b" "sto_dirs s' = sto_dirs s" "\<exists>c. fileAt s' = (fileAt s)(bw_file b \<mapsto> c)"
    "err = None \<Longrightarrow> bw_err b' = None \<and> bw_buf b' = [] \<and> fileAt s' (bw_file b) = Some xs"
proof -
  obtain c where c: "fileAt s (bw_file b) = Some c" "c @ bw_buf b = xs" "bw_err b = None" using assms(1) by (auto simp: holds_def)
  have id: "fileAt s = (fileAt s)(bw_file b \<mapsto> c)" using c(1) by (simp add: fun_upd_idem)
  obtain s1 e where w: "os_Write (bw_file b) (bw_buf b) s = (s1, e)" by fastforce
  note w' = os_Write_spec [OF w c(1)]
  show "bw_file b' = bw_file b" "sto_dirs s' = sto_dirs s" "\<exists>c. fileAt s' = (fileAt s)(bw_file b \<mapsto> c)"
    "err = None \<Longrightarrow> bw_err b' = None \<and> bw_buf b' = [] \<and> fileAt s' (bw_file b) = Some xs"
    using assms(2) c w w' id by (auto simp: bw_Flush_def split: if_splits option.splits)
qed

lemma bw_direct_spec:
  assumes "holds b (fileAt s) xs" "bw_buf b = []" "bw_direct b p s = ((b', s'), err)"
  shows "bw_file b' = bw_file b" "sto_dirs s' = sto_dirs s" "\<exists>c. fileAt s' = (fileAt s)(bw_file b \<mapsto> c)"
    "err = None \<Longrightarrow> holds b' (fileAt s') (xs @ p)"
proof -
  have c: "fileAt s (bw_file b) = Some xs" "bw_err b = None" using assms(1,2) by (auto simp: holds_def)
  obtain s1 e where w: "os_Write (bw_file b) p s = (s1, e)" by fastforce
  note w' = os_Write_spec [OF w c(1)]
  show "bw_file b' = bw_file b" "sto_dirs s' = sto_dirs s" "\<exists>c. fileAt s' = (fileAt s)(bw_file b \<mapsto> c)"
    "err = None \<Longrightarrow> holds b' (fileAt s') (xs @ p)"
    using assms(2,3) c w w' by (auto simp: bw_direct_def holds_def split: option.splits)
qed

lemma bw_Write_spec:
  assumes h: "holds b (fileAt s) xs" and w: "bw_Write b p s = ((b', s'), err)"
  shows "bw_file b' = bw_file b \<and> sto_dirs s' = sto_dirs s \<and> (\<exists>c. fileAt s' = (fileAt s)(bw_file b \<mapsto> c)) \<and>
    (err = None \<longrightarrow> holds b' (fileAt s') (xs @ p))"
proof -
  have e: "bw_err b = None" using h by (simp add: holds_def)
  let ?n = "bufioSize - length (bw_buf b)"
  consider "length p \<le> ?n" | "\<not> length p \<le> ?n" "bw_buf b = []" | "\<not> length p \<le> ?n" "bw_buf b \<noteq> []" by blast
  then show ?thesis
  proof cases
    case 1
    then have "b' = b\<lparr>bw_buf := bw_buf b @ p\<rparr>" "s' = s" using w e by (auto simp: bw_Write_def)
    moreover obtain c where "fileAt s (bw_file b) = Some c" using h by (auto simp: holds_def)
    moreover from this have "fileAt s = (fileAt s)(bw_file b \<mapsto> c)" by (simp add: fun_upd_idem)
    ultimately show ?thesis using h by (auto simp: holds_def)
  next
    case 2
    then have "bw_direct b p s = ((b', s'), err)" using w e by (simp add: bw_Write_def)
    from bw_direct_spec [OF h 2(2) this] show ?thesis by blast
  next
    case 3
    let ?b = "b\<lparr>bw_buf := bw_buf b @ take ?n p\<rparr>"
    have h1: "holds ?b (fileAt s) (xs @ take ?n p)" using h by (auto simp: holds_def)
    obtain b1 s1 e1 where f: "bw_Flush ?b s = ((b1, s1), e1)" by (metis prod.exhaust)
    note f' = bw_Flush_spec [OF h1 f]
    have f3: "\<exists>c. fileAt s1 = (fileAt s)(bw_file b \<mapsto> c)" and f1: "bw_file b1 = bw_file b" using f'(1,3) by simp_all
    show ?thesis
    proof (cases e1)
      case (Some x)
      then show ?thesis using w e 3 f f'(2) f1 f3 by (auto simp: bw_Write_def Let_def)
    next
      case None
      have h2: "holds b1 (fileAt s1) (xs @ take ?n p)" "bw_buf b1 = []" using f'(4) [OF None] f1 by (auto simp: holds_def)
      have split: "xs @ p = (xs @ take ?n p) @ drop ?n p" by simp
      show ?thesis
      proof (cases "length (drop ?n p) \<le> bufioSize")
        case True
        then have "b' = b1\<lparr>bw_buf := drop ?n p\<rparr>" "s' = s1" "err = None" using w e 3 f None by (auto simp: bw_Write_def Let_def)
        then show ?thesis using h2 f1 f3 f'(2) unfolding split by (simp add: holds_def)
      next
        case False
        then have "bw_direct b1 (drop ?n p) s1 = ((b', s'), err)" using w e 3 f None by (simp add: bw_Write_def Let_def)
        from bw_direct_spec [OF h2 this] show ?thesis using f1 f3 f'(2) unfolding split by auto
      qed
    qed
  qed
qed

lemma closeEpoch_spec:
  assumes "tx_buf t = Some b" "holds b (fileAt s) xs" "closeEpoch t s = ((t', s'), err)"
  shows "t' = t\<lparr>tx_buf := None\<rparr>" "sto_dirs s' = sto_dirs s"
    "\<exists>c. fileAt s' = (fileAt s)(bw_file b \<mapsto> c) \<and> (err = None \<longrightarrow> c = xs)"
proof -
  obtain b1 s1 e1 where f: "bw_Flush b s = ((b1, s1), e1)" by (metis prod.exhaust)
  obtain s2 e2 where y: "os_Sync s1 = (s2, e2)" by fastforce
  obtain s3 e3 where c: "os_Close s2 = (s3, e3)" by fastforce
  obtain s3' e3' where c': "os_Close s1 = (s3', e3')" by fastforce
  obtain s4 e4 where d: "syncDir stagingDir s3 = (s4, e4)" by fastforce
  note f' = bw_Flush_spec [OF assms(2) f]
  note same = os_Sync_same [OF y] os_Close_same [OF c] os_Close_same [OF c'] syncDir_same [OF d]
  have to3: "sameFiles s1 s3" and to4: "sameFiles s1 s4" using same sameFiles_trans by blast+
  consider "e1 \<noteq> None" "s' = s3'" "err \<noteq> None" | "s' = s3" "err \<noteq> None" | "e1 = None" "s' = s4"
    using assms(1,3) f y c c' d by (cases e1; cases e2; cases e3) (auto simp: closeEpoch_def Let_def)
  then have "sameFiles s1 s'" "err = None \<Longrightarrow> e1 = None" using same(3) to3 to4 by (cases, auto)+
  moreover have "t' = t\<lparr>tx_buf := None\<rparr>"
    using assms(1,3) f y c c' d by (cases e1; cases e2; cases e3) (auto simp: closeEpoch_def Let_def)
  ultimately
  show "t' = t\<lparr>tx_buf := None\<rparr>" "sto_dirs s' = sto_dirs s"
    "\<exists>c. fileAt s' = (fileAt s)(bw_file b \<mapsto> c) \<and> (err = None \<longrightarrow> c = xs)"
    using f'(2,3,4) sameFiles_fileAt [of s1 s'] by (auto simp: sameFiles_def)
qed

lemma openEpoch_spec:
  assumes "openEpoch t s = ((t', s'), err)"
  shows "sto_dirs s' = sto_dirs s"
    "err \<noteq> None \<Longrightarrow> t' = t \<and> fileAt s' = fileAt s"
    "err = None \<Longrightarrow> t' = t\<lparr>tx_buf := Some \<lparr>bw_file = stagingPath (tx_key t) (tx_epoch t), bw_buf = [], bw_err = None\<rparr>,
       tx_written := List.insert (tx_epoch t) (tx_written t)\<rparr> \<and>
       fileAt s' = (fileAt s)(stagingPath (tx_key t) (tx_epoch t) \<mapsto> [])"
proof -
  obtain s1 e where o: "os_OpenFile (stagingPath (tx_key t) (tx_epoch t)) s = (s1, e)" by fastforce
  note o' = os_OpenFile_spec [OF o]
  show "sto_dirs s' = sto_dirs s"
    "err \<noteq> None \<Longrightarrow> t' = t \<and> fileAt s' = fileAt s"
    "err = None \<Longrightarrow> t' = t\<lparr>tx_buf := Some \<lparr>bw_file = stagingPath (tx_key t) (tx_epoch t), bw_buf = [], bw_err = None\<rparr>,
       tx_written := List.insert (tx_epoch t) (tx_written t)\<rparr> \<and>
       fileAt s' = (fileAt s)(stagingPath (tx_key t) (tx_epoch t) \<mapsto> [])"
    using assms o o' by (auto simp: openEpoch_def split: option.splits)
qed

lemma sink_paths [simp]:
  "stagingPath t i = stagingPath t j \<longleftrightarrow> i = j" "committedPath t i = committedPath t j \<longleftrightarrow> i = j"
  "stagingPath t i \<noteq> committedPath t j" "committedPath t i \<noteq> stagingPath t j"
proof -
  have "FormatInt i = FormatInt j \<longleftrightarrow> i = j" by (metis ParseInt_FormatInt option.inject)
  then show "stagingPath t i = stagingPath t j \<longleftrightarrow> i = j" "committedPath t i = committedPath t j \<longleftrightarrow> i = j"
    by (simp_all add: stagingPath_def committedPath_def sink_fileName_def)
  show "stagingPath t i \<noteq> committedPath t j" "committedPath t i \<noteq> stagingPath t j"
    by (simp_all add: stagingPath_def committedPath_def stagingDir_def committedDir_def)
qed

end
