(* ===== verification/Exactly_Once.thy ===== *)
theory Exactly_Once
  imports Transactional
begin

text \<open>
  The life of one subtask of a transactional sink over any number of runs of a job. Every run
  writes what records it likes, in any order and into any epochs: what a run wrote after the
  checkpoint it is resumed from says nothing about what the next one writes. A run is killed, or
  fails, at any file operation; the next one starts from the latest checkpoint that completed.
  Other subtasks use the same directories at the same time.
\<close>

section \<open>Settling what an earlier run left\<close>

text \<open>What a part of \<open>settleStaged\<close> may have done: of each epoch up to \<open>k\<close> the file has been
  committed or is as before; of each later one the staged file is gone or as before.\<close>

definition settledOne :: "SubtaskKey \<Rightarrow> int64 \<Rightarrow> (path \<Rightarrow> bytes option) \<Rightarrow> (path \<Rightarrow> bytes option) \<Rightarrow> int64 \<Rightarrow> bool" where
  "settledOne t k F G i \<longleftrightarrow>
     (G (stagingPath t i) = F (stagingPath t i) \<and> G (committedPath t i) = F (committedPath t i)) \<or>
     (if k <s i then G (stagingPath t i) = None \<and> G (committedPath t i) = F (committedPath t i)
      else \<exists>b. F (stagingPath t i) = Some b \<and> G (stagingPath t i) = None \<and> G (committedPath t i) = Some b)"

definition settling :: "SubtaskKey \<Rightarrow> int64 \<Rightarrow> (path \<Rightarrow> bytes option) \<Rightarrow> (path \<Rightarrow> bytes option) \<Rightarrow> bool" where
  "settling t k F G \<longleftrightarrow> (\<forall>i. settledOne t k F G i) \<and>
     (\<forall>p. (\<forall>i. p \<noteq> stagingPath t i \<and> p \<noteq> committedPath t i) \<longrightarrow> G p = F p)"

lemma settling_refl [simp]: "settling t k F F"
  by (simp add: settling_def settledOne_def)

lemma settling_update:
  assumes "settling t k F G" "settledOne t k F G' i"
    "\<And>p. p \<noteq> stagingPath t i \<Longrightarrow> p \<noteq> committedPath t i \<Longrightarrow> G' p = G p"
  shows "settling t k F G'"
proof -
  have "settledOne t k F G' j" for j
  proof (cases "j = i")
    case False
    have "settledOne t k F G j" using assms(1) unfolding settling_def by blast
    moreover have "G' (stagingPath t j) = G (stagingPath t j)" "G' (committedPath t j) = G (committedPath t j)"
      using False by (simp_all add: assms(3))
    ultimately show ?thesis by (simp only: settledOne_def)
  qed (simp add: assms(2))
  moreover have "G' p = F p" if "\<forall>i. p \<noteq> stagingPath t i \<and> p \<noteq> committedPath t i" for p
    using that assms(1,3) unfolding settling_def by metis
  ultimately show ?thesis unfolding settling_def by blast
qed

lemma settling_remove:
  assumes "settling t k F G" "k <s i"
  shows "settling t k F (G(stagingPath t i := None))"
proof (rule settling_update [OF assms(1)])
  have "settledOne t k F G i" using assms(1) unfolding settling_def by blast
  then show "settledOne t k F (G(stagingPath t i := None)) i" using assms(2) by (auto simp: settledOne_def)
qed simp

lemma settling_move:
  assumes "settling t k F G" "\<not> k <s i" "G (stagingPath t i) = Some b"
  shows "settling t k F (G(committedPath t i \<mapsto> b, stagingPath t i := None))"
proof (rule settling_update [OF assms(1)])
  have "settledOne t k F G i" using assms(1) unfolding settling_def by blast
  then show "settledOne t k F (G(committedPath t i \<mapsto> b, stagingPath t i := None)) i"
    using assms(2,3) by (auto simp: settledOne_def)
qed simp

text \<open>The names in the staging directory that belong to the subtask are the ones the sink makes.\<close>

definition plainNames :: "SubtaskKey \<Rightarrow> (path \<Rightarrow> bytes option) \<Rightarrow> bool" where
  "plainNames t F \<longleftrightarrow> (\<forall>n i. F (stagingDir, n) \<noteq> None \<and> checkpointOf t n = Some i \<longrightarrow>
     n = sink_fileName t i stagingSuffix \<and> 1 \<le> sint i)"

lemma settleEntries_spec:
  assumes "settleEntries t k es cm ds s = ((s', cm', ds'), err)" "settling t k F (fileAt s)"
    "\<forall>n \<in> set es. \<forall>i. checkpointOf t n = Some i \<longrightarrow> (stagingDir, n) = stagingPath t i"
  shows "settling t k F (fileAt s') \<and> sto_dirs s' = sto_dirs s \<and>
    (err = None \<longrightarrow> (\<forall>n \<in> set es. checkpointOf t n \<noteq> None \<longrightarrow> fileAt s' (stagingDir, n) = None) \<and>
      (\<forall>i. fileAt s (stagingPath t i) = None \<longrightarrow> fileAt s' (stagingPath t i) = None))"
  using assms
proof (induction es arbitrary: cm ds s)
  case (Cons n es)
  show ?case
  proof (cases "checkpointOf t n")
    case None
    then show ?thesis using Cons.IH [of cm ds s] Cons.prems by simp
  next
    case (Some i)
    have n: "(stagingDir, n) = stagingPath t i" using Cons.prems(3) Some by simp
    have rest: "\<forall>n \<in> set es. \<forall>i. checkpointOf t n = Some i \<longrightarrow> (stagingDir, n) = stagingPath t i"
      using Cons.prems(3) by simp
    show ?thesis
    proof (cases "k <s i")
      case True
      obtain s1 e where r: "os_Remove (stagingDir, n) s = (s1, e)" by fastforce
      from r show ?thesis
      proof (cases rule: os_Remove_spec)
        case removed
        have f: "settling t k F (fileAt s1)" using settling_remove [OF Cons.prems(2) True] removed(2) n by simp
        have go: "settleEntries t k es cm True s1 = ((s', cm', ds'), err)" using Cons.prems(1) Some True r removed(1) by auto
        show ?thesis using Cons.IH [OF go f rest] removed n by auto
      next
        case failed
        then show ?thesis using Cons.prems Some True r by auto
      qed
    next
      case False
      obtain s1 e where r: "os_Rename (stagingDir, n) (committedPath t i) s = (s1, e)" by fastforce
      have ne: "(stagingDir, n) \<noteq> committedPath t i" using n by simp
      from r ne show ?thesis
      proof (cases rule: os_Rename_spec)
        case (moved b)
        have f: "settling t k F (fileAt s1)" using settling_move [OF Cons.prems(2) False] moved(2,3) n by simp
        have go: "settleEntries t k es (cm \<or> e = None) ds s1 = ((s', cm', ds'), err)" using Cons.prems(1) Some False r moved(1) by auto
        note ih = Cons.IH [OF go f rest]
        have "fileAt s1 (stagingPath t i) = None" using moved(3) n by simp
        moreover have "fileAt s1 (stagingPath t j) = None" if "fileAt s (stagingPath t j) = None" for j
          using that moved(3) n by simp
        ultimately show ?thesis using ih n moved(4) by simp
      next
        case absent
        have f: "settling t k F (fileAt s1)" using Cons.prems(2) absent by simp
        have go: "settleEntries t k es (cm \<or> e = None) ds s1 = ((s', cm', ds'), err)" using Cons.prems(1) Some False r absent(1) by auto
        show ?thesis using Cons.IH [OF go f rest] absent n by auto
      next
        case failed
        then show ?thesis using Cons.prems Some False r by auto
      qed
    qed
  qed
qed simp

lemma settleStaged_spec:
  assumes s: "settleStaged t k s = (s', err)" and names: "plainNames t (fileAt s)" and dir: "stagingDir \<in> set (sto_dirs s)"
  shows "settling t k (fileAt s) (fileAt s')" "sto_dirs s' = sto_dirs s"
    "err = None \<Longrightarrow> 1 \<le> sint i \<Longrightarrow> fileAt s' (stagingPath t i) = None"
proof -
  obtain s1 r where r: "os_ReadDir stagingDir s = (s1, r)" by fastforce
  note r' = os_ReadDir_spec [OF r]
  have f1: "fileAt s1 = fileAt s" "sto_dirs s1 = sto_dirs s" using sameFiles_fileAt [OF r'(1)] r'(1) by (simp_all add: sameFiles_def)
  have "settling t k (fileAt s) (fileAt s') \<and> sto_dirs s' = sto_dirs s \<and>
    (err = None \<longrightarrow> (\<forall>i. 1 \<le> sint i \<longrightarrow> fileAt s' (stagingPath t i) = None))"
  proof (cases r)
    case (Inl e)
    then show ?thesis using s r f1 r'(3) dir by (auto simp: settleStaged_def split: if_splits)
  next
    case (Inr es)
    obtain s2 cm ds e2 where e: "settleEntries t k es False False s1 = ((s2, cm, ds), e2)" by (metis prod.exhaust)
    have names': "\<forall>n \<in> set es. \<forall>i. checkpointOf t n = Some i \<longrightarrow> (stagingDir, n) = stagingPath t i"
      using names r'(2) [OF Inr] by (auto simp: plainNames_def stagingPath_def)
    have "settling t k (fileAt s) (fileAt s1)" by (simp add: f1)
    note e' = settleEntries_spec [OF e this names']
    have gone: "fileAt s2 (stagingPath t i) = None" if "e2 = None" "1 \<le> sint i" for i
    proof (cases "fileAt s (stagingPath t i)")
      case None
      then show ?thesis using e' that(1) f1 by simp
    next
      case (Some b)
      let ?n = "sink_fileName t i stagingSuffix"
      have "?n \<in> set es" using Some r'(2) [OF Inr] by (simp add: stagingPath_def)
      moreover have "checkpointOf t ?n = Some i" using checkpointOf_fileName that(2) by simp
      ultimately show ?thesis using e' that(1) by (auto simp: stagingPath_def)
    qed
    obtain s3 e3 where y: "(if cm then syncDir committedDir s2 else (s2, None)) = (s3, e3)" by fastforce
    obtain s4 e4 where y2: "syncDir stagingDir s3 = (s4, e4)" by fastforce
    have same: "sameFiles s2 s3" "sameFiles s3 s4" using y y2 syncDir_same by (auto split: if_splits)
    have "sameFiles s2 s'" "err = None \<Longrightarrow> e2 = None"
      using s r Inr e y y2 same sameFiles_trans [OF same]
      by (auto simp: settleStaged_def split: option.splits if_splits)
    then show ?thesis using e' gone f1 sameFiles_fileAt [of s2 s'] by (auto simp: sameFiles_def)
  qed
  then show "settling t k (fileAt s) (fileAt s')" "sto_dirs s' = sto_dirs s"
    "err = None \<Longrightarrow> 1 \<le> sint i \<Longrightarrow> fileAt s' (stagingPath t i) = None" by blast+
qed

section \<open>The life of a sink\<close>

text \<open>\<open>lf_epochs\<close> is what the run that is alive, with the runs it was resumed from, has written into
  each epoch: a restart from checkpoint \<open>k\<close> keeps the epochs up to \<open>k\<close> and forgets what was written
  after them. \<open>lf_closed\<close> is the epoch being written, every earlier one having been snapshotted;
  \<open>lf_complete\<close> the checkpoints that completed, which the coordinator allows only for those the
  sink has acknowledged; \<open>lf_dead\<close> a run that was killed or that failed, which may still have closed
  its sink. \<open>lf_ends\<close> holds the epochs of every run whose job ended well enough to commit its last
  epochs, or to begin to: another sink's commit may then have failed, and the job is run again.\<close>

record life =
  lf_t :: Transactional
  lf_s :: store
  lf_epochs :: "int64 \<Rightarrow> Record list"
  lf_closed :: int64
  lf_complete :: "int64 set"
  lf_dead :: bool
  lf_ends :: "(int64 \<Rightarrow> Record list) set"
  lf_finished :: bool

definition latestOf :: "int64 set \<Rightarrow> int64 \<Rightarrow> bool" where
  "latestOf C k \<longleftrightarrow> (C = {} \<and> k = 0) \<or> (k \<in> C \<and> (\<forall>i \<in> C. sint i \<le> sint k))"

text \<open>A new run opens the sink and restores it.\<close>

definition runStart :: "SubtaskKey \<Rightarrow> int64 \<Rightarrow> store \<Rightarrow> (Transactional \<times> store) \<times> go_error option" where
  "runStart key k s =
     (case sink_Open key NewTransactional s of
        ((t1, s1), Some e) \<Rightarrow> ((t1, s1), Some e)
      | ((t1, s1), None) \<Rightarrow> sink_Restore (if k = 0 then [] else be_put 8 k) t1 s1)"

text \<open>The end of a job closes the sink and commits what is staged.\<close>

definition runEnd :: "Transactional \<Rightarrow> store \<Rightarrow> (Transactional \<times> store) \<times> go_error option" where
  "runEnd t s =
     (case sink_Close t s of
        ((t1, s1), Some e) \<Rightarrow> ((t1, s1), Some e)
      | ((t1, s1), None) \<Rightarrow> CommitFinalEpoch t1 s1)"

definition keptUpTo :: "int64 \<Rightarrow> (int64 \<Rightarrow> Record list) \<Rightarrow> int64 \<Rightarrow> Record list" where
  "keptUpTo k W e = (if sint e \<le> sint k then W e else [])"

definition wroteTo :: "int64 \<Rightarrow> Record \<Rightarrow> (int64 \<Rightarrow> Record list) \<Rightarrow> int64 \<Rightarrow> Record list" where
  "wroteTo i rec W = W(i := W i @ [rec])"

text \<open>The counter of the epochs stays below the bound of an \<open>int64\<close>.\<close>

inductive life_step :: "SubtaskKey \<Rightarrow> life \<Rightarrow> life \<Rightarrow> bool" for key where
  writes: "\<not> lf_dead x \<Longrightarrow> sink_Write rec (lf_t x) (lf_s x) = ((t, s), err) \<Longrightarrow>
    life_step key x (x\<lparr>lf_t := t, lf_s := s, lf_epochs := wroteTo (lf_closed x) rec (lf_epochs x), lf_dead := (err \<noteq> None)\<rparr>)"
| snapshot: "\<not> lf_dead x \<Longrightarrow> sint (lf_closed x) < 2 ^ 63 - 2 \<Longrightarrow>
    sink_Snapshot (lf_t x) (lf_s x) = ((t, s), Inr payload) \<Longrightarrow>
    life_step key x (x\<lparr>lf_t := t, lf_s := s, lf_closed := lf_closed x + 1\<rparr>)"
| snapshot_fails: "\<not> lf_dead x \<Longrightarrow> sink_Snapshot (lf_t x) (lf_s x) = ((t, s), Inl e) \<Longrightarrow>
    life_step key x (x\<lparr>lf_t := t, lf_s := s, lf_dead := True\<rparr>)"
| complete: "1 \<le> sint i \<Longrightarrow> sint i < sint (lf_closed x) \<Longrightarrow>
    life_step key x (x\<lparr>lf_complete := insert i (lf_complete x)\<rparr>)"
| notify: "\<not> lf_dead x \<Longrightarrow> i \<in> lf_complete x \<Longrightarrow>
    NotifyCheckpointComplete i (lf_t x) (lf_s x) = (s, err) \<Longrightarrow> life_step key x (x\<lparr>lf_s := s\<rparr>)"
| others: "sto_dirs s = sto_dirs (lf_s x) \<Longrightarrow>
    \<forall>p. fileAt s p \<noteq> fileAt (lf_s x) p \<longrightarrow>
      (\<forall>i. p \<noteq> stagingPath key i \<and> p \<noteq> committedPath key i) \<and> (fst p = stagingDir \<longrightarrow> checkpointOf key (snd p) = None) \<Longrightarrow>
    life_step key x (x\<lparr>lf_s := s\<rparr>)"
| restart: "latestOf (lf_complete x) k \<Longrightarrow>
    runStart key k ((lf_s x)\<lparr>sto_script := script, sto_down := False\<rparr>) = ((t, s), err) \<Longrightarrow>
    life_step key x (x\<lparr>lf_t := t, lf_s := s, lf_epochs := keptUpTo k (lf_epochs x), lf_closed := k + 1,
      lf_dead := (err \<noteq> None), lf_finished := False\<rparr>)"
| finish: "\<not> lf_dead x \<Longrightarrow> runEnd (lf_t x) (lf_s x) = ((t, s), err) \<Longrightarrow>
    life_step key x (x\<lparr>lf_t := t, lf_s := s, lf_dead := True, lf_ends := insert (lf_epochs x) (lf_ends x),
      lf_finished := (err = None)\<rparr>)"
| closes: "sink_Close (lf_t x) (lf_s x) = ((t, s), err) \<Longrightarrow>
    life_step key x (x\<lparr>lf_t := t, lf_s := s, lf_dead := True\<rparr>)"

text \<open>A job that was never run, in directories without files of the subtask.\<close>

definition life_begin :: "SubtaskKey \<Rightarrow> life \<Rightarrow> bool" where
  "life_begin key x \<longleftrightarrow> lf_dead x \<and> lf_ends x = {} \<and> \<not> lf_finished x \<and> lf_closed x = 1 \<and> lf_complete x = {} \<and>
     lf_epochs x = (\<lambda>_. []) \<and> tx_buf (lf_t x) = None \<and>
     (\<forall>i. fileAt (lf_s x) (stagingPath key i) = None \<and> fileAt (lf_s x) (committedPath key i) = None) \<and>
     (\<forall>n. fileAt (lf_s x) (stagingDir, n) \<noteq> None \<longrightarrow> checkpointOf key n = None)"

inductive lives :: "SubtaskKey \<Rightarrow> life \<Rightarrow> bool" for key where
  begins: "life_begin key x \<Longrightarrow> lives key x"
| step: "lives key x \<Longrightarrow> life_step key x y \<Longrightarrow> lives key y"

section \<open>The invariant\<close>

text \<open>A staged file of an epoch that is closed holds what was written into it. A committed file does,
  and a completed checkpoint covers its epoch, or a job that ended committed it.\<close>

definition isEpoch :: "(int64 \<Rightarrow> Record list) \<Rightarrow> int64 \<Rightarrow> bytes option \<Rightarrow> bool" where
  "isEpoch W e f \<longleftrightarrow> f = None \<or> W e \<noteq> [] \<and> f = Some (encodeRecords (W e))"

definition vouchedFor ::
  "(int64 \<Rightarrow> Record list) \<Rightarrow> (int64 \<Rightarrow> Record list) set \<Rightarrow> int64 set \<Rightarrow> int64 \<Rightarrow> bytes option \<Rightarrow> bool" where
  "vouchedFor W E C e f \<longleftrightarrow>
     f = None \<or> isEpoch W e f \<and> (\<exists>c \<in> C. sint e \<le> sint c) \<or> (\<exists>V \<in> E. isEpoch V e f)"

definition filesInv ::
  "(int64 \<Rightarrow> Record list) \<Rightarrow> (int64 \<Rightarrow> Record list) set \<Rightarrow> int64 set \<Rightarrow> SubtaskKey \<Rightarrow> int64 \<Rightarrow> (path \<Rightarrow> bytes option) \<Rightarrow> bool" where
  "filesInv W E C key B F \<longleftrightarrow>
     (\<forall>e. vouchedFor W E C e (F (committedPath key e))) \<and>
     (\<forall>e. 1 \<le> sint e \<and> sint e < sint B \<longrightarrow> isEpoch W e (F (stagingPath key e)) \<and>
        (W e \<noteq> [] \<longrightarrow> F (stagingPath key e) \<noteq> None \<or> F (committedPath key e) = Some (encodeRecords (W e)))) \<and>
     (\<forall>e. sint e < 1 \<longrightarrow> F (stagingPath key e) = None) \<and> plainNames key F"

definition liveInv :: "(int64 \<Rightarrow> Record list) \<Rightarrow> SubtaskKey \<Rightarrow> int64 \<Rightarrow> Transactional \<Rightarrow> (path \<Rightarrow> bytes option) \<Rightarrow> bool" where
  "liveInv W key B t F \<longleftrightarrow> tx_key t = key \<and> tx_epoch t = B \<and> 1 \<le> sint (tx_firstEpoch t) \<and>
     sint (tx_firstEpoch t) \<le> sint B \<and>
     (\<forall>e. sint B < sint e \<longrightarrow> F (stagingPath key e) = None) \<and>
     (\<forall>e. 1 \<le> sint e \<and> sint e < sint (tx_firstEpoch t) \<longrightarrow> F (stagingPath key e) = None) \<and>
     (case tx_buf t of
        None \<Rightarrow> W B = [] \<and> F (stagingPath key B) = None
      | Some b \<Rightarrow> W B \<noteq> [] \<and> bw_file b = stagingPath key B \<and> holds b F (encodeRecords (W B)))"

text \<open>A sink that failed has nothing left to flush.\<close>

definition quiet :: "Transactional \<Rightarrow> bool" where
  "quiet t \<longleftrightarrow> (case tx_buf t of None \<Rightarrow> True | Some b \<Rightarrow> bw_err b \<noteq> None)"

definition lifeInv :: "SubtaskKey \<Rightarrow> life \<Rightarrow> bool" where
  "lifeInv key x \<longleftrightarrow>
     1 \<le> sint (lf_closed x) \<and> sint (lf_closed x) < 2 ^ 63 - 1 \<and>
     (\<forall>i \<in> lf_complete x. 1 \<le> sint i \<and> sint i < sint (lf_closed x)) \<and>
     filesInv (lf_epochs x) (lf_ends x) (lf_complete x) key (lf_closed x) (fileAt (lf_s x)) \<and> (lf_dead x \<longrightarrow> quiet (lf_t x)) \<and>
     (\<not> lf_dead x \<longrightarrow> stagingDir \<in> set (sto_dirs (lf_s x)) \<and>
        liveInv (lf_epochs x) key (lf_closed x) (lf_t x) (fileAt (lf_s x))) \<and>
     (\<forall>e. sint e < 1 \<or> sint (lf_closed x) < sint e \<longrightarrow> lf_epochs x e = []) \<and>
     (lf_finished x \<longrightarrow> lf_dead x \<and> lf_epochs x \<in> lf_ends x \<and>
        (\<forall>e. lf_epochs x e \<noteq> [] \<longrightarrow> fileAt (lf_s x) (committedPath key e) = Some (encodeRecords (lf_epochs x e))))"

lemma isEpoch_cases:
  "isEpoch W e (Some b) \<longleftrightarrow> W e \<noteq> [] \<and> b = encodeRecords (W e)" "isEpoch W e None"
  by (auto simp: isEpoch_def)

lemma vouchedFor_mono:
  "vouchedFor W E C e f \<Longrightarrow> E \<subseteq> E' \<Longrightarrow> C \<subseteq> C' \<Longrightarrow> (\<And>c. c \<in> C \<Longrightarrow> sint e \<le> sint c \<Longrightarrow> W' e = W e) \<Longrightarrow> vouchedFor W' E' C' e f"
  unfolding vouchedFor_def isEpoch_def by (metis subsetD)

lemma filesInvD:
  assumes "filesInv W E C key B F"
  shows "vouchedFor W E C e (F (committedPath key e))"
    "1 \<le> sint e \<Longrightarrow> sint e < sint B \<Longrightarrow> isEpoch W e (F (stagingPath key e))"
    "1 \<le> sint e \<Longrightarrow> sint e < sint B \<Longrightarrow> W e \<noteq> [] \<Longrightarrow>
      F (stagingPath key e) \<noteq> None \<or> F (committedPath key e) = Some (encodeRecords (W e))"
    "sint e < 1 \<Longrightarrow> F (stagingPath key e) = None" "plainNames key F"
  using assms unfolding filesInv_def by blast+

lemma liveInvD:
  assumes "liveInv W key B t F"
  shows "tx_key t = key" "tx_epoch t = B" "1 \<le> sint (tx_firstEpoch t)" "sint (tx_firstEpoch t) \<le> sint B"
    "sint B < sint e \<Longrightarrow> F (stagingPath key e) = None"
    "1 \<le> sint e \<Longrightarrow> sint e < sint (tx_firstEpoch t) \<Longrightarrow> F (stagingPath key e) = None"
    "tx_buf t = None \<Longrightarrow> W B = [] \<and> F (stagingPath key B) = None"
    "tx_buf t = Some b \<Longrightarrow> W B \<noteq> [] \<and> bw_file b = stagingPath key B \<and> holds b F (encodeRecords (W B))"
  using assms unfolding liveInv_def by simp_all

lemma filesInv_mono:
  assumes inv: "filesInv W E C key B F" and le: "sint B' \<le> sint B" "E \<subseteq> E'" "C \<subseteq> C'"
    and same: "\<And>e. sint e < sint B' \<Longrightarrow> W' e = W e" "\<And>c e. c \<in> C \<Longrightarrow> sint e \<le> sint c \<Longrightarrow> W' e = W e"
  shows "filesInv W' E' C' key B' F"
proof -
  have "vouchedFor W' E' C' e (F (committedPath key e))" for e
    using vouchedFor_mono [OF filesInvD(1) [OF inv] le(2,3)] same(2) by blast
  moreover have "isEpoch W' e (F (stagingPath key e)) \<and>
      (W' e \<noteq> [] \<longrightarrow> F (stagingPath key e) \<noteq> None \<or> F (committedPath key e) = Some (encodeRecords (W' e)))"
    if "1 \<le> sint e" "sint e < sint B'" for e
    using filesInvD(2,3) [OF inv that(1)] that(2) le(1) same(1) [OF that(2)] by (simp add: isEpoch_def)
  ultimately show ?thesis using filesInvD(4,5) [OF inv] unfolding filesInv_def by blast
qed

text \<open>The file of the current epoch is outside of what is settled.\<close>

lemma plainNames_staging:
  assumes "plainNames key F" "1 \<le> sint B"
  shows "plainNames key (F(stagingPath key B \<mapsto> c))"
  unfolding plainNames_def
proof (intro allI impI)
  fix n i assume a: "(F(stagingPath key B \<mapsto> c)) (stagingDir, n) \<noteq> None \<and> checkpointOf key n = Some i"
  show "n = sink_fileName key i stagingSuffix \<and> 1 \<le> sint i"
  proof (cases "n = sink_fileName key B stagingSuffix")
    case True
    then have "checkpointOf key n = Some B" using checkpointOf_fileName assms(2) by simp
    then show ?thesis using True a assms(2) by simp
  next
    case False
    then have "F (stagingDir, n) \<noteq> None" using a by (auto simp: stagingPath_def split: if_splits)
    then show ?thesis using a assms(1) unfolding plainNames_def by blast
  qed
qed

lemma plainNames_less:
  assumes "plainNames key F" "\<And>n. G (stagingDir, n) \<noteq> None \<Longrightarrow> checkpointOf key n \<noteq> None \<Longrightarrow> F (stagingDir, n) \<noteq> None"
  shows "plainNames key G"
  using assms unfolding plainNames_def by blast

lemma filesInv_current:
  assumes inv: "filesInv W E C key B F" and B: "1 \<le> sint B"
  shows "filesInv W E C key B (F(stagingPath key B \<mapsto> c))"
proof -
  have "(F(stagingPath key B \<mapsto> c)) (stagingPath key e) = F (stagingPath key e)" if "e \<noteq> B" for e using that by simp
  moreover have "(F(stagingPath key B \<mapsto> c)) (committedPath key e) = F (committedPath key e)" for e by simp
  ultimately show ?thesis
    using inv plainNames_staging [OF filesInvD(5) [OF inv] B] B unfolding filesInv_def
    by (metis linorder_not_less order_less_irrefl)
qed

lemma settlingD:
  assumes "settling t k F G"
  shows "settledOne t k F G i" "(\<And>i. p \<noteq> stagingPath t i) \<Longrightarrow> (\<And>i. p \<noteq> committedPath t i) \<Longrightarrow> G p = F p"
  using assms unfolding settling_def by blast+

text \<open>What is settled is an epoch that a completed checkpoint covers, or that of a job that ended.\<close>

lemma filesInv_settling:
  assumes inv: "filesInv W E C key B F" and st: "settling key k F G" and k: "sint B = sint k + 1"
    and ok: "W \<in> E \<or> (\<forall>e :: int64. 1 \<le> sint e \<and> sint e \<le> sint k \<longrightarrow> (\<exists>c \<in> C. sint e \<le> sint c))"
  shows "filesInv W E C key B G"
proof -
  have moved: "isEpoch W e (Some b) \<and> vouchedFor W E C e (Some b)" if "F (stagingPath key e) = Some b" "\<not> k <s e" for e b
  proof -
    have e: "1 \<le> sint e" "sint e \<le> sint k" using filesInvD(4) [OF inv, of e] that by (cases "sint e < 1"; simp add: word_sless_alt)+
    then have "isEpoch W e (Some b)" using filesInvD(2) [OF inv, of e] that k by simp
    then show ?thesis using ok e unfolding vouchedFor_def by (cases "W \<in> E") auto
  qed
  have "vouchedFor W E C e (G (committedPath key e))" for e
    using settlingD(1) [OF st, of e] filesInvD(1) [OF inv, of e] moved [of e]
    by (auto simp: settledOne_def split: if_splits)
  moreover have "isEpoch W e (G (stagingPath key e))" if "1 \<le> sint e" "sint e < sint B" for e
    using settlingD(1) [OF st, of e] filesInvD(2) [OF inv that]
    by (auto simp: settledOne_def isEpoch_def split: if_splits)
  moreover have "G (stagingPath key e) \<noteq> None \<or> G (committedPath key e) = Some (encodeRecords (W e))"
    if "1 \<le> sint e" "sint e < sint B" "W e \<noteq> []" for e
    using settlingD(1) [OF st, of e] filesInvD(3) [OF inv that] moved [of e] that(2) k
    by (auto simp: settledOne_def word_sless_alt isEpoch_cases)
  moreover have "G (stagingPath key e) = None" if "sint e < 1" for e
    using settlingD(1) [OF st, of e] filesInvD(4) [OF inv that] by (auto simp: settledOne_def split: if_splits)
  moreover have "plainNames key G"
  proof (rule plainNames_less [OF filesInvD(5) [OF inv]])
    fix n assume n: "G (stagingDir, n) \<noteq> None" "checkpointOf key n \<noteq> None"
    show "F (stagingDir, n) \<noteq> None"
    proof (cases "\<exists>i. (stagingDir, n) = stagingPath key i")
      case True
      then obtain i where i: "(stagingDir, n) = stagingPath key i" by blast
      then have "G (stagingPath key i) = F (stagingPath key i)"
        using n(1) settlingD(1) [OF st, of i] by (auto simp: settledOne_def split: if_splits)
      then show ?thesis using n(1) i by simp
    next
      case False
      then have "G (stagingDir, n) = F (stagingDir, n)"
        by (intro settlingD(2) [OF st]) (auto simp: committedPath_def stagingDir_def committedDir_def)
      then show ?thesis using n(1) by simp
    qed
  qed
  ultimately show ?thesis unfolding filesInv_def by blast
qed

lemma sint_Suc: "sint (x :: int64) < 2 ^ 63 - 1 \<Longrightarrow> sint (x + 1) = sint x + 1"
  using sint64_add [of x 1] sint64_bounds [of x] by simp

section \<open>Writing and snapshotting\<close>

lemma encodeRecords_snoc: "encodeRecords (rs @ [r]) = encodeRecords rs @ encodeRecord r"
  by (simp add: encodeRecords_def)

text \<open>A write touches the staged file of the current epoch, and succeeds with the record taken.\<close>

lemma sink_Write_spec:
  assumes live: "liveInv W key B t (fileAt s)" and w: "sink_Write r t s = ((t', s'), err)"
  shows "sto_dirs s' = sto_dirs s"
    "fileAt s' = fileAt s \<or> (\<exists>c. fileAt s' = (fileAt s)(stagingPath key B \<mapsto> c))"
    "err = None \<Longrightarrow> \<exists>b. t' = t\<lparr>tx_written := tx_written t', tx_buf := Some b\<rparr> \<and>
       set (tx_written t') \<subseteq> insert B (set (tx_written t)) \<and>
       bw_file b = stagingPath key B \<and> holds b (fileAt s') (encodeRecords (W B @ [r]))"
proof -
  have key: "tx_key t = key" "tx_epoch t = B" using live by (auto simp: liveInv_def)
  have goal: "sto_dirs s' = sto_dirs s \<and>
    (fileAt s' = fileAt s \<or> (\<exists>c. fileAt s' = (fileAt s)(stagingPath key B \<mapsto> c))) \<and>
    (err = None \<longrightarrow> (\<exists>b. t' = t\<lparr>tx_written := tx_written t', tx_buf := Some b\<rparr> \<and>
       set (tx_written t') \<subseteq> insert B (set (tx_written t)) \<and>
       bw_file b = stagingPath key B \<and> holds b (fileAt s') (encodeRecords (W B @ [r]))))"
  proof (cases "tx_buf t")
    case None
    then have dn: "W B = []" using live by (simp add: liveInv_def)
    obtain t1 s1 e1 where o: "openEpoch t s = ((t1, s1), e1)" by (metis prod.exhaust)
    note o' = openEpoch_spec [OF o]
    show ?thesis
    proof (cases e1)
      case (Some e)
      then show ?thesis using w None o o' by (simp add: sink_Write_def) blast
    next
      case e1: None
      let ?b = "\<lparr>bw_file = stagingPath key B, bw_buf = [], bw_err = None\<rparr>"
      have t1: "t1 = t\<lparr>tx_buf := Some ?b, tx_written := List.insert B (tx_written t)\<rparr>"
        "fileAt s1 = (fileAt s)(stagingPath key B \<mapsto> [])" using o'(3) [OF e1] key by auto
      have h: "holds ?b (fileAt s1) []" by (simp add: holds_def t1(2))
      obtain b2 s2 e2 where b: "bw_Write ?b (encodeRecord r) s1 = ((b2, s2), e2)" by (metis prod.exhaust)
      note b' = bw_Write_spec [OF h b]
      have res: "t' = t1\<lparr>tx_buf := Some b2\<rparr>" "s' = s2" "err = e2"
        using w None o e1 b t1(1) by (auto simp: sink_Write_def writeRecord_def)
      show ?thesis using b' o'(1) t1 dn unfolding res by (auto simp: encodeRecords_def)
    qed
  next
    case (Some b)
    then have b: "bw_file b = stagingPath key B" "holds b (fileAt s) (encodeRecords (W B))" using live by (auto simp: liveInv_def)
    obtain b2 s2 e2 where x: "bw_Write b (encodeRecord r) s = ((b2, s2), e2)" by (metis prod.exhaust)
    note x' = bw_Write_spec [OF b(2) x]
    have res: "t' = t\<lparr>tx_buf := Some b2\<rparr>" "s' = s2" "err = e2"
      using w Some x by (auto simp: sink_Write_def writeRecord_def)
    show ?thesis using x' b(1) unfolding res encodeRecords_snoc by auto
  qed
  then show "sto_dirs s' = sto_dirs s"
    "fileAt s' = fileAt s \<or> (\<exists>c. fileAt s' = (fileAt s)(stagingPath key B \<mapsto> c))"
    "err = None \<Longrightarrow> \<exists>b. t' = t\<lparr>tx_written := tx_written t', tx_buf := Some b\<rparr> \<and>
       set (tx_written t') \<subseteq> insert B (set (tx_written t)) \<and>
       bw_file b = stagingPath key B \<and> holds b (fileAt s') (encodeRecords (W B @ [r]))" by blast+
qed

lemma wroteTo_simps [simp]: "wroteTo i rec W i = W i @ [rec]" "e \<noteq> i \<Longrightarrow> wroteTo i rec W e = W e"
  by (simp_all add: wroteTo_def)

lemma liveInv_write:
  assumes live: "liveInv W key B t (fileAt s)" and w: "sink_Write r t s = ((t', s'), None)" and B: "1 \<le> sint B"
  shows "liveInv (wroteTo B r W) key B t' (fileAt s')"
proof -
  note s = sink_Write_spec [OF live w]
  obtain b where b: "t' = t\<lparr>tx_written := tx_written t', tx_buf := Some b\<rparr>"
    "bw_file b = stagingPath key B" "holds b (fileAt s') (encodeRecords (W B @ [r]))" using s(3) by blast
  have fields: "tx_key t' = tx_key t" "tx_epoch t' = tx_epoch t" "tx_firstEpoch t' = tx_firstEpoch t" "tx_buf t' = Some b"
    by (subst b(1), simp)+
  have other: "fileAt s' (stagingPath key e) = fileAt s (stagingPath key e)" if "e \<noteq> B" for e
    using s(2) that by auto
  have "fileAt s' (stagingPath key e) = None" if "sint B < sint e" for e
    using that other [of e] liveInvD(5) [OF live, of e] by auto
  moreover have "fileAt s' (stagingPath key e) = None" if "1 \<le> sint e" "sint e < sint (tx_firstEpoch t)" for e
    using that other [of e] liveInvD(4) [OF live] liveInvD(6) [OF live, of e] by (cases "e = B") auto
  ultimately show ?thesis using liveInvD(1-4) [OF live] b(2,3) unfolding liveInv_def fields option.case by simp
qed

text \<open>Closing an epoch leaves its file complete, or, when that fails, some file.\<close>

lemma closeEpoch_live:
  assumes live: "liveInv W key B t (fileAt s)" and c: "closeEpoch t s = ((t', s'), err)"
  shows "t' = t\<lparr>tx_buf := None\<rparr> \<and> sto_dirs s' = sto_dirs s \<and>
    (fileAt s' = fileAt s \<or> (\<exists>c. fileAt s' = (fileAt s)(stagingPath key B \<mapsto> c))) \<and>
    (err = None \<longrightarrow> (\<forall>e. e \<noteq> B \<longrightarrow> fileAt s' (stagingPath key e) = fileAt s (stagingPath key e)) \<and>
      (\<forall>e. fileAt s' (committedPath key e) = fileAt s (committedPath key e)) \<and>
      fileAt s' (stagingPath key B) = (if W B = [] then None else Some (encodeRecords (W B))))"
proof (cases "tx_buf t")
  case None
  then have "t' = t" "s' = s" using c by (simp_all add: closeEpoch_def)
  then show ?thesis using None live by (auto simp: liveInv_def intro: Transactional.equality)
next
  case (Some b)
  then have b: "W B \<noteq> []" "bw_file b = stagingPath key B" "holds b (fileAt s) (encodeRecords (W B))" using live by (auto simp: liveInv_def)
  note c' = closeEpoch_spec [OF Some b(3) c]
  obtain x where x: "fileAt s' = (fileAt s)(stagingPath key B \<mapsto> x)" "err = None \<longrightarrow> x = encodeRecords (W B)"
    using c'(3) b(2) by auto
  show ?thesis using c'(1,2) x b(1) by auto
qed

lemma snapshot_live:
  assumes live: "liveInv W key B t (fileAt s)" and inv: "filesInv W E C key B (fileAt s)"
    and B: "1 \<le> sint B" "sint B < 2 ^ 63 - 1" and new: "W (B + 1) = []" and c: "closeEpoch t s = ((t1, s'), None)"
  shows "filesInv W E C key (B + 1) (fileAt s')"
    "liveInv W key (B + 1) (t1\<lparr>tx_epoch := tx_epoch t1 + 1\<rparr>) (fileAt s')"
proof -
  note c' = closeEpoch_live [OF live c]
  have B1: "sint (B + 1) = sint B + 1" using B(2) by (rule sint_Suc)
  have at: "fileAt s' (stagingPath key e) = (if e = B then if W B = [] then None else Some (encodeRecords (W B)) else fileAt s (stagingPath key e))"
    "fileAt s' (committedPath key e) = fileAt s (committedPath key e)" for e using c' by auto
  have le: "sint e < sint (B + 1) \<longleftrightarrow> sint e < sint B \<or> e = B" for e
    using B1 by (auto intro: sint64_eqI)
  have "filesInv W E C key B (fileAt s')"
    using c' filesInv_current [OF inv B(1)] inv by auto
  then show "filesInv W E C key (B + 1) (fileAt s')"
    unfolding filesInv_def le by (auto simp: at isEpoch_def)
  show "liveInv W key (B + 1) (t1\<lparr>tx_epoch := tx_epoch t1 + 1\<rparr>) (fileAt s')"
    using c' liveInvD(1-4) [OF live] liveInvD(5,6) [OF live] B1 at new
    by (auto simp: liveInv_def)
qed

section \<open>Committing\<close>

lemma commitEpochs_spec:
  assumes "commitEpochs n key i cm s = ((s', cm'), err)" "settling key k F (fileAt s)"
    "sint i + int n \<le> sint k + 1" "sint k < 2 ^ 63 - 1"
  shows "settling key k F (fileAt s') \<and> sto_dirs s' = sto_dirs s \<and>
    (err = None \<longrightarrow> (\<forall>j. fileAt s (stagingPath key j) = None \<or> sint i \<le> sint j \<and> sint j < sint i + int n \<longrightarrow>
      fileAt s' (stagingPath key j) = None))"
  using assms
proof (induction n arbitrary: i cm s)
  case (Suc n)
  obtain s1 e where r: "os_Rename (stagingPath key i) (committedPath key i) s = (s1, e)" by fastforce
  have i: "\<not> k <s i" "sint (i + 1) = sint i + 1" using Suc.prems(3,4) by (auto simp: word_sless_alt intro: sint_Suc)
  have j: "sint i \<le> sint j \<and> sint j < sint i + int (Suc n) \<longleftrightarrow> j = i \<or> sint (i + 1) \<le> sint j \<and> sint j < sint (i + 1) + int n" for j
    using i(2) by (auto intro: sint64_eqI)
  have next_spec: "settling key k F (fileAt s') \<and> sto_dirs s' = sto_dirs s \<and>
    (err = None \<longrightarrow> (\<forall>j. fileAt s (stagingPath key j) = None \<or> sint i \<le> sint j \<and> sint j < sint i + int (Suc n) \<longrightarrow>
      fileAt s' (stagingPath key j) = None))"
    if "commitEpochs n key (i + 1) cm1 s1 = ((s', cm'), err)" "settling key k F (fileAt s1)" "sto_dirs s1 = sto_dirs s"
      "\<And>j. fileAt s1 (stagingPath key j) = (if j = i then None else fileAt s (stagingPath key j))" for cm1
    using Suc.IH [OF that(1,2)] Suc.prems(3,4) i(2) that(3,4) unfolding j by auto
  from r sink_paths(3) show ?case
  proof (cases rule: os_Rename_spec)
    case (moved b)
    then show ?thesis using Suc.prems(1) r settling_move [OF Suc.prems(2) i(1) moved(2)]
      by (intro next_spec [of True]) auto
  next
    case absent
    then show ?thesis using Suc.prems(1,2) r by (intro next_spec [of cm]) auto
  next
    case failed
    then show ?thesis using Suc.prems(1,2) r by auto
  qed
qed auto

text \<open>A notification for a completed checkpoint commits its file, if it was not yet.\<close>

lemma notify_spec:
  assumes key: "tx_key t = key" and n: "NotifyCheckpointComplete i t s = (s', err)"
  shows "sto_dirs s' = sto_dirs s"
    "fileAt s' = fileAt s \<or> (\<exists>b. fileAt s (stagingPath key i) = Some b \<and>
       fileAt s' = (fileAt s)(committedPath key i \<mapsto> b, stagingPath key i := None))"
proof -
  obtain s1 e where r: "os_Rename (stagingPath key i) (committedPath key i) s = (s1, e)" by fastforce
  from r sink_paths(3) have "sto_dirs s' = sto_dirs s \<and> (fileAt s' = fileAt s \<or> (\<exists>b. fileAt s (stagingPath key i) = Some b \<and>
       fileAt s' = (fileAt s)(committedPath key i \<mapsto> b, stagingPath key i := None)))"
  proof (cases rule: os_Rename_spec)
    case (moved b)
    then have y: "syncDir committedDir s1 = (s', err)" using n r key by (simp add: NotifyCheckpointComplete_def)
    have "sto_dirs s' = sto_dirs s1" "fileAt s' = fileAt s1"
      using syncDir_same [OF y] sameFiles_fileAt [OF syncDir_same [OF y]] by (simp_all add: sameFiles_def)
    then show ?thesis using moved by auto
  next
    case absent
    obtain s2 e2 where st: "os_Stat (committedPath key i) s1 = (s2, e2)" by fastforce
    have same: "sameFiles s1 s2"
      using st [unfolded os_Stat_def] by (cases rule: os_do_cases) (auto split: option.splits)
    have "s' = s2" using n r key absent(1) st by (auto simp: NotifyCheckpointComplete_def split: option.splits if_splits)
    then have "sto_dirs s' = sto_dirs s" "fileAt s' = fileAt s"
      using same sameFiles_fileAt [OF same] absent(3,4) by (simp_all add: sameFiles_def)
    then show ?thesis by auto
  next
    case failed
    then show ?thesis using n r key by (auto simp: NotifyCheckpointComplete_def)
  qed
  then show "sto_dirs s' = sto_dirs s"
    "fileAt s' = fileAt s \<or> (\<exists>b. fileAt s (stagingPath key i) = Some b \<and>
       fileAt s' = (fileAt s)(committedPath key i \<mapsto> b, stagingPath key i := None))" by blast+
qed

lemma notify_inv:
  assumes live: "liveInv W key B t (fileAt s)" and inv: "filesInv W E C key B (fileAt s)"
    and i: "1 \<le> sint i" "sint i < sint B" "i \<in> C" and n: "NotifyCheckpointComplete i t s = (s', err)"
  shows "filesInv W E C key B (fileAt s')" "liveInv W key B t (fileAt s')" "sto_dirs s' = sto_dirs s"
proof -
  note n' = notify_spec [OF liveInvD(1) [OF live] n]
  show "sto_dirs s' = sto_dirs s" by (rule n'(1))
  show "filesInv W E C key B (fileAt s')"
  proof (cases "fileAt s' = fileAt s")
    case False
    then obtain b where b: "fileAt s (stagingPath key i) = Some b"
      "fileAt s' = (fileAt s)(committedPath key i \<mapsto> b, stagingPath key i := None)" using n'(2) by blast
    have ep: "isEpoch W i (Some b)" using filesInvD(2) [OF inv i(1,2)] b(1) by simp
    have "plainNames key (fileAt s')"
      by (rule plainNames_less [OF filesInvD(5) [OF inv]])
        (use b(2) in \<open>auto simp: committedPath_def stagingDir_def committedDir_def split: if_splits\<close>)
    moreover have "vouchedFor W E C e (fileAt s' (committedPath key e))" for e
      using filesInvD(1) [OF inv, of e] ep i(3) by (cases "e = i") (auto simp: b(2) vouchedFor_def)
    moreover have "isEpoch W e (fileAt s' (stagingPath key e)) \<and>
        (W e \<noteq> [] \<longrightarrow> fileAt s' (stagingPath key e) \<noteq> None \<or> fileAt s' (committedPath key e) = Some (encodeRecords (W e)))"
      if "1 \<le> sint e \<and> sint e < sint B" for e
      using filesInvD(2,3) [OF inv, of e] that ep by (cases "e = i") (auto simp: b(2) isEpoch_def)
    moreover have "fileAt s' (stagingPath key e) = None" if "sint e < 1" for e
      using filesInvD(4) [OF inv that] by (simp add: b(2))
    ultimately show ?thesis unfolding filesInv_def by blast
  qed (simp add: inv)
  have "fileAt s' (stagingPath key B) = fileAt s (stagingPath key B)" using n'(2) i by auto
  moreover have "fileAt s' (stagingPath key e) = None" if "fileAt s (stagingPath key e) = None" for e
    using n'(2) that by auto
  ultimately show "liveInv W key B t (fileAt s')"
    using live unfolding liveInv_def by (auto simp: holds_def split: option.splits)
qed

section \<open>Starting and ending a run\<close>

lemma os_MkdirAll_spec:
  assumes "os_MkdirAll dir s = (s', err)"
  shows "fileAt s' = fileAt s" "set (sto_dirs s) \<subseteq> set (sto_dirs s')" "err = None \<Longrightarrow> dir \<in> set (sto_dirs s')"
proof -
  have "fileAt s' = fileAt s \<and> set (sto_dirs s) \<subseteq> set (sto_dirs s') \<and> (err = None \<longrightarrow> dir \<in> set (sto_dirs s'))"
    using assms [unfolded os_MkdirAll_def]
  proof (cases rule: os_do_cases)
    case (goes s1)
    then have "s' = s1\<lparr>sto_dirs := List.insert dir (sto_dirs s1)\<rparr>" by simp
    then show ?thesis using goes(1) sameFiles_fileAt [OF goes(1)] by (auto simp: sameFiles_def)
  next
    case fails
    then show ?thesis using sameFiles_fileAt [OF fails(1)] by (auto simp: sameFiles_def)
  qed
  then show "fileAt s' = fileAt s" "set (sto_dirs s) \<subseteq> set (sto_dirs s')" "err = None \<Longrightarrow> dir \<in> set (sto_dirs s')" by blast+
qed

lemma sink_Open_spec:
  assumes "sink_Open key NewTransactional s = ((t, s'), err)"
  shows "fileAt s' = fileAt s"
    "err = None \<Longrightarrow> stagingDir \<in> set (sto_dirs s') \<and> t = NewTransactional\<lparr>tx_opened := True, tx_key := key\<rparr>"
proof -
  obtain s1 e1 where m1: "os_MkdirAll stagingDir s = (s1, e1)" by fastforce
  obtain s2 e2 where m2: "os_MkdirAll committedDir s1 = (s2, e2)" by fastforce
  obtain s3 e3 where y: "syncDir [] s2 = (s3, e3)" by fastforce
  note m = os_MkdirAll_spec [OF m1] os_MkdirAll_spec [OF m2]
  have f3: "fileAt s3 = fileAt s" "sto_dirs s3 = sto_dirs s2"
    using syncDir_same [OF y] sameFiles_fileAt [OF syncDir_same [OF y]] m by (simp_all add: sameFiles_def)
  have o: "\<not> tx_opened NewTransactional" by (simp add: NewTransactional_def)

  consider "s' = s" "err \<noteq> None" | "s' = s1" "err \<noteq> None" | "s' = s2" "err \<noteq> None"
    | "s' = s3" "e1 = None" "t = NewTransactional\<lparr>tx_opened := True, tx_key := key\<rparr>"
  proof (cases "sink_checkVertexID (sk_VertexID key)")
    case None
    then show ?thesis using assms m1 m2 y o that by (cases e1; cases e2) (auto simp: sink_Open_def Let_def)
  next
    case (Some a)
    have "s' = s \<and> err = Some a" using assms by (simp add: sink_Open_def Let_def o Some)
    then show ?thesis using that(1) by simp
  qed
  then have "fileAt s' = fileAt s \<and>
    (err = None \<longrightarrow> stagingDir \<in> set (sto_dirs s') \<and> t = NewTransactional\<lparr>tx_opened := True, tx_key := key\<rparr>)"
  proof cases
    case 4
    have "stagingDir \<in> set (sto_dirs s2)" by (rule subsetD [OF m(5) m(3) [OF 4(2)]])
    then show ?thesis by (simp add: f3 4)
  qed (auto simp: m)
  then show "fileAt s' = fileAt s"
    "err = None \<Longrightarrow> stagingDir \<in> set (sto_dirs s') \<and> t = NewTransactional\<lparr>tx_opened := True, tx_key := key\<rparr>"
    by blast+
qed

lemma Restore_payload:
  assumes "0 \<le> sint k"
  shows "sink_Restore (if k = 0 then [] else be_put 8 k) t s =
    (case settleStaged (tx_key t) k s of
       (s1, Some e) \<Rightarrow> ((t, s1), Some e)
     | (s1, None) \<Rightarrow> ((t\<lparr>tx_epoch := k + 1, tx_firstEpoch := k + 1, tx_written := []\<rparr>, s1), None))"
proof -
  have "be_put 8 k \<noteq> []" by (metis length_be_put list.size(3) zero_neq_numeral)
  then show ?thesis using assms by (simp add: sink_Restore_def word_sless_alt Let_def)
qed

lemma runStart_spec:
  assumes k: "0 \<le> sint k" "sint k < 2 ^ 63 - 1" and inv: "filesInv W E C key (k + 1) (fileAt s)" and new: "W (k + 1) = []"
    and r: "runStart key k s = ((t, s'), err)"
  shows "settling key k (fileAt s) (fileAt s')"
    "err = None \<Longrightarrow> stagingDir \<in> set (sto_dirs s') \<and> liveInv W key (k + 1) t (fileAt s') \<and>
       (\<forall>e. fileAt s' (stagingPath key e) = None)"
proof -
  obtain t1 s1 e1 where o: "sink_Open key NewTransactional s = ((t1, s1), e1)" by (metis prod.exhaust)
  note o' = sink_Open_spec [OF o]
  have "settling key k (fileAt s) (fileAt s') \<and> (err = None \<longrightarrow> stagingDir \<in> set (sto_dirs s') \<and>
      liveInv W key (k + 1) t (fileAt s') \<and> (\<forall>e. fileAt s' (stagingPath key e) = None))"
  proof (cases e1)
    case (Some e)
    then show ?thesis using r o o'(1) by (auto simp: runStart_def)
  next
    case None
    have t1: "t1 = NewTransactional\<lparr>tx_opened := True, tx_key := key\<rparr>" and d: "stagingDir \<in> set (sto_dirs s1)"
      using o'(2) None by auto
    obtain s2 e2 where st: "settleStaged key k s1 = (s2, e2)" by fastforce
    have "plainNames key (fileAt s1)" using filesInvD(5) [OF inv] o'(1) by simp
    note st' = settleStaged_spec [OF st this d]
    have res: "s' = s2" "err = e2" "e2 = None \<Longrightarrow> t = t1\<lparr>tx_epoch := k + 1, tx_firstEpoch := k + 1, tx_written := []\<rparr>"
      using r o None st by (auto simp: runStart_def Restore_payload [OF k(1)] t1 split: option.splits)
    have gone: "fileAt s2 (stagingPath key e) = None" if "e2 = None" for e
    proof (cases "1 \<le> sint e")
      case False
      then have "fileAt s (stagingPath key e) = None" using filesInvD(4) [OF inv, of e] by simp
      then show ?thesis using settlingD(1) [OF st'(1), of e] o'(1) by (auto simp: settledOne_def split: if_splits)
    qed (use st'(3) that in blast)
    have k1: "sint (k + 1) = sint k + 1" using k(2) by (rule sint_Suc)
    have "liveInv W key (k + 1) t (fileAt s')" if "err = None"
      using res that gone k k1 new by (simp add: liveInv_def t1 NewTransactional_def)
    then show ?thesis using st' o'(1) d gone res by auto
  qed
  then show "settling key k (fileAt s) (fileAt s')"
    "err = None \<Longrightarrow> stagingDir \<in> set (sto_dirs s') \<and> liveInv W key (k + 1) t (fileAt s') \<and>
       (\<forall>e. fileAt s' (stagingPath key e) = None)" by blast+
qed

lemma CommitFinalEpoch_spec:
  assumes buf: "tx_buf t = None" and key: "tx_key t = key" and L: "tx_epoch t = L" "sint (tx_firstEpoch t) \<le> sint L" "sint L < 2 ^ 63 - 1"
    and c: "CommitFinalEpoch t s = ((t', s'), err)"
  shows "settling key L (fileAt s) (fileAt s')"
    "err = None \<Longrightarrow> fileAt s (stagingPath key e) = None \<or> sint (tx_firstEpoch t) \<le> sint e \<and> sint e \<le> sint L \<Longrightarrow>
      fileAt s' (stagingPath key e) = None"
proof -
  let ?n = "nat (sint L - sint (tx_firstEpoch t) + 1)"
  obtain s2 cm e2 where m: "commitEpochs ?n key (tx_firstEpoch t) False s = ((s2, cm), e2)" by (metis prod.exhaust)
  have n: "sint (tx_firstEpoch t) + int ?n = sint L + 1" using L(2) by simp
  note m' = commitEpochs_spec [OF m settling_refl, of L]
  obtain s3 e3 where y: "syncDir committedDir s2 = (s3, e3)" by fastforce
  have f3: "fileAt s3 = fileAt s2" by (rule sameFiles_fileAt [OF syncDir_same [OF y]])
  have "fileAt s' = fileAt s2" "err = None \<Longrightarrow> e2 = None"
    using c buf key L(1) m y f3 by (auto simp: CommitFinalEpoch_def closeEpoch_def split: option.splits if_splits)
  then show "settling key L (fileAt s) (fileAt s')"
    "err = None \<Longrightarrow> fileAt s (stagingPath key e) = None \<or> sint (tx_firstEpoch t) \<le> sint e \<and> sint e \<le> sint L \<Longrightarrow>
      fileAt s' (stagingPath key e) = None"
    using m' n L(3) by auto
qed

text \<open>The epochs of the run that ends are among those that ended.\<close>

lemma runEnd_spec:
  assumes live: "liveInv W key B t (fileAt s)" and inv: "filesInv W E C key B (fileAt s)" and W: "W \<in> E" "W (B + 1) = []"
    and B: "1 \<le> sint B" "sint B < 2 ^ 63 - 1" and r: "runEnd t s = ((t', s'), err)"
  shows "filesInv W E C key B (fileAt s')"
    "err = None \<Longrightarrow> 1 \<le> sint e \<Longrightarrow> sint e \<le> sint B \<Longrightarrow> W e \<noteq> [] \<Longrightarrow> fileAt s' (committedPath key e) = Some (encodeRecords (W e))"
proof -
  obtain t1 s1 e1 where c: "closeEpoch t s = ((t1, s1), e1)" by (metis prod.exhaust)
  have c0: "sink_Close t s = ((t1, s1), e1)"
    using c by (cases "tx_buf t") (simp_all add: sink_Close_def closeEpoch_def)
  note c' = closeEpoch_live [OF live c]
  have B1: "sint (B + 1) = sint B + 1" using B(2) by (rule sint_Suc)
  have "filesInv W E C key B (fileAt s') \<and> (err = None \<longrightarrow>
      (\<forall>e. 1 \<le> sint e \<and> sint e \<le> sint B \<and> W e \<noteq> [] \<longrightarrow> fileAt s' (committedPath key e) = Some (encodeRecords (W e))))"
  proof (cases e1)
    case (Some x)
    then have "s' = s1" "err \<noteq> None" using r c0 by (auto simp: runEnd_def)
    then show ?thesis using c' filesInv_current [OF inv B(1)] inv by auto
  next
    case None
    have t1: "tx_buf t1 = None" "tx_key t1 = key" "tx_epoch t1 = B" "sint (tx_firstEpoch t1) \<le> sint B"
      "tx_firstEpoch t1 = tx_firstEpoch t"
      using c' liveInvD(1,2,4) [OF live] by auto
    have f1: "filesInv W E C key (B + 1) (fileAt s1)"
      using snapshot_live(1) [OF live inv B W(2)] c None by simp
    have cf: "CommitFinalEpoch t1 s1 = ((t', s'), err)" using r c0 None by (simp add: runEnd_def)
    note cf' = CommitFinalEpoch_spec [OF t1(1-4) B(2) cf]
    have f2: "filesInv W E C key (B + 1) (fileAt s')" using filesInv_settling [OF f1 cf'(1) B1] W(1) by blast
    have gone: "fileAt s' (stagingPath key e) = None" if "err = None" "1 \<le> sint e" "sint e \<le> sint B" for e
    proof (cases "sint (tx_firstEpoch t) \<le> sint e")
      case False
      then have "fileAt s (stagingPath key e) = None" "e \<noteq> B"
        using liveInvD(6) [OF live, of e] that(2) t1(4,5) by auto
      then show ?thesis using cf'(2) [OF that(1), of e] c' None by auto
    qed (use cf'(2) that t1(5) in auto)
    have "fileAt s' (committedPath key e) = Some (encodeRecords (W e))" if "err = None" "1 \<le> sint e" "sint e \<le> sint B" "W e \<noteq> []" for e
      using filesInvD(3) [OF f2 that(2) _ that(4)] gone [OF that(1-3)] that(3) B1 by simp
    moreover have "filesInv W E C key B (fileAt s')"
      by (rule filesInv_mono [OF f2]) (use B1 in auto)
    ultimately show ?thesis by blast
  qed
  then show "filesInv W E C key B (fileAt s')"
    "err = None \<Longrightarrow> 1 \<le> sint e \<Longrightarrow> sint e \<le> sint B \<Longrightarrow> W e \<noteq> [] \<Longrightarrow> fileAt s' (committedPath key e) = Some (encodeRecords (W e))" by blast+
qed

section \<open>Every step keeps the invariant\<close>

lemma lifeInvD:
  assumes "lifeInv key x"
  shows "1 \<le> sint (lf_closed x)" "sint (lf_closed x) < 2 ^ 63 - 1"
    "i \<in> lf_complete x \<Longrightarrow> 1 \<le> sint i \<and> sint i < sint (lf_closed x)"
    "filesInv (lf_epochs x) (lf_ends x) (lf_complete x) key (lf_closed x) (fileAt (lf_s x))"
    "\<not> lf_dead x \<Longrightarrow> stagingDir \<in> set (sto_dirs (lf_s x))"
    "\<not> lf_dead x \<Longrightarrow> liveInv (lf_epochs x) key (lf_closed x) (lf_t x) (fileAt (lf_s x))"
    "sint e < 1 \<or> sint (lf_closed x) < sint e \<Longrightarrow> lf_epochs x e = []"
    "lf_finished x \<Longrightarrow> lf_dead x" "lf_finished x \<Longrightarrow> lf_epochs x \<in> lf_ends x"
    "lf_finished x \<Longrightarrow> lf_epochs x e \<noteq> [] \<Longrightarrow> fileAt (lf_s x) (committedPath key e) = Some (encodeRecords (lf_epochs x e))"
    "lf_dead x \<Longrightarrow> quiet (lf_t x)"
  using assms unfolding lifeInv_def by blast+

lemma lifeInv_next: "lifeInv key x \<Longrightarrow> sint (lf_closed x + 1) = sint (lf_closed x) + 1 \<and> lf_epochs x (lf_closed x + 1) = []"
  using lifeInvD(2,7) sint_Suc by force

lemma write_error_quiet: "sink_Write r t s = ((t', s'), Some e) \<Longrightarrow> quiet t'"
  by (auto simp: sink_Write_def openEpoch_def writeRecord_def bw_Write_def bw_direct_def bw_Flush_def quiet_def Let_def
      split: option.splits prod.splits if_splits)

lemma closed_quiet: "closeEpoch t s = ((t', s'), err) \<Longrightarrow> tx_buf t' = None"
  by (auto simp: closeEpoch_def Let_def split: option.splits prod.splits)

lemma runEnd_quiet:
  assumes "runEnd t s = ((t', s'), err)"
  shows "quiet t'"
proof -
  have "tx_buf t1 = None" if "sink_Close t s = ((t1, s1), e)" for t1 s1 e
    using that closed_quiet by (auto simp: sink_Close_def split: if_splits)
  then show ?thesis
    using assms closed_quiet by (auto simp: runEnd_def CommitFinalEpoch_def quiet_def split: option.splits prod.splits if_splits)
qed

lemma runStart_quiet:
  assumes "runStart key k s = ((t', s'), err)"
  shows "quiet t'"
proof -
  have "tx_buf t1 = None" if "sink_Open key NewTransactional s = ((t1, s1), e)" for t1 s1 e
    using that by (auto simp: sink_Open_def NewTransactional_def Let_def split: if_splits option.splits prod.splits)
  then show ?thesis
    using assms by (auto simp: runStart_def sink_Restore_def quiet_def Let_def split: option.splits prod.splits if_splits)
qed

lemma close_quiet:
  assumes "quiet t" "closeEpoch t s = ((t', s'), err)"
  shows "sameFiles s s'"
  using assms os_Close_same [of s "fst (os_Close s)" "snd (os_Close s)"]
  by (auto simp: quiet_def closeEpoch_def bw_Flush_def split: option.splits)

text \<open>Another subtask, or the clock, leaves the subtask's files alone.\<close>

lemma lifeInv_others:
  assumes inv: "lifeInv key x" and d: "sto_dirs s = sto_dirs (lf_s x)"
    and f: "\<And>i. fileAt s (stagingPath key i) = fileAt (lf_s x) (stagingPath key i)"
      "\<And>i. fileAt s (committedPath key i) = fileAt (lf_s x) (committedPath key i)"
      "\<And>n. checkpointOf key n \<noteq> None \<Longrightarrow> fileAt s (stagingDir, n) = fileAt (lf_s x) (stagingDir, n)"
  shows "lifeInv key (x\<lparr>lf_s := s\<rparr>)"
proof -
  have "plainNames key (fileAt s)"
    by (rule plainNames_less [OF filesInvD(5) [OF lifeInvD(4) [OF inv]]]) (simp add: f(3))
  then have "filesInv (lf_epochs x) (lf_ends x) (lf_complete x) key (lf_closed x) (fileAt s)"
    using lifeInvD(4) [OF inv] unfolding filesInv_def f by simp
  moreover have "liveInv (lf_epochs x) key (lf_closed x) (lf_t x) (fileAt s)" if "\<not> lf_dead x"
  proof -
    have l: "liveInv (lf_epochs x) key (lf_closed x) (lf_t x) (fileAt (lf_s x))" using lifeInvD(6) [OF inv that] .
    have "holds b (fileAt s) (encodeRecords (lf_epochs x (lf_closed x)))" if "tx_buf (lf_t x) = Some b" for b
      using liveInvD(8) [OF l that] f(1) by (auto simp: holds_def)
    then show ?thesis using l unfolding liveInv_def f by (auto split: option.splits)
  qed
  ultimately show ?thesis using inv d f(2) unfolding lifeInv_def by simp
qed

lemma lifeInv_write:
  assumes inv: "lifeInv key x" and x: "\<not> lf_dead x" and w: "sink_Write rec (lf_t x) (lf_s x) = ((t, s), err)"
  shows "lifeInv key (x\<lparr>lf_t := t, lf_s := s, lf_epochs := wroteTo (lf_closed x) rec (lf_epochs x), lf_dead := (err \<noteq> None)\<rparr>)"
proof -
  let ?B = "lf_closed x" and ?W = "lf_epochs x"
  have l: "liveInv ?W key ?B (lf_t x) (fileAt (lf_s x))" using lifeInvD(6) [OF inv x] .
  note s = sink_Write_spec [OF l w]
  have "filesInv ?W (lf_ends x) (lf_complete x) key ?B (fileAt s)"
    using s(2) filesInv_current [OF lifeInvD(4) [OF inv] lifeInvD(1) [OF inv]] lifeInvD(4) [OF inv] by auto
  then have f: "filesInv (wroteTo ?B rec ?W) (lf_ends x) (lf_complete x) key ?B (fileAt s)"
  proof (rule filesInv_mono)
    show "wroteTo ?B rec ?W e = ?W e" if "c \<in> lf_complete x" "sint e \<le> sint c" for c e
      using lifeInvD(3) [OF inv that(1)] that(2) by (cases "e = ?B") auto
  qed (auto simp: wroteTo_def)
  have "liveInv (wroteTo ?B rec ?W) key ?B t (fileAt s)" if "err = None"
    using liveInv_write [OF l _ lifeInvD(1) [OF inv]] w that by simp
  moreover have "wroteTo ?B rec ?W e = []" if "sint e < 1 \<or> sint ?B < sint e" for e
    using lifeInvD(1,7) [OF inv] that by (cases "e = ?B") auto
  ultimately show ?thesis
    using inv x f s(1) lifeInvD(5) [OF inv x] lifeInvD(8) [OF inv] write_error_quiet [of _ _ _ t s] w
    unfolding lifeInv_def by auto
qed

lemma lifeInv_snapshot:
  assumes inv: "lifeInv key x" and x: "\<not> lf_dead x" "sint (lf_closed x) < 2 ^ 63 - 2"
    and w: "sink_Snapshot (lf_t x) (lf_s x) = ((t, s), Inr payload)"
  shows "lifeInv key (x\<lparr>lf_t := t, lf_s := s, lf_closed := lf_closed x + 1\<rparr>)"
proof -
  have l: "liveInv (lf_epochs x) key (lf_closed x) (lf_t x) (fileAt (lf_s x))" using lifeInvD(6) [OF inv x(1)] .
  obtain t1 e where c: "closeEpoch (lf_t x) (lf_s x) = ((t1, s), e)" "e = None" "t = t1\<lparr>tx_epoch := tx_epoch t1 + 1\<rparr>"
    using w by (auto simp: sink_Snapshot_def split: prod.splits option.splits)
  note nx = lifeInv_next [OF inv]
  note sn = snapshot_live [OF l lifeInvD(4,1,2) [OF inv] nx [THEN conjunct2] c(1) [unfolded c(2)]]
  have "sto_dirs s = sto_dirs (lf_s x)" using closeEpoch_live [OF l c(1)] by simp
  moreover have "\<forall>i \<in> lf_complete x. 1 \<le> sint i \<and> sint i < sint (lf_closed x + 1)" using lifeInvD(3) [OF inv] nx by force
  ultimately show ?thesis
    using inv x nx sn lifeInvD(5) [OF inv x(1)] lifeInvD(8) [OF inv] unfolding lifeInv_def c(3) by simp
qed

lemma lifeInv_closed:
  assumes inv: "lifeInv key x" and x: "\<not> lf_dead x" and c: "closeEpoch (lf_t x) (lf_s x) = ((t, s), err)"
  shows "lifeInv key (x\<lparr>lf_t := t, lf_s := s, lf_dead := True\<rparr>)"
proof -
  note c' = closeEpoch_live [OF lifeInvD(6) [OF inv x] c]
  have "filesInv (lf_epochs x) (lf_ends x) (lf_complete x) key (lf_closed x) (fileAt s)"
    using c' filesInv_current [OF lifeInvD(4) [OF inv] lifeInvD(1) [OF inv]] lifeInvD(4) [OF inv] by auto
  then show ?thesis using inv x lifeInvD(8) [OF inv] closed_quiet [OF c] unfolding lifeInv_def by (auto simp: quiet_def)
qed

lemma lifeInv_snapshot_fails:
  assumes "lifeInv key x" "\<not> lf_dead x" "sink_Snapshot (lf_t x) (lf_s x) = ((t, s), Inl e)"
  shows "lifeInv key (x\<lparr>lf_t := t, lf_s := s, lf_dead := True\<rparr>)"
  using assms(3) lifeInv_closed [OF assms(1,2)] by (auto simp: sink_Snapshot_def split: prod.splits option.splits)

lemma lifeInv_closes:
  assumes inv: "lifeInv key x" and c: "sink_Close (lf_t x) (lf_s x) = ((t, s), err)"
  shows "lifeInv key (x\<lparr>lf_t := t, lf_s := s, lf_dead := True\<rparr>)"
proof -
  have c: "closeEpoch (lf_t x) (lf_s x) = ((t, s), err)"
    using c by (auto simp: sink_Close_def closeEpoch_def split: if_splits option.splits)
  show ?thesis
  proof (cases "lf_dead x")
    case True
    note same = close_quiet [OF lifeInvD(11) [OF inv True] c]
    have "lifeInv key (x\<lparr>lf_s := s\<rparr>)"
      using sameFiles_fileAt [OF same] same by (intro lifeInv_others [OF inv]) (simp_all add: sameFiles_def)
    then show ?thesis using True closed_quiet [OF c] unfolding lifeInv_def by (simp add: quiet_def)
  qed (rule lifeInv_closed [OF inv _ c])
qed

lemma lifeInv_notify:
  assumes inv: "lifeInv key x" and x: "\<not> lf_dead x" "i \<in> lf_complete x"
    and n: "NotifyCheckpointComplete i (lf_t x) (lf_s x) = (s, err)"
  shows "lifeInv key (x\<lparr>lf_s := s\<rparr>)"
proof -
  have i: "1 \<le> sint i" "sint i < sint (lf_closed x)" using lifeInvD(3) [OF inv x(2)] by auto
  note n' = notify_inv [OF lifeInvD(6) [OF inv x(1)] lifeInvD(4) [OF inv] i x(2) n]
  show ?thesis
    using inv n' x(1) lifeInvD(5) [OF inv x(1)] lifeInvD(8) [OF inv] unfolding lifeInv_def by simp
qed

lemma lifeInv_complete:
  assumes inv: "lifeInv key x" and i: "1 \<le> sint i" "sint i < sint (lf_closed x)"
  shows "lifeInv key (x\<lparr>lf_complete := insert i (lf_complete x)\<rparr>)"
proof -
  have "filesInv (lf_epochs x) (lf_ends x) (insert i (lf_complete x)) key (lf_closed x) (fileAt (lf_s x))"
    by (rule filesInv_mono [OF lifeInvD(4) [OF inv]]) auto
  then show ?thesis using inv i unfolding lifeInv_def by simp
qed

text \<open>What a restart leaves, whether the sink comes up or not.\<close>

lemma restart_spec:
  assumes inv: "lifeInv key x" and x: "latestOf (lf_complete x) k"
    and r: "runStart key k ((lf_s x)\<lparr>sto_script := script, sto_down := False\<rparr>) = ((t, s), err)"
  shows "0 \<le> sint k" "sint (k + 1) = sint k + 1" "sint (k + 1) \<le> sint (lf_closed x)"
    "filesInv (keptUpTo k (lf_epochs x)) (lf_ends x) (lf_complete x) key (k + 1) (fileAt s)"
    "err = None \<Longrightarrow> stagingDir \<in> set (sto_dirs s) \<and> liveInv (keptUpTo k (lf_epochs x)) key (k + 1) t (fileAt s) \<and>
       (\<forall>e. fileAt s (stagingPath key e) = None)"
proof -
  have k: "0 \<le> sint k" "sint k + 1 \<le> sint (lf_closed x)"
    using x lifeInvD(1) [OF inv] lifeInvD(3) [OF inv, of k] by (auto simp: latestOf_def)
  have kL: "sint k < 2 ^ 63 - 1" using k(2) lifeInvD(2) [OF inv] by linarith
  have k1: "sint (k + 1) = sint k + 1" using kL by (rule sint_Suc)
  show "0 \<le> sint k" "sint (k + 1) = sint k + 1" "sint (k + 1) \<le> sint (lf_closed x)" using k k1 by simp_all
  let ?s = "(lf_s x)\<lparr>sto_script := script, sto_down := False\<rparr>" and ?W = "keptUpTo k (lf_epochs x)"
  have fs: "fileAt ?s = fileAt (lf_s x)" by (simp add: fileAt_def [abs_def])
  have f: "filesInv ?W (lf_ends x) (lf_complete x) key (k + 1) (fileAt ?s)"
    unfolding fs
  proof (rule filesInv_mono [OF lifeInvD(4) [OF inv]])
    show "?W e = lf_epochs x e" if "c \<in> lf_complete x" "sint e \<le> sint c" for c e
      using x that by (auto simp: keptUpTo_def latestOf_def)
  qed (use k k1 in \<open>auto simp: keptUpTo_def\<close>)
  have new: "?W (k + 1) = []" using k1 by (simp add: keptUpTo_def)
  note st = runStart_spec [OF k(1) kL f new r]
  have "\<forall>e :: int64. 1 \<le> sint e \<and> sint e \<le> sint k \<longrightarrow> (\<exists>c \<in> lf_complete x. sint e \<le> sint c)"
    using x by (auto simp: latestOf_def)
  then show "filesInv ?W (lf_ends x) (lf_complete x) key (k + 1) (fileAt s)"
    using filesInv_settling [OF f st(1) k1] by blast
  show "err = None \<Longrightarrow> stagingDir \<in> set (sto_dirs s) \<and> liveInv ?W key (k + 1) t (fileAt s) \<and>
       (\<forall>e. fileAt s (stagingPath key e) = None)" by (rule st(2))
qed

lemma lifeInv_restart:
  assumes inv: "lifeInv key x" and x: "latestOf (lf_complete x) k"
    and r: "runStart key k ((lf_s x)\<lparr>sto_script := script, sto_down := False\<rparr>) = ((t, s), err)"
  shows "lifeInv key (x\<lparr>lf_t := t, lf_s := s, lf_epochs := keptUpTo k (lf_epochs x), lf_closed := k + 1,
    lf_dead := (err \<noteq> None), lf_finished := False\<rparr>)"
proof -
  note st = restart_spec [OF inv x r]
  have "\<forall>i \<in> lf_complete x. 1 \<le> sint i \<and> sint i < sint (k + 1)"
    using lifeInvD(3) [OF inv] x st(2) by (force simp: latestOf_def)
  moreover have "keptUpTo k (lf_epochs x) e = []" if "sint e < 1 \<or> sint (k + 1) < sint e" for e
    using that lifeInvD(7) [OF inv, of e] st(2) by (auto simp: keptUpTo_def)
  moreover have "sint (k + 1) < 2 ^ 63 - 1" using st(3) lifeInvD(2) [OF inv] by linarith
  ultimately show ?thesis using st runStart_quiet [OF r] unfolding lifeInv_def by simp
qed

lemma lifeInv_finish:
  assumes inv: "lifeInv key x" and x: "\<not> lf_dead x" and r: "runEnd (lf_t x) (lf_s x) = ((t, s), err)"
  shows "lifeInv key (x\<lparr>lf_t := t, lf_s := s, lf_dead := True, lf_ends := insert (lf_epochs x) (lf_ends x),
    lf_finished := (err = None)\<rparr>)"
proof -
  let ?W = "lf_epochs x" and ?E = "insert (lf_epochs x) (lf_ends x)"
  have f: "filesInv ?W ?E (lf_complete x) key (lf_closed x) (fileAt (lf_s x))"
    by (rule filesInv_mono [OF lifeInvD(4) [OF inv]]) auto
  note e = runEnd_spec [OF lifeInvD(6) [OF inv x] f _ lifeInv_next [OF inv, THEN conjunct2] lifeInvD(1,2) [OF inv] r, simplified]
  have "fileAt s (committedPath key e) = Some (encodeRecords (?W e))" if "err = None" "?W e \<noteq> []" for e
    using e(2) [OF that(1), of e] that(2) lifeInvD(7) [OF inv, of e] by (cases "sint e < 1 \<or> sint (lf_closed x) < sint e") auto
  then show ?thesis using inv e(1) runEnd_quiet [OF r] unfolding lifeInv_def by simp
qed

lemma lives_inv: "lives key x \<Longrightarrow> lifeInv key x"
proof (induction rule: lives.induct)
  case (begins x)
  then show ?case
    by (auto simp: life_begin_def lifeInv_def filesInv_def vouchedFor_def isEpoch_def plainNames_def quiet_def)
next
  case (step x y)
  from step.hyps(2) step.IH show ?case
  proof cases
    case (others s)
    note f = others(3) [THEN spec]
    show ?thesis unfolding others(1)
    proof (rule lifeInv_others [OF step.IH others(2)])
      show "fileAt s (stagingPath key i) = fileAt (lf_s x) (stagingPath key i)" for i using f [of "stagingPath key i"] by blast
      show "fileAt s (committedPath key i) = fileAt (lf_s x) (committedPath key i)" for i using f [of "committedPath key i"] by blast
      show "fileAt s (stagingDir, n) = fileAt (lf_s x) (stagingDir, n)" if "checkpointOf key n \<noteq> None" for n
        using f [of "(stagingDir, n)"] that by auto
    qed
  next
    case (writes rec t s err)
    show ?thesis unfolding writes(1) by (rule lifeInv_write [OF step.IH writes(2,3)])
  next
    case (restart k script t s err)
    show ?thesis unfolding restart(1) by (rule lifeInv_restart [OF step.IH restart(2,3)])
  qed (auto intro: lifeInv_snapshot lifeInv_snapshot_fails lifeInv_notify lifeInv_finish lifeInv_closes lifeInv_complete)
qed

text \<open>What the invariant says of the committed files.\<close>

lemma lives_committed:
  assumes "lives key x" "fileAt (lf_s x) (committedPath key e) = Some raw"
  shows "(lf_epochs x e \<noteq> [] \<and> raw = encodeRecords (lf_epochs x e) \<and> (\<exists>k \<in> lf_complete x. sint e \<le> sint k)) \<or>
    (\<exists>V \<in> lf_ends x. V e \<noteq> [] \<and> raw = encodeRecords (V e))"
  using filesInvD(1) [OF lifeInvD(4) [OF lives_inv [OF assms(1)]], of e] assms(2)
  by (auto simp: vouchedFor_def isEpoch_def)

section \<open>An example\<close>

text \<open>Histories that can be evaluated.\<close>

datatype lifeEvent = DoStart int64 | DoWrite Record | DoSnapshot | DoComplete int64 | DoNotify int64 | DoEnd

fun lifeDo :: "SubtaskKey \<Rightarrow> lifeEvent \<Rightarrow> life \<Rightarrow> life option" where
  "lifeDo key (DoStart k) x =
     (if \<not> latestOf (lf_complete x) k then None
      else case runStart key k ((lf_s x)\<lparr>sto_script := [], sto_down := False\<rparr>) of
          ((t, s), err) \<Rightarrow> Some (x\<lparr>lf_t := t, lf_s := s, lf_epochs := keptUpTo k (lf_epochs x), lf_closed := k + 1,
            lf_dead := (err \<noteq> None), lf_finished := False\<rparr>))"
| "lifeDo key (DoWrite rec) x =
     (if lf_dead x then None
      else case sink_Write rec (lf_t x) (lf_s x) of
          ((t, s), err) \<Rightarrow> Some (x\<lparr>lf_t := t, lf_s := s, lf_epochs := wroteTo (lf_closed x) rec (lf_epochs x), lf_dead := (err \<noteq> None)\<rparr>))"
| "lifeDo key DoSnapshot x =
     (if lf_dead x \<or> \<not> sint (lf_closed x) < 2 ^ 63 - 2 then None
      else case sink_Snapshot (lf_t x) (lf_s x) of
          ((t, s), Inr payload) \<Rightarrow> Some (x\<lparr>lf_t := t, lf_s := s, lf_closed := lf_closed x + 1\<rparr>)
        | _ \<Rightarrow> None)"
| "lifeDo key (DoComplete i) x =
     (if 1 \<le> sint i \<and> sint i < sint (lf_closed x) then Some (x\<lparr>lf_complete := insert i (lf_complete x)\<rparr>) else None)"
| "lifeDo key (DoNotify i) x =
     (if lf_dead x \<or> i \<notin> lf_complete x then None
      else case NotifyCheckpointComplete i (lf_t x) (lf_s x) of (s, err) \<Rightarrow> Some (x\<lparr>lf_s := s\<rparr>))"
| "lifeDo key DoEnd x =
     (if lf_dead x then None
      else case runEnd (lf_t x) (lf_s x) of
          ((t, s), err) \<Rightarrow> Some (x\<lparr>lf_t := t, lf_s := s, lf_dead := True, lf_ends := insert (lf_epochs x) (lf_ends x),
            lf_finished := (err = None)\<rparr>))"

fun lifeRun :: "SubtaskKey \<Rightarrow> lifeEvent list \<Rightarrow> life \<Rightarrow> life option" where
  "lifeRun key [] x = Some x"
| "lifeRun key (e # es) x = (case lifeDo key e x of None \<Rightarrow> None | Some y \<Rightarrow> lifeRun key es y)"

lemma lifeDo_step: "lifeDo key e x = Some y \<Longrightarrow> life_step key x y"
  by (cases e) (auto intro: life_step.intros simp del: not_None_eq split: if_splits prod.splits sum.splits)

lemma lifeRun_lives: "lives key x \<Longrightarrow> lifeRun key es x = Some y \<Longrightarrow> lives key y"
  by (induction es arbitrary: x) (auto dest: lives.step [OF _ lifeDo_step] split: option.splits)

text \<open>A job whose first run writes one epoch, completes its checkpoint, and dies in the next epoch.\<close>

definition example_sink :: SubtaskKey where "example_sink = \<lparr>sk_VertexID = [111], sk_Index = 0\<rparr>"
definition example_output :: Record where "example_output = \<lparr>Key = [1], Value = [2], EventTime = 5\<rparr>"
definition example_lost :: Record where "example_lost = \<lparr>Key = [3], Value = [], EventTime = 6\<rparr>"
definition example_again :: Record where "example_again = \<lparr>Key = [4], Value = [7], EventTime = 7\<rparr>"

definition emptyStore :: store where "emptyStore = \<lparr>sto_files = [], sto_dirs = [], sto_script = [], sto_down = False\<rparr>"

definition example_unborn :: life where
  "example_unborn = \<lparr>lf_t = NewTransactional, lf_s = emptyStore, lf_epochs = (\<lambda>_. []), lf_closed = 1, lf_complete = {},
     lf_dead = True, lf_ends = {}, lf_finished = False\<rparr>"

definition example_died :: "lifeEvent list" where
  "example_died = [DoStart 0, DoWrite example_output, DoSnapshot, DoComplete 1, DoWrite example_lost]"

lemma example_unborn_lives: "lives key example_unborn"
  by (rule lives.begins) (simp add: life_begin_def example_unborn_def emptyStore_def fileAt_def NewTransactional_def)

text \<open>What its calls do.\<close>

definition openStore :: store where "openStore = emptyStore\<lparr>sto_dirs := [committedDir, stagingDir]\<rparr>"
definition freshSink :: Transactional where
  "freshSink = NewTransactional\<lparr>tx_opened := True, tx_key := example_sink\<rparr>"
definition bufferOf :: "int64 \<Rightarrow> Record \<Rightarrow> bufio" where
  "bufferOf i rec = \<lparr>bw_file = stagingPath example_sink i, bw_buf = encodeRecord rec, bw_err = None\<rparr>"
definition writing :: "int64 \<Rightarrow> Record \<Rightarrow> Transactional" where
  "writing i rec = freshSink\<lparr>tx_buf := Some (bufferOf i rec), tx_written := [1], tx_epoch := i\<rparr>"

abbreviation "oneStaged \<equiv> putFile (stagingPath example_sink 1) (encodeRecord example_output) openStore"
abbreviation "oneCommitted \<equiv> putFile (committedPath example_sink 1) (encodeRecord example_output) openStore"

lemma dirs_distinct [simp]: "committedDir \<noteq> stagingDir" "stagingDir \<noteq> committedDir"
  by (simp_all add: committedDir_def stagingDir_def)

lemmas os_calls = os_do_def os_tick_def os_MkdirAll_def os_OpenDir_def os_Sync_def os_Close_def os_ReadDir_def os_OpenFile_def os_Write_def os_Rename_def
  os_Remove_def os_Stat_def syncDir_def

lemmas example_states = freshSink_def NewTransactional_def openStore_def emptyStore_def bufferOf_def writing_def putFile_def dropFile_def appendFile_def fileAt_def

lemma example_start: "runStart example_sink 0 emptyStore = ((freshSink, openStore), None)"
  by (simp add: runStart_def sink_Open_def NewTransactional_def sink_checkVertexID_def example_sink_def emptyStore_def openStore_def freshSink_def
    os_calls sink_Restore_def settleStaged_def)

lemma example_length:
  "length (encodeRecord example_output) \<le> bufioSize" "length (encodeRecord example_lost) \<le> bufioSize" "length (encodeRecord example_again) \<le> bufioSize"
  by (simp_all add: encodeRecord_def recordBody_def example_output_def example_lost_def example_again_def bufioSize_def)

lemma example_write: "sink_Write example_output freshSink openStore =
   ((writing 1 example_output, putFile (stagingPath example_sink 1) [] openStore), None)"
  using example_length
  by (simp add: sink_Write_def openEpoch_def writeRecord_def bw_Write_def os_calls example_states stagingPath_def Let_def)

lemma example_snapshot:
  "sink_Snapshot (writing 1 example_output) (putFile (stagingPath example_sink 1) [] openStore) =
     ((freshSink\<lparr>tx_written := [1], tx_epoch := 2\<rparr>, oneStaged), Inr (be_put 8 (1 :: int64)))"
  by (simp add: sink_Snapshot_def closeEpoch_def bw_Flush_def os_calls example_states)

lemma example_write_lost:
  "sink_Write example_lost (freshSink\<lparr>tx_written := [1], tx_epoch := 2\<rparr>) oneStaged =
     ((freshSink\<lparr>tx_buf := Some (bufferOf 2 example_lost), tx_written := [2, 1], tx_epoch := 2\<rparr>,
       putFile (stagingPath example_sink 2) [] oneStaged), None)"
  using example_length
  by (simp add: sink_Write_def openEpoch_def writeRecord_def bw_Write_def os_calls example_states stagingPath_def Let_def)

lemma example_names:
  "sort [sink_fileName example_sink 1 stagingSuffix, sink_fileName example_sink 2 stagingSuffix] =
    [sink_fileName example_sink 1 stagingSuffix, sink_fileName example_sink 2 stagingSuffix]"
  "sink_fileName example_sink 1 stagingSuffix \<noteq> sink_fileName example_sink 2 stagingSuffix"
  "sink_fileName example_sink 1 commitSuffix \<noteq> sink_fileName example_sink 2 commitSuffix"
  by code_simp+

lemma example_epochs:
  "checkpointOf example_sink (sink_fileName example_sink 1 stagingSuffix) = Some 1"
  "checkpointOf example_sink (sink_fileName example_sink 2 stagingSuffix) = Some 2"
  by (rule checkpointOf_fileName, simp)+

lemma example_restart:
  "runStart example_sink 1 (putFile (stagingPath example_sink 2) [] oneStaged) =
     ((freshSink\<lparr>tx_epoch := 2, tx_firstEpoch := 2\<rparr>, oneCommitted), None)"
proof -
  have "sink_checkVertexID (sk_VertexID example_sink) = None" by (simp add: sink_checkVertexID_def example_sink_def)
  moreover have "(1 :: int64) <s 2" by (simp add: word_sless_alt)
  ultimately show ?thesis
    unfolding runStart_def using example_names
    by (simp add: Restore_payload [of 1, simplified] sink_Open_def os_calls settleStaged_def example_states
      stagingPath_def committedPath_def example_epochs)
qed

lemma example_again_ends:
  "\<exists>t s t1 s1. sink_Write example_again (freshSink\<lparr>tx_epoch := 2, tx_firstEpoch := 2\<rparr>) oneCommitted = ((t, s), None) \<and>
     runEnd t s = ((t1, s1), None)"
  using example_length
  by (simp add: sink_Write_def openEpoch_def writeRecord_def bw_Write_def runEnd_def sink_Close_def closeEpoch_def bw_Flush_def
    CommitFinalEpoch_def os_calls example_states stagingPath_def committedPath_def Let_def)

lemma example_fits: "fitsRecord example_output" "fitsRecord example_lost" "fitsRecord example_again"
  by (simp_all add: fitsRecord_def example_output_def example_lost_def example_again_def)

text \<open>Another run of the job starts from the checkpoint and writes another record; it ends.\<close>

lemma example_died_run:
  "lifeRun example_sink example_died example_unborn =
     Some (example_unborn\<lparr>lf_t := freshSink\<lparr>tx_buf := Some (bufferOf 2 example_lost), tx_written := [2, 1], tx_epoch := 2\<rparr>,
       lf_s := putFile (stagingPath example_sink 2) [] oneStaged, lf_closed := 2, lf_complete := {1}, lf_dead := False,
       lf_epochs := wroteTo 2 example_lost (wroteTo 1 example_output (\<lambda>_. []))\<rparr>)"
  by (simp add: example_died_def example_unborn_def latestOf_def example_start [unfolded emptyStore_def] emptyStore_def example_write
    example_snapshot example_write_lost fun_eq_iff keptUpTo_def wroteTo_def)

lemma example_died_lives: "\<exists>x. lives example_sink x \<and> lifeRun example_sink example_died example_unborn = Some x"
  using lifeRun_lives [OF example_unborn_lives example_died_run] example_died_run by blast

definition example_line :: "int64 \<Rightarrow> Record list" where
  "example_line = wroteTo 2 example_again (wroteTo 1 example_output (\<lambda>_. []))"

lemma example_kept:
  "keptUpTo 1 (wroteTo 2 example_lost (wroteTo 1 example_output (\<lambda>_. []))) = wroteTo 1 example_output (\<lambda>_. [])"
  by (auto simp: keptUpTo_def wroteTo_def fun_eq_iff)

lemma example_ended:
  "\<exists>y. lifeRun example_sink (example_died @ [DoStart 1, DoWrite example_again, DoEnd]) example_unborn = Some y \<and>
     lf_finished y \<and> lf_epochs y = example_line \<and> lf_ends y = {example_line}"
proof -
  have app: "lifeRun key (es @ es') x = Option.bind (lifeRun key es x) (lifeRun key es')" for key es es' x
    by (induction es arbitrary: x) (auto split: option.splits)
  obtain t s t1 s1 where e: "sink_Write example_again (freshSink\<lparr>tx_epoch := 2, tx_firstEpoch := 2\<rparr>) oneCommitted = ((t, s), None)"
    "runEnd t s = ((t1, s1), None)" using example_again_ends by blast
  have s: "(putFile (stagingPath example_sink 2) [] oneStaged)\<lparr>sto_script := [], sto_down := False\<rparr> = putFile (stagingPath example_sink 2) [] oneStaged"
    by (simp add: example_states)
  show ?thesis
    unfolding app example_died_run
    by (simp add: latestOf_def s example_restart e example_kept example_line_def example_unborn_def)
qed

section \<open>Properties\<close>

text \<open>C4. Exactly once. Take any history of the sink of a subtask: any number of runs, each writing what
  records it likes, in what order it likes, into whatever epochs it gets to, killed or failing
  anywhere, the next one resumed from the latest completed checkpoint, with other subtasks at
  work in the same directories (no record reaches 4 GiB, and the epoch counter stays below its
  bound). A committed file holds, whole and nothing else, what the line of runs that was resumed
  wrote into its epoch, and a completed checkpoint covers it: never a part of an epoch, and
  never what a run wrote after the checkpoint its successor was resumed from. The one
  exception is a run whose job ended, so that it committed its last epochs, or began to, before
  another sink failed and the job was run again: a file may then hold what that run wrote. Once
  the job has ended, every epoch with records is committed, whole; and unless an earlier run
  had got as far as the last commit, nothing else is.\<close>

theorem exactly_once_output:
  assumes "lives key x" "\<forall>V \<in> insert (lf_epochs x) (lf_ends x). \<forall>e. list_all fitsRecord (V e)"
  shows "(\<forall>e raw. fileAt (lf_s x) (committedPath key e) = Some raw \<longrightarrow>
      (lf_epochs x e \<noteq> [] \<and> decodeRecords raw = Inr (lf_epochs x e) \<and> (\<exists>k \<in> lf_complete x. sint e \<le> sint k)) \<or>
      (\<exists>V \<in> lf_ends x. V e \<noteq> [] \<and> decodeRecords raw = Inr (V e))) \<and>
    (lf_finished x \<longrightarrow> lf_epochs x \<in> lf_ends x \<and>
      (\<forall>e. lf_epochs x e \<noteq> [] \<longrightarrow> (\<exists>raw. fileAt (lf_s x) (committedPath key e) = Some raw \<and> decodeRecords raw = Inr (lf_epochs x e))) \<and>
      (lf_ends x = {lf_epochs x} \<longrightarrow> (\<forall>e. lf_epochs x e = [] \<longrightarrow> fileAt (lf_s x) (committedPath key e) = None)))"
proof -
  note inv = lives_inv [OF assms(1)]
  have dec: "decodeRecords (encodeRecords (V e)) = Inr (V e)" if "V \<in> insert (lf_epochs x) (lf_ends x)" for V e
    using assms(2) that by (blast intro: decode_encode_records)
  have "(lf_epochs x e \<noteq> [] \<and> decodeRecords raw = Inr (lf_epochs x e) \<and> (\<exists>k \<in> lf_complete x. sint e \<le> sint k)) \<or>
      (\<exists>V \<in> lf_ends x. V e \<noteq> [] \<and> decodeRecords raw = Inr (V e))"
    if "fileAt (lf_s x) (committedPath key e) = Some raw" for e raw
    using lives_committed [OF assms(1) that] dec by (metis insertCI)
  moreover have "fileAt (lf_s x) (committedPath key e) = None" if "lf_ends x = {lf_epochs x}" "lf_epochs x e = []" for e
    using lives_committed [OF assms(1), of e] that by (cases "fileAt (lf_s x) (committedPath key e)") auto
  ultimately show ?thesis using lifeInvD(9,10) [OF inv] dec by blast
qed

text \<open>The first run's record of the second epoch is discarded, and the second run's is committed.\<close>

theorem exactly_once_output_witness:
  "\<exists>x. lives example_sink x \<and> lf_finished x \<and>
    lifeRun example_sink (example_died @ [DoStart 1, DoWrite example_again, DoEnd]) example_unborn = Some x \<and>
    (\<exists>raw. fileAt (lf_s x) (committedPath example_sink 1) = Some raw \<and> decodeRecords raw = Inr [example_output]) \<and>
    (\<exists>raw. fileAt (lf_s x) (committedPath example_sink 2) = Some raw \<and> decodeRecords raw = Inr [example_again]) \<and>
    (\<forall>e. e \<noteq> 1 \<and> e \<noteq> 2 \<longrightarrow> fileAt (lf_s x) (committedPath example_sink e) = None)"
proof -
  obtain x where x: "lifeRun example_sink (example_died @ [DoStart 1, DoWrite example_again, DoEnd]) example_unborn = Some x"
    "lf_finished x" "lf_epochs x = example_line" "lf_ends x = {example_line}" using example_ended by blast
  have at: "example_line 1 = [example_output]" "example_line 2 = [example_again]" "e \<noteq> 1 \<Longrightarrow> e \<noteq> 2 \<Longrightarrow> example_line e = []" for e
    by (simp_all add: example_line_def wroteTo_def)
  then have "\<forall>V \<in> insert (lf_epochs x) (lf_ends x). \<forall>e. list_all fitsRecord (V e)"
    using example_fits by (simp add: x(3,4) example_line_def wroteTo_def)
  from exactly_once_output [OF lifeRun_lives [OF example_unborn_lives x(1)] this]
  have "\<forall>e. example_line e \<noteq> [] \<longrightarrow> (\<exists>raw. fileAt (lf_s x) (committedPath example_sink e) = Some raw \<and> decodeRecords raw = Inr (example_line e))"
    "\<forall>e. example_line e = [] \<longrightarrow> fileAt (lf_s x) (committedPath example_sink e) = None"
    using x(2-4) by simp_all
  then show ?thesis using x(1,2) lifeRun_lives [OF example_unborn_lives x(1)] at by (metis not_Cons_self2)
qed

text \<open>C20. Nothing that a completed checkpoint covers is lost by a restart. A run that starts from the
  latest completed checkpoint, whatever its predecessors left staged or committed, has
  committed every epoch up to that checkpoint once \<open>Open\<close> and \<open>Restore\<close> return, and has left no
  staged file of the subtask behind; it continues with the epoch after it.\<close>

theorem restart_settles:
  assumes "lives key x" "latestOf (lf_complete x) k"
    and "runStart key k ((lf_s x)\<lparr>sto_script := script, sto_down := False\<rparr>) = ((t, s), None)"
  shows "(\<forall>e. sint e \<le> sint k \<and> lf_epochs x e \<noteq> [] \<longrightarrow> fileAt s (committedPath key e) = Some (encodeRecords (lf_epochs x e))) \<and>
    (\<forall>e. fileAt s (stagingPath key e) = None) \<and> tx_epoch t = k + 1 \<and> tx_firstEpoch t = k + 1"
proof -
  note inv = lives_inv [OF assms(1)]
  note st = restart_spec [OF inv assms(2,3)]
  have gone: "\<And>e. fileAt s (stagingPath key e) = None" and live: "liveInv (keptUpTo k (lf_epochs x)) key (k + 1) t (fileAt s)"
    using st(5) by auto
  have "fileAt s (committedPath key e) = Some (encodeRecords (lf_epochs x e))" if "sint e \<le> sint k" "lf_epochs x e \<noteq> []" for e
    using filesInvD(3) [OF st(4), of e] lifeInvD(7) [OF inv, of e] that gone [of e] st(2) by (cases "sint e < 1") (auto simp: keptUpTo_def)
  moreover have "tx_firstEpoch t = k + 1"
  proof -
    have "\<exists>t0. t = t0\<lparr>tx_epoch := k + 1, tx_firstEpoch := k + 1, tx_written := []\<rparr>"
      using assms(3) by (auto simp: runStart_def Restore_payload [OF st(1)] split: prod.splits option.splits)
    then show ?thesis by auto
  qed
  ultimately show ?thesis using gone liveInvD(2) [OF live] by blast
qed

theorem restart_settles_witness:
  "\<exists>t s. runStart example_sink 1 (putFile (stagingPath example_sink 2) [] oneStaged) = ((t, s), None) \<and>
    fileAt s (committedPath example_sink 1) = Some (encodeRecord example_output) \<and>
    fileAt s (stagingPath example_sink 2) = None \<and> tx_epoch t = 2"
proof -
  obtain x where x: "lives example_sink x" "lifeRun example_sink example_died example_unborn = Some x" using example_died_lives by blast
  have s: "(lf_s x)\<lparr>sto_script := [], sto_down := False\<rparr> = putFile (stagingPath example_sink 2) [] oneStaged"
    using x(2) example_died_run by (auto simp: example_states)
  have "latestOf (lf_complete x) 1" "lf_epochs x 1 = [example_output]"
    using x(2) by (auto simp: example_died_run latestOf_def wroteTo_def)
  from restart_settles [OF x(1) this(1), of "[]", unfolded s, OF example_restart] this(2) example_restart show ?thesis
    by (auto simp: encodeRecords_def dest!: spec [of _ 1])
qed

end
