(* ===== verification/Sink_Subtask.thy ===== *)
theory Sink_Subtask
  imports Shared_Coordinator Exactly_Once "HOL-Library.Sublist"
begin

text \<open>
  The subtask of a sink in \<open>pkg/runtime/subtask.go\<close>: the loop over the elements its gate delivers,
  the snapshot at a barrier, the notification of the checkpoints that completed, and the commit
  of the last epochs once a job has succeeded. The sink is the table of the methods of
  \<open>core.Sink\<close> and of the two optional interfaces; the transactional sink and the two sinks of
  \<open>pkg/sinks/memory.go\<close> are instances. The main theorem is that a run of the subtask over the
  transactional sink is a sequence of steps of the life of \<open>Exactly_Once\<close>.
\<close>

section \<open>Sinks\<close>

text \<open>\<open>Snapshot\<close> writes to a buffer, which never fails; its contents are the payload.\<close>

record 'k Sink =
  snk_Open :: "SubtaskKey \<Rightarrow> 'k \<Rightarrow> 'k \<times> go_error option"
  snk_Write :: "Record \<Rightarrow> 'k \<Rightarrow> 'k \<times> go_error option"
  snk_Snapshot :: "'k \<Rightarrow> 'k \<times> bytes result"
  snk_NotifyCheckpointComplete :: "int64 \<Rightarrow> 'k \<Rightarrow> 'k \<times> go_error option"
  snk_Close :: "'k \<Rightarrow> 'k \<times> go_error option"
  snk_Restore :: "(bytes \<Rightarrow> 'k \<Rightarrow> 'k \<times> go_error option) option"
  snk_CommitFinalEpoch :: "('k \<Rightarrow> 'k \<times> go_error option) option"

definition Transactional_sink :: "(Transactional \<times> store) Sink" where
  "Transactional_sink =
     \<lparr>snk_Open = (\<lambda>key (t, s). sink_Open key t s),
      snk_Write = (\<lambda>rec (t, s). sink_Write rec t s),
      snk_Snapshot = (\<lambda>(t, s). sink_Snapshot t s),
      snk_NotifyCheckpointComplete =
        (\<lambda>i (t, s). case NotifyCheckpointComplete i t s of (s', e) \<Rightarrow> ((t, s'), e)),
      snk_Close = (\<lambda>(t, s). sink_Close t s),
      snk_Restore = Some (\<lambda>payload (t, s). sink_Restore payload t s),
      snk_CommitFinalEpoch = Some (\<lambda>(t, s). CommitFinalEpoch t s)\<rparr>"

text \<open>\<open>sinks.Collect\<close> is its records, and \<open>sinks.Discard\<close> has nothing.\<close>

definition Collect_Write :: "Record \<Rightarrow> Record list \<Rightarrow> Record list \<times> go_error option" where
  "Collect_Write rec c = (c @ [rec], None)"

definition Collect_sink :: "Record list Sink" where
  "Collect_sink =
     \<lparr>snk_Open = (\<lambda>key c. (c, None)), snk_Write = Collect_Write, snk_Snapshot = (\<lambda>c. (c, Inr [])),
      snk_NotifyCheckpointComplete = (\<lambda>i c. (c, None)), snk_Close = (\<lambda>c. (c, None)),
      snk_Restore = None, snk_CommitFinalEpoch = None\<rparr>"

definition Collect_Records :: "Record list \<Rightarrow> Record list" where
  "Collect_Records c = c"

definition Discard_sink :: "unit Sink" where
  "Discard_sink =
     \<lparr>snk_Open = (\<lambda>key d. (d, None)), snk_Write = (\<lambda>rec d. (d, None)), snk_Snapshot = (\<lambda>d. (d, Inr [])),
      snk_NotifyCheckpointComplete = (\<lambda>i d. (d, None)), snk_Close = (\<lambda>d. (d, None)),
      snk_Restore = None, snk_CommitFinalEpoch = None\<rparr>"

lemma Transactional_sink_methods [simp]:
  "snk_Open Transactional_sink key (t, s) = sink_Open key t s"
  "snk_Write Transactional_sink rec (t, s) = sink_Write rec t s"
  "snk_Snapshot Transactional_sink (t, s) = sink_Snapshot t s"
  "snk_NotifyCheckpointComplete Transactional_sink i (t, s) = ((t, fst (NotifyCheckpointComplete i t s)), snd (NotifyCheckpointComplete i t s))"
  "snk_Close Transactional_sink (t, s) = sink_Close t s"
  "snk_Restore Transactional_sink = Some (\<lambda>payload (t, s). sink_Restore payload t s)"
  "snk_CommitFinalEpoch Transactional_sink = Some (\<lambda>(t, s). CommitFinalEpoch t s)"
  by (simp_all add: Transactional_sink_def split: prod.split)

section \<open>The loop\<close>

definition snapshotSinkState ::
  "'k Sink \<Rightarrow> 'c checkpointer \<Rightarrow> int64 \<Rightarrow> 'k \<Rightarrow> 'c \<Rightarrow> ('k \<times> 'c) \<times> go_error option" where
  "snapshotSinkState SK cp i k c =
     (if \<not> cp_enabled cp
      then case snk_Snapshot SK k of
          (k1, Inl e) \<Rightarrow> ((k1, c), Some e)
        | (k1, Inr _) \<Rightarrow> ((k1, c), None)
      else case snk_Snapshot SK k of
          (k1, Inl e) \<Rightarrow> ((k1, cp_fail cp i c), Some e)
        | (k1, Inr buf) \<Rightarrow> (case cp_snapshot cp i buf c of (c1, e) \<Rightarrow> ((k1, c1), e)))"

text \<open>The error of a notification is logged and dropped.\<close>

fun notifyCompleted :: "'k Sink \<Rightarrow> int64 list \<Rightarrow> int64 list \<Rightarrow> 'k \<Rightarrow> 'k \<times> int64 list" where
  "notifyCompleted SK [] staged k = (k, staged)"
| "notifyCompleted SK (i # completed) staged k =
     notifyCompleted SK completed (filter (\<lambda>n. n \<noteq> i) staged) (fst (snk_NotifyCheckpointComplete SK i k))"

text \<open>\<open>wm\<close> is the watermark of the sink's context; \<open>fin\<close> is what the loop returns when the gate
  delivers no more. \<open>None\<close> is a subtask that still waits for its last checkpoints.\<close>

fun runSinkLoop ::
  "'k Sink \<Rightarrow> 'c checkpointer \<Rightarrow> faults \<Rightarrow> go_error option \<Rightarrow> StreamElement list \<Rightarrow> int64 \<Rightarrow> int64 list \<Rightarrow>
   int64 \<Rightarrow> 'k \<Rightarrow> 'c \<Rightarrow> (('k \<times> int64 \<times> 'c) \<times> go_error option) option" where
  "runSinkLoop SK cp fs fin [] elements staged wm k c = Some ((k, wm, c), fin)"
| "runSinkLoop SK cp fs fin (RecordElement rec # es) elements staged wm k c =
     (case beforeElement fs elements of
        Some e \<Rightarrow> Some ((k, wm, c), Some e)
      | None \<Rightarrow>
          (case snk_Write SK rec k of
             (k1, Some e) \<Rightarrow> Some ((k1, wm, c), Some e)
           | (k1, None) \<Rightarrow> runSinkLoop SK cp fs fin es (elements + 1) staged wm k1 c))"
| "runSinkLoop SK cp fs fin (WatermarkElement t # es) elements staged wm k c =
     runSinkLoop SK cp fs fin es elements staged t k c"
| "runSinkLoop SK cp fs fin (BarrierElement b # es) elements staged wm k c =
     (case snapshotSinkState SK cp (CheckpointID b) k c of
        ((k1, c1), Some e) \<Rightarrow> Some ((k1, wm, c1), Some e)
      | ((k1, c1), None) \<Rightarrow>
          (case afterBarrierForwarded fs (CheckpointID b) of
             Some e \<Rightarrow> Some ((k1, wm, c1), Some e)
           | None \<Rightarrow>
               (case cp_completedAmong cp (staged @ [CheckpointID b]) c1 of
                  (c2, completed) \<Rightarrow>
                    (case notifyCompleted SK completed (staged @ [CheckpointID b]) k1 of
                       (k2, staged2) \<Rightarrow> runSinkLoop SK cp fs fin es elements staged2 wm k2 c2))))"
| "runSinkLoop SK cp fs fin (EndOfStreamElement # es) elements staged wm k c =
     (case cp_awaitCompletedAmong cp staged c of
        None \<Rightarrow> None
      | Some (c1, completed) \<Rightarrow>
          (case notifyCompleted SK completed staged k of (k1, _) \<Rightarrow> Some ((k1, wm, c1), None)))"
| "runSinkLoop SK cp fs fin (UnknownElement u # es) elements staged wm k c =
     Some ((k, wm, c), Some (RuntimeErr errUnexpectedElement))"

text \<open>The part between \<open>Open\<close> and the deferred \<open>Close\<close>.\<close>

definition runSinkOpened ::
  "'k Sink \<Rightarrow> 'c checkpointer \<Rightarrow> faults \<Rightarrow> bytes option \<Rightarrow> go_error option \<Rightarrow> StreamElement list \<Rightarrow>
   'k \<Rightarrow> 'c \<Rightarrow> (('k \<times> int64 \<times> 'c) \<times> go_error option) option" where
  "runSinkOpened SK cp fs restored fin es k c =
     (let payload = (case restored of None \<Rightarrow> [] | Some p \<Rightarrow> p)
      in case snk_Restore SK of
           None \<Rightarrow>
             if restored \<noteq> None \<and> 0 < length payload then Some ((k, minInt64, c), Some (RuntimeErr errNoRestore))
             else runSinkLoop SK cp fs fin es 0 [] minInt64 k c
         | Some restore \<Rightarrow>
             (case restore payload k of
                (k1, Some e) \<Rightarrow> Some ((k1, minInt64, c), Some e)
              | (k1, None) \<Rightarrow> runSinkLoop SK cp fs fin es 0 [] minInt64 k1 c))"

definition runSinkSubtask ::
  "'k Sink \<Rightarrow> subtaskID \<Rightarrow> 'c checkpointer \<Rightarrow> faults \<Rightarrow> bytes option \<Rightarrow> go_error option \<Rightarrow> StreamElement list \<Rightarrow>
   'k \<Rightarrow> 'c \<Rightarrow> (('k \<times> int64 \<times> 'c) \<times> go_error option) option" where
  "runSinkSubtask SK si cp fs restored fin es k c =
     (case snk_Open SK (checkpointKey si) k of
        (k1, Some e) \<Rightarrow> Some ((k1, minInt64, c), Some e)
      | (k1, None) \<Rightarrow>
          (case runSinkOpened SK cp fs restored fin es k1 c of
             None \<Rightarrow> None
           | Some ((k2, wm, c2), err) \<Rightarrow>
               (case snk_Close SK k2 of
                  (k3, cerr) \<Rightarrow> Some ((k3, wm, c2), if cerr \<noteq> None \<and> err = None then cerr else err))))"

text \<open>The sinks a job opened, each as its \<open>CommitFinalEpoch\<close> on what they share, if it has one.\<close>

fun commitFinalEpochs :: "('s \<Rightarrow> 's \<times> go_error option) option list \<Rightarrow> 's \<Rightarrow> 's \<times> go_error option" where
  "commitFinalEpochs [] s = (s, None)"
| "commitFinalEpochs (None # sinks) s = commitFinalEpochs sinks s"
| "commitFinalEpochs (Some f # sinks) s =
     (case f s of (s1, Some e) \<Rightarrow> (s1, Some e) | (s1, None) \<Rightarrow> commitFinalEpochs sinks s1)"

section \<open>The life of a transactional sink under its subtask\<close>

text \<open>The elements the gate delivers to a run that is at epoch \<open>i\<close>: anything at all, with barriers
  that are numbered on from \<open>i\<close>.\<close>

fun follows :: "int64 \<Rightarrow> StreamElement list \<Rightarrow> bool" where
  "follows i [] = True"
| "follows i (RecordElement rec # es) = follows i es"
| "follows i (WatermarkElement t # es) = follows i es"
| "follows i (BarrierElement b # es) \<longleftrightarrow> CheckpointID b = i \<and> sint i < 2 ^ 63 - 2 \<and> follows (i + 1) es"
| "follows i (EndOfStreamElement # es) = True"
| "follows i (UnknownElement u # es) = True"

text \<open>The records of epoch \<open>e\<close> among the elements of a run that is at epoch \<open>i\<close>.\<close>

fun recordsIn :: "int64 \<Rightarrow> StreamElement list \<Rightarrow> int64 \<Rightarrow> Record list" where
  "recordsIn i [] e = []"
| "recordsIn i (RecordElement rec # es) e = (if e = i then [rec] else []) @ recordsIn i es e"
| "recordsIn i (WatermarkElement t # es) e = recordsIn i es e"
| "recordsIn i (BarrierElement b # es) e = recordsIn (i + 1) es e"
| "recordsIn i (EndOfStreamElement # es) e = []"
| "recordsIn i (UnknownElement u # es) e = []"

lemma recordsIn_before: "follows i es \<Longrightarrow> sint e < sint i \<Longrightarrow> recordsIn i es e = []"
proof (induction i es e rule: recordsIn.induct)
  case (4 i b es e)
  then have "sint (i + 1) = sint i + 1" by (intro sint_Suc) simp
  then show ?case using 4 by simp
qed auto

text \<open>What a run has written by \<open>y\<close>, of the elements \<open>es\<close> it is given at \<open>x\<close>: of every epoch that it has
  closed all, and of the others some.\<close>

definition writtenOf :: "life \<Rightarrow> StreamElement list \<Rightarrow> life \<Rightarrow> bool" where
  "writtenOf x es y \<longleftrightarrow> (\<forall>e. prefix (lf_epochs y e) (lf_epochs x e @ recordsIn (lf_closed x) es e) \<and>
     (sint e < sint (lf_closed y) \<longrightarrow> lf_epochs y e = lf_epochs x e @ recordsIn (lf_closed x) es e))"

definition writtenAll :: "life \<Rightarrow> StreamElement list \<Rightarrow> life \<Rightarrow> bool" where
  "writtenAll x es y \<longleftrightarrow> \<not> lf_dead y \<and> lf_epochs y = (\<lambda>e. lf_epochs x e @ recordsIn (lf_closed x) es e)"

text \<open>The run over the elements \<open>es\<close> from checkpoint \<open>k\<close> continues the line of the runs before it.\<close>

definition lineOf :: "life \<Rightarrow> int64 \<Rightarrow> StreamElement list \<Rightarrow> int64 \<Rightarrow> Record list" where
  "lineOf x k es e = keptUpTo k (lf_epochs x) e @ recordsIn (k + 1) es e"

lemma writtenOf_none:
  "follows (lf_closed x) es \<Longrightarrow> lf_epochs y = lf_epochs x \<Longrightarrow> lf_closed y = lf_closed x \<Longrightarrow> writtenOf x es y"
  by (simp add: writtenOf_def recordsIn_before)

lemma writtenOf_one:
  assumes "follows (lf_closed x) es" "lf_epochs y = wroteTo (lf_closed x) rec (lf_epochs x)" "lf_closed y = lf_closed x"
  shows "writtenOf x (RecordElement rec # es) y"
proof -
  have "prefix (lf_epochs y e) (lf_epochs x e @ recordsIn (lf_closed x) (RecordElement rec # es) e)" for e
    using assms(2) by (cases "e = lf_closed x") auto
  moreover have "lf_epochs y e = lf_epochs x e @ recordsIn (lf_closed x) (RecordElement rec # es) e" if "sint e < sint (lf_closed y)" for e
    using assms that recordsIn_before by (cases "e = lf_closed x") auto
  ultimately show ?thesis by (simp add: writtenOf_def)
qed

lemma notify_lives:
  assumes "notifyCompleted Transactional_sink ids staged (lf_t x, lf_s x) = ((t, s), staged')"
    "lives key x" "\<not> lf_dead x" "\<forall>i \<in> set ids. 1 \<le> sint i \<and> sint i < sint (lf_closed x)"
  shows "t = lf_t x \<and> lives key (x\<lparr>lf_s := s, lf_complete := lf_complete x \<union> set ids\<rparr>) \<and> set staged' \<subseteq> set staged"
  using assms
proof (induction ids arbitrary: staged x)
  case Nil
  then show ?case by (cases x) auto
next
  case (Cons i ids)
  obtain s1 e where n: "NotifyCheckpointComplete i (lf_t x) (lf_s x) = (s1, e)" by fastforce
  let ?x = "x\<lparr>lf_complete := insert i (lf_complete x)\<rparr>"
  have "lives key ?x" using life_step.complete lives.step Cons.prems by simp
  moreover have "life_step key ?x (?x\<lparr>lf_s := s1\<rparr>)" using n Cons.prems(3) by (intro life_step.notify) auto
  ultimately have "lives key (?x\<lparr>lf_s := s1\<rparr>)" by (rule lives.step)
  with Cons.IH [of "filter (\<lambda>n. n \<noteq> i) staged" "?x\<lparr>lf_s := s1\<rparr>"] Cons.prems n
  show ?case by auto
qed

context checkpoint_service
begin

text \<open>What a run adds to the completed checkpoints, the coordinator reported.\<close>

definition leadsTo :: "life \<Rightarrow> 'c \<Rightarrow> life \<Rightarrow> 'c \<Rightarrow> bool" where
  "leadsTo x c y c' \<longleftrightarrow> good c' \<and> completed c \<subseteq> completed c' \<and> lf_complete x \<subseteq> lf_complete y \<and>
     lf_complete y \<subseteq> lf_complete x \<union> completed c' \<and> lf_ends y = lf_ends x"

lemma leadsTo_trans: "leadsTo x c y c' \<Longrightarrow> leadsTo y c' z c'' \<Longrightarrow> leadsTo x c z c''"
  unfolding leadsTo_def by blast

text \<open>One barrier: the snapshot, its acknowledgement, and what the coordinator then reports.\<close>

lemma barrier_lives:
  assumes x: "lives key x" "\<not> lf_dead x" "sint (lf_closed x) < 2 ^ 63 - 2" and c: "good c"
    and r: "snapshotSinkState Transactional_sink (Some co) i (lf_t x, lf_s x) c = (((t, s), c'), err)"
  shows "\<exists>y. lives key y \<and> lf_t y = t \<and> lf_s y = s \<and> leadsTo x c y c' \<and> lf_epochs y = lf_epochs x \<and>
    (if \<not> lf_dead y then lf_closed y = lf_closed x + 1 else lf_closed y = lf_closed x \<and> err \<noteq> None)"
proof -
  obtain t1 s1 p where p: "sink_Snapshot (lf_t x) (lf_s x) = ((t1, s1), p)" by (metis prod.exhaust)
  show ?thesis
  proof (cases p)
    case (Inl e)
    have "lives key (x\<lparr>lf_t := t1, lf_s := s1, lf_dead := True\<rparr>)"
      using life_step.snapshot_fails [OF x(2)] p Inl lives.step [OF x(1)] by blast
    moreover have "c' = cc_Fail co i c" "t = t1" "s = s1" "err = Some e"
      using r p Inl by (auto simp: snapshotSinkState_def cp_enabled_def cp_fail_def)
    ultimately show ?thesis
      using fail [OF c, of i] by (intro exI [of _ "x\<lparr>lf_t := t1, lf_s := s1, lf_dead := True\<rparr>"]) (auto simp: leadsTo_def)
  next
    case (Inr buf)
    let ?y = "x\<lparr>lf_t := t1, lf_s := s1, lf_closed := lf_closed x + 1\<rparr>"
    have "lives key ?y" using life_step.snapshot [OF x(2,3)] p Inr lives.step [OF x(1)] by blast
    moreover have "cc_Acknowledge co i buf c = (c', err)" "t = t1" "s = s1"
      using r p Inr by (auto simp: snapshotSinkState_def cp_enabled_def cp_snapshot_def split: prod.splits)
    ultimately show ?thesis using acknowledge [OF c] x(2) by (intro exI [of _ ?y]) (auto simp: leadsTo_def)
  qed
qed

lemma notified_lives:
  assumes y: "lives key y" "\<not> lf_dead y" and st: "\<forall>i \<in> set staged. 1 \<le> sint i \<and> sint i < sint (lf_closed y)"
    and c: "leadsTo x c y c1" "good c2 \<and> completed c1 \<subseteq> completed c2 \<and> set ids = set staged \<inter> completed c2"
    and n: "notifyCompleted Transactional_sink ids staged (lf_t y, lf_s y) = ((t, s), staged')"
  shows "\<exists>z. lives key z \<and> lf_t z = t \<and> lf_s z = s \<and> leadsTo x c z c2 \<and> \<not> lf_dead z \<and>
    lf_closed z = lf_closed y \<and> lf_epochs z = lf_epochs y \<and> set staged' \<subseteq> set staged"
proof -
  have "\<forall>i \<in> set ids. 1 \<le> sint i \<and> sint i < sint (lf_closed y)" using st c(2) by blast
  from notify_lives [OF n y this] show ?thesis
    using y(2) c by (intro exI [of _ "y\<lparr>lf_s := s, lf_complete := lf_complete y \<union> set ids\<rparr>"]) (auto simp: leadsTo_def)
qed

lemma written_lives:
  assumes x: "lives key x" "\<not> lf_dead x" "good c" and w: "sink_Write rec (lf_t x) (lf_s x) = ((t, s), err)"
  shows "\<exists>y. lives key y \<and> lf_t y = t \<and> lf_s y = s \<and> leadsTo x c y c \<and> lf_dead y = (err \<noteq> None) \<and>
    lf_closed y = lf_closed x \<and> lf_epochs y = wroteTo (lf_closed x) rec (lf_epochs x)"
proof -
  let ?y = "x\<lparr>lf_t := t, lf_s := s, lf_epochs := wroteTo (lf_closed x) rec (lf_epochs x), lf_dead := (err \<noteq> None)\<rparr>"
  have "lives key ?y" using life_step.writes [OF x(2) w] lives.step [OF x(1)] by simp
  then show ?thesis using x(3) by (intro exI [of _ ?y]) (simp add: leadsTo_def)
qed

text \<open>A barrier that is delivered to the end of its turn.\<close>

lemma barrier_turn:
  assumes x: "lives key x" "\<not> lf_dead x" "sint (lf_closed x) < 2 ^ 63 - 2" and c: "good c"
    and st: "\<forall>i \<in> set staged. 1 \<le> sint i \<and> sint i < sint (lf_closed x)"
    and r: "snapshotSinkState Transactional_sink (Some co) (lf_closed x) (lf_t x, lf_s x) c = ((k1, c1), None)"
      "cp_completedAmong (Some co) (staged @ [lf_closed x]) c1 = (c2, ids)"
      "notifyCompleted Transactional_sink ids (staged @ [lf_closed x]) k1 = ((t, s), staged')"
  shows "\<exists>z. lives key z \<and> lf_t z = t \<and> lf_s z = s \<and> leadsTo x c z c2 \<and> \<not> lf_dead z \<and>
    lf_closed z = lf_closed x + 1 \<and> lf_epochs z = lf_epochs x \<and> (\<forall>i \<in> set staged'. 1 \<le> sint i \<and> sint i < sint (lf_closed z))"
proof -
  obtain y where y: "lives key y" "k1 = (lf_t y, lf_s y)" "leadsTo x c y c1" "\<not> lf_dead y" "lf_closed y = lf_closed x + 1"
    "lf_epochs y = lf_epochs x"
    using barrier_lives [OF x c, of "lf_closed x" "fst k1" "snd k1" c1 None] r(1) by (force split: if_splits)
  have B: "1 \<le> sint (lf_closed x)" "sint (lf_closed x + 1) = sint (lf_closed x) + 1"
    using lifeInvD(1) [OF lives_inv [OF x(1)]] lifeInv_next [OF lives_inv [OF x(1)]] by auto
  have st': "\<forall>i \<in> set (staged @ [lf_closed x]). 1 \<le> sint i \<and> sint i < sint (lf_closed y)" using st B y(5) by force
  have "good c1" using y(3) by (simp add: leadsTo_def)
  then have "good c2 \<and> completed c1 \<subseteq> completed c2 \<and> set ids = set (staged @ [lf_closed x]) \<inter> completed c2"
    using completed_among r(2) by (simp add: cp_completedAmong_def)
  from notified_lives [OF y(1,4) st' y(3) this r(3) [unfolded y(2)]] obtain z where
    z: "lives key z" "lf_t z = t" "lf_s z = s" "leadsTo x c z c2" "\<not> lf_dead z" "lf_closed z = lf_closed y" "lf_epochs z = lf_epochs y"
    "set staged' \<subseteq> set (staged @ [lf_closed x])" by blast
  moreover have "\<forall>i \<in> set staged'. 1 \<le> sint i \<and> sint i < sint (lf_closed z)" using st' z(8) unfolding z(6) by blast
  ultimately show ?thesis unfolding y(5,6) by blast
qed

text \<open>A loop that ends keeps to the life of the sink; if it ends at the end of the stream, the sink is
  alive and has written all of it.\<close>

lemma loop_lives:
  assumes "runSinkLoop Transactional_sink (Some co) fs fin es n staged wm (lf_t x, lf_s x) c = Some (((t, s), wm', c'), err)"
    and "lives key x" "\<not> lf_dead x" "follows (lf_closed x) es" "good c"
    and "\<forall>i \<in> set staged. 1 \<le> sint i \<and> sint i < sint (lf_closed x)"
  shows "\<exists>y. lives key y \<and> lf_t y = t \<and> lf_s y = s \<and> leadsTo x c y c' \<and> writtenOf x es y \<and>
    (err = None \<and> EndOfStreamElement \<in> set es \<longrightarrow> writtenAll x es y)"
  using assms
proof (induction es arbitrary: n staged wm x c)
  case Nil
  then show ?case by (intro exI [of _ x]) (auto simp: leadsTo_def writtenOf_def)
next
  case (Cons e es)
  have here: "leadsTo x c x c" using Cons.prems(5) by (simp add: leadsTo_def)
  have none: "writtenOf x (e # es) x" using Cons.prems(4) by (simp add: writtenOf_none)
  show ?case
  proof (cases e)
    case (RecordElement rec)
    obtain t1 s1 e1 where w: "sink_Write rec (lf_t x) (lf_s x) = ((t1, s1), e1)" by (metis prod.exhaust)
    obtain y where y: "lives key y" "lf_t y = t1" "lf_s y = s1" "leadsTo x c y c" "lf_dead y = (e1 \<noteq> None)"
      "lf_closed y = lf_closed x" "lf_epochs y = wroteTo (lf_closed x) rec (lf_epochs x)"
      using written_lives [OF Cons.prems(2,3,5) w] by auto
    have f: "follows (lf_closed x) es" using Cons.prems(4) RecordElement by simp
    consider "beforeElement fs n \<noteq> None" | "beforeElement fs n = None" "e1 \<noteq> None" | "beforeElement fs n = None" "e1 = None" by blast
    then show ?thesis
    proof cases
      case 1
      then show ?thesis using Cons.prems(1,2) RecordElement here none by (intro exI [of _ x]) auto
    next
      case 2
      then show ?thesis using Cons.prems(1) RecordElement w y writtenOf_one [OF f y(7,6)] by (intro exI [of _ y]) auto
    next
      case 3
      have app: "lf_epochs y e @ recordsIn (lf_closed y) es e = lf_epochs x e @ recordsIn (lf_closed x) (RecordElement rec # es) e" for e
        unfolding y(6,7) by (simp add: wroteTo_def)
      have same: "writtenOf y es z = writtenOf x (RecordElement rec # es) z" "writtenAll y es z = writtenAll x (RecordElement rec # es) z" for z
        unfolding writtenOf_def writtenAll_def app by (rule refl)+
      show ?thesis
        using Cons.IH [of "n + 1" staged wm y c] Cons.prems RecordElement w y(1-6) f 3 leadsTo_trans [OF y(4)]
        unfolding same by auto
    qed
  next
    case (WatermarkElement wm1)
    then show ?thesis using Cons.IH [of n staged wm1 x c] Cons.prems by (simp add: writtenOf_def writtenAll_def)
  next
    case (BarrierElement b)
    then have f: "CheckpointID b = lf_closed x" "sint (lf_closed x) < 2 ^ 63 - 2" "follows (lf_closed x + 1) es"
      using Cons.prems(4) by auto
    have next1: "sint (lf_closed x + 1) = sint (lf_closed x) + 1" using f(2) by (intro sint_Suc) simp
    obtain k1 c1 e1 where sn: "snapshotSinkState Transactional_sink (Some co) (lf_closed x) (lf_t x, lf_s x) c = ((k1, c1), e1)"
      by (metis prod.exhaust)
    consider "e1 \<noteq> None \<or> afterBarrierForwarded fs (lf_closed x) \<noteq> None" | "e1 = None" "afterBarrierForwarded fs (lf_closed x) = None"
      by blast
    then show ?thesis
    proof cases
      case 1
      then have e: "k1 = (t, s)" "c' = c1" "err \<noteq> None"
        using Cons.prems(1) BarrierElement sn by (auto simp: f(1) split: option.splits) metis
      obtain y where y: "lives key y" "lf_t y = t" "lf_s y = s" "leadsTo x c y c'" "lf_epochs y = lf_epochs x"
        "lf_closed y = lf_closed x + 1 \<or> lf_closed y = lf_closed x"
        using barrier_lives [OF Cons.prems(2,3) f(2) Cons.prems(5), of "lf_closed x" t s c' e1] sn e by (metis (full_types))
      have "sint (lf_closed y) \<le> sint (lf_closed x + 1)" using y(6) next1 by auto
      then have "writtenOf x (e # es) y"
        using recordsIn_before [OF f(3)] BarrierElement y(5) unfolding writtenOf_def by auto
      then show ?thesis using y e(3) by blast
    next
      case 2
      obtain c2 ids where ca: "cp_completedAmong (Some co) (staged @ [lf_closed x]) c1 = (c2, ids)" by fastforce
      obtain t2 s2 st2 where nt: "notifyCompleted Transactional_sink ids (staged @ [lf_closed x]) k1 = ((t2, s2), st2)" by (metis prod.exhaust)
      obtain z where z: "lives key z" "lf_t z = t2" "lf_s z = s2" "leadsTo x c z c2" "\<not> lf_dead z"
        "lf_closed z = lf_closed x + 1" "lf_epochs z = lf_epochs x" "\<forall>i \<in> set st2. 1 \<le> sint i \<and> sint i < sint (lf_closed z)"
        using barrier_turn [OF Cons.prems(2,3) f(2) Cons.prems(5,6) _ ca nt] sn 2(1) by blast
      have "runSinkLoop Transactional_sink (Some co) fs fin es n st2 wm (lf_t z, lf_s z) c2 = Some (((t, s), wm', c'), err)"
        using Cons.prems(1) BarrierElement f(1) sn 2 ca nt z(2,3) by simp
      moreover have "follows (lf_closed z) es" "good c2" using f(3) z(4,6) by (simp_all add: leadsTo_def)
      moreover have "writtenOf z es y = writtenOf x (e # es) y" "writtenAll z es y = writtenAll x (e # es) y" for y
        by (simp_all add: writtenOf_def writtenAll_def z(6,7) BarrierElement)
      ultimately show ?thesis
        using Cons.IH [of n st2 wm z c2] z(1,5,8) leadsTo_trans [OF z(4)] BarrierElement by auto
    qed
  next
    case EndOfStreamElement
    obtain c1 ids where ca: "cc_AwaitCompletedAmong co staged c = Some (c1, ids)"
      using Cons.prems(1) EndOfStreamElement by (auto simp: cp_awaitCompletedAmong_def split: option.splits)
    obtain t2 s2 st2 where nt: "notifyCompleted Transactional_sink ids staged (lf_t x, lf_s x) = ((t2, s2), st2)" by (metis prod.exhaust)
    have r: "t = t2" "s = s2" "c' = c1"
      using Cons.prems(1) EndOfStreamElement ca nt by (auto simp: cp_awaitCompletedAmong_def)
    obtain z where "lives key z" "lf_t z = t" "lf_s z = s" "leadsTo x c z c'" "\<not> lf_dead z"
        "lf_closed z = lf_closed x" "lf_epochs z = lf_epochs x"
      using notified_lives [OF Cons.prems(2,3,6) here await [OF Cons.prems(5) ca] nt] r by blast
    then show ?thesis using EndOfStreamElement
      by (intro exI [of _ z]) (auto simp: writtenOf_def writtenAll_def)
  next
    case (UnknownElement u)
    then show ?thesis using Cons.prems(1,2) here none by (intro exI [of _ x]) auto
  qed
qed

lemma opened_lives:
  assumes o: "sink_Open key NewTransactional ((lf_s x)\<lparr>sto_script := script, sto_down := False\<rparr>) = ((t0, s0), None)"
    and run: "runSinkOpened Transactional_sink (Some co) fs (if k = 0 then None else Some (be_put 8 k)) fin es (t0, s0) c =
      Some (((t, s), wm, c'), err)"
    and x: "lives key x" "latestOf (lf_complete x) k" and f: "follows (k + 1) es" and c: "good c"
  shows "\<exists>y. lives key y \<and> lf_t y = t \<and> lf_s y = s \<and> leadsTo x c y c' \<and>
    (\<forall>e. prefix (lf_epochs y e) (lineOf x k es e) \<and> (sint e < sint (lf_closed y) \<longrightarrow> lf_epochs y e = lineOf x k es e)) \<and>
    (err = None \<and> EndOfStreamElement \<in> set es \<longrightarrow> \<not> lf_dead y \<and> lf_epochs y = lineOf x k es)"
proof -
  obtain t1 s1 e1 where r: "sink_Restore (if k = 0 then [] else be_put 8 k) t0 s0 = ((t1, s1), e1)" by (metis prod.exhaust)
  let ?y = "x\<lparr>lf_t := t1, lf_s := s1, lf_epochs := keptUpTo k (lf_epochs x), lf_closed := k + 1,
    lf_dead := (e1 \<noteq> None), lf_finished := False\<rparr>"
  have "runStart key k ((lf_s x)\<lparr>sto_script := script, sto_down := False\<rparr>) = ((t1, s1), e1)"
    using o r by (simp add: runStart_def)
  then have y: "lives key ?y" using life_step.restart [OF x(2)] lives.step [OF x(1)] by blast
  have to: "leadsTo x c ?y c" using c by (simp add: leadsTo_def)
  have line: "lf_epochs ?y e @ recordsIn (lf_closed ?y) es e = lineOf x k es e" for e by (simp add: lineOf_def)
  have open_run: "runSinkOpened Transactional_sink (Some co) fs (if k = 0 then None else Some (be_put 8 k)) fin es (t0, s0) c =
    (case e1 of Some e \<Rightarrow> Some (((t1, s1), minInt64, c), Some e)
     | None \<Rightarrow> runSinkLoop Transactional_sink (Some co) fs fin es 0 [] minInt64 (t1, s1) c)"
    using r by (auto simp: runSinkOpened_def)
  show ?thesis
  proof (cases e1)
    case (Some e)
    have "writtenOf ?y es ?y" by (rule writtenOf_none) (simp_all add: f)
    then show ?thesis using run y to Some unfolding open_run writtenOf_def line by (intro exI [of _ ?y]) auto
  next
    case None
    then have "runSinkLoop Transactional_sink (Some co) fs fin es 0 [] minInt64 (lf_t ?y, lf_s ?y) c = Some (((t, s), wm, c'), err)"
      using run unfolding open_run by simp
    from loop_lives [OF this y] None f c obtain z where z: "lives key z" "lf_t z = t" "lf_s z = s" "leadsTo ?y c z c'"
      "writtenOf ?y es z" "err = None \<and> EndOfStreamElement \<in> set es \<longrightarrow> writtenAll ?y es z" by auto
    then show ?thesis
      using leadsTo_trans [OF to z(4)] unfolding writtenOf_def writtenAll_def line by (intro exI [of _ z]) auto
  qed
qed

lemma subtask_lives:
  assumes run: "runSinkSubtask Transactional_sink si (Some co) fs (if k = 0 then None else Some (be_put 8 k)) fin es
      (NewTransactional, (lf_s x)\<lparr>sto_script := script, sto_down := False\<rparr>) c = Some (((t, s), wm, c'), err)"
    and x: "lives (checkpointKey si) x" "latestOf (lf_complete x) k" and f: "follows (k + 1) es" and c: "good c"
  shows "\<exists>y. lives (checkpointKey si) y \<and> lf_s y = s \<and> leadsTo x c y c' \<and>
    (\<forall>e. prefix (lf_epochs y e) (lineOf x k es e) \<and> (sint e < sint (lf_closed y) \<longrightarrow> lf_epochs y e = lineOf x k es e)) \<and>
    (err = None \<and> EndOfStreamElement \<in> set es \<longrightarrow>
      (\<forall>t1 s1. CommitFinalEpoch t s = ((t1, s1), None) \<longrightarrow>
        (\<exists>z. lives (checkpointKey si) z \<and> lf_s z = s1 \<and> lf_finished z \<and> lf_epochs z = lineOf x k es \<and>
          lf_ends z = insert (lineOf x k es) (lf_ends x))))"
proof -
  let ?key = "checkpointKey si" and ?s = "(lf_s x)\<lparr>sto_script := script, sto_down := False\<rparr>"
  obtain t0 s0 e0 where o: "sink_Open ?key NewTransactional ?s = ((t0, s0), e0)" by (metis prod.exhaust)
  show ?thesis
  proof (cases e0)
    case (Some e)
    let ?y = "x\<lparr>lf_t := t0, lf_s := s0, lf_epochs := keptUpTo k (lf_epochs x), lf_closed := k + 1, lf_dead := True, lf_finished := False\<rparr>"
    have "runStart ?key k ?s = ((t0, s0), Some e)" using o Some by (simp add: runStart_def)
    from lives.step [OF x(1) life_step.restart [OF x(2) this]] have "lives ?key ?y" by simp
    then show ?thesis using run o Some c f recordsIn_before [OF f]
      by (intro exI [of _ ?y]) (auto simp: runSinkSubtask_def leadsTo_def lineOf_def)
  next
    case None
    obtain t2 s2 err2 cerr where o2: "runSinkOpened Transactional_sink (Some co) fs (if k = 0 then None else Some (be_put 8 k)) fin es (t0, s0) c =
        Some (((t2, s2), wm, c'), err2)" "sink_Close t2 s2 = ((t, s), cerr)" "err = (if cerr \<noteq> None \<and> err2 = None then cerr else err2)"
      using run o None by (auto simp: runSinkSubtask_def split: option.splits prod.splits)
    obtain y where y: "lives ?key y" "lf_t y = t2" "lf_s y = s2" "leadsTo x c y c'"
      "\<forall>e. prefix (lf_epochs y e) (lineOf x k es e) \<and> (sint e < sint (lf_closed y) \<longrightarrow> lf_epochs y e = lineOf x k es e)"
      "err2 = None \<and> EndOfStreamElement \<in> set es \<longrightarrow> \<not> lf_dead y \<and> lf_epochs y = lineOf x k es"
      using opened_lives [OF o [unfolded None] o2(1) x f c] by blast
    have cl: "sink_Close (lf_t y) (lf_s y) = ((t, s), cerr)" using o2(2) y(2,3) by simp
    have "\<exists>z. lives ?key z \<and> lf_s z = s1 \<and> lf_finished z \<and> lf_epochs z = lineOf x k es \<and> lf_ends z = insert (lineOf x k es) (lf_ends x)"
      if "err = None" "EndOfStreamElement \<in> set es" "CommitFinalEpoch t s = ((t1, s1), None)" for t1 s1
    proof -
      have "err2 = None" "cerr = None" using that(1) o2(3) by (auto split: if_splits)
      then have "\<not> lf_dead y" "lf_epochs y = lineOf x k es" "runEnd (lf_t y) (lf_s y) = ((t1, s1), None)"
        using y(6) that(2,3) cl by (auto simp: runEnd_def)
      with lives.step [OF y(1) life_step.finish [OF this(1,3)]] y(4) show ?thesis by (force simp: leadsTo_def)
    qed
    then show ?thesis
      using lives.step [OF y(1) life_step.closes [OF cl]] y(4,5)
      by (intro exI [of _ "y\<lparr>lf_t := t, lf_s := s, lf_dead := True\<rparr>"]) (auto simp: leadsTo_def)
  qed
qed

end

section \<open>Properties\<close>

text \<open>C6. The sink subtask delivers exactly once. Take any history of the subtask's sink, as in the
  life of \<open>Exactly_Once\<close>: earlier runs may have written what they liked. Resume the subtask from the
  latest completed checkpoint and give it any elements, whose barriers are numbered on from that
  checkpoint: over a coordinator that other subtasks call at the same time, with faults
  injected, file operations failing and the input breaking off anywhere. Then the run continues
  the history. The line of the runs is now what the checkpoint kept of it, and the records of
  \<open>es\<close>, each in the epoch between its barriers. A committed file holds all that the line has for
  its epoch, and a checkpoint covers it that had completed before or that the coordinator
  reported; or it is a file that an earlier run committed whose job had ended, where there was
  one. If the stream was delivered to its end, the subtask returned nil and the final commit did
  too, then every epoch of the line that has records is committed, whole, and, unless the job
  had ended before, no other.\<close>

theorem sink_subtask_exactly_once:
  assumes "runSinkSubtask Transactional_sink si (Some (sharedCalls FS ord ords idOrd (checkpointKey si))) fs
      (if k = 0 then None else Some (be_put 8 k)) fin es
      (NewTransactional, (lf_s x)\<lparr>sto_script := script, sto_down := False\<rparr>) w = Some (((t, s), wm, w'), err)"
    and "lives (checkpointKey si) x" "latestOf (lf_complete x) k" "follows (k + 1) es" "goodShared w"
    and "\<forall>V \<in> insert (lineOf x k es) (lf_ends x). \<forall>e. list_all fitsRecord (V e)"
  shows "(\<exists>y. lives (checkpointKey si) y \<and> lf_s y = s \<and> lf_ends y = lf_ends x \<and> lf_complete x \<subseteq> lf_complete y \<and>
      lf_complete y \<subseteq> lf_complete x \<union> completedIn w' \<and> (\<forall>e. prefix (lf_epochs y e) (lineOf x k es e))) \<and>
    (\<forall>e raw. fileAt s (committedPath (checkpointKey si) e) = Some raw \<longrightarrow>
      (lineOf x k es e \<noteq> [] \<and> decodeRecords raw = Inr (lineOf x k es e) \<and> (\<exists>i \<in> lf_complete x \<union> completedIn w'. sint e \<le> sint i)) \<or>
      (\<exists>V \<in> lf_ends x. V e \<noteq> [] \<and> decodeRecords raw = Inr (V e))) \<and>
    (\<forall>t1 s1 e. err = None \<and> EndOfStreamElement \<in> set es \<and>
      commitFinalEpochs [snk_CommitFinalEpoch Transactional_sink] (t, s) = ((t1, s1), None) \<longrightarrow>
      (lineOf x k es e \<noteq> [] \<longrightarrow> fileAt s1 (committedPath (checkpointKey si) e) = Some (encodeRecords (lineOf x k es e))) \<and>
      (lineOf x k es e = [] \<and> lf_ends x = {} \<longrightarrow> fileAt s1 (committedPath (checkpointKey si) e) = None))"
proof -
  let ?N = "lineOf x k es" and ?key = "checkpointKey si"
  obtain y where y: "lives ?key y" "lf_s y = s" "lf_complete x \<subseteq> lf_complete y"
    "lf_complete y \<subseteq> lf_complete x \<union> completedIn w'" "lf_ends y = lf_ends x"
    "\<forall>e. prefix (lf_epochs y e) (?N e) \<and> (sint e < sint (lf_closed y) \<longrightarrow> lf_epochs y e = ?N e)"
    and z: "err = None \<and> EndOfStreamElement \<in> set es \<Longrightarrow> CommitFinalEpoch t s = ((t1, s1), None) \<Longrightarrow>
      \<exists>z. lives ?key z \<and> lf_s z = s1 \<and> lf_finished z \<and> lf_epochs z = ?N \<and> lf_ends z = insert ?N (lf_ends x)" for t1 s1
    using shc.subtask_lives [OF assms(1-5)] unfolding shc.leadsTo_def by blast
  have dec: "decodeRecords (encodeRecords (V e)) = Inr (V e)" if "V \<in> insert ?N (lf_ends x)" for V e
    using assms(6) that by (blast intro: decode_encode_records)
  have "(?N e \<noteq> [] \<and> decodeRecords raw = Inr (?N e) \<and> (\<exists>i \<in> lf_complete x \<union> completedIn w'. sint e \<le> sint i)) \<or>
      (\<exists>V \<in> lf_ends x. V e \<noteq> [] \<and> decodeRecords raw = Inr (V e))"
    if "fileAt s (committedPath ?key e) = Some raw" for e raw
  proof -
    have same: "lf_epochs y e = ?N e" if "i \<in> lf_complete y" "sint e \<le> sint i" for i
      using y(6) lifeInvD(3) [OF lives_inv [OF y(1)] that(1)] that(2) by (meson order.strict_trans1)
    from lives_committed [OF y(1), of e raw] that y(2) consider
        (line) i where "lf_epochs y e \<noteq> []" "raw = encodeRecords (lf_epochs y e)" "i \<in> lf_complete y" "sint e \<le> sint i"
      | (ended) V where "V \<in> lf_ends x" "V e \<noteq> []" "raw = encodeRecords (V e)" unfolding y(5) by blast
    then show ?thesis
    proof cases
      case line
      then show ?thesis using same [OF line(3,4)] dec [of ?N e] y(4) by auto
    next
      case ended
      then show ?thesis using dec [of V e] by auto
    qed
  qed
  moreover have "(?N e \<noteq> [] \<longrightarrow> fileAt s1 (committedPath ?key e) = Some (encodeRecords (?N e))) \<and>
      (?N e = [] \<and> lf_ends x = {} \<longrightarrow> fileAt s1 (committedPath ?key e) = None)"
    if "err = None \<and> EndOfStreamElement \<in> set es"
      "commitFinalEpochs [snk_CommitFinalEpoch Transactional_sink] (t, s) = ((t1, s1), None)" for t1 s1 e
  proof -
    have "CommitFinalEpoch t s = ((t1, s1), None)" using that(2) by (auto split: prod.splits option.splits)
    from z [OF that(1) this] obtain z where
      z: "lives ?key z" "lf_s z = s1" "lf_finished z" "lf_epochs z = ?N" "lf_ends z = insert ?N (lf_ends x)" by blast
    show ?thesis
      using lifeInvD(10) [OF lives_inv [OF z(1)] z(3), of e] lives_committed [OF z(1), of e] z(2,4,5)
      by (cases "fileAt s1 (committedPath ?key e)") auto
  qed
  ultimately show ?thesis using y by blast
qed

text \<open>The run that follows one that died: it discards that run's second epoch, writes its own, has it
  completed and committed at the barrier, and goes on to the end of the stream.\<close>

definition example_sink_id :: subtaskID where
  "example_sink_id = \<lparr>si_vertexID = [111], si_index = 0\<rparr>"

definition example_sink_job :: Metadata where
  "example_sink_job = \<lparr>md_Vertices = [\<lparr>vm_ID = [111], vm_Parallelism = 1, vm_Count = 0\<rparr>], md_Seed = 42\<rparr>"

definition example_calls :: "disk shared coordinator_calls" where
  "example_calls = sharedCalls diskFS co_expected (\<lambda>c i. co_expected c) (\<lambda>c. []) (checkpointKey example_sink_id)"

definition example_shared :: "disk shared" where
  "example_shared = \<lparr>sh_co = NewCoordinator (newDisk []) example_sink_job, sh_others = []\<rparr>"

definition example_elements :: "StreamElement list" where
  "example_elements = [RecordElement example_again, WatermarkElement 4, BarrierElement \<lparr>CheckpointID = 2, Timestamp = 0\<rparr>,
     RecordElement example_lost, EndOfStreamElement]"

abbreviation "resumedSink \<equiv> freshSink\<lparr>tx_epoch := 2, tx_firstEpoch := 2\<rparr>"
abbreviation "twoCommitted \<equiv> putFile (committedPath example_sink 2) (encodeRecord example_again) oneCommitted"

lemma example_key: "checkpointKey example_sink_id = example_sink"
  by (simp add: checkpointKey_def example_sink_id_def example_sink_def)

lemma example_resume:
  "\<exists>t0 s0. sink_Open example_sink NewTransactional (putFile (stagingPath example_sink 2) [] oneStaged) = ((t0, s0), None) \<and>
     sink_Restore (be_put 8 (1 :: int64)) t0 s0 = ((resumedSink, oneCommitted), None)"
  using example_restart by (auto simp: runStart_def split: prod.splits option.splits)

lemma example_second_epoch:
  "sink_Write example_again resumedSink oneCommitted =
     ((resumedSink\<lparr>tx_buf := Some (bufferOf 2 example_again), tx_written := [2]\<rparr>, putFile (stagingPath example_sink 2) [] oneCommitted), None)"
  "sink_Snapshot (resumedSink\<lparr>tx_buf := Some (bufferOf 2 example_again), tx_written := [2]\<rparr>) (putFile (stagingPath example_sink 2) [] oneCommitted) =
     ((resumedSink\<lparr>tx_written := [2], tx_epoch := 3\<rparr>, putFile (stagingPath example_sink 2) (encodeRecord example_again) oneCommitted),
      Inr (be_put 8 (2 :: int64)))"
  "NotifyCheckpointComplete 2 (resumedSink\<lparr>tx_written := [2], tx_epoch := 3\<rparr>)
     (putFile (stagingPath example_sink 2) (encodeRecord example_again) oneCommitted) = (twoCommitted, None)"
  using example_length example_names(3)
  by (simp_all add: sink_Write_def openEpoch_def writeRecord_def bw_Write_def sink_Snapshot_def closeEpoch_def bw_Flush_def
    NotifyCheckpointComplete_def os_calls example_states stagingPath_def committedPath_def Let_def)

lemma example_last_epoch:
  "\<exists>t s t1 s1 t2 s2. sink_Write example_lost (resumedSink\<lparr>tx_written := [2], tx_epoch := 3\<rparr>) twoCommitted = ((t, s), None) \<and>
     sink_Close t s = ((t1, s1), None) \<and> CommitFinalEpoch t1 s1 = ((t2, s2), None)"
  using example_length example_names
  by (simp add: sink_Write_def openEpoch_def writeRecord_def bw_Write_def sink_Close_def closeEpoch_def bw_Flush_def
    CommitFinalEpoch_def os_calls example_states stagingPath_def committedPath_def Let_def numeral_nat)

lemma example_acknowledged:
  "\<exists>c. Acknowledge diskFS [example_sink] 2 example_sink payload (NewCoordinator (newDisk []) example_sink_job) = (c, None) \<and> Completed 2 c"
proof -
  let ?c = "NewCoordinator (newDisk []) example_sink_job"
  have ex: "co_expected ?c = [example_sink]" by (simp add: NewCoordinator_def Subtasks_def example_sink_job_def example_sink_def)
  obtain d where d: "WriteSubtaskState diskFS 2 example_sink payload (newDisk []) = (d, None)" "clean d"
    using clean_WriteSubtaskState [OF clean_newDisk, of example_sink] by (auto simp: example_sink_def checkVertexID_def)
  obtain d' where d': "storage_Complete diskFS 2 example_sink_job d = (d', None)" using clean_Complete [OF d(2)] by blast
  show ?thesis
    using d(1) d' ex
    by (simp add: Acknowledge_def stateFor_def coordinator_complete_def outstanding_def NewCoordinator_def Let_def Completed_def announce_def)
qed

lemma example_sink_run:
  "\<exists>t s w. runSinkSubtask Transactional_sink example_sink_id (Some example_calls) (noFaults example_sink_id) (Some (be_put 8 (1 :: int64))) None
      example_elements (NewTransactional, putFile (stagingPath example_sink 2) [] oneStaged) example_shared = Some (((t, s), 4, w), None) \<and>
    (\<exists>t1 s1. CommitFinalEpoch t s = ((t1, s1), None))"
proof -
  obtain t0 s0 where o: "sink_Open example_sink NewTransactional (putFile (stagingPath example_sink 2) [] oneStaged) = ((t0, s0), None)"
    "sink_Restore (be_put 8 (1 :: int64)) t0 s0 = ((resumedSink, oneCommitted), None)" using example_resume by blast
  obtain c where c: "Acknowledge diskFS [example_sink] 2 example_sink (be_put 8 (2 :: int64)) (NewCoordinator (newDisk []) example_sink_job) = (c, None)"
    "Completed 2 c" using example_acknowledged by blast
  obtain t s t1 s1 t2 s2 where l: "sink_Write example_lost (resumedSink\<lparr>tx_written := [2], tx_epoch := 3\<rparr>) twoCommitted = ((t, s), None)"
    "sink_Close t s = ((t1, s1), None)" "CommitFinalEpoch t1 s1 = ((t2, s2), None)" using example_last_epoch by blast
  have ex: "co_expected (NewCoordinator (newDisk []) example_sink_job) = [example_sink]"
    by (simp add: NewCoordinator_def Subtasks_def example_sink_job_def example_sink_def)
  show ?thesis
    using l o c
    by (simp add: runSinkSubtask_def runSinkOpened_def example_key example_elements_def example_second_epoch [simplified] snapshotSinkState_def cp_enabled_def
      cp_snapshot_def cp_completedAmong_def cp_awaitCompletedAmong_def example_calls_def sharedCalls_def example_shared_def othersTurn_def
      ex settled_def CompletedAmong_def)
qed

theorem sink_subtask_exactly_once_witness:
  "\<exists>t s w t1 s1. runSinkSubtask Transactional_sink example_sink_id (Some example_calls) (noFaults example_sink_id) (Some (be_put 8 (1 :: int64))) None
      example_elements (NewTransactional, putFile (stagingPath example_sink 2) [] oneStaged) example_shared = Some (((t, s), 4, w), None) \<and>
    commitFinalEpochs [snk_CommitFinalEpoch Transactional_sink] (t, s) = ((t1, s1), None) \<and>
    fileAt s1 (committedPath example_sink 1) = Some (encodeRecords [example_output]) \<and>
    fileAt s1 (committedPath example_sink 2) = Some (encodeRecords [example_again]) \<and>
    fileAt s1 (committedPath example_sink 3) = Some (encodeRecords [example_lost]) \<and>
    (\<forall>e. e \<notin> {1, 2, 3} \<longrightarrow> fileAt s1 (committedPath example_sink e) = None)"
proof -
  obtain t s w t1 s1 where r: "runSinkSubtask Transactional_sink example_sink_id (Some example_calls) (noFaults example_sink_id) (Some (be_put 8 (1 :: int64))) None
      example_elements (NewTransactional, putFile (stagingPath example_sink 2) [] oneStaged) example_shared = Some (((t, s), 4, w), None)"
    "CommitFinalEpoch t s = ((t1, s1), None)" using example_sink_run by blast
  obtain x where x: "lives example_sink x" "lifeRun example_sink example_died example_unborn = Some x" using example_died_lives by blast
  have at: "(lf_s x)\<lparr>sto_script := [], sto_down := False\<rparr> = putFile (stagingPath example_sink 2) [] oneStaged"
    "latestOf (lf_complete x) 1" "lf_ends x = {}"
    "keptUpTo 1 (lf_epochs x) = wroteTo 1 example_output (\<lambda>_. [])"
    using x(2) unfolding example_died_run by (auto simp: latestOf_def example_kept example_unborn_def example_states)
  have line: "lineOf x 1 example_elements = (\<lambda>e. (if e = 1 then [example_output] else []) @ (if e = 2 then [example_again] else []) @
      (if e = 3 then [example_lost] else []))"
    by (auto simp: lineOf_def at(4) example_elements_def wroteTo_def fun_eq_iff)
  have "follows (1 + 1) example_elements" "goodShared example_shared"
    by (simp_all add: example_elements_def goodShared_def example_shared_def)
  moreover have "\<forall>V \<in> insert (lineOf x 1 example_elements) (lf_ends x). \<forall>e. list_all fitsRecord (V e)"
    using example_fits by (simp add: at(3) line)
  moreover have "EndOfStreamElement \<in> set example_elements" by (simp add: example_elements_def)
  moreover have f: "commitFinalEpochs [snk_CommitFinalEpoch Transactional_sink] (t, s) = ((t1, s1), None)" using r(2) by simp
  ultimately have "\<forall>e. (lineOf x 1 example_elements e \<noteq> [] \<longrightarrow> fileAt s1 (committedPath example_sink e) = Some (encodeRecords (lineOf x 1 example_elements e))) \<and>
      (lineOf x 1 example_elements e = [] \<longrightarrow> fileAt s1 (committedPath example_sink e) = None)"
    using sink_subtask_exactly_once [where k = 1 and x = x and script = "[]" and si = example_sink_id, unfolded at(1) example_key, OF _ x(1) at(2),
        of diskFS co_expected "\<lambda>c i. co_expected c" "\<lambda>c. []" "noFaults example_sink_id" None example_elements example_shared t s 4 w None]
      r(1) at(3) by (simp add: example_calls_def example_key)
  then show ?thesis using r(1) f unfolding line by (intro exI conjI) (assumption | force)+
qed

end
