(* ===== verification/Executor.thy ===== *)
theory Executor
  imports Job_Graph Subtask Sink_Subtask
begin

text \<open>
  \<open>pkg/runtime/executor.go\<close>: how a job is laid out. The channels between the subtasks, the metadata
  that describes the job to its checkpoints, the checkpoint it resumes from, and what each
  subtask is handed. A channel is known by the number of those made before it. The subtasks
  themselves run concurrently; what all of them together do is an argument of the run.
\<close>

section \<open>The channels\<close>

type_synonym channel = nat

record wiring =
  wi_next :: channel
  wi_inputs :: "subtaskID \<Rightarrow> channel list"
  wi_outputs :: "subtaskID \<Rightarrow> channel list list"

definition indices :: "int64 \<Rightarrow> int64 list" where
  "indices parallelism = map word_of_nat [0..<nat (sint parallelism)]"

fun wireGroup :: "bytes \<Rightarrow> int64 list \<Rightarrow> channel list \<Rightarrow> wiring \<Rightarrow> channel list \<times> wiring" where
  "wireGroup toID [] grp w = (grp, w)"
| "wireGroup toID (j # js) grp w =
     (let ch = wi_next w; consumer = \<lparr>si_vertexID = toID, si_index = j\<rparr>
      in wireGroup toID js (grp @ [ch])
           (w\<lparr>wi_next := ch + 1, wi_inputs := (wi_inputs w)(consumer := wi_inputs w consumer @ [ch])\<rparr>))"

fun wireProducers :: "bytes \<Rightarrow> bytes \<Rightarrow> int64 list \<Rightarrow> int64 list \<Rightarrow> wiring \<Rightarrow> wiring" where
  "wireProducers from toID [] js w = w"
| "wireProducers from toID (i # is) js w =
     (let producer = \<lparr>si_vertexID = from, si_index = i\<rparr>
      in case wireGroup toID js [] w of
           (grp, w1) \<Rightarrow>
             wireProducers from toID is js
               (w1\<lparr>wi_outputs := (wi_outputs w1)(producer := wi_outputs w1 producer @ [grp])\<rparr>))"

text \<open>\<open>byID[toID]\<close> is the zero vertex for an identifier that is not in the order.\<close>

definition vertexIn :: "Vertex list \<Rightarrow> bytes \<Rightarrow> Vertex" where
  "vertexIn order i = (case map_of (map (\<lambda>v. (ID v, v)) (rev order)) i of None \<Rightarrow> zeroVertex | Some v \<Rightarrow> v)"

definition wireVertex :: "Graph \<Rightarrow> Vertex list \<Rightarrow> Vertex \<Rightarrow> wiring \<Rightarrow> wiring" where
  "wireVertex g order from w =
     fold (\<lambda>toID. wireProducers (ID from) toID (indices (Parallelism from)) (indices (Parallelism (vertexIn order toID))))
       (Downstream g (ID from)) w"

definition wire :: "Graph \<Rightarrow> Vertex list \<Rightarrow> wiring" where
  "wire g order =
     fold (wireVertex g order) order \<lparr>wi_next = 0, wi_inputs = (\<lambda>_. []), wi_outputs = (\<lambda>_. [])\<rparr>"

section \<open>The metadata\<close>

text \<open>\<open>countOf\<close> is the \<open>Count\<close> of the source a factory makes, if it has that method.\<close>

definition vertexMeta :: "(nat \<Rightarrow> int64 option) \<Rightarrow> Vertex \<Rightarrow> VertexMeta" where
  "vertexMeta countOf v =
     \<lparr>vm_ID = ID v, vm_Parallelism = Parallelism v,
      vm_Count =
        (if VKind v = VertexSource
         then case NewSource v of None \<Rightarrow> 0 | Some f \<Rightarrow> (case countOf f of None \<Rightarrow> 0 | Some n \<Rightarrow> n)
         else 0)\<rparr>"

definition buildMetadata :: "(nat \<Rightarrow> int64 option) \<Rightarrow> Vertex list \<Rightarrow> uint64 \<Rightarrow> Metadata" where
  "buildMetadata countOf order seed =
     \<lparr>md_Vertices = sort_key vm_ID (map (vertexMeta countOf) order), md_Seed = seed\<rparr>"

section \<open>The checkpoint to resume from\<close>

text \<open>A root is the listing of its directory and its files.\<close>

definition loadRestorePoint ::
  "(bytes list option \<times> (path \<Rightarrow> bytes option)) option \<Rightarrow> Metadata \<Rightarrow> ((SubtaskKey \<times> bytes) list \<times> int64) result" where
  "loadRestorePoint root meta =
     (case root of
        None \<Rightarrow> Inr ([], 0)
      | Some (ls, rd) \<Rightarrow>
          (case storage_Latest ls rd of
             None \<Rightarrow> Inl (RuntimeErr errNoRestorePoint)
           | Some i \<Rightarrow>
               (case storage_Load rd i of
                  Inl e \<Rightarrow> Inl e
                | Inr (recorded, payloads) \<Rightarrow>
                    (case CheckAgainst recorded meta of Some e \<Rightarrow> Inl e | None \<Rightarrow> Inr (payloads, i)))))"

section \<open>The run\<close>

record subtaskConfig =
  sc_vertex :: Vertex
  sc_id :: subtaskID
  sc_inputs :: "channel list"
  sc_outputs :: "channel list list"
  sc_restore :: "bytes option"
  sc_restoredCheckpoint :: int64

definition subtaskConfigs :: "Vertex list \<Rightarrow> wiring \<Rightarrow> (SubtaskKey \<times> bytes) list \<Rightarrow> int64 \<Rightarrow> subtaskConfig list" where
  "subtaskConfigs order w restored restoredID =
     concat (map (\<lambda>v. map (\<lambda>index.
         let i = \<lparr>si_vertexID = ID v, si_index = index\<rparr>
         in \<lparr>sc_vertex = v, sc_id = i, sc_inputs = wi_inputs w i, sc_outputs = wi_outputs w i,
             sc_restore = map_of restored (checkpointKey i), sc_restoredCheckpoint = restoredID\<rparr>)
       (indices (Parallelism v))) order)"

record 'd Options =
  op_CheckpointRoot :: "'d option"
  op_RestoreFrom :: "(bytes list option \<times> (path \<Rightarrow> bytes option)) option"
  op_Seed :: uint64

text \<open>\<open>runAll\<close> runs the subtasks to their end: what they leave behind, the sinks they opened and the
  errors they returned, in the order they returned them. A graph whose order is never found
  gives \<open>None\<close>.\<close>

definition RunWithOptions ::
  "(nat \<Rightarrow> int64 option) \<Rightarrow>
   (subtaskConfig list \<Rightarrow> 'd Coordinator option \<Rightarrow> 's \<Rightarrow> 's \<times> ('s \<Rightarrow> 's \<times> go_error option) option list \<times> go_error list) \<Rightarrow>
   Graph \<Rightarrow> 'd Options \<Rightarrow> 's \<Rightarrow> ('s \<times> go_error option) option" where
  "RunWithOptions countOf runAll g opts s =
     (case TopoOrder g of
        None \<Rightarrow> None
      | Some (Inl e) \<Rightarrow> Some (s, Some e)
      | Some (Inr order) \<Rightarrow>
          (let meta = buildMetadata countOf order (op_Seed opts)
           in case loadRestorePoint (op_RestoreFrom opts) meta of
                Inl e \<Rightarrow> Some (s, Some e)
              | Inr (restored, restoredID) \<Rightarrow>
                  (let coordinator = map_option (\<lambda>root. NewCoordinator root meta) (op_CheckpointRoot opts)
                   in case runAll (subtaskConfigs order (wire g order) restored restoredID) coordinator s of
                        (s1, sinks, []) \<Rightarrow> Some (commitFinalEpochs sinks s1)
                      | (s1, sinks, e # es) \<Rightarrow> Some (s1, Some e))))"

section \<open>The channels, one per pair of subtasks on an edge\<close>

text \<open>The loops of \<open>wire\<close> as one list: the producers with the vertex each group goes to, and the
  producer and consumer of each channel.\<close>

definition blocks :: "Graph \<Rightarrow> Vertex list \<Rightarrow> (subtaskID \<times> bytes) list" where
  "blocks g order = concat (map (\<lambda>v. concat (map (\<lambda>toID. map (\<lambda>i. (\<lparr>si_vertexID = ID v, si_index = i\<rparr>, toID)) (indices (Parallelism v)))
     (Downstream g (ID v)))) order)"

definition linksOf :: "(bytes \<Rightarrow> int64 list) \<Rightarrow> subtaskID \<times> bytes \<Rightarrow> (subtaskID \<times> subtaskID) list" where
  "linksOf js b = map (\<lambda>j. (fst b, \<lparr>si_vertexID = snd b, si_index = j\<rparr>)) (js (snd b))"

definition wireBlock :: "(bytes \<Rightarrow> int64 list) \<Rightarrow> subtaskID \<times> bytes \<Rightarrow> wiring \<Rightarrow> wiring" where
  "wireBlock js b w = (case wireGroup (snd b) (js (snd b)) [] w of
     (grp, w1) \<Rightarrow> w1\<lparr>wi_outputs := (wi_outputs w1)(fst b := wi_outputs w1 (fst b) @ [grp])\<rparr>)"

lemma wireProducers_blocks:
  "wireProducers from toID is (js toID) w = fold (wireBlock js) (map (\<lambda>i. (\<lparr>si_vertexID = from, si_index = i\<rparr>, toID)) is) w"
  by (induction "is" arbitrary: w) (simp_all add: wireBlock_def Let_def split: prod.split)

lemma wire_blocks:
  "wire g order = fold (wireBlock (\<lambda>toID. indices (Parallelism (vertexIn order toID)))) (blocks g order)
     \<lparr>wi_next = 0, wi_inputs = (\<lambda>_. []), wi_outputs = (\<lambda>_. [])\<rparr>"
proof -
  let ?js = "\<lambda>toID. indices (Parallelism (vertexIn order toID))"
  have fold_concat: "fold f (concat xss) w = fold (fold f) xss w" for f :: "subtaskID \<times> bytes \<Rightarrow> wiring \<Rightarrow> wiring" and xss w
    by (induction xss arbitrary: w) simp_all
  have block: "wireProducers (ID v) toID is (?js toID) =
      fold (wireBlock ?js) (map (\<lambda>i. (\<lparr>si_vertexID = ID v, si_index = i\<rparr>, toID)) is)" for v toID "is"
    by (rule ext) (rule wireProducers_blocks)
  have fold_concat': "fold f (concat xss) = fold (fold f) xss" for f :: "subtaskID \<times> bytes \<Rightarrow> wiring \<Rightarrow> wiring" and xss
    by (rule ext) (rule fold_concat)
  have vertex: "wireVertex g order = (\<lambda>v. fold (wireBlock ?js) (concat (map (\<lambda>toID. map (\<lambda>i. (\<lparr>si_vertexID = ID v, si_index = i\<rparr>, toID))
      (indices (Parallelism v))) (Downstream g (ID v)))))"
    unfolding fold_concat' by (intro ext) (simp only: wireVertex_def block fold_map comp_def)
  show ?thesis unfolding wire_def blocks_def fold_concat' vertex by (simp only: fold_map comp_def fold_concat')
qed

text \<open>The channels numbered by their links.\<close>

definition placesOf :: "('a \<Rightarrow> bool) \<Rightarrow> 'a list \<Rightarrow> nat list" where
  "placesOf P xs = filter (\<lambda>n. P (xs ! n)) [0..<length xs]"

lemma placesOf_append: "placesOf P (xs @ ys) = placesOf P xs @ map (\<lambda>n. length xs + n) (placesOf P ys)"
proof -
  have "[0..<a + b] = [0..<a] @ map (\<lambda>n. a + n) [0..<b]" for a b :: nat by (induction b) simp_all
  moreover have "filter (\<lambda>n. P ((xs @ ys) ! n)) [0..<length xs] = filter (\<lambda>n. P (xs ! n)) [0..<length xs]"
    by (rule filter_cong) (auto simp: nth_append)
  ultimately show ?thesis by (simp add: placesOf_def filter_map comp_def)
qed

lemma wireGroup_spec:
  assumes "wireGroup toID js grp w = (grp', w')" "wi_next w = length ls" "\<forall>c. wi_inputs w c = placesOf (\<lambda>l. snd l = c) ls"
  shows "grp' = grp @ [length ls..<length ls + length js] \<and> wi_outputs w' = wi_outputs w \<and>
    wi_next w' = length ls + length js \<and>
    (\<forall>c. wi_inputs w' c = placesOf (\<lambda>l. snd l = c) (ls @ map (\<lambda>j. (p, \<lparr>si_vertexID = toID, si_index = j\<rparr>)) js))"
  using assms
proof (induction js arbitrary: grp w ls)
  case (Cons j js)
  let ?c = "\<lparr>si_vertexID = toID, si_index = j\<rparr>"
  let ?w = "w\<lparr>wi_next := wi_next w + 1, wi_inputs := (wi_inputs w)(?c := wi_inputs w ?c @ [wi_next w])\<rparr>"
  have "wireGroup toID js (grp @ [length ls]) ?w = (grp', w')" using Cons.prems(1,2) by (simp add: Let_def)
  moreover have "\<forall>c. wi_inputs ?w c = placesOf (\<lambda>l. snd l = c) (ls @ [(p, ?c)])"
    using Cons.prems(2,3) by (simp add: placesOf_append) (simp add: placesOf_def)
  ultimately have "grp' = (grp @ [length ls]) @ [length (ls @ [(p, ?c)])..<length (ls @ [(p, ?c)]) + length js] \<and>
    wi_outputs w' = wi_outputs ?w \<and> wi_next w' = length (ls @ [(p, ?c)]) + length js \<and>
    (\<forall>c. wi_inputs w' c = placesOf (\<lambda>l. snd l = c) ((ls @ [(p, ?c)]) @ map (\<lambda>j. (p, \<lparr>si_vertexID = toID, si_index = j\<rparr>)) js))"
    using Cons.prems(2) by (intro Cons.IH) simp_all
  moreover have "[length ls..<length ls + length (j # js)] = length ls # [Suc (length ls)..<Suc (length ls) + length js]"
    by (subst upt_conv_Cons) simp_all
  ultimately show ?case by (simp del: upt_Suc)
qed simp

text \<open>The invariant of the loops, over the blocks done so far.\<close>

abbreviation links :: "(bytes \<Rightarrow> int64 list) \<Rightarrow> (subtaskID \<times> bytes) list \<Rightarrow> (subtaskID \<times> subtaskID) list" where
  "links js bs \<equiv> concat (map (linksOf js) bs)"

definition groupAt :: "(bytes \<Rightarrow> int64 list) \<Rightarrow> (subtaskID \<times> bytes) list \<Rightarrow> nat \<Rightarrow> channel list" where
  "groupAt js bs m = [length (links js (take m bs))..<length (links js (take m bs)) + length (js (snd (bs ! m)))]"

definition laidOut :: "(bytes \<Rightarrow> int64 list) \<Rightarrow> (subtaskID \<times> bytes) list \<Rightarrow> wiring \<Rightarrow> bool" where
  "laidOut js bs w \<longleftrightarrow> wi_next w = length (links js bs) \<and>
     (\<forall>c. wi_inputs w c = placesOf (\<lambda>l. snd l = c) (links js bs)) \<and>
     (\<forall>p. wi_outputs w p = map (groupAt js bs) (placesOf (\<lambda>b. fst b = p) bs))"

lemma laidOut_block:
  assumes "laidOut js bs w"
  shows "laidOut js (bs @ [b]) (wireBlock js b w)"
proof -
  obtain grp w1 where g: "wireGroup (snd b) (js (snd b)) [] w = (grp, w1)" by fastforce
  have w: "wi_next w = length (links js bs)" "\<forall>c. wi_inputs w c = placesOf (\<lambda>l. snd l = c) (links js bs)"
    "\<And>p. wi_outputs w p = map (groupAt js bs) (placesOf (\<lambda>b. fst b = p) bs)" using assms by (auto simp: laidOut_def)
  note sp = wireGroup_spec [OF g w(1,2), of "fst b"]
  have same: "map (groupAt js (bs @ [b])) (placesOf P bs) = map (groupAt js bs) (placesOf P bs)" for P
    by (rule map_cong) (auto simp: groupAt_def placesOf_def nth_append)
  have "groupAt js (bs @ [b]) (length bs) = grp" using sp by (simp add: groupAt_def)
  moreover have "placesOf (\<lambda>x. fst x = p) [b] = (if fst b = p then [0] else [])" for p by (simp add: placesOf_def)
  ultimately have "wi_outputs (wireBlock js b w) p = map (groupAt js (bs @ [b])) (placesOf (\<lambda>b. fst b = p) (bs @ [b]))" for p
    using sp g by (simp add: wireBlock_def placesOf_append same w(3))
  moreover have "links js (bs @ [b]) = links js bs @ map (\<lambda>j. (fst b, \<lparr>si_vertexID = snd b, si_index = j\<rparr>)) (js (snd b))"
    by (simp add: linksOf_def)
  ultimately show ?thesis using sp g unfolding laidOut_def by (simp add: wireBlock_def)
qed

lemma laidOut_all: "laidOut js bs (fold (wireBlock js) bs \<lparr>wi_next = 0, wi_inputs = (\<lambda>_. []), wi_outputs = (\<lambda>_. [])\<rparr>)"
proof (induction bs rule: rev_induct)
  case Nil
  then show ?case by (simp add: laidOut_def placesOf_def)
next
  case (snoc b bs)
  then show ?case using laidOut_block by simp
qed

text \<open>The channel \<open>j\<close> of a block's group links its producer to the consumer \<open>j\<close> of its vertex.\<close>

lemma groupAt_links:
  assumes "m < length bs" "j < length (js (snd (bs ! m)))"
  shows "groupAt js bs m ! j < length (links js bs)"
    "links js bs ! (groupAt js bs m ! j) = (fst (bs ! m), \<lparr>si_vertexID = snd (bs ! m), si_index = js (snd (bs ! m)) ! j\<rparr>)"
proof -
  have bs: "links js bs = links js (take m bs) @ linksOf js (bs ! m) @ links js (drop (Suc m) bs)"
    by (subst id_take_nth_drop [OF assms(1)]) simp
  have "groupAt js bs m ! j = length (links js (take m bs)) + j" using assms(2) by (simp add: groupAt_def)
  then show "groupAt js bs m ! j < length (links js bs)"
    "links js bs ! (groupAt js bs m ! j) = (fst (bs ! m), \<lparr>si_vertexID = snd (bs ! m), si_index = js (snd (bs ! m)) ! j\<rparr>)"
    using assms(2) by (subst bs, simp add: nth_append linksOf_def)+
qed

lemma map_nth_placesOf: "map ((!) xs) (placesOf P xs) = filter P xs"
proof -
  have "filter P (map ((!) xs) [0..<length xs]) = map ((!) xs) (placesOf P xs)" by (simp add: filter_map comp_def placesOf_def)
  then show ?thesis by (simp add: map_nth)
qed

lemma indices_nth [simp]:
  "length (indices p) = nat (sint p)" "j < nat (sint p) \<Longrightarrow> indices p ! j = word_of_nat j"
  by (simp_all add: indices_def)

lemma distinct_indices: "distinct (indices p)"
proof -
  have "inj_on (word_of_nat :: nat \<Rightarrow> int64) {0..<nat (sint p)}"
  proof (rule inj_on_inverseI)
    fix x assume "x \<in> {0..<nat (sint p)}"
    moreover have "sint p \<le> 9223372036854775807" by (rule sint64_bounds)
    ultimately have "x < 18446744073709551616" by auto
    then show "unat (word_of_nat x :: int64) = x" by (simp add: unat_of_nat)
  qed
  then show ?thesis by (simp add: indices_def distinct_map)
qed

lemma filter_one: "distinct xs \<Longrightarrow> i \<in> set xs \<Longrightarrow> filter (\<lambda>k. k = i) xs = [i]"
  by (induction xs) (auto simp: filter_empty_conv)

text \<open>The groups of a subtask go to the vertices downstream of its own, in their order.\<close>

lemma blocks_of_producer:
  assumes "distinct (map ID order)" "v \<in> set order" "i \<in> set (indices (Parallelism v))"
  shows "map snd (filter (\<lambda>b. fst b = \<lparr>si_vertexID = ID v, si_index = i\<rparr>) (blocks g order)) = Downstream g (ID v)"
proof -
  let ?p = "\<lparr>si_vertexID = ID v, si_index = i\<rparr>"
  define f where "f u = concat (map (\<lambda>toID. map (\<lambda>i. (\<lparr>si_vertexID = ID u, si_index = i\<rparr>, toID)) (indices (Parallelism u))) (Downstream g (ID u)))"
    for u :: Vertex
  have none: "filter (\<lambda>b. fst b = ?p) (f u) = []" if "ID u \<noteq> ID v" for u
    using that by (auto simp: f_def filter_empty_conv)
  have "filter (\<lambda>k. k = i) (indices (Parallelism v)) = [i]"
    by (rule filter_one [OF distinct_indices assms(3)])
  then have one: "filter (\<lambda>b. fst b = ?p) (map (\<lambda>i. (\<lparr>si_vertexID = ID v, si_index = i\<rparr>, toID)) (indices (Parallelism v))) = [(?p, toID)]" for toID
    by (simp add: filter_map comp_def)
  have own: "map snd (filter (\<lambda>b. fst b = ?p) (f v)) = Downstream g (ID v)"
    unfolding f_def filter_concat map_concat map_map comp_def one by simp
  obtain us ws where o: "order = us @ v # ws" using split_list [OF assms(2)] by blast
  then have "ID v \<notin> ID ` (set us \<union> set ws)" using assms(1) by auto
  then have "ID u \<noteq> ID v" if "u \<in> set us \<union> set ws" for u using that by (metis imageI)
  then have "filter (\<lambda>b. fst b = ?p) (concat (map f us)) = []" "filter (\<lambda>b. fst b = ?p) (concat (map f ws)) = []"
    using none by (auto simp: filter_concat)
  then show ?thesis using own unfolding blocks_def f_def [symmetric] o by simp
qed

lemma vertexIn_order:
  assumes "distinct (map ID order)" "v \<in> set order"
  shows "vertexIn order (ID v) = v"
proof -
  have "map_of (map (\<lambda>v. (ID v, v)) (rev order)) (ID v) = Some v"
    using assms by (intro map_of_is_SomeI) (auto simp: comp_def rev_map [symmetric])
  then show ?thesis by (simp add: vertexIn_def)
qed

lemma distinct_blocks:
  assumes "distinct (map ID order)" "\<And>u. distinct (Downstream g u)"
  shows "distinct (blocks g order)"
proof -
  have one: "distinct (concat (map (\<lambda>toID. map (\<lambda>i. (\<lparr>si_vertexID = u, si_index = i\<rparr>, toID)) js) ds))"
    if "distinct ds" "distinct js" for u and js :: "int64 list" and ds :: "bytes list"
    using that by (induction ds) (auto simp: distinct_map inj_on_def)
  show ?thesis
    using assms one [OF assms(2) distinct_indices] unfolding blocks_def
    by (induction order) auto
qed

lemma distinct_links: "distinct bs \<Longrightarrow> (\<And>v. distinct (js v)) \<Longrightarrow> distinct (links js bs)"
  by (induction bs) (auto simp: linksOf_def distinct_map inj_on_def intro: prod_eqI)

lemma set_links:
  assumes "set order = vertexOf g ` ids g" "\<And>i. i \<in> ids g \<Longrightarrow> ID (vertexOf g i) = i"
    "\<And>u v. v \<in> set (Downstream g u) \<Longrightarrow> u \<in> ids g \<and> v \<in> ids g" "\<And>i. i \<in> ids g \<Longrightarrow> js i = indices (Parallelism (vertexOf g i))"
  shows "set (links js (blocks g order)) =
    {(\<lparr>si_vertexID = u, si_index = i\<rparr>, \<lparr>si_vertexID = v, si_index = j\<rparr>) | u v i j. v \<in> set (Downstream g u) \<and>
      i \<in> set (indices (Parallelism (vertexOf g u))) \<and> j \<in> set (indices (Parallelism (vertexOf g v)))}" (is "?L = ?R")
proof
  show "?L \<subseteq> ?R" using assms by (fastforce simp: blocks_def linksOf_def)
  show "?R \<subseteq> ?L"
  proof
    fix x assume "x \<in> ?R"
    then obtain u v i j where x: "x = (\<lparr>si_vertexID = u, si_index = i\<rparr>, \<lparr>si_vertexID = v, si_index = j\<rparr>)" "v \<in> set (Downstream g u)"
      "i \<in> set (indices (Parallelism (vertexOf g u)))" "j \<in> set (indices (Parallelism (vertexOf g v)))" by blast
    have uv: "u \<in> ids g" "v \<in> ids g" using assms(3) [OF x(2)] by auto
    have "(\<lparr>si_vertexID = u, si_index = i\<rparr>, v) \<in> set (blocks g order)"
      using uv(1) x(2,3) assms(1,2) by (force simp: blocks_def)
    then show "x \<in> ?L" using x(1,4) assms(4) [OF uv(2)] by (force simp: linksOf_def)
  qed
qed

lemma outputs_of_subtask:
  assumes w: "laidOut js bs w" and ds: "map snd (filter (\<lambda>b. fst b = p) bs) = ds"
  shows "length (wi_outputs w p) = length ds"
    "m < length ds \<Longrightarrow> length (wi_outputs w p ! m) = length (js (ds ! m))"
    "m < length ds \<Longrightarrow> j < length (js (ds ! m)) \<Longrightarrow> wi_outputs w p ! m ! j < length (links js bs) \<and>
      links js bs ! (wi_outputs w p ! m ! j) = (p, \<lparr>si_vertexID = ds ! m, si_index = js (ds ! m) ! j\<rparr>)"
proof -
  define ns where "ns = placesOf (\<lambda>b. fst b = p) bs"
  have out: "wi_outputs w p = map (groupAt js bs) ns" using w by (simp add: laidOut_def ns_def)
  have ds': "ds = map (\<lambda>n. snd (bs ! n)) ns"
    unfolding ds [symmetric] ns_def by (simp add: map_nth_placesOf [symmetric])
  show "length (wi_outputs w p) = length ds" by (simp add: out ds')
  show "length (wi_outputs w p ! m) = length (js (ds ! m))" if "m < length ds" using that by (simp add: out ds' groupAt_def)
  show "wi_outputs w p ! m ! j < length (links js bs) \<and>
      links js bs ! (wi_outputs w p ! m ! j) = (p, \<lparr>si_vertexID = ds ! m, si_index = js (ds ! m) ! j\<rparr>)"
    if m: "m < length ds" and j: "j < length (js (ds ! m))"
  proof -
    have "ns ! m \<in> set ns" using m ds' by simp
    then have n: "ns ! m < length bs" "fst (bs ! (ns ! m)) = p" by (auto simp: ns_def placesOf_def)
    have "snd (bs ! (ns ! m)) = ds ! m" "wi_outputs w p ! m = groupAt js bs (ns ! m)" using m by (simp_all add: ds' out)
    then show ?thesis using groupAt_links [OF n(1), of j js] j n(2) by simp
  qed
qed

section \<open>Properties\<close>

text \<open>C9. \<open>wire\<close> gives every pair of subtasks on an edge a channel of its own. The channels of a valid
  job are numbered by a list of links, which holds each pair of a subtask of the edge's start and
  one of its end exactly once. The inputs of a subtask are the channels that lead to it, in the
  order they were made. The outputs of a subtask form one group for each vertex downstream of it,
  in the order of \<open>Downstream\<close>; a group holds one channel for each subtask of that vertex, and the
  channel at place \<open>j\<close>, which the writer picks by the hash of a key, leads from this subtask to
  subtask \<open>j\<close>.\<close>

theorem wire_connects:
  assumes "built g" "TopoOrder g = Some (Inr order)"
  shows "\<exists>ls. distinct ls \<and>
    set ls = {(\<lparr>si_vertexID = u, si_index = i\<rparr>, \<lparr>si_vertexID = v, si_index = j\<rparr>) | u v i j. v \<in> set (Downstream g u) \<and>
      i \<in> set (indices (Parallelism (vertexOf g u))) \<and> j \<in> set (indices (Parallelism (vertexOf g v)))} \<and>
    (\<forall>q. wi_inputs (wire g order) q = filter (\<lambda>n. snd (ls ! n) = q) [0..<length ls]) \<and>
    (\<forall>u i. u \<in> ids g \<and> i \<in> set (indices (Parallelism (vertexOf g u))) \<longrightarrow>
      (let groups = wi_outputs (wire g order) \<lparr>si_vertexID = u, si_index = i\<rparr>; ds = Downstream g u
       in length groups = length ds \<and>
          (\<forall>m < length ds. length (groups ! m) = nat (sint (Parallelism (vertexOf g (ds ! m)))) \<and>
            (\<forall>j < length (groups ! m). groups ! m ! j < length ls \<and>
              ls ! (groups ! m ! j) = (\<lparr>si_vertexID = u, si_index = i\<rparr>, \<lparr>si_vertexID = ds ! m, si_index = word_of_nat j\<rparr>)))))"
proof -
  have inv: "graph_inv g" by (rule built_inv [OF assms(1)])
  have o: "distinct (map ID order)" "set order = vertexOf g ` ids g" using TopoOrder_spec [OF assms(1)] assms(2) by auto
  have d: "distinct (Downstream g u)" "v \<in> set (Downstream g u) \<Longrightarrow> u \<in> ids g \<and> v \<in> ids g" for u v
    using inv by (auto simp: graph_inv_def Downstream_def edges_def)
  define js where "js v = indices (Parallelism (vertexIn order v))" for v
  define bs where "bs = blocks g order"
  have js: "js v = indices (Parallelism (vertexOf g v))" if "v \<in> ids g" for v
    using vertexIn_order [OF o(1), of "vertexOf g v"] ID_vertexOf [OF inv that] that o(2) by (simp add: js_def)
  have w: "laidOut js bs (wire g order)" unfolding wire_blocks js_def [abs_def, symmetric] bs_def [symmetric] by (rule laidOut_all)
  have "distinct (links js bs)" unfolding bs_def
    by (intro distinct_links distinct_blocks o(1) d(1)) (simp add: js_def distinct_indices)
  moreover note set_links [OF o(2) ID_vertexOf [OF inv] d(2) js]
  moreover have "wi_inputs (wire g order) q = filter (\<lambda>n. snd (links js bs ! n) = q) [0..<length (links js bs)]" for q
    using w by (simp add: laidOut_def placesOf_def)
  moreover have "let groups = wi_outputs (wire g order) \<lparr>si_vertexID = u, si_index = i\<rparr>; ds = Downstream g u
       in length groups = length ds \<and>
          (\<forall>m < length ds. length (groups ! m) = nat (sint (Parallelism (vertexOf g (ds ! m)))) \<and>
            (\<forall>j < length (groups ! m). groups ! m ! j < length (links js bs) \<and>
              links js bs ! (groups ! m ! j) = (\<lparr>si_vertexID = u, si_index = i\<rparr>, \<lparr>si_vertexID = ds ! m, si_index = word_of_nat j\<rparr>)))"
    if ui: "u \<in> ids g \<and> i \<in> set (indices (Parallelism (vertexOf g u)))" for u i
  proof -
    have "map snd (filter (\<lambda>b. fst b = \<lparr>si_vertexID = u, si_index = i\<rparr>) bs) = Downstream g u"
      using blocks_of_producer [OF o(1), of "vertexOf g u" i g] ui o(2) ID_vertexOf [OF inv] by (simp add: bs_def)
    note out = outputs_of_subtask [OF w this]
    have "js (Downstream g u ! m) = indices (Parallelism (vertexOf g (Downstream g u ! m)))" if "m < length (Downstream g u)" for m
      using js d(2) [of "Downstream g u ! m" u] that by simp
    then show ?thesis using out by (simp add: Let_def)
  qed
  ultimately show ?thesis unfolding bs_def [symmetric] by blast
qed

theorem wire_connects_witness:
  "\<exists>order groups. TopoOrder example_graph = Some (Inr order) \<and>
    wi_outputs (wire example_graph order) \<lparr>si_vertexID = [2], si_index = 1\<rparr> = groups \<and> length groups = 1 \<and> length (groups ! 0) = 3"
proof -
  have g: "[2] \<in> ids example_graph" "Downstream example_graph [2] = [[1]]"
    "Parallelism (vertexOf example_graph [2]) = 2" "Parallelism (vertexOf example_graph [1]) = 3"
    by (simp_all add: example_graph_vertices example_graph_ids zeroVertex_def)
  obtain order where o: "TopoOrder example_graph = Some (Inr order)"
    using TopoOrder_spec [OF example_built] Validate_iff [OF built_inv [OF example_built]] example_validate by auto
  have "(1 :: int64) \<in> set (indices 2)" by (simp add: indices_def numeral_2_eq_2)
  then show ?thesis using wire_connects [OF example_built o] o g by (force simp: Let_def)
qed

lemma subtasks_of_job:
  assumes "v \<in> set order" "index \<in> set (indices (Parallelism v))"
  shows "checkpointKey \<lparr>si_vertexID = ID v, si_index = index\<rparr> \<in> set (Subtasks (buildMetadata countOf order seed))"
  using assms by (fastforce simp: Subtasks_def buildMetadata_def vertexMeta_def indices_def checkpointKey_def)

lemma map_of_keys: "k \<in> set ks \<Longrightarrow> map_of (map (\<lambda>k. (k, f k)) ks) k = Some (f k)"
  by (induction ks) auto

section \<open>A root over many runs\<close>

text \<open>What becomes of a root that runs of one job take their checkpoints in, first on a disk without
  any: \<open>hs\<close> are the calls the subtasks made in each of the runs so far. A run may be the first,
  may resume from this root or from another, and may have died at any moment. It uses no
  identifier whose marker is, or may still be, on the disk: the checkpoints of a run that
  resumes are numbered from the one it restored, the greatest with a marker. Between two runs
  the machine may have stopped, and then the disk is one a crash can leave.\<close>

inductive jobRuns :: "Metadata \<Rightarrow> (call \<times> go_error option) list list \<Rightarrow> disk \<Rightarrow> bool" for meta where
  unused: "disk_good d \<Longrightarrow> \<forall>i. disk_may d (marker i) = {None} \<Longrightarrow> jobRuns meta [] d"
| ran: "jobRuns meta hs d \<Longrightarrow> co_run diskFS (NewCoordinator d meta) h c \<Longrightarrow> \<forall>(a, e) \<in> set h. admissible d a \<Longrightarrow>
    jobRuns meta (hs @ [h]) (co_storage c)"
| rebooted: "jobRuns meta hs d \<Longrightarrow> crash_view d rd \<Longrightarrow> disk_good d' \<Longrightarrow> \<forall>p. finalName (snd p) \<longrightarrow> disk_may d' p = {rd p} \<Longrightarrow>
    jobRuns meta hs d'"

text \<open>A checkpoint that may have a marker is whole, and was taken by one of the runs.\<close>

definition certifiedBy :: "(call \<times> go_error option) list \<Rightarrow> Metadata \<Rightarrow> disk \<Rightarrow> int64 \<Rightarrow> bool" where
  "certifiedBy h meta d i \<longleftrightarrow> certified (firstAck h) (firstFin h) meta d i"

lemma certified_reboot:
  assumes "certifiedBy h meta d i" "crash_view d rd" "disk_good d'" "\<forall>p. finalName (snd p) \<longrightarrow> disk_may d' p = {rd p}"
    and "rd (marker i) \<noteq> None"
  shows "certifiedBy h meta d' i"
proof -
  have v: "ds.vouched d i" using assms(1) by (simp add: certifiedBy_def certified_def)
  have cur: "disk_cur d' p = rd p" if "finalName (snd p)" for p
    using ds.cur_may [OF assms(3) that] assms(4) that by simp
  have same: "disk_cur d' (storage_dir i, n) = disk_cur d (storage_dir i, n)" if "finalName n" "n \<noteq> completeName" for n
    using crash_view_marked(1) [OF assms(2,5) _ that(1)] v that cur by (auto simp: ds.vouched_def)
  have "ds.vouched d' i" using cur assms(4) by (simp add: ds.vouched_def)
  moreover have "statesHeld (disk_cur d') i meta pay = statesHeld (disk_cur d) i meta pay" for pay
    using same by (simp add: statesHeld_def)
  ultimately show ?thesis using assms(1) same [of metadataName] by (simp add: certifiedBy_def certified_def)
qed

lemma jobRuns_certified:
  assumes "jobRuns meta hs d" "validMeta meta"
  shows "disk_good d \<and> (\<forall>i. disk_may d (marker i) \<noteq> {None} \<longrightarrow> (\<exists>h \<in> set hs. certifiedBy h meta d i))"
  using assms(1)
proof (induction rule: jobRuns.induct)
  case (ran hs d h c)
  have g: "disk_good d" using ran.IH by blast
  have inv: "coInv (firstAck h) (firstFin h) meta {i. disk_may d (marker i) = {None}} c"
    by (rule run_inv [OF ran.hyps(2) g assms(2) ran.hyps(3)])
  have "\<exists>h' \<in> set (hs @ [h]). certifiedBy h' meta (co_storage c) i" if "disk_may (co_storage c) (marker i) \<noteq> {None}" for i
  proof (cases "disk_may d (marker i) = {None}")
    case True
    then have "idInv (firstAck h) (firstFin h) meta (co_storage c) i (co_state c i)" using inv by (simp add: coInv_def)
    then have "certifiedBy h meta (co_storage c) i"
      using that unfolding certifiedBy_def idInv_def by (auto split: option.splits if_splits)
    then show ?thesis by simp
  next
    case False
    then obtain h' where "h' \<in> set hs" "certifiedBy h' meta d i" using ran.IH by blast
    then show ?thesis
      using sameDir_simps(3) [OF run_sameDir [OF ran.hyps(2) g assms(2) ran.hyps(3) False]] by (auto simp: certifiedBy_def)
  qed
  then show ?case using inv by (simp add: coInv_def)
next
  case (rebooted hs d rd d')
  have "\<exists>h \<in> set hs. certifiedBy h meta d' i" if "disk_may d' (marker i) \<noteq> {None}" for i
  proof -
    have m: "rd (marker i) \<noteq> None" using that rebooted.hyps(4) by simp
    then have "disk_may d (marker i) \<noteq> {None}"
      using crash_view_marked(2) [OF rebooted.hyps(2) m finalNames(1) finalNames(1)] m by (metis singletonD)
    then obtain h where "h \<in> set hs" "certifiedBy h meta d i" using rebooted.IH by blast
    then show ?thesis using certified_reboot [OF _ rebooted.hyps(2-4) m] by blast
  qed
  then show ?case using rebooted.hyps(3) by blast
qed simp

text \<open>C8. A job resumes from what its subtasks acknowledged. Take a root without checkpoints at first,
  and any number of runs of one job on it, fresh ones and ones that resume, with file
  operations that fail anywhere, calls in any order, and processes and machines that stop
  anywhere; no run takes a checkpoint under an identifier that already has a marker, and every
  entry of the root named like a checkpoint was made by the storage. \<open>loadRestorePoint\<close> on what
  is left at the end either finds no checkpoint with a marker, and refuses; or it takes the
  one with the greatest identifier, never refusing it, and then every subtask of the resumed
  job is handed that identifier and the payload with which, in one and the same earlier run,
  it acknowledged that checkpoint or finished.\<close>

theorem resume_restores_acknowledged:
  assumes meta: "meta = buildMetadata countOf order seed" "validMeta meta"
    and runs: "jobRuns meta hs d" "crash_view d rd"
    and es: "\<forall>e \<in> set es. take (length dirPrefix) e = dirPrefix \<longrightarrow> (\<exists>i. e = storage_dir i)"
      "\<forall>i. rd (storage_dir i, completeName) \<noteq> None \<longrightarrow> storage_dir i \<in> set es"
  shows "case loadRestorePoint (Some (Some es, rd)) meta of
      Inl e \<Rightarrow> e = RuntimeErr errNoRestorePoint \<and> (\<forall>i. rd (storage_dir i, completeName) = None)
    | Inr (restored, i) \<Rightarrow> rd (storage_dir i, completeName) \<noteq> None \<and>
        (\<forall>j. rd (storage_dir j, completeName) \<noteq> None \<longrightarrow> sint j \<le> sint i) \<and>
        (\<exists>h \<in> set hs. \<forall>cfg \<in> set (subtaskConfigs order w restored i). sc_restoredCheckpoint cfg = i \<and>
          (\<exists>payload. sc_restore cfg = Some payload \<and>
            (firstAck h i (checkpointKey (sc_id cfg)) = Some payload \<or> firstFin h (checkpointKey (sc_id cfg)) = Some payload)))"
proof -
  have best: "best_of None (complete_ids rd es) (storage_Latest (Some es) rd)"
    using latestAmong_best [OF es(1)] by (simp add: storage_Latest_def)
  have ids: "complete_ids rd es = {i. rd (storage_dir i, completeName) \<noteq> None}" using es(2) by (auto simp: complete_ids_def)
  show ?thesis
  proof (cases "storage_Latest (Some es) rd")
    case None
    then show ?thesis using best by (auto simp: loadRestorePoint_def best_of_def ids)
  next
    case (Some i)
    then have i: "rd (marker i) \<noteq> None" "\<forall>j. rd (marker j) \<noteq> None \<longrightarrow> sint j \<le> sint i"
      using best unfolding best_of_def ids by auto
    then have "disk_may d (marker i) \<noteq> {None}" using crash_view_marked(2) [OF runs(2) i(1) finalNames(1) finalNames(1)] by (metis singletonD)
    then obtain h where h: "h \<in> set hs" "certifiedBy h meta d i" using jobRuns_certified [OF runs(1) meta(2)] by blast
    then obtain pay where p: "storage_Load rd i = Inr (meta, map (\<lambda>k. (k, pay k)) (Subtasks meta))"
      "\<forall>k \<in> set (Subtasks meta). firstAck h i k = Some (pay k) \<or> firstFin h k = Some (pay k)"
      using Load_vouched [OF meta(2) _ _ _ runs(2) i(1)] unfolding certifiedBy_def certified_def by blast
    have load: "loadRestorePoint (Some (Some es, rd)) meta = Inr (map (\<lambda>k. (k, pay k)) (Subtasks meta), i)"
      using Some p(1) check_against_exact [of meta meta] by (simp add: loadRestorePoint_def)
    have "sc_restoredCheckpoint cfg = i \<and> (\<exists>payload. sc_restore cfg = Some payload \<and>
        (firstAck h i (checkpointKey (sc_id cfg)) = Some payload \<or> firstFin h (checkpointKey (sc_id cfg)) = Some payload))"
      if cfg: "cfg \<in> set (subtaskConfigs order w (map (\<lambda>k. (k, pay k)) (Subtasks meta)) i)" for cfg
    proof -
      obtain v index where "v \<in> set order" "index \<in> set (indices (Parallelism v))" "sc_id cfg = \<lparr>si_vertexID = ID v, si_index = index\<rparr>"
        "sc_restoredCheckpoint cfg = i" "sc_restore cfg = map_of (map (\<lambda>k. (k, pay k)) (Subtasks meta)) (checkpointKey (sc_id cfg))"
        using cfg by (auto simp: subtaskConfigs_def Let_def)
      then show ?thesis using p(2) map_of_keys [of _ "Subtasks meta" pay] subtasks_of_job [of v order index countOf seed] meta(1) by metis
    qed
    then show ?thesis unfolding load using i h(1) by auto
  qed
qed

definition example_order :: "Vertex list" where
  "example_order = [zeroVertex\<lparr>ID := [97, 45, 98], VKind := VertexSource, Parallelism := 1, NewSource := Some 0\<rparr>]"

text \<open>Two runs: the first completes checkpoint 7, the second resumes from it and completes 8. After a
  crash that loses nothing the job resumes from 8; after one that loses the directory of 8, the
  newest, from 7.\<close>

theorem resume_restores_acknowledged_witness:
  "\<exists>c1 c2 rd. co_run diskFS (NewCoordinator (newDisk []) example_job) [(AckCall 7 example_subtask [1, 2], None)] c1 \<and>
    co_run diskFS (NewCoordinator (co_storage c1) example_job) [(AckCall 8 example_subtask [3], None)] c2 \<and>
    crash_view (co_storage c2) rd \<and>
    (\<exists>restored. loadRestorePoint (Some (Some [storage_dir 7, storage_dir 8], disk_cur (co_storage c2))) example_job = Inr (restored, 8) \<and>
      map sc_restore (subtaskConfigs example_order (wire New example_order) restored 8) = [Some [3]]) \<and>
    (\<exists>restored. loadRestorePoint (Some (Some [storage_dir 7], rd)) example_job = Inr (restored, 7) \<and>
      map sc_restore (subtaskConfigs example_order (wire New example_order) restored 7) = [Some [1, 2]])"
proof -
  let ?h1 = "[(AckCall 7 example_subtask [1, 2], None)]" and ?h2 = "[(AckCall 8 example_subtask [3], None)]"
  obtain c1 where c1: "co_run diskFS (NewCoordinator (newDisk []) example_job) ?h1 c1" "clean (co_storage c1)"
    using example_ack_run [OF clean_newDisk] by blast
  obtain c2 where c2: "co_run diskFS (NewCoordinator (co_storage c1) example_job) ?h2 c2"
    using example_ack_run [OF c1(2)] by blast
  have a1: "\<forall>(a, e) \<in> set ?h1. admissible (newDisk []) a" by (simp add: admissible_def)
  have i1: "coInv (firstAck ?h1) (firstFin ?h1) example_job UNIV c1"
    using run_inv [OF c1(1) newDisk_empty(1) example_job_facts(1) a1] by simp
  then have g1: "disk_good (co_storage c1)" by (simp add: coInv_def)
  have m1: "disk_may (co_storage c1) (marker i) \<noteq> {None} \<longleftrightarrow> i = 7" for i
  proof
    assume "disk_may (co_storage c1) (marker i) \<noteq> {None}"
    moreover have "idInv (firstAck ?h1) (firstFin ?h1) example_job (co_storage c1) i (co_state c1 i)" using i1 by (simp add: coInv_def)
    ultimately have "certified (firstAck ?h1) (firstFin ?h1) example_job (co_storage c1) i" using idInv_marked by blast
    then show "i = 7" by (auto simp: certified_def example_history_facts split: if_splits)
  next
    assume "i = 7"
    then show "disk_may (co_storage c1) (marker i) \<noteq> {None}"
      using i1 example_ack_completed [OF c1(1)] by (auto simp: coInv_def idInv_def Completed_def split: option.splits)
  qed
  have a2: "\<forall>(a, e) \<in> set ?h2. admissible (co_storage c1) a" using m1 [of 8] by (simp add: admissible_def)
  have i2: "coInv (firstAck ?h2) (firstFin ?h2) example_job {i. disk_may (co_storage c1) (marker i) = {None}} c2"
    by (rule run_inv [OF c2 g1 example_job_facts(1) a2])
  then have g2: "disk_good (co_storage c2)" by (simp add: coInv_def)
  have m2: "disk_cur (co_storage c2) (marker i) \<noteq> None \<longleftrightarrow> i \<in> {7, 8}" for i
  proof -
    have cm: "disk_cur (co_storage c2) (marker i) \<in> disk_may (co_storage c2) (marker i)" by (rule ds.cur_may [OF g2]) simp
    consider "i = 7" | "i = 8" | "i \<noteq> 7" "i \<noteq> 8" by blast
    then show ?thesis
    proof cases
      case 1
      have "disk_may (co_storage c1) (marker 7) = {Some (FormatInt 7 @ [10])}"
        using i1 example_ack_completed [OF c1(1)] by (auto simp: coInv_def idInv_def Completed_def split: option.splits)
      moreover have "disk_may (co_storage c1) (marker 7) \<noteq> {None}" using m1 [of 7] by simp
      ultimately show ?thesis using sameDir_simps(1) [OF run_sameDir [OF c2 g1 example_job_facts(1) a2]] cm 1 by auto
    next
      case 2
      have "disk_may (co_storage c1) (marker 8) = {None}" using m1 [of 8] by auto
      then have "disk_may (co_storage c2) (marker 8) = {Some (FormatInt 8 @ [10])}"
        using i2 example_ack_completed [OF c2] by (auto simp: coInv_def idInv_def Completed_def split: option.splits)
      then show ?thesis using cm 2 by auto
    next
      case 3
      have "disk_may (co_storage c1) (marker i) = {None}" using m1 [of i] 3 by auto
      then have "idInv (firstAck ?h2) (firstFin ?h2) example_job (co_storage c2) i (co_state c2 i)" using i2 by (simp add: coInv_def)
      then have "disk_may (co_storage c2) (marker i) = {None}"
        using idInv_marked 3 by (fastforce simp: certified_def example_history_facts)
      then show ?thesis using cm 3 by auto
    qed
  qed
  define rd where "rd p = (if fst p = storage_dir 8 then None else disk_cur (co_storage c2) p)" for p
  have v: "crash_view (co_storage c2) rd"
    unfolding crash_view_def by (intro exI [of _ "{storage_dir 8}"]) (simp add: rd_def ds.cur_may [OF g2])
  have meta: "example_job = buildMetadata (\<lambda>_. Some 100) example_order 42"
    by (simp add: example_job_def buildMetadata_def example_order_def vertexMeta_def zeroVertex_def)
  have runs: "jobRuns example_job [?h1, ?h2] (co_storage c2)"
    using jobRuns.ran [OF jobRuns.ran [OF jobRuns.unused c1(1) a1] c2 a2] by simp
  have m: "rd (marker i) \<noteq> None \<longleftrightarrow> i = 7" for i using m2 [of i] by (auto simp: rd_def)
  have e2: "\<forall>e \<in> set [storage_dir 7, storage_dir 8]. take (length dirPrefix) e = dirPrefix \<longrightarrow> (\<exists>i. e = storage_dir i)"
    "\<forall>i. disk_cur (co_storage c2) (marker i) \<noteq> None \<longrightarrow> storage_dir i \<in> set [storage_dir 7, storage_dir 8]" using m2 by auto
  have e1: "\<forall>e \<in> set [storage_dir 7]. take (length dirPrefix) e = dirPrefix \<longrightarrow> (\<exists>i. e = storage_dir i)"
    "\<forall>i. rd (marker i) \<noteq> None \<longrightarrow> storage_dir i \<in> set [storage_dir 7]" using m by auto
  note r2 = resume_restores_acknowledged [OF meta example_job_facts(1) runs crash_view_cur [OF g2] e2, where w = "wire New example_order"]
  note r1 = resume_restores_acknowledged [OF meta example_job_facts(1) runs v e1, where w = "wire New example_order"]
  have cfgs: "map sc_restore (subtaskConfigs example_order (wire New example_order) restored i) = [map_of restored example_subtask]"
    "\<exists>cfg \<in> set (subtaskConfigs example_order (wire New example_order) restored i).
      sc_restore cfg = map_of restored example_subtask \<and> checkpointKey (sc_id cfg) = example_subtask" for restored i
    by (auto simp: subtaskConfigs_def example_order_def indices_def zeroVertex_def checkpointKey_def example_subtask_def Let_def)
  have "\<exists>restored. loadRestorePoint (Some (Some [storage_dir 7, storage_dir 8], disk_cur (co_storage c2))) example_job = Inr (restored, 8) \<and>
      map_of restored example_subtask = Some [3]"
    using r2 m2 cfgs(2) by (force split: sum.splits)
  moreover have "\<exists>restored. loadRestorePoint (Some (Some [storage_dir 7], rd)) example_job = Inr (restored, 7) \<and>
      map_of restored example_subtask = Some [1, 2]"
    using r1 m cfgs(2) by (force split: sum.splits)
  ultimately show ?thesis using c1(1) c2 v unfolding cfgs(1) by blast
qed

end
