(* ===== verification/Source_Interface.thy ===== *)
theory Source_Interface
  imports Core_Types
begin

text \<open>
  \<open>core.Source\<close> of \<open>pkg/core/io.go\<close> and \<open>splittableSource\<close> of \<open>pkg/runtime/source_task.go\<close>: the
  method table the source loop calls, and the contract it relies on. \<open>Count\<close> is the method of
  the extended interface, \<open>None\<close> when the source does not have it.
\<close>

record 's Source =
  src_Next :: "'s \<Rightarrow> 's \<times> Record option result"
  src_SeekTo :: "int64 \<Rightarrow> 's \<Rightarrow> 's \<times> go_error option"
  src_Position :: "'s \<Rightarrow> int64"
  src_Count :: "('s \<Rightarrow> int64) option"

text \<open>The documented contract, of a source that can be split and that reads without errors: an open
  source holds \<open>total\<close> records and reports that number, the one at offset \<open>n\<close> depends on \<open>n\<close> alone,
  and seeking to \<open>n\<close> and reading gives the records from \<open>n\<close> on.\<close>

locale replayable_source =
  fixes S :: "'s Source"
    and good :: "'s \<Rightarrow> bool"
    and recAt :: "int64 \<Rightarrow> Record"
    and total :: int64
  assumes count: "\<exists>c. src_Count S = Some c \<and> (\<forall>s. good s \<longrightarrow> c s = total)"
    and seek: "good s \<Longrightarrow> 0 \<le> sint p \<Longrightarrow>
      \<exists>s'. src_SeekTo S p s = (s', None) \<and> good s' \<and> src_Position S s' = p"
    and next_record: "good s \<Longrightarrow> sint (src_Position S s) < sint total \<Longrightarrow>
      \<exists>s'. src_Next S s = (s', Inr (Some (recAt (src_Position S s)))) \<and> good s' \<and>
        src_Position S s' = src_Position S s + 1"
    and next_end: "good s \<Longrightarrow> sint total \<le> sint (src_Position S s) \<Longrightarrow>
      \<exists>s'. src_Next S s = (s', Inr None) \<and> good s'"

end
