(* ===== verification/Generator.thy ===== *)
theory Generator
  imports Source_Interface
begin

text \<open>
  \<open>pkg/sources/generator.go\<close>: the deterministic generator. Every field of record \<open>n\<close> is a hash of
  the seed and \<open>n\<close>, so the source can be replayed from any offset. \<open>ValueSize\<close> is a Go \<open>int\<close>,
  at least 8 after \<open>Open\<close>.
\<close>

unbundle bit_operations_syntax

section \<open>The source\<close>

record GeneratorConfig =
  Seed :: uint64
  Count :: int64
  KeyCardinality :: int64
  BaseEventTime :: int64
  EventTimeStep :: int64
  MaxLag :: int64
  ValueSize :: int64
  AmountRange :: int64

definition keySalt :: uint64 where "keySalt = 0x1"
definition valueSalt :: uint64 where "valueSalt = 0x2"
definition timeSalt :: uint64 where "timeSalt = 0x3"
definition amountSalt :: uint64 where "amountSalt = 0x4"

record Generator =
  g_cfg :: GeneratorConfig
  g_pos :: int64

definition NewGenerator :: "GeneratorConfig \<Rightarrow> Generator" where
  "NewGenerator cfg = \<lparr>g_cfg = cfg, g_pos = 0\<rparr>"

definition Generator_Open :: "Generator \<Rightarrow> go_error option" where
  "Generator_Open g =
     (let cfg = g_cfg g
      in if Count cfg \<le>s 0 then Some (SourceErr errSourceConfig)
         else if KeyCardinality cfg \<le>s 0 then Some (SourceErr errSourceConfig)
         else if MaxLag cfg <s 0 then Some (SourceErr errSourceConfig)
         else if ValueSize cfg <s 8 then Some (SourceErr errSourceConfig)
         else if AmountRange cfg <s 1 then Some (SourceErr errSourceConfig)
         else None)"

definition mix :: "uint64 \<Rightarrow> uint64 \<Rightarrow> uint64" where
  "mix seed n =
     (let z = seed + (n + 1) * 0x9E3779B97F4A7C15;
          z = (z XOR drop_bit 30 z) * 0xBF58476D1CE4E5B9;
          z = (z XOR drop_bit 27 z) * 0x94D049BB133111EB
      in z XOR drop_bit 31 z)"

definition keyOf :: "GeneratorConfig \<Rightarrow> int64 \<Rightarrow> bytes" where
  "keyOf cfg n = be_put 8 (mix (Seed cfg XOR keySalt) n mod KeyCardinality cfg)"

definition amountOf :: "GeneratorConfig \<Rightarrow> int64 \<Rightarrow> uint64" where
  "amountOf cfg n = mix (Seed cfg XOR amountSalt) n mod AmountRange cfg"

text \<open>The loop of \<open>valueOf\<close> from block \<open>j\<close>, with \<open>room\<close> bytes left: \<open>copy\<close> stops at the end of
  its destination.\<close>

function fillBlocks :: "nat \<Rightarrow> uint64 \<Rightarrow> nat \<Rightarrow> bytes" where
  "fillBlocks room base j =
     (if room = 0 then []
      else take room (be_put 8 (mix base (word_of_nat j))) @ fillBlocks (room - 8) base (Suc j))"
  by auto
termination by (relation "measure fst") auto

declare fillBlocks.simps [simp del]

definition valueOf :: "GeneratorConfig \<Rightarrow> int64 \<Rightarrow> bytes" where
  "valueOf cfg n =
     be_put 8 (amountOf cfg n) @
       fillBlocks (nat (sint (ValueSize cfg)) - 8) (mix (Seed cfg XOR valueSalt) n) 1"

definition timeOf :: "GeneratorConfig \<Rightarrow> int64 \<Rightarrow> int64" where
  "timeOf cfg n =
     (let lag = mix (Seed cfg XOR timeSalt) n mod (MaxLag cfg + 1)
      in BaseEventTime cfg + n * EventTimeStep cfg - lag)"

definition Generator_Next :: "Generator \<Rightarrow> Generator \<times> Record option result" where
  "Generator_Next g =
     (if Count (g_cfg g) \<le>s g_pos g then (g, Inr None)
      else let n = g_pos g
           in (g\<lparr>g_pos := n + 1\<rparr>,
               Inr (Some \<lparr>Key = keyOf (g_cfg g) n, Value = valueOf (g_cfg g) n,
                          EventTime = timeOf (g_cfg g) n\<rparr>)))"

definition Generator_SeekTo :: "int64 \<Rightarrow> Generator \<Rightarrow> Generator \<times> go_error option" where
  "Generator_SeekTo offset g =
     (if offset <s 0 then (g, Some (SourceErr errNegativeSeek)) else (g\<lparr>g_pos := offset\<rparr>, None))"

definition Generator_Position :: "Generator \<Rightarrow> int64" where
  "Generator_Position g = g_pos g"

definition Generator_Count :: "Generator \<Rightarrow> int64" where
  "Generator_Count g = Count (g_cfg g)"

definition Generator_source :: "Generator Source" where
  "Generator_source = \<lparr>src_Next = Generator_Next, src_SeekTo = Generator_SeekTo,
     src_Position = Generator_Position, src_Count = Some Generator_Count\<rparr>"

section \<open>The contract\<close>

definition genRecord :: "GeneratorConfig \<Rightarrow> int64 \<Rightarrow> Record" where
  "genRecord cfg n = \<lparr>Key = keyOf cfg n, Value = valueOf cfg n, EventTime = timeOf cfg n\<rparr>"

interpretation gen: replayable_source Generator_source "\<lambda>g. g_cfg g = cfg" "genRecord cfg" "Count cfg"
  for cfg
  by unfold_locales
    (auto simp: Generator_source_def Generator_Count_def Generator_SeekTo_def Generator_Position_def
      Generator_Next_def genRecord_def word_sless_alt word_sle_eq Let_def)

section \<open>What the records look like\<close>

lemma length_fillBlocks [simp]: "length (fillBlocks room base j) = room"
proof (induction room base j rule: fillBlocks.induct)
  case (1 room base j)
  then show ?case by (subst fillBlocks.simps) auto
qed

text \<open>A record's event time trails the straight line \<open>Base + n * Step\<close> by at most \<open>MaxLag\<close>.\<close>

lemma sint_lag:
  assumes "0 \<le> sint (m :: int64)"
  shows "0 \<le> sint (x mod (m + 1))" "sint (x mod (m + 1)) \<le> sint m"
proof -
  have b: "sint m \<le> 9223372036854775807" by (rule sint64_bounds)
  have "m + 1 = word_of_int (sint m + 1)" by (simp add: wi_hom_syms)
  then have "uint (m + 1) = sint m + 1" using assms b by (simp only: uint64_of_int)
  then have "uint (x mod (m + 1)) = uint x mod (sint m + 1)" by (simp only: uint_mod)
  then have u: "0 \<le> uint (x mod (m + 1))" "uint (x mod (m + 1)) \<le> sint m"
    using assms pos_mod_bound [of "sint m + 1" "uint x"] by simp_all
  have "sint (x mod (m + 1)) = uint (x mod (m + 1))"
    using sint64_of_int [of "uint (x mod (m + 1))"] u b by simp
  with u show "0 \<le> sint (x mod (m + 1))" "sint (x mod (m + 1)) \<le> sint m" by simp_all
qed

definition timeLine :: "GeneratorConfig \<Rightarrow> int64 \<Rightarrow> int" where
  "timeLine cfg n = sint (BaseEventTime cfg) + sint n * sint (EventTimeStep cfg)"

text \<open>The event times fit in an \<open>int64\<close>, and the line does not fall: \<open>Open\<close> checks neither.\<close>

definition timesFit :: "GeneratorConfig \<Rightarrow> bool" where
  "timesFit cfg \<longleftrightarrow> 0 \<le> sint (MaxLag cfg) \<and> 0 \<le> sint (EventTimeStep cfg) \<and>
     - (2 ^ 63) < sint (BaseEventTime cfg) - sint (MaxLag cfg) \<and>
     sint (BaseEventTime cfg) + sint (Count cfg) * sint (EventTimeStep cfg) < 2 ^ 63"

lemma sint_timeOf:
  assumes fit: "timesFit cfg" and n: "0 \<le> sint n" "sint n < sint (Count cfg)"
  shows "timeLine cfg n - sint (MaxLag cfg) \<le> sint (timeOf cfg n)" "sint (timeOf cfg n) \<le> timeLine cfg n"
proof -
  let ?lag = "mix (Seed cfg XOR timeSalt) n mod (MaxLag cfg + 1)"
  have lag: "0 \<le> sint ?lag" "sint ?lag \<le> sint (MaxLag cfg)"
    using fit by (simp_all add: timesFit_def sint_lag)
  have "timeOf cfg n = word_of_int (timeLine cfg n - sint ?lag)"
    by (simp add: timeOf_def timeLine_def Let_def wi_hom_syms)
  moreover have "0 \<le> sint n * sint (EventTimeStep cfg)" using fit n by (simp add: timesFit_def)
  moreover have "sint n * sint (EventTimeStep cfg) \<le> sint (Count cfg) * sint (EventTimeStep cfg)"
    using fit n by (intro mult_right_mono) (simp_all add: timesFit_def)
  then have "- 9223372036854775808 \<le> timeLine cfg n - sint ?lag" "timeLine cfg n - sint ?lag \<le> 9223372036854775807"
    using fit lag calculation by (simp_all add: timesFit_def timeLine_def)
  ultimately have "sint (timeOf cfg n) = timeLine cfg n - sint ?lag"
    by (simp only: sint64_of_int)
  with lag show "timeLine cfg n - sint (MaxLag cfg) \<le> sint (timeOf cfg n)" "sint (timeOf cfg n) \<le> timeLine cfg n"
    by linarith+
qed

lemma timeOf_bounded_disorder:
  assumes fit: "timesFit cfg" and mn: "0 \<le> sint m" "sint m \<le> sint n" "sint n < sint (Count cfg)"
  shows "sint (timeOf cfg m) - sint (MaxLag cfg) \<le> sint (timeOf cfg n)"
    "- (2 ^ 63) < sint (timeOf cfg n)"
proof -
  have "timeLine cfg m \<le> timeLine cfg n"
    using mn fit by (auto simp: timeLine_def timesFit_def intro: mult_right_mono)
  then show "sint (timeOf cfg m) - sint (MaxLag cfg) \<le> sint (timeOf cfg n)"
    using sint_timeOf(2) [OF fit, of m] sint_timeOf(1) [OF fit, of n] mn by linarith
  have "0 \<le> sint n * sint (EventTimeStep cfg)" using fit mn by (simp add: timesFit_def)
  then have "sint (BaseEventTime cfg) - sint (MaxLag cfg) \<le> sint (timeOf cfg n)"
    using sint_timeOf(1) [OF fit, of n] mn by (simp add: timeLine_def)
  then show "- (2 ^ 63) < sint (timeOf cfg n)" using fit by (simp add: timesFit_def)
qed

section \<open>Properties\<close>

lemma mod_below:
  assumes "0 < sint (m :: int64)"
  shows "uint (x mod m) < sint m"
proof -
  have "uint m = sint m" using uint64_of_int [of "sint m"] assms sint64_bounds [of m] by simp
  then show ?thesis using assms by (simp add: uint_mod)
qed

text \<open>The generator makes well-formed records in bounded disorder: for a configuration \<open>Open\<close>
  accepts whose event-time step is not negative and whose event times fit in an \<open>int64\<close>, every record it returns has a key of 8 bytes
  encoding a number below \<open>KeyCardinality\<close>, a value of \<open>ValueSize\<close> bytes whose first 8 encode an
  amount below \<open>AmountRange\<close>, and an event time no more than \<open>MaxLag\<close> before that of any
  earlier record.\<close>

theorem generator_records:
  assumes "Generator_Open g = None" "g_cfg g = cfg" "timesFit cfg"
    and "0 \<le> sint m" "sint m \<le> sint (g_pos g)" "sint (g_pos g) < sint (Count cfg)"
  shows "\<exists>g' r. Generator_Next g = (g', Inr (Some r)) \<and> g_pos g' = g_pos g + 1 \<and> g_cfg g' = cfg \<and>
    length (Key r) = 8 \<and> uint (be_get 8 (Key r) :: uint64) < sint (KeyCardinality cfg) \<and>
    int (length (Value r)) = sint (ValueSize cfg) \<and>
    uint (be_get 8 (Value r) :: uint64) < sint (AmountRange cfg) \<and>
    sint (timeOf cfg m) - sint (MaxLag cfg) \<le> sint (EventTime r)"
proof -
  have open_ok: "0 < sint (KeyCardinality cfg)" "8 \<le> sint (ValueSize cfg)" "0 < sint (AmountRange cfg)"
    using assms(1,2) by (auto simp: Generator_Open_def Let_def word_sless_alt word_sle_eq split: if_splits)
  have next_g: "Generator_Next g = (g\<lparr>g_pos := g_pos g + 1\<rparr>, Inr (Some (genRecord cfg (g_pos g))))"
    using assms(2,6) by (simp add: Generator_Next_def genRecord_def word_sle_eq Let_def)
  show ?thesis
    using open_ok assms(2) timeOf_bounded_disorder(1) [OF assms(3-6)]
    by (simp add: next_g genRecord_def keyOf_def valueOf_def amountOf_def mod_below)
qed

definition example_config :: GeneratorConfig where
  "example_config = \<lparr>Seed = 42, Count = 10, KeyCardinality = 3, BaseEventTime = 1000, EventTimeStep = 10,
     MaxLag = 25, ValueSize = 12, AmountRange = 100\<rparr>"

lemma example_config_fits: "timesFit example_config"
  by (simp add: timesFit_def example_config_def)

theorem generator_records_witness:
  "\<exists>g' r. Generator_Next (NewGenerator example_config\<lparr>g_pos := 4\<rparr>) = (g', Inr (Some r)) \<and>
    g_pos g' = 5 \<and> int (length (Value r)) = 12 \<and>
    sint (timeOf example_config 2) - 25 \<le> sint (EventTime r)"
  using generator_records [of "NewGenerator example_config\<lparr>g_pos := 4\<rparr>" example_config 2] example_config_fits
  by (simp add: Generator_Open_def NewGenerator_def example_config_def word_sless_alt word_sle_eq) blast

text \<open>\<open>Open\<close> accepts a negative step, and then the disorder is not bounded by \<open>MaxLag\<close>.\<close>

lemma negative_step_unbounded:
  defines "cfg \<equiv> example_config\<lparr>EventTimeStep := -10, MaxLag := 0\<rparr>"
  shows "Generator_Open (NewGenerator cfg) = None" "sint (timeOf cfg 1) < sint (timeOf cfg 0) - sint (MaxLag cfg)"
  by (simp_all add: cfg_def Generator_Open_def NewGenerator_def example_config_def timeOf_def word_sless_alt word_sle_eq)

end
