(* ===== verification/Saturating.thy ===== *)
theory Saturating
  imports Prelude
begin

text \<open>
  The saturating arithmetic on event times. \<open>floorMod\<close>, \<open>subFloor\<close> and \<open>addCeil\<close> of
  \<open>pkg/operators/window.go\<close> are used by every window; \<open>pkg/sources\<close> and \<open>pkg/runtime\<close> keep
  their own copies, which are modelled apart and proved equal where they are.
\<close>

definition floorMod :: "int64 \<Rightarrow> int64 \<Rightarrow> int64" where
  "floorMod a b = (let m = go_rem a b in if m <s 0 then m + b else m)"

definition subFloor :: "int64 \<Rightarrow> int64 \<Rightarrow> int64" where
  "subFloor a b = (let d = a - b in if 0 <s b \<and> a <s d then minInt64 else d)"

definition addCeil :: "int64 \<Rightarrow> int64 \<Rightarrow> int64" where
  "addCeil a b = (let s = a + b in if 0 <s b \<and> s <s a then maxInt64 else s)"

text \<open>\<open>pkg/sources/nexmark.go\<close>.\<close>

definition floorMod64 :: "int64 \<Rightarrow> int64 \<Rightarrow> int64" where
  "floorMod64 a b = (let m = go_rem a b in if m <s 0 then m + b else m)"

definition addCeil64 :: "int64 \<Rightarrow> int64 \<Rightarrow> int64" where
  "addCeil64 a b = (let s = a + b in if 0 <s b \<and> s <s a then maxInt64 else s)"

text \<open>\<open>pkg/runtime/source_task.go\<close>: the copy that also saturates upwards.\<close>

definition source_subFloor :: "int64 \<Rightarrow> int64 \<Rightarrow> int64" where
  "source_subFloor a b =
     (let d = a - b
      in if b <s 0 \<and> d <s a then maxInt64
         else if 0 <s b \<and> a <s d then minInt64
         else d)"

lemma floorMod64_eq [simp]: "floorMod64 = floorMod"
  by (simp add: fun_eq_iff floorMod64_def floorMod_def)

lemma addCeil64_eq [simp]: "addCeil64 = addCeil"
  by (simp add: fun_eq_iff addCeil64_def addCeil_def)

named_theorems saturating \<open>what the saturating operations compute, as integers\<close>

lemma sint_floorMod [saturating]:
  assumes "0 < sint b"
  shows "sint (floorMod a b) = sint a mod sint b"
proof -
  have r: "sint (go_rem a b) = sint a smod sint b" by (rule sint64_rem [OF assms])
  have m: "sint a mod sint b = sint a smod sint b + sint b * of_bool (sgn (sint a) \<noteq> sgn (sint b) \<and> \<not> sint b dvd sint a)"
    by (rule modulo_int_eq_signed_modulo_int)
  have b: "0 \<le> sint a mod sint b" "sint a mod sint b < sint b" using assms by auto
  show ?thesis
  proof (cases "sint a smod sint b < 0")
    case True
    then have "sint a mod sint b = sint a smod sint b + sint b"
      using m b by (auto simp: of_bool_def split: if_splits)
    then show ?thesis
      using True r b assms sint64_bounds [of b]
      by (simp add: floorMod_def Let_def word_sless_alt sint64_add)
  next
    case False
    then have "sint a mod sint b = sint a smod sint b"
      using m b by (auto simp: of_bool_def split: if_splits)
    then show ?thesis
      using False r by (simp add: floorMod_def Let_def word_sless_alt)
  qed
qed

lemma sint_subFloor [saturating]:
  assumes "0 \<le> sint b"
  shows "sint (subFloor a b) = max (sint a - sint b) (- 9223372036854775808)"
  using assms sint64_bounds [of a] sint64_bounds [of b]
  by (auto simp: subFloor_def Let_def word_sless_alt sint64_diff)

lemma sint_addCeil [saturating]:
  assumes "0 \<le> sint b"
  shows "sint (addCeil a b) = min (sint a + sint b) 9223372036854775807"
  using assms sint64_bounds [of a] sint64_bounds [of b]
  by (auto simp: addCeil_def Let_def word_sless_alt sint64_add)

lemma sint_source_subFloor [saturating]:
  "sint (source_subFloor a b) =
    max (min (sint a - sint b) 9223372036854775807) (- 9223372036854775808)"
  using sint64_bounds [of a] sint64_bounds [of b]
  by (auto simp: source_subFloor_def Let_def word_sless_alt sint64_diff)

lemma source_subFloor_eq: "0 \<le> sint b \<Longrightarrow> source_subFloor a b = subFloor a b"
  by (rule sint64_eqI) (simp add: saturating min_def max_def, use sint64_bounds [of a] in linarith)

end
