(* ===== verification/Source_Task.thy ===== *)
theory Source_Task
  imports Generator Saturating
begin

text \<open>
  \<open>pkg/runtime/source_task.go\<close>: how a source vertex is split over its subtasks, where its
  watermarks and barriers go, and how a restored subtask resumes. The source and the three
  emitters are method tables; the emitters' state is threaded. Parallelism and index are Go
  \<open>int\<close>s, 64 bits wide.
\<close>

section \<open>Ranges\<close>

definition sourceRange :: "int64 \<Rightarrow> int64 \<Rightarrow> int64 \<Rightarrow> int64 \<times> int64" where
  "sourceRange cnt parallelism index =
     (go_div (index * cnt) parallelism, go_div ((index + 1) * cnt) parallelism)"

definition seekToRange ::
  "'s Source \<Rightarrow> int64 \<Rightarrow> int64 \<Rightarrow> 's \<Rightarrow> 's \<times> (int64 \<times> int64 \<times> bool \<times> int64) result" where
  "seekToRange S parallelism index s =
     (case src_Count S of
        None \<Rightarrow>
          if 1 <s parallelism then (s, Inl (RuntimeErr errNotSplittable))
          else (s, Inr (0, 0, False, 0))
      | Some cnt \<Rightarrow>
          (case sourceRange (cnt s) parallelism index of (start, stop) \<Rightarrow>
             (case src_SeekTo S start s of
                (s', Some e) \<Rightarrow> (s', Inl e)
              | (s', None) \<Rightarrow> (s', Inr (start, stop, True, cnt s)))))"

section \<open>Barriers\<close>

definition unboundedBarriers :: int64 where
  "unboundedBarriers = - 1"

definition maxBarriers :: "int64 \<Rightarrow> int64 \<Rightarrow> int64 \<Rightarrow> bool \<Rightarrow> int64" where
  "maxBarriers cnt parallelism intervalElements bnd =
     (if \<not> bnd then unboundedBarriers
      else if intervalElements \<le>s 0 then 0
      else go_div (go_div cnt parallelism) intervalElements)"

record barrierGenerator =
  bg_intervalElements :: int64
  bg_maxBarriers :: int64
  bg_sinceLast :: int64
  bg_injected :: int64

definition newBarrierGenerator :: "int64 \<Rightarrow> int64 \<Rightarrow> barrierGenerator" where
  "newBarrierGenerator intervalElements mx =
     \<lparr>bg_intervalElements = intervalElements, bg_maxBarriers = mx, bg_sinceLast = 0, bg_injected = 0\<rparr>"

definition barrier_onRecord :: "barrierGenerator \<Rightarrow> barrierGenerator \<times> int64 option" where
  "barrier_onRecord g =
     (if bg_intervalElements g \<le>s 0 then (g, None)
      else if bg_maxBarriers g \<noteq> unboundedBarriers \<and> bg_maxBarriers g \<le>s bg_injected g then (g, None)
      else let g1 = g\<lparr>bg_sinceLast := bg_sinceLast g + 1\<rparr>
           in if bg_sinceLast g1 <s bg_intervalElements g1 then (g1, None)
              else let g2 = g1\<lparr>bg_sinceLast := 0, bg_injected := bg_injected g1 + 1\<rparr>
                   in (g2, Some (bg_injected g2)))"

record sourceResume =
  rs_position :: int64
  rs_barriersInjected :: int64

definition sourceResume_apply ::
  "'s Source \<Rightarrow> sourceResume \<Rightarrow> int64 \<Rightarrow> int64 \<Rightarrow> bool \<Rightarrow> 's \<times> barrierGenerator \<Rightarrow>
   ('s \<times> barrierGenerator) \<times> go_error option" where
  "sourceResume_apply S r start stop bnd sb =
     (case sb of (s, br) \<Rightarrow>
        if bnd \<and> (rs_position r <s start \<or> stop <s rs_position r)
        then ((s, br), Some (RuntimeErr errPositionOutOfRange))
        else if rs_position r <s 0 then ((s, br), Some (RuntimeErr errNegativePosition))
        else (case src_SeekTo S (rs_position r) s of
            (s', Some e) \<Rightarrow> ((s', br), Some e)
          | (s', None) \<Rightarrow>
              ((s', br\<lparr>bg_injected := rs_barriersInjected r, bg_sinceLast := 0\<rparr>), None)))"

section \<open>Watermarks\<close>

record watermarkGenerator =
  wg_intervalElements :: int64
  wg_maxOutOfOrderness :: int64
  wg_sinceLast :: int64
  wg_maxEventTime :: int64
  wg_lastEmitted :: int64

definition newWatermarkGenerator :: "int64 \<Rightarrow> int64 \<Rightarrow> watermarkGenerator" where
  "newWatermarkGenerator intervalElements maxOOO =
     \<lparr>wg_intervalElements = intervalElements, wg_maxOutOfOrderness = maxOOO, wg_sinceLast = 0,
      wg_maxEventTime = minInt64, wg_lastEmitted = minInt64\<rparr>"

definition watermark_onRecord :: "int64 \<Rightarrow> watermarkGenerator \<Rightarrow> watermarkGenerator \<times> int64 option" where
  "watermark_onRecord eventTime g =
     (let g1 = (if wg_maxEventTime g <s eventTime then g\<lparr>wg_maxEventTime := eventTime\<rparr> else g)
      in if wg_intervalElements g1 \<le>s 0 then (g1, None)
         else let g2 = g1\<lparr>wg_sinceLast := wg_sinceLast g1 + 1\<rparr>
              in if wg_sinceLast g2 <s wg_intervalElements g2 then (g2, None)
                 else let g3 = g2\<lparr>wg_sinceLast := 0\<rparr>;
                          candidate = source_subFloor
                            (source_subFloor (wg_maxEventTime g3) (wg_maxOutOfOrderness g3)) 1
                      in if candidate \<le>s wg_lastEmitted g3 then (g3, None)
                         else (g3\<lparr>wg_lastEmitted := candidate\<rparr>, Some candidate))"

section \<open>The loop\<close>

record 'o emitter =
  ctx_Err :: "'o \<Rightarrow> go_error option"
  emitRecord :: "Record \<Rightarrow> 'o \<Rightarrow> 'o \<times> go_error option"
  emitWatermark :: "int64 \<Rightarrow> 'o \<Rightarrow> 'o \<times> go_error option"
  emitBarrier :: "Barrier \<Rightarrow> int64 \<Rightarrow> 'o \<Rightarrow> 'o \<times> go_error option"

text \<open>The \<open>for\<close> loop. A source without a cnt may never end, so the loop has fuel; \<open>None\<close> is a
  loop still running when it is spent.\<close>

fun emitLoop ::
  "nat \<Rightarrow> 's Source \<Rightarrow> 'o emitter \<Rightarrow> int64 \<Rightarrow> bool \<Rightarrow> 's \<Rightarrow> watermarkGenerator \<Rightarrow> barrierGenerator \<Rightarrow> 'o \<Rightarrow>
   ('s \<times> 'o \<times> go_error option) option" where
  "emitLoop 0 S E stop bnd s wm br out = None"
| "emitLoop (Suc fuel) S E stop bnd s wm br out =
     (case ctx_Err E out of
        Some e \<Rightarrow> Some (s, out, Some e)
      | None \<Rightarrow>
          if bnd \<and> stop \<le>s src_Position S s then Some (s, out, None)
          else (case src_Next S s of
              (s1, Inl e) \<Rightarrow> Some (s1, out, Some e)
            | (s1, Inr None) \<Rightarrow> Some (s1, out, None)
            | (s1, Inr (Some rec)) \<Rightarrow>
                (case emitRecord E rec out of
                   (out1, Some e) \<Rightarrow> Some (s1, out1, Some e)
                 | (out1, None) \<Rightarrow>
                     (case watermark_onRecord (EventTime rec) wm of (wm1, t) \<Rightarrow>
                        (case (case t of None \<Rightarrow> (out1, None) | Some t \<Rightarrow> emitWatermark E t out1) of
                           (out2, Some e) \<Rightarrow> Some (s1, out2, Some e)
                         | (out2, None) \<Rightarrow>
                             (case barrier_onRecord br of (br1, i) \<Rightarrow>
                                (case (case i of None \<Rightarrow> (out2, None)
                                     | Some i \<Rightarrow> emitBarrier E \<lparr>CheckpointID = i, Timestamp = wg_lastEmitted wm1\<rparr>
                                         (src_Position S s1) out2) of
                                   (out3, Some e) \<Rightarrow> Some (s1, out3, Some e)
                                 | (out3, None) \<Rightarrow> emitLoop fuel S E stop bnd s1 wm1 br1 out3)))))))"

definition sourceLoop ::
  "nat \<Rightarrow> 's Source \<Rightarrow> 'o emitter \<Rightarrow> int64 \<Rightarrow> int64 \<Rightarrow> watermarkGenerator \<Rightarrow> int64 \<Rightarrow> sourceResume option \<Rightarrow>
   's \<Rightarrow> 'o \<Rightarrow> ('s \<times> 'o \<times> go_error option) option" where
  "sourceLoop fuel S E parallelism index wm barrierInterval resume s out =
     (case seekToRange S parallelism index s of
        (s1, Inl e) \<Rightarrow> Some (s1, out, Some e)
      | (s1, Inr (start, stop, bnd, cnt)) \<Rightarrow>
          (let br = newBarrierGenerator barrierInterval (maxBarriers cnt parallelism barrierInterval bnd)
           in case (case resume of
                      None \<Rightarrow> ((s1, br), None)
                    | Some r \<Rightarrow> sourceResume_apply S r start stop bnd (s1, br)) of
                ((s2, br2), Some e) \<Rightarrow> Some (s2, out, Some e)
              | ((s2, br2), None) \<Rightarrow> emitLoop fuel S E stop bnd s2 wm br2 out))"

section \<open>The ranges partition the source\<close>

definition rangeFits :: "int64 \<Rightarrow> int64 \<Rightarrow> bool" where
  "rangeFits cnt parallelism \<longleftrightarrow> 0 \<le> sint cnt \<and> 0 < sint parallelism \<and>
     sint parallelism * sint cnt < 2 ^ 63 \<and> sint parallelism < 2 ^ 63 - 1"

lemma sourceRange_sint:
  assumes fit: "rangeFits cnt p" and i: "0 \<le> sint i" "sint i < sint p"
  shows "sint (fst (sourceRange cnt p i)) = sint i * sint cnt div sint p"
    "sint (snd (sourceRange cnt p i)) = (sint i + 1) * sint cnt div sint p"
proof -
  have f: "0 \<le> sint cnt" "0 < sint p" "sint p * sint cnt \<le> 9223372036854775807"
    using fit by (auto simp: rangeFits_def)
  have le: "k * sint cnt \<le> 9223372036854775807" if "k \<le> sint p" for k
    using mult_right_mono [OF that f(1)] f(3) by linarith
  have i1: "sint (i + 1) = sint i + 1"
    using i sint64_bounds [of p] by (simp add: sint64_add)
  have "sint (i * cnt) = sint i * sint cnt"
    using le [of "sint i"] i f by (intro sint64_mult) (auto intro: order_trans [OF _ mult_nonneg_nonneg])
  moreover have "sint ((i + 1) * cnt) = (sint i + 1) * sint cnt"
    using le [of "sint i + 1"] i f i1
    by (subst sint64_mult) (auto intro: order_trans [OF _ mult_nonneg_nonneg])
  ultimately show "sint (fst (sourceRange cnt p i)) = sint i * sint cnt div sint p"
    "sint (snd (sourceRange cnt p i)) = (sint i + 1) * sint cnt div sint p"
    using i f by (simp_all add: sourceRange_def sint64_div_nonneg)
qed


lemma ranges_cover:
  fixes f :: "nat \<Rightarrow> int"
  assumes "f 0 \<le> n" "n < f k"
  shows "\<exists>i < k. f i \<le> n \<and> n < f (Suc i)"
  using assms
proof (induction k)
  case (Suc k)
  then show ?case by (cases "n < f k") (auto intro: less_SucI)
qed simp

lemma range_bounds:
  assumes fit: "rangeFits cnt p" and i: "0 \<le> sint i" "sint i < sint p"
  shows "0 \<le> sint (fst (sourceRange cnt p i))"
    "sint (fst (sourceRange cnt p i)) + sint cnt div sint p \<le> sint (snd (sourceRange cnt p i))"
    "sint (snd (sourceRange cnt p i)) \<le> sint cnt"
proof -
  have f: "0 \<le> sint cnt" "0 < sint p" using fit by (auto simp: rangeFits_def)
  show "0 \<le> sint (fst (sourceRange cnt p i))"
    using i f by (simp add: sourceRange_sint(1) [OF fit i] pos_imp_zdiv_nonneg_iff)
  have "sint i * sint cnt div sint p + sint cnt div sint p \<le> (sint i * sint cnt + sint cnt) div sint p"
    using div_add1_eq [of "sint i * sint cnt" "sint cnt" "sint p"] f
    by (simp add: pos_imp_zdiv_nonneg_iff)
  then show "sint (fst (sourceRange cnt p i)) + sint cnt div sint p \<le> sint (snd (sourceRange cnt p i))"
    unfolding sourceRange_sint [OF fit i] by (simp add: distrib_right)
  have "(sint i + 1) * sint cnt div sint p \<le> sint p * sint cnt div sint p"
    using i f by (intro zdiv_mono1 mult_right_mono) auto
  then show "sint (snd (sourceRange cnt p i)) \<le> sint cnt"
    using f by (simp add: sourceRange_sint(2) [OF fit i])
qed

section \<open>What a subtask emits\<close>

text \<open>The calls of the emitters a run makes when none fails, one list per record.\<close>

datatype emission =
    EmRecord Record
  | EmWatermark int64
  | EmBarrier Barrier int64

fun plan ::
  "(int64 \<Rightarrow> Record) \<Rightarrow> nat \<Rightarrow> int64 \<Rightarrow> watermarkGenerator \<Rightarrow> barrierGenerator \<Rightarrow> emission list list" where
  "plan recAt 0 p wm br = []"
| "plan recAt (Suc n) p wm br =
     (case watermark_onRecord (EventTime (recAt p)) wm of (wm1, t) \<Rightarrow>
        (case barrier_onRecord br of (br1, i) \<Rightarrow>
           (EmRecord (recAt p) #
            (case t of None \<Rightarrow> [] | Some t \<Rightarrow> [EmWatermark t]) @
            (case i of None \<Rightarrow> []
             | Some i \<Rightarrow> [EmBarrier \<lparr>CheckpointID = i, Timestamp = wg_lastEmitted wm1\<rparr> (p + 1)]))
           # plan recAt n (p + 1) wm1 br1))"

fun perform :: "'o emitter \<Rightarrow> emission \<Rightarrow> 'o \<Rightarrow> 'o \<times> go_error option" where
  "perform E (EmRecord r) out = emitRecord E r out"
| "perform E (EmWatermark t) out = emitWatermark E t out"
| "perform E (EmBarrier b pos) out = emitBarrier E b pos out"

fun performAll :: "'o emitter \<Rightarrow> emission list \<Rightarrow> 'o \<Rightarrow> 'o \<times> go_error option" where
  "performAll E [] out = (out, None)"
| "performAll E (em # ems) out =
     (case perform E em out of
        (out', Some e) \<Rightarrow> (out', Some e)
      | (out', None) \<Rightarrow> performAll E ems out')"

fun runPlan :: "'o emitter \<Rightarrow> emission list list \<Rightarrow> 'o \<Rightarrow> 'o \<times> go_error option" where
  "runPlan E [] out = (out, ctx_Err E out)"
| "runPlan E (g # gs) out =
     (case ctx_Err E out of
        Some e \<Rightarrow> (out, Some e)
      | None \<Rightarrow> (case performAll E g out of (out', Some e) \<Rightarrow> (out', Some e) | (out', None) \<Rightarrow> runPlan E gs out'))"

text \<open>The emitters that keep every call.\<close>

definition collect :: "emission list emitter" where
  "collect = \<lparr>ctx_Err = (\<lambda>_. None), emitRecord = (\<lambda>r out. (out @ [EmRecord r], None)),
     emitWatermark = (\<lambda>t out. (out @ [EmWatermark t], None)),
     emitBarrier = (\<lambda>b pos out. (out @ [EmBarrier b pos], None))\<rparr>"

lemma performAll_collect [simp]: "performAll collect ems out = (out @ ems, None)"
proof (induction ems arbitrary: out)
  case (Cons em ems)
  then show ?case by (cases em) (simp_all add: collect_def)
qed simp

lemma collect_ctx [simp]: "ctx_Err collect out = None"
  by (simp add: collect_def)

lemma runPlan_collect [simp]: "runPlan collect gs out = (out @ concat gs, None)"
  by (induction gs arbitrary: out) simp_all

context replayable_source
begin

text \<open>On a source that keeps its contract the loop ends, and makes exactly the planned calls up
  to the first that fails.\<close>

lemma emitLoop_plan:
  assumes "good s" "src_Position S s = p" "sint p + int n = sint stop" "sint stop \<le> sint total" "n < fuel"
  shows "\<exists>s'. emitLoop fuel S E stop True s wm br out = Some (s', runPlan E (plan recAt n p wm br) out) \<and>
    (snd (runPlan E (plan recAt n p wm br) out) = None \<longrightarrow> src_Position S s' = stop)"
  using assms
proof (induction n arbitrary: fuel s p wm br out)
  case 0
  then obtain f where "fuel = Suc f" by (cases fuel) auto
  moreover have "p = stop" using 0 by (intro sint64_eqI) simp
  ultimately show ?case using 0 by (auto simp: word_sle_eq split: option.splits)
next
  case (Suc n)
  obtain f where f: "fuel = Suc f" "n < f" using Suc.prems(5) by (cases fuel) auto
  have lt: "sint p < sint stop" using Suc.prems(3) by simp
  obtain s1 where s1: "src_Next S s = (s1, Inr (Some (recAt p)))" "good s1" "src_Position S s1 = p + 1"
    using next_record [OF Suc.prems(1)] Suc.prems(2,4) lt by auto
  have p1: "sint (p + 1) + int n = sint stop"
    using Suc.prems(3) lt sint64_bounds [of stop] sint64_bounds [of p] by (simp add: sint64_add)
  obtain wm1 t where w: "watermark_onRecord (EventTime (recAt p)) wm = (wm1, t)" by fastforce
  obtain br1 i where b: "barrier_onRecord br = (br1, i)" by fastforce
  have "\<exists>s'. emitLoop f S E stop True s1 wm1 br1 out' = Some (s', runPlan E (plan recAt n (p + 1) wm1 br1) out') \<and>
      (snd (runPlan E (plan recAt n (p + 1) wm1 br1) out') = None \<longrightarrow> src_Position S s' = stop)"
    for out' using Suc.IH [OF s1(2,3) p1 Suc.prems(4) f(2)] .
  then show ?case
    using Suc.prems(2) lt s1 w b
    by (simp add: f word_sle_eq split: option.splits prod.splits)
qed

lemma sourceLoop_plan:
  assumes fit: "rangeFits total parallelism" and i: "0 \<le> sint i" "sint i < sint parallelism"
    and s: "good s" and r: "sourceRange total parallelism i = (start, stop)"
    and resume: "case resume of None \<Rightarrow> q = start \<and> injd = 0
      | Some rs \<Rightarrow> rs = \<lparr>rs_position = q, rs_barriersInjected = injd\<rparr> \<and> sint start \<le> sint q \<and> sint q \<le> sint stop"
    and fuel: "nat (sint stop - sint q) < fuel"
    and gs: "gs = plan recAt (nat (sint stop - sint q)) q wm
      \<lparr>bg_intervalElements = iv, bg_maxBarriers = maxBarriers total parallelism iv True,
       bg_sinceLast = 0, bg_injected = injd\<rparr>"
  shows "\<exists>s'. sourceLoop fuel S E parallelism i wm iv resume s out = Some (s', runPlan E gs out) \<and>
    (snd (runPlan E gs out) = None \<longrightarrow> src_Position S s' = stop)"
proof -
  have b: "0 \<le> sint start" "sint start \<le> sint stop" "sint stop \<le> sint total"
    using range_bounds [OF fit i] r fit pos_imp_zdiv_nonneg_iff [of "sint parallelism" "sint total"]
    by (auto simp: rangeFits_def)
  obtain s1 where s1: "src_SeekTo S start s = (s1, None)" "good s1" "src_Position S s1 = start"
    using seek [OF s b(1)] by blast
  obtain c where c: "src_Count S = Some c" "c s = total" using count s by blast
  have seekR: "seekToRange S parallelism i s = (s1, Inr (start, stop, True, total))"
    using c r s1 by (simp add: seekToRange_def)
  show ?thesis
  proof (cases resume)
    case None
    then have q: "q = start" "injd = 0" using resume by auto
    have "sint start + int (nat (sint stop - sint start)) = sint stop" using b by simp
    from emitLoop_plan [OF s1(2,3) this b(3)] fuel q
    show ?thesis by (simp add: gs sourceLoop_def seekR None newBarrierGenerator_def Let_def)
  next
    case (Some rs)
    then have q: "rs = \<lparr>rs_position = q, rs_barriersInjected = injd\<rparr>" "sint start \<le> sint q" "sint q \<le> sint stop"
      using resume by auto
    obtain s2 where s2: "src_SeekTo S q s1 = (s2, None)" "good s2" "src_Position S s2 = q"
      using seek [OF s1(2), of q] b(1) q(2) by auto
    have "sint q + int (nat (sint stop - sint q)) = sint stop" using q by simp
    from emitLoop_plan [OF s2(2,3) this b(3)] fuel q b(1) s2(1)
    show ?thesis
      by (simp add: gs sourceLoop_def seekR Some newBarrierGenerator_def Let_def sourceResume_apply_def
          word_sless_alt)
  qed
qed

end

section \<open>Records, barriers and watermarks of a plan\<close>

fun emRecords :: "emission list \<Rightarrow> Record list" where
  "emRecords [] = []"
| "emRecords (EmRecord r # ems) = r # emRecords ems"
| "emRecords (_ # ems) = emRecords ems"

text \<open>The barriers, each with the source position handed to the emitter.\<close>

fun emBarriers :: "emission list \<Rightarrow> (int \<times> int) list" where
  "emBarriers [] = []"
| "emBarriers (EmBarrier b pos # ems) = (sint (CheckpointID b), sint pos) # emBarriers ems"
| "emBarriers (_ # ems) = emBarriers ems"

fun emElement :: "emission \<Rightarrow> StreamElement" where
  "emElement (EmRecord r) = RecordElement r"
| "emElement (EmWatermark t) = WatermarkElement t"
| "emElement (EmBarrier b pos) = BarrierElement b"

lemma recordsOf_emElement: "recordsOf (map emElement ems) = emRecords ems"
  by (induction ems rule: emRecords.induct) simp_all

lemma emRecords_append [simp]: "emRecords (xs @ ys) = emRecords xs @ emRecords ys"
  by (induction xs rule: emRecords.induct) simp_all

lemma emBarriers_append [simp]: "emBarriers (xs @ ys) = emBarriers xs @ emBarriers ys"
  by (induction xs rule: emBarriers.induct) simp_all

lemma records_plan:
  "emRecords (concat (plan recAt n p wm br)) = map (\<lambda>k. recAt (p + word_of_nat k)) [0..<n]"
proof (induction n arbitrary: p wm br)
  case (Suc n)
  have "map (\<lambda>k. recAt (p + word_of_nat k)) [0..<Suc n] =
      recAt p # map (\<lambda>k. recAt (p + 1 + word_of_nat k)) [0..<n]"
    by (simp only: upt_conv_Cons zero_less_Suc list.map map_Suc_upt [symmetric])
      (simp add: comp_def add.assoc)
  with Suc show ?case by (auto split: prod.splits option.splits)
qed simp

lemma upto_shift: "0 \<le> N \<Longrightarrow> [1..N + 1] = 1 # map (\<lambda>k. k + 1) [1..N]" for N :: int
proof -
  assume "0 \<le> N"
  then have "[1..N + 1] = 1 # [2..N + 1]" by (simp add: upto.simps)
  moreover have "[2..N + 1] = map (\<lambda>k. k + 1) [1..N]"
    by (rule nth_equalityI) (auto simp: nth_upto)
  ultimately show ?thesis by simp
qed

text \<open>Barrier \<open>k\<close> goes out after \<open>k\<close> whole intervals, until the budget is spent.\<close>

lemma barriers_plan:
  assumes "0 < sint iv" "0 \<le> sint c" "sint c < sint iv" "0 \<le> sint j" "0 \<le> sint m"
    "sint p + int n \<le> 9223372036854775807"
  shows "emBarriers (concat (plan recAt n p wm
      \<lparr>bg_intervalElements = iv, bg_maxBarriers = m, bg_sinceLast = c, bg_injected = j\<rparr>)) =
    map (\<lambda>k. (sint j + k, sint p + k * sint iv - sint c))
      [1..min (sint m - sint j) ((int n + sint c) div sint iv)]"
  using assms
proof (induction n arbitrary: p wm c j)
  case 0
  then show ?case by simp
next
  case (Suc n)
  let ?br = "\<lparr>bg_intervalElements = iv, bg_maxBarriers = m, bg_sinceLast = c, bg_injected = j\<rparr>"
  obtain wm1 t where w: "watermark_onRecord (EventTime (recAt p)) wm = (wm1, t)" by fastforce
  have p1: "sint (p + 1) = sint p + 1"
    using Suc.prems(6) sint64_bounds [of p] by (simp add: sint64_add)
  have c1: "sint (c + 1) = sint c + 1"
    using Suc.prems sint64_bounds [of iv] by (simp add: sint64_add)
  have m1: "m \<noteq> unboundedBarriers" using Suc.prems(5) by (auto simp: unboundedBarriers_def)
  consider "sint m \<le> sint j" | "sint j < sint m" "sint c + 1 < sint iv" | "sint j < sint m" "sint c + 1 = sint iv"
    using Suc.prems(3) by linarith
  then show ?case
  proof cases
    case 1
    then have "barrier_onRecord ?br = (?br, None)"
      using Suc.prems(1) m1 by (simp add: barrier_onRecord_def word_sle_eq)
    with 1 Suc.IH [of c j "p + 1" wm1] Suc.prems w p1 show ?thesis
      by (simp split: option.splits)
  next
    case 2
    then have "barrier_onRecord ?br = (?br\<lparr>bg_sinceLast := c + 1\<rparr>, None)"
      using Suc.prems(1) c1 by (simp add: barrier_onRecord_def word_sle_eq word_sless_alt)
    with 2 Suc.IH [of "c + 1" j "p + 1" wm1] Suc.prems w p1 c1 show ?thesis
      by (simp add: algebra_simps split: option.splits)
  next
    case 3
    have j1: "sint (j + 1) = sint j + 1" using 3(1) sint64_bounds [of m] Suc.prems(4) by (simp add: sint64_add)
    from 3 have b: "barrier_onRecord ?br = (?br\<lparr>bg_sinceLast := 0, bg_injected := j + 1\<rparr>, Some (j + 1))"
      using Suc.prems(1) c1 by (simp add: barrier_onRecord_def word_sle_eq word_sless_alt)
    define N where "N = min (sint m - sint j - 1) (int n div sint iv)"
    have "0 \<le> N" using 3 Suc.prems(1) by (simp add: N_def pos_imp_zdiv_nonneg_iff)
    have "(int (Suc n) + sint c) div sint iv = int n div sint iv + 1"
    proof -
      have "int (Suc n) + sint c = int n + sint iv" using 3 by simp
      then show ?thesis using Suc.prems(1) by (simp only: div_add_self2)
    qed
    then have "min (sint m - sint j) ((int (Suc n) + sint c) div sint iv) = N + 1"
      by (auto simp: N_def min_def)
    then have up: "[1..min (sint m - sint j) ((int (Suc n) + sint c) div sint iv)] = 1 # map (\<lambda>k. k + 1) [1..N]"
      by (simp only: upto_shift [OF \<open>0 \<le> N\<close>])
    have "emBarriers (concat (plan recAt n (p + 1) wm1 (?br\<lparr>bg_sinceLast := 0, bg_injected := j + 1\<rparr>))) =
        map (\<lambda>k. (sint j + 1 + k, sint p + 1 + k * sint iv)) [1..N]"
      using Suc.IH [of 0 "j + 1" "p + 1" wm1] Suc.prems p1 j1 by (simp add: N_def algebra_simps)
    moreover have "sint p + 1 = sint p + sint iv - sint c" using 3 by simp
    ultimately show ?thesis
      unfolding up using w b p1 j1 3(2) by (auto simp: algebra_simps split: option.splits)
  qed
qed

text \<open>A watermark never overtakes a record: if event times are out of order by no more than the
  generator allows for, no record comes at or below a watermark already sent.\<close>

lemma watermark_onRecord_eq:
  assumes "watermark_onRecord e g = (g', t)"
  shows "sint (wg_maxEventTime g') = max (sint (wg_maxEventTime g)) (sint e)"
    "wg_maxOutOfOrderness g' = wg_maxOutOfOrderness g"
    "t = None \<Longrightarrow> wg_lastEmitted g' = wg_lastEmitted g"
    "t = Some w \<Longrightarrow> wg_lastEmitted g' = w \<and> sint (wg_lastEmitted g) < sint w \<and>
      w = source_subFloor (source_subFloor (wg_maxEventTime g') (wg_maxOutOfOrderness g)) 1"
  using assms
  by (auto simp: watermark_onRecord_def Let_def word_sless_alt word_sle_eq split: if_splits)

lemma nonlate_plan:
  assumes ooo: "0 \<le> sint (wg_maxOutOfOrderness wm)"
    and last: "\<And>k. k < n \<Longrightarrow> sint (wg_lastEmitted wm) < sint (EventTime (recAt (p + word_of_nat k)))"
    and mx: "\<And>k. k < n \<Longrightarrow> sint (wg_maxEventTime wm) - sint (wg_maxOutOfOrderness wm) \<le>
      sint (EventTime (recAt (p + word_of_nat k)))"
    and disorder: "\<And>k l. k \<le> l \<Longrightarrow> l < n \<Longrightarrow> sint (EventTime (recAt (p + word_of_nat k))) -
      sint (wg_maxOutOfOrderness wm) \<le> sint (EventTime (recAt (p + word_of_nat l)))"
  shows "nonlate (wg_lastEmitted wm) (map emElement (concat (plan recAt n p wm br)))"
  using assms
proof (induction n arbitrary: p wm br)
  case (Suc n)
  obtain wm1 t where w: "watermark_onRecord (EventTime (recAt p)) wm = (wm1, t)" by fastforce
  obtain br1 i where b: "barrier_onRecord br = (br1, i)" by fastforce
  note w' = watermark_onRecord_eq [OF w]
  let ?t = "\<lambda>k. sint (EventTime (recAt (p + 1 + word_of_nat k)))"
  have shift: "p + word_of_nat (Suc k) = p + 1 + word_of_nat k" for k by (simp add: algebra_simps)
  have mx1: "sint (wg_maxEventTime wm1) - sint (wg_maxOutOfOrderness wm) \<le> ?t k" if "k < n" for k
    using Suc.prems(3) [of "Suc k", unfolded shift] Suc.prems(4) [of 0 "Suc k", unfolded shift] that w'(1)
    by simp
  have last1: "sint (wg_lastEmitted wm1) < ?t k" if "k < n" for k
  proof (cases t)
    case None
    then show ?thesis using Suc.prems(2) [of "Suc k", unfolded shift] that w'(3) by simp
  next
    case (Some c)
    have "sint c < ?t k"
      using w'(4) [OF Some] mx1 [OF that] sint64_bounds [of "wg_lastEmitted wm"] sint64_bounds [of "EventTime (recAt (p + 1 + word_of_nat k))"]
      by (auto simp: saturating)
    then show ?thesis using w'(4) [OF Some] by simp
  qed
  have "sint (EventTime (recAt (p + 1 + word_of_nat k))) - sint (wg_maxOutOfOrderness wm1) \<le> ?t l"
    if "k \<le> l" "l < n" for k l
    using Suc.prems(4) [of "Suc k" "Suc l", unfolded shift] that w'(2) by simp
  with Suc.IH [of wm1 "p + 1" br1] mx1 last1 Suc.prems(1) w'(2)
  have IH: "nonlate (wg_lastEmitted wm1) (map emElement (concat (plan recAt n (p + 1) wm1 br1)))" by simp
  have now: "wg_lastEmitted wm <s EventTime (recAt p)"
    using Suc.prems(2) [of 0] by (simp add: word_sless_alt)
  show ?case
  proof (cases t)
    case None
    with IH now w'(3) w b show ?thesis by (auto split: option.splits)
  next
    case (Some c)
    with w'(4) [OF Some] IH now w b show ?thesis
      by (auto simp: word_sle_eq split: option.splits)
  qed
qed simp

lemma sint_maxBarriers:
  assumes "rangeFits cnt p" "0 < sint iv"
  shows "sint (maxBarriers cnt p iv True) = sint cnt div sint p div sint iv"
proof -
  have f: "0 \<le> sint cnt" "0 < sint p" using assms(1) by (auto simp: rangeFits_def)
  then have "0 \<le> sint cnt div sint p" by (simp add: pos_imp_zdiv_nonneg_iff)
  then show ?thesis
    using f assms(2) by (simp add: maxBarriers_def word_sle_eq sint64_div_nonneg)
qed

lemma append_eq_at:
  assumes "g @ rest = xs @ y # ys"
  obtains us where "rest = us @ y # ys" "xs = g @ us" | vs where "g = xs @ y # vs" "ys = vs @ rest"
  using assms by (auto simp: append_eq_append_conv2 append_eq_Cons_conv)

text \<open>A barrier comes after exactly the records below the position it is handed.\<close>

lemma barrier_placed:
  assumes "concat (plan recAt n p wm br) = xs @ EmBarrier b pos # ys" "0 \<le> sint p" "sint p + int n \<le> 9223372036854775807"
  shows "sint pos = sint p + int (length (emRecords xs))"
  using assms
proof (induction n arbitrary: p wm br xs)
  case (Suc n)
  obtain wm1 t where w: "watermark_onRecord (EventTime (recAt p)) wm = (wm1, t)" by fastforce
  obtain br1 i where b: "barrier_onRecord br = (br1, i)" by fastforce
  have p1: "sint (p + 1) = sint p + 1" using Suc.prems(2,3) sint64_bounds [of p] by (simp add: sint64_add)
  define rest where "rest = concat (plan recAt n (p + 1) wm1 br1)"
  define g where "g = EmRecord (recAt p) # (case t of None \<Rightarrow> [] | Some t \<Rightarrow> [EmWatermark t]) @
      (case i of None \<Rightarrow> [] | Some i \<Rightarrow> [EmBarrier \<lparr>CheckpointID = i, Timestamp = wg_lastEmitted wm1\<rparr> (p + 1)])"
  have eq: "g @ rest = xs @ EmBarrier b pos # ys" using Suc.prems(1) w b by (simp add: rest_def g_def)
  have one: "emRecords g = [recAt p]" by (simp add: g_def split: option.splits)
  from eq show ?case
  proof (cases rule: append_eq_at)
    case (1 us)
    then have "sint pos = sint (p + 1) + int (length (emRecords us))"
      using Suc.IH [of "p + 1" wm1 br1 us] Suc.prems(2,3) p1 by (simp add: rest_def)
    then show ?thesis using 1(2) one p1 by simp
  next
    case (2 vs)
    then have "pos = p + 1 \<and> vs = []"
      by (cases t; cases i) (auto simp: g_def append_eq_Cons_conv Cons_eq_append_conv)
    moreover from this have "emRecords xs = [recAt p]" using one unfolding 2(1) by simp
    ultimately show ?thesis using p1 by simp
  qed
qed simp

context replayable_source
begin

text \<open>The run of one subtask, from its start or from its \<open>k\<close>-th barrier: the calls \<open>gs\<close> it makes, which
  do not depend on the emitters, up to the first that fails.\<close>

lemma run_calls:
  assumes fit: "rangeFits total p" and iv: "0 < sint iv" and i: "0 \<le> sint i" "sint i < sint p"
    and s: "good s" and r: "sourceRange total p i = (start, stop)"
    and k: "0 \<le> sint k" "sint k \<le> sint total div sint p div sint iv"
    and resume: "resume = None \<and> k = 0 \<or>
      resume = Some \<lparr>rs_position = start + k * iv, rs_barriersInjected = k\<rparr>"
    and fuel: "nat (sint total) < fuel"
    and n: "n = nat (sint stop - (sint start + sint k * sint iv))"
    and gs: "gs = plan recAt n (start + k * iv) wm
        \<lparr>bg_intervalElements = iv, bg_maxBarriers = maxBarriers total p iv True, bg_sinceLast = 0, bg_injected = k\<rparr>"
  shows "\<And>E out. \<exists>s'. sourceLoop fuel S E p i wm iv resume s out = Some (s', runPlan E gs out) \<and>
      (snd (runPlan E gs out) = None \<longrightarrow> src_Position S s' = stop)"
    and "emRecords (concat gs) = map (\<lambda>j. recAt (start + k * iv + word_of_nat j)) [0..<n]"
    and "emBarriers (concat gs) = map (\<lambda>j. (j, sint start + j * sint iv)) [sint k + 1..sint total div sint p div sint iv]"
    and "sint (start + k * iv) = sint start + sint k * sint iv" "sint start + sint k * sint iv \<le> sint stop"
    and "concat gs = xs @ EmBarrier b pos # ys \<Longrightarrow> sint pos = sint start + sint k * sint iv + int (length (emRecords xs))"
proof -
  let ?M = "sint total div sint p div sint iv"
  note rb = range_bounds [OF fit i, unfolded r fst_conv snd_conv]
  have q0: "0 \<le> sint k * sint iv" using k iv by simp
  have M: "?M * sint iv \<le> sint total div sint p"
    using div_mult_mod_eq [of "sint total div sint p" "sint iv"] pos_mod_sign [OF iv] by smt
  have "sint k * sint iv \<le> ?M * sint iv" using k iv by (intro mult_right_mono) auto
  then show le: "sint start + sint k * sint iv \<le> sint stop" using M rb(2) by linarith
  have "start + k * iv = word_of_int (sint start + sint k * sint iv)" by (simp add: wi_hom_syms)
  moreover have "sint start + sint k * sint iv \<le> 9223372036854775807"
    using le sint64_bounds [of stop] by linarith
  ultimately show q: "sint (start + k * iv) = sint start + sint k * sint iv"
    using q0 rb(1) by (simp only: sint64_of_int)
  have n': "int n = sint stop - sint (start + k * iv)" "n = nat (sint stop - sint (start + k * iv))" using le q n by simp_all
  have res: "case resume of None \<Rightarrow> start + k * iv = start \<and> k = 0
      | Some rs \<Rightarrow> rs = \<lparr>rs_position = start + k * iv, rs_barriersInjected = k\<rparr> \<and>
          sint start \<le> sint (start + k * iv) \<and> sint (start + k * iv) \<le> sint stop"
    using resume q le q0 by (auto split: option.splits)
  have "nat (sint stop - sint (start + k * iv)) < fuel" using fuel q q0 rb by linarith
  note loop = sourceLoop_plan [OF fit i s r res this gs [unfolded n'(2)]]
  show "\<exists>s'. sourceLoop fuel S E p i wm iv resume s out = Some (s', runPlan E gs out) \<and>
      (snd (runPlan E gs out) = None \<longrightarrow> src_Position S s' = stop)" for E out by (rule loop)
  show "emRecords (concat gs) = map (\<lambda>j. recAt (start + k * iv + word_of_nat j)) [0..<n]"
    by (simp add: gs records_plan)
  show "concat gs = xs @ EmBarrier b pos # ys \<Longrightarrow> sint pos = sint start + sint k * sint iv + int (length (emRecords xs))"
    using barrier_placed [of recAt n "start + k * iv" wm _ xs b pos ys] n'(1) sint64_bounds [of stop] q q0 rb(1) gs by simp
  have "(?M - sint k) * sint iv \<le> int n" using M rb(2) n'(1) q by (simp add: left_diff_distrib)
  then have min: "min (?M - sint k) (int n div sint iv) = ?M - sint k"
    using iv zdiv_mono1 [of "(?M - sint k) * sint iv" "int n" "sint iv"] by simp
  have "emBarriers (concat gs) = map (\<lambda>j. (sint k + j, sint (start + k * iv) + j * sint iv)) [1..?M - sint k]"
    using barriers_plan [of iv 0 k "maxBarriers total p iv True" "start + k * iv" n] iv k n'(1) min
      sint64_bounds [of stop] sint_maxBarriers [OF fit iv] gs by simp
  also have "\<dots> = map (\<lambda>j. (j, sint start + j * sint iv)) [sint k + 1..?M]"
    unfolding q by (rule nth_equalityI) (auto simp: nth_upto algebra_simps)
  finally show "emBarriers (concat gs) = map (\<lambda>j. (j, sint start + j * sint iv)) [sint k + 1..?M]" .
qed

end

section \<open>Properties\<close>

text \<open>C23. The subtasks of a source read every record once: while \<open>parallelism * count\<close> fits in an
  \<open>int64\<close>, each offset of the source lies in the range of exactly one subtask, the ranges
  start at 0, end at the count and follow one another, and each holds at least
  \<open>count / parallelism\<close> records.\<close>

theorem source_ranges_partition:
  assumes fit: "rangeFits cnt p"
  shows "(\<forall>n :: int64. 0 \<le> sint n \<and> sint n < sint cnt \<longrightarrow>
      (\<exists>!i. 0 \<le> sint i \<and> sint i < sint p \<and>
        sint (fst (sourceRange cnt p i)) \<le> sint n \<and> sint n < sint (snd (sourceRange cnt p i)))) \<and>
    fst (sourceRange cnt p 0) = 0 \<and> snd (sourceRange cnt p (p - 1)) = cnt \<and>
    (\<forall>i. snd (sourceRange cnt p i) = fst (sourceRange cnt p (i + 1))) \<and>
    (\<forall>i. 0 \<le> sint i \<and> sint i < sint p \<longrightarrow>
      sint (fst (sourceRange cnt p i)) + sint cnt div sint p \<le> sint (snd (sourceRange cnt p i)))"
proof -
  have f: "0 \<le> sint cnt" "0 < sint p" using fit by (auto simp: rangeFits_def)
  let ?f = "\<lambda>k. k * sint cnt div sint p"
  note sr = sourceRange_sint [OF fit]
  have mono: "?f a \<le> ?f b" if "a \<le> b" for a b
    using that f by (intro zdiv_mono1 mult_right_mono) auto
  have "\<exists>!i. 0 \<le> sint i \<and> sint i < sint p \<and>
        sint (fst (sourceRange cnt p i)) \<le> sint n \<and> sint n < sint (snd (sourceRange cnt p i))"
    if n: "0 \<le> sint n" "sint n < sint cnt" for n :: int64
  proof (rule ex_ex1I)
    obtain k where k: "k < nat (sint p)" "?f (int k) \<le> sint n" "sint n < ?f (int (Suc k))"
      using ranges_cover [of "\<lambda>k. ?f (int k)" "sint n" "nat (sint p)"] n f by auto
    let ?i = "word_of_int (int k) :: int64"
    have "sint ?i = int k" using k(1) sint64_bounds [of p] by (intro sint64_of_int) auto
    then show "\<exists>i. 0 \<le> sint i \<and> sint i < sint p \<and>
        sint (fst (sourceRange cnt p i)) \<le> sint n \<and> sint n < sint (snd (sourceRange cnt p i))"
      using k f by (intro exI [of _ ?i]) (simp add: sr add.commute)
  next
    fix i j
    assume i: "0 \<le> sint i \<and> sint i < sint p \<and>
        sint (fst (sourceRange cnt p i)) \<le> sint n \<and> sint n < sint (snd (sourceRange cnt p i))"
      and j: "0 \<le> sint j \<and> sint j < sint p \<and>
        sint (fst (sourceRange cnt p j)) \<le> sint n \<and> sint n < sint (snd (sourceRange cnt p j))"
    show "i = j"
    proof (rule sint64_eqI, rule ccontr)
      assume "sint i \<noteq> sint j"
      then consider "sint i + 1 \<le> sint j" | "sint j + 1 \<le> sint i" by linarith
      moreover have "?f (sint i) \<le> sint n" "sint n < ?f (sint i + 1)" "?f (sint j) \<le> sint n" "sint n < ?f (sint j + 1)"
        using i j sr [of i] sr [of j] by auto
      ultimately show False
        using mono [of "sint i + 1" "sint j"] mono [of "sint j + 1" "sint i"] by cases linarith+
    qed
  qed
  moreover have "fst (sourceRange cnt p 0) = 0" using f by (simp add: sourceRange_def go_div_def)
  moreover have "snd (sourceRange cnt p (p - 1)) = cnt"
  proof (rule sint64_eqI)
    have "sint (p - 1) = sint p - 1" using f sint64_bounds [of p] by (simp add: sint64_diff)
    then show "sint (snd (sourceRange cnt p (p - 1))) = sint cnt" using f by (simp add: sr)
  qed
  moreover have "\<forall>i. snd (sourceRange cnt p i) = fst (sourceRange cnt p (i + 1))"
    by (simp add: sourceRange_def)
  ultimately show ?thesis using range_bounds(2) [OF fit] by blast
qed

theorem source_ranges_partition_witness:
  "(\<exists>!i :: int64. 0 \<le> sint i \<and> sint i < 4 \<and>
      sint (fst (sourceRange 10 4 i)) \<le> 7 \<and> 7 < sint (snd (sourceRange 10 4 i))) \<and>
    snd (sourceRange 10 4 3) = 10"
proof -
  have "rangeFits 10 4" by (simp add: rangeFits_def)
  note part = source_ranges_partition [OF this]
  show ?thesis
    using part [THEN conjunct1, THEN spec [of _ 7]]
      part [THEN conjunct2, THEN conjunct2, THEN conjunct1] by simp
qed

lemma overflowing_ranges:
  "\<not> 2 ^ 60 < sint (snd (sourceRange (2 ^ 62) 4 0))" "\<not> 2 ^ 60 < sint (snd (sourceRange (2 ^ 62) 4 1))"
  "\<not> 2 ^ 60 < sint (snd (sourceRange (2 ^ 62) 4 2))" "\<not> 2 ^ 60 < sint (snd (sourceRange (2 ^ 62) 4 3))"
  by (simp_all add: sourceRange_def go_div_def)

text \<open>Past that bound the products wrap and records are lost: of \<open>2 ^ 62\<close> records split over 4
  subtasks, the one at offset \<open>2 ^ 60\<close> is in the range of none.\<close>

theorem source_range_overflow:
  "\<not> (\<exists>i. 0 \<le> sint i \<and> sint i < 4 \<and> sint (fst (sourceRange (2 ^ 62) 4 i)) \<le> 2 ^ 60 \<and>
    2 ^ 60 < sint (snd (sourceRange (2 ^ 62) 4 i)))"
proof -
  have "i \<in> {0, 1, 2, 3}" if "0 \<le> sint i" "sint i < 4" for i :: int64
  proof -
    have "sint i \<in> {0, 1, 2, 3}" using that by auto
    then have "sint i \<in> sint ` {0 :: int64, 1, 2, 3}" by simp
    then show ?thesis using sint64_eqI by blast
  qed
  then show ?thesis using overflowing_ranges by blast
qed

text \<open>C21. Every subtask injects the same barriers and emits its own records: the run of subtask \<open>i\<close> over
  the generator, with a count that times the parallelism fits in an \<open>int64\<close>, returns nil when
  no emitter fails, having emitted the records of its range in
  order and the barriers \<open>1, ..., (count / parallelism) / interval\<close>, barrier \<open>k\<close> at the position
  \<open>k\<close> intervals into its range. The barriers' identifiers do not depend on the subtask, so a
  downstream gate never waits for one that is not sent.\<close>

theorem source_subtask_emits:
  assumes "rangeFits (Count cfg) p" "0 < sint iv" "0 \<le> sint i" "sint i < sint p"
    and "sourceRange (Count cfg) p i = (start, stop)" "nat (sint (Count cfg)) < fuel"
  shows "\<exists>g' out. sourceLoop fuel Generator_source collect p i wm iv None (NewGenerator cfg) [] =
      Some (g', out, None) \<and>
    emRecords out = map (\<lambda>n. genRecord cfg (start + word_of_nat n)) [0..<nat (sint stop - sint start)] \<and>
    emBarriers out = map (\<lambda>k. (k, sint start + k * sint iv)) [1..sint (Count cfg) div sint p div sint iv]"
proof -
  have "0 \<le> sint (Count cfg) div sint p div sint iv"
    using assms(1,2) by (simp add: rangeFits_def pos_imp_zdiv_nonneg_iff)
  then have z: "0 \<le> sint (0 :: int64)" "sint (0 :: int64) \<le> sint (Count cfg) div sint p div sint iv" by simp_all
  have g: "g_cfg (NewGenerator cfg) = cfg" by (simp add: NewGenerator_def)
  note run = gen.run_calls [where wm = wm, OF assms(1-4) g assms(5) z disjI1 [OF conjI [OF refl refl]] assms(6) refl refl]
  show ?thesis using run(1) [of collect "[]"] run(2,3) by auto
qed

theorem source_subtask_emits_witness:
  "\<exists>g' out. sourceLoop 11 Generator_source collect 4 1 (newWatermarkGenerator 1 25) 1 None
      (NewGenerator example_config) [] = Some (g', out, None) \<and>
    emRecords out = map (\<lambda>n. genRecord example_config (2 + word_of_nat n)) [0..<3] \<and>
    emBarriers out = [(1, 3), (2, 4)]"
proof -
  have "sourceRange (Count example_config) 4 1 = (2, 5)"
    by (simp add: sourceRange_def example_config_def go_div_def)
  from source_subtask_emits [OF _ _ _ _ this, of 1 11 "newWatermarkGenerator 1 25"]
  show ?thesis by (simp add: rangeFits_def example_config_def upto.simps)
qed

text \<open>A restored subtask continues where its checkpoint cut: resumed with the position and the
  identifier of barrier \<open>k\<close> of its own run, it emits the records from that position to the end
  of its range and the barriers after \<open>k\<close>, with the identifiers and the positions they had in
  the uninterrupted run.\<close>

theorem source_resume_continues:
  assumes "rangeFits (Count cfg) p" "0 < sint iv" "0 \<le> sint i" "sint i < sint p"
    and "sourceRange (Count cfg) p i = (start, stop)" "nat (sint (Count cfg)) < fuel"
    and "0 \<le> sint k" "sint k \<le> sint (Count cfg) div sint p div sint iv"
  shows "\<exists>g' out. sourceLoop fuel Generator_source collect p i wm iv
      (Some \<lparr>rs_position = start + k * iv, rs_barriersInjected = k\<rparr>) (NewGenerator cfg) [] = Some (g', out, None) \<and>
    emRecords out = map (\<lambda>n. genRecord cfg (start + k * iv + word_of_nat n))
      [0..<nat (sint stop - (sint start + sint k * sint iv))] \<and>
    emBarriers out = map (\<lambda>j. (j, sint start + j * sint iv)) [sint k + 1..sint (Count cfg) div sint p div sint iv]"
proof -
  have g: "g_cfg (NewGenerator cfg) = cfg" by (simp add: NewGenerator_def)
  note run = gen.run_calls [where wm = wm, OF assms(1-4) g assms(5,7,8) disjI2 [OF refl] assms(6) refl refl]
  show ?thesis using run(1) [of collect "[]"] run(2,3) by auto
qed

theorem source_resume_continues_witness:
  "\<exists>g' out. sourceLoop 11 Generator_source collect 4 1 (newWatermarkGenerator 1 25) 1
      (Some \<lparr>rs_position = 3, rs_barriersInjected = 1\<rparr>) (NewGenerator example_config) [] = Some (g', out, None) \<and>
    emRecords out = map (\<lambda>n. genRecord example_config (3 + word_of_nat n)) [0..<2] \<and>
    emBarriers out = [(2, 4)]"
proof -
  have "sourceRange (Count example_config) 4 1 = (2, 5)"
    by (simp add: sourceRange_def example_config_def go_div_def)
  from source_resume_continues [OF _ _ _ _ this, of 1 11 1 "newWatermarkGenerator 1 25"]
  show ?thesis by (simp add: rangeFits_def example_config_def upto.simps)
qed

text \<open>C22. A source never sends a record its watermark has passed: over the generator, with an
  event-time step that is not negative, which \<open>Open\<close> does not check, with event times that fit in
  an \<open>int64\<close>, with \<open>MaxOutOfOrderness\<close> at least the generator's \<open>MaxLag\<close>, and with a count that
  times the parallelism fits in an \<open>int64\<close>, the stream of any subtask has non-decreasing
  watermarks and every record strictly above the watermark before it.\<close>

theorem source_never_late:
  assumes "rangeFits (Count cfg) p" "0 < sint iv" "0 \<le> sint i" "sint i < sint p"
    and "nat (sint (Count cfg)) < fuel" and fit: "timesFit cfg" and ooo: "sint (MaxLag cfg) \<le> sint ooo"
  shows "\<exists>g' out. sourceLoop fuel Generator_source collect p i (newWatermarkGenerator wi ooo) iv None
      (NewGenerator cfg) [] = Some (g', out, None) \<and> nonlate minInt64 (map emElement out)"
proof -
  obtain start stop where r: "sourceRange (Count cfg) p i = (start, stop)" by fastforce
  have f: "0 \<le> sint (Count cfg)" "0 < sint p" using assms(1) by (auto simp: rangeFits_def)
  have c0: "0 \<le> sint (Count cfg) div sint p div sint iv"
    using f assms(2) by (simp add: pos_imp_zdiv_nonneg_iff)
  have g: "g_cfg (NewGenerator cfg) = cfg" by (simp add: NewGenerator_def)
  note rb = range_bounds [OF assms(1,3,4), unfolded r fst_conv snd_conv]
  define n where "n = nat (sint stop - sint start)"
  let ?wm = "newWatermarkGenerator wi ooo"
  let ?br = "\<lparr>bg_intervalElements = iv, bg_maxBarriers = maxBarriers (Count cfg) p iv True,
    bg_sinceLast = 0, bg_injected = 0\<rparr>"
  obtain g' where run: "sourceLoop fuel Generator_source collect p i ?wm iv None (NewGenerator cfg) [] =
      Some (g', runPlan collect (plan (genRecord cfg) n start ?wm ?br) [])"
    using gen.run_calls(1) [where wm = ?wm and k = 0 and resume = None and E = collect and out = "[]",
        OF assms(1-4) g r _ _ _ assms(5) refl refl] c0
    by (auto simp: n_def)
  have off: "sint (start + word_of_nat k) = sint start + int k" if "k < n" for k
  proof -
    have "start + word_of_nat k = word_of_int (sint start + int k)" by (simp add: wi_hom_syms)
    moreover have "sint start + int k \<le> 9223372036854775807"
      using that sint64_bounds [of stop] by (simp add: n_def)
    ultimately show ?thesis using rb(1) by (simp only: sint64_of_int)
  qed
  have lt: "sint start + int k < sint (Count cfg)" if "k < n" for k
    using that rb(3) by (simp add: n_def)
  have lo: "- (2 ^ 63) < sint (timeOf cfg (start + word_of_nat k))" if "k < n" for k
    using timeOf_bounded_disorder(2) [OF fit, of "start + word_of_nat k" "start + word_of_nat k"]
      off [OF that] lt [OF that] rb(1) by simp
  have dis: "sint (timeOf cfg (start + word_of_nat k)) - sint ooo \<le> sint (timeOf cfg (start + word_of_nat l))"
    if "k \<le> l" "l < n" for k l
    using timeOf_bounded_disorder(1) [OF fit, of "start + word_of_nat k" "start + word_of_nat l"]
      off [of k] off [of l] lt [of l] that rb(1) ooo by simp
  have "0 \<le> sint ooo" using ooo fit by (simp add: timesFit_def)
  then have "nonlate (wg_lastEmitted ?wm) (map emElement (concat (plan (genRecord cfg) n start ?wm ?br)))"
    using lo dis
    by (intro nonlate_plan) (fastforce simp: newWatermarkGenerator_def genRecord_def)+
  with run show ?thesis by (simp add: newWatermarkGenerator_def)
qed

theorem source_never_late_witness:
  "\<exists>g' out. sourceLoop 11 Generator_source collect 4 1 (newWatermarkGenerator 2 25) 1 None
      (NewGenerator example_config) [] = Some (g', out, None) \<and> nonlate minInt64 (map emElement out)"
  by (rule source_never_late [OF _ _ _ _ _ example_config_fits])
    (simp_all add: rangeFits_def example_config_def)

text \<open>An emitter that fails stops the source there: against any emitters, the run of a subtask is
  the sequence of calls it makes when none fails, performed in order, with the context checked
  before every record, up to the first error, which it returns.\<close>

theorem source_stops_at_error:
  assumes "rangeFits (Count cfg) p" "0 < sint iv" "0 \<le> sint i" "sint i < sint p"
    and "nat (sint (Count cfg)) < fuel"
  shows "\<exists>gs g1 g2. sourceLoop fuel Generator_source collect p i wm iv None (NewGenerator cfg) [] =
      Some (g1, concat gs, None) \<and>
    sourceLoop fuel Generator_source E p i wm iv None (NewGenerator cfg) out = Some (g2, runPlan E gs out)"
proof -
  obtain start stop where r: "sourceRange (Count cfg) p i = (start, stop)" by fastforce
  have f: "0 \<le> sint (Count cfg)" "0 < sint p" using assms(1) by (auto simp: rangeFits_def)
  have c0: "0 \<le> sint (Count cfg) div sint p div sint iv"
    using f assms(2) by (simp add: pos_imp_zdiv_nonneg_iff)
  have g: "g_cfg (NewGenerator cfg) = cfg" by (simp add: NewGenerator_def)
  show ?thesis
    using gen.run_calls(1) [where wm = wm and k = 0 and resume = None and E = collect and out = "[]",
        OF assms(1-4) g r _ _ _ assms(5) refl refl]
      gen.run_calls(1) [where wm = wm and k = 0 and resume = None and E = E and out = out,
        OF assms(1-4) g r _ _ _ assms(5) refl refl] c0 by fastforce
qed

text \<open>An emitter whose third call fails.\<close>

definition failing_emitter :: "nat emitter" where
  "failing_emitter =
     (let call = (\<lambda>n. if n = 0 then (0, Some (IoError 7)) else (n - 1, None))
      in \<lparr>ctx_Err = (\<lambda>_. None), emitRecord = (\<lambda>_. call), emitWatermark = (\<lambda>_. call),
          emitBarrier = (\<lambda>_ _. call)\<rparr>)"

theorem source_stops_at_error_witness:
  "\<exists>gs g2. sourceLoop 11 Generator_source failing_emitter 4 1 (newWatermarkGenerator 2 25) 1 None
      (NewGenerator example_config) 2 = Some (g2, runPlan failing_emitter gs 2)"
  using source_stops_at_error [of example_config 4 1 1 11 "newWatermarkGenerator 2 25" failing_emitter 2]
  by (simp add: rangeFits_def example_config_def) blast

end
