(* ===== verification/Source_Subtask.thy ===== *)
theory Source_Subtask
  imports Subtask Source_Task Job_Graph Coordinator "HOL-Library.Sublist"
begin

text \<open>
  The subtask of a source in \<open>pkg/runtime/subtask.go\<close>: the emitters it hands to the loop of
  \<open>source_task.go\<close>, its snapshots, its resumption from one, and what it says when it is done. The
  theorem is about any source that keeps the contract of \<open>Source_Interface\<close>.
\<close>

section \<open>The subtask\<close>

text \<open>What \<open>v.NewSource\<close> makes, with the methods around the loop.\<close>

record 's sourceFactory =
  sf_New :: 's
  sf_Open :: "'s \<Rightarrow> 's \<times> go_error option"
  sf_Close :: "'s \<Rightarrow> go_error option"
  sf_Source :: "'s Source"

record ('e, 'c) sourceRun =
  sr_elements :: int64
  sr_writer :: 'e
  sr_calls :: 'c

text \<open>\<open>ctx\<close> is the context's \<open>Err\<close>, which may change as the run goes on.\<close>

definition source_emitRecord ::
  "'e outlet \<Rightarrow> faults \<Rightarrow> Record \<Rightarrow> ('e, 'c) sourceRun \<Rightarrow> ('e, 'c) sourceRun \<times> go_error option" where
  "source_emitRecord ol fs rec st =
     (case beforeElement fs (sr_elements st) of
        Some e \<Rightarrow> (st, Some e)
      | None \<Rightarrow>
          (case ol_EmitRecord ol rec (sr_writer st) of
             (w, e) \<Rightarrow> (st\<lparr>sr_elements := sr_elements st + 1, sr_writer := w\<rparr>, e)))"

definition source_emitWatermark ::
  "'e outlet \<Rightarrow> int64 \<Rightarrow> ('e, 'c) sourceRun \<Rightarrow> ('e, 'c) sourceRun \<times> go_error option" where
  "source_emitWatermark ol t st =
     (case ol_Broadcast ol (NewWatermarkElement t) (sr_writer st) of (w, e) \<Rightarrow> (st\<lparr>sr_writer := w\<rparr>, e))"

definition source_emitBarrier ::
  "'e outlet \<Rightarrow> 'c checkpointer \<Rightarrow> faults \<Rightarrow> Barrier \<Rightarrow> int64 \<Rightarrow> ('e, 'c) sourceRun \<Rightarrow> ('e, 'c) sourceRun \<times> go_error option" where
  "source_emitBarrier ol cp fs b position st =
     (case (if cp_enabled cp then cp_snapshot cp (CheckpointID b) (encodePosition position) (sr_calls st) else (sr_calls st, None)) of
        (c, Some e) \<Rightarrow> (st\<lparr>sr_calls := c\<rparr>, Some e)
      | (c, None) \<Rightarrow>
          (case ol_Broadcast ol (NewBarrierElement b) (sr_writer st) of
             (w, Some e) \<Rightarrow> (st\<lparr>sr_calls := c, sr_writer := w\<rparr>, Some e)
           | (w, None) \<Rightarrow> (st\<lparr>sr_calls := c, sr_writer := w\<rparr>, afterBarrierForwarded fs (CheckpointID b))))"

definition sourceEmitters ::
  "('e \<Rightarrow> go_error option) \<Rightarrow> 'e outlet \<Rightarrow> 'c checkpointer \<Rightarrow> faults \<Rightarrow> ('e, 'c) sourceRun emitter" where
  "sourceEmitters ctx ol cp fs =
     \<lparr>ctx_Err = \<lambda>st. ctx (sr_writer st), emitRecord = source_emitRecord ol fs,
      emitWatermark = source_emitWatermark ol, emitBarrier = source_emitBarrier ol cp fs\<rparr>"

text \<open>What follows the loop: the source is finished, and the stream ends.\<close>

definition source_finish ::
  "'e outlet \<Rightarrow> 'c checkpointer \<Rightarrow> int64 \<Rightarrow> ('e, 'c) sourceRun \<Rightarrow> ('e, 'c) sourceRun \<times> go_error option" where
  "source_finish ol cp position st =
     (case (if cp_enabled cp then cp_finished cp (encodePosition position) (sr_calls st) else (sr_calls st, None)) of
        (c, Some e) \<Rightarrow> (st\<lparr>sr_calls := c\<rparr>, Some e)
      | (c, None) \<Rightarrow>
          (case ol_Broadcast ol NewEndOfStreamElement (sr_writer st) of
             (w, e) \<Rightarrow> (st\<lparr>sr_calls := c, sr_writer := w\<rparr>, e)))"

text \<open>\<open>restored\<close> is the payload of the subtask and the identifier of the checkpoint.\<close>

definition source_resume :: "(bytes \<times> int64) option \<Rightarrow> sourceResume option result" where
  "source_resume restored =
     (case restored of
        None \<Rightarrow> Inr None
      | Some (payload, checkpoint) \<Rightarrow>
          (case decodePosition payload of
             Inl e \<Rightarrow> Inl e
           | Inr position \<Rightarrow> Inr (Some \<lparr>rs_position = position, rs_barriersInjected = checkpoint\<rparr>)))"

definition runSourceSubtask ::
  "nat \<Rightarrow> ('e \<Rightarrow> go_error option) \<Rightarrow> Vertex \<Rightarrow> 's sourceFactory \<Rightarrow> int64 \<Rightarrow> 'e outlet \<Rightarrow> 'c checkpointer \<Rightarrow> faults \<Rightarrow>
   (bytes \<times> int64) option \<Rightarrow> 'e \<Rightarrow> 'c \<Rightarrow> (('s \<times> ('e, 'c) sourceRun) \<times> go_error option) option" where
  "runSourceSubtask fuel ctx v F index ol cp fs restored w c =
     (let st = \<lparr>sr_elements = 0, sr_writer = w, sr_calls = c\<rparr>
      in case sf_Open F (sf_New F) of
           (s, Some e) \<Rightarrow> Some ((s, st), Some e)
         | (s, None) \<Rightarrow>
             map_option (\<lambda>((s1, st1), err).
                 ((s1, st1), if sf_Close F s1 \<noteq> None \<and> err = None then sf_Close F s1 else err))
               (case source_resume restored of
                  Inl e \<Rightarrow> Some ((s, st), Some e)
                | Inr resume \<Rightarrow>
                    (case sourceLoop fuel (sf_Source F) (sourceEmitters ctx ol cp fs) (Parallelism v) index
                        (newWatermarkGenerator (WatermarkIntervalElements v) (MaxOutOfOrderness v)) (BarrierIntervalElements v)
                        resume s st of
                       None \<Rightarrow> None
                     | Some (s1, st1, Some e) \<Rightarrow> Some ((s1, st1), Some e)
                     | Some (s1, st1, None) \<Rightarrow>
                         Some (case source_finish ol cp (src_Position (sf_Source F) s1) st1 of (st2, e) \<Rightarrow> ((s1, st2), e)))))"

section \<open>A writer and a coordinator that record what they are told\<close>

text \<open>They may refuse anything at any time: \<open>refuse\<close> decides over an element and \<open>deny\<close> over a call,
  given what they have taken so far, and what they refuse they do not take.\<close>

definition recordingSend :: "(StreamElement list \<Rightarrow> StreamElement \<Rightarrow> go_error option) \<Rightarrow> StreamElement \<Rightarrow>
    StreamElement list \<Rightarrow> StreamElement list \<times> go_error option" where
  "recordingSend refuse e w = (case refuse w e of Some err \<Rightarrow> (w, Some err) | None \<Rightarrow> (w @ [e], None))"

definition recordingOutlet :: "(StreamElement list \<Rightarrow> StreamElement \<Rightarrow> go_error option) \<Rightarrow> StreamElement list outlet" where
  "recordingOutlet refuse =
     \<lparr>ol_EmitRecord = \<lambda>rec w. recordingSend refuse (RecordElement rec) w, ol_Broadcast = recordingSend refuse\<rparr>"

definition recordingCall :: "(call list \<Rightarrow> call \<Rightarrow> go_error option) \<Rightarrow> call \<Rightarrow> call list \<Rightarrow> call list \<times> go_error option" where
  "recordingCall deny a c = (case deny c a of Some err \<Rightarrow> (c, Some err) | None \<Rightarrow> (c @ [a], None))"

definition recordingCalls :: "(call list \<Rightarrow> call \<Rightarrow> go_error option) \<Rightarrow> SubtaskKey \<Rightarrow> call list coordinator_calls" where
  "recordingCalls deny key =
     \<lparr>cc_Acknowledge = \<lambda>i payload. recordingCall deny (AckCall i key payload), cc_Fail = \<lambda>i c. c @ [FailCall i key],
      cc_Finished = \<lambda>payload. recordingCall deny (FinCall key payload), cc_CompletedAmong = \<lambda>ids c. (c, []),
      cc_AwaitCompletedAmong = \<lambda>ids c. Some (c, [])\<rparr>"

fun emAcks :: "SubtaskKey \<Rightarrow> emission list \<Rightarrow> call list" where
  "emAcks key [] = []"
| "emAcks key (EmBarrier b pos # ems) = AckCall (CheckpointID b) key (encodePosition pos) # emAcks key ems"
| "emAcks key (_ # ems) = emAcks key ems"

lemma emAcks_append [simp]: "emAcks key (xs @ ys) = emAcks key xs @ emAcks key ys"
  by (induction xs rule: emAcks.induct) simp_all

lemma emAcks_barriers:
  "emAcks key ems = map (\<lambda>(i, pos). AckCall (word_of_int i) key (encodePosition (word_of_int pos))) (emBarriers ems)"
  by (induction ems rule: emBarriers.induct) simp_all

lemma emAcks_from:
  "AckCall j l payload \<in> set (emAcks key ems) \<Longrightarrow>
    \<exists>xs b pos ys. ems = xs @ EmBarrier b pos # ys \<and> CheckpointID b = j \<and> l = key \<and> payload = encodePosition pos"
proof (induction key ems rule: emAcks.induct)
  case (2 key b pos ems)
  then consider "j = CheckpointID b" "l = key" "payload = encodePosition pos" | "AckCall j l payload \<in> set (emAcks key ems)" by auto
  then show ?case
  proof cases
    case 1
    then show ?thesis by (intro exI [of _ "[]"]) auto
  next
    case 2
    with "2.IH" show ?thesis by (metis append_Cons)
  qed
qed (auto, (metis append_Cons)+)

abbreviation recordingEmitters ::
  "(StreamElement list \<Rightarrow> go_error option) \<Rightarrow> (StreamElement list \<Rightarrow> StreamElement \<Rightarrow> go_error option) \<Rightarrow>
   (call list \<Rightarrow> call \<Rightarrow> go_error option) \<Rightarrow> SubtaskKey \<Rightarrow> faults \<Rightarrow> (StreamElement list, call list) sourceRun emitter" where
  "recordingEmitters ctx refuse deny key fs \<equiv> sourceEmitters ctx (recordingOutlet refuse) (Some (recordingCalls deny key)) fs"

text \<open>From \<open>st\<close> to \<open>st'\<close> a part of the elements \<open>ws\<close> and of the calls \<open>cs\<close> was taken, or all of them.\<close>

definition takes ::
  "StreamElement list \<Rightarrow> call list \<Rightarrow> (StreamElement list, call list) sourceRun \<Rightarrow> (StreamElement list, call list) sourceRun \<Rightarrow> bool \<Rightarrow> bool" where
  "takes ws cs st st' whole \<longleftrightarrow> (\<exists>ws' cs'. sr_writer st' = sr_writer st @ ws' \<and> sr_calls st' = sr_calls st @ cs' \<and>
     prefix ws' ws \<and> prefix cs' cs \<and> (whole \<longrightarrow> ws' = ws \<and> cs' = cs))"

lemma takes_none [simp]: "takes ws cs st st False" "takes [] [] st st whole"
  by (simp_all add: takes_def)

lemma takes_part: "takes ws cs st st' False \<Longrightarrow> takes (ws @ us) (cs @ ds) st st' False"
  by (fastforce simp: takes_def)

lemma takes_then: "takes ws cs st st1 True \<Longrightarrow> takes us ds st1 st' whole \<Longrightarrow> takes (ws @ us) (cs @ ds) st st' whole"
  by (auto simp: takes_def)

lemma recordingSend_takes: "recordingSend refuse e w = (w', err) \<Longrightarrow> w' = (if err = None then w @ [e] else w)"
  by (cases "refuse w e"; cases err) (simp_all add: recordingSend_def)

lemma recordingCall_takes: "recordingCall deny a c = (c', err) \<Longrightarrow> c' = (if err = None then c @ [a] else c)"
  by (cases "deny c a"; cases err) (simp_all add: recordingCall_def)

lemma perform_takes:
  assumes "perform (recordingEmitters ctx refuse deny key fs) em st = (st', err)"
  shows "takes [emElement em] (emAcks key [em]) st st' (err = None)"
proof (cases em)
  case (EmRecord rec)
  obtain w e where w: "recordingSend refuse (RecordElement rec) (sr_writer st) = (w, e)" by fastforce
  then have "st' = st \<and> err \<noteq> None \<or> st' = st\<lparr>sr_elements := sr_elements st + 1, sr_writer := w\<rparr> \<and> err = e"
    using assms EmRecord by (auto simp: sourceEmitters_def source_emitRecord_def recordingOutlet_def split: option.splits)
  then show ?thesis using recordingSend_takes [OF w] EmRecord by (auto simp: takes_def)
next
  case (EmWatermark t)
  obtain w e where w: "recordingSend refuse (WatermarkElement t) (sr_writer st) = (w, e)" by fastforce
  then have "st' = st\<lparr>sr_writer := w\<rparr> \<and> err = e"
    using assms EmWatermark by (simp add: sourceEmitters_def source_emitWatermark_def recordingOutlet_def NewWatermarkElement_def)
  then show ?thesis using recordingSend_takes [OF w] EmWatermark by (auto simp: takes_def)
next
  case (EmBarrier b pos)
  obtain c e1 where c: "recordingCall deny (AckCall (CheckpointID b) key (encodePosition pos)) (sr_calls st) = (c, e1)" by fastforce
  obtain w e2 where w: "recordingSend refuse (BarrierElement b) (sr_writer st) = (w, e2)" by fastforce
  have "if e1 \<noteq> None then st' = st\<lparr>sr_calls := c\<rparr> \<and> err = e1
    else st' = st\<lparr>sr_calls := c, sr_writer := w\<rparr> \<and> (e2 \<noteq> None \<longrightarrow> err = e2)"
    using assms EmBarrier c w
    by (auto simp: sourceEmitters_def source_emitBarrier_def recordingOutlet_def recordingCalls_def cp_enabled_def cp_snapshot_def
        NewBarrierElement_def split: option.splits)
  then show ?thesis using recordingSend_takes [OF w] recordingCall_takes [OF c] EmBarrier by (auto simp: takes_def split: if_splits)
qed

lemma performAll_takes:
  "performAll (recordingEmitters ctx refuse deny key fs) ems st = (st', err) \<Longrightarrow>
    takes (map emElement ems) (emAcks key ems) st st' (err = None)"
proof (induction ems arbitrary: st)
  case (Cons em ems)
  obtain st1 e1 where p: "perform (recordingEmitters ctx refuse deny key fs) em st = (st1, e1)" by fastforce
  note one = perform_takes [OF p]
  have acks: "emAcks key (em # ems) = emAcks key [em] @ emAcks key ems" using emAcks_append [of key "[em]" ems] by simp
  show ?case
  proof (cases e1)
    case None
    then have "takes (map emElement ems) (emAcks key ems) st1 st' (err = None)" using Cons p by simp
    from takes_then [OF _ this] one None show ?thesis unfolding acks by fastforce
  next
    case (Some e)
    then have "st' = st1" "err = Some e" using Cons.prems p by auto
    with takes_part [of "[emElement em]" "emAcks key [em]" st st1] one Some show ?thesis unfolding acks by simp
  qed
qed simp

lemma runPlan_takes:
  "runPlan (recordingEmitters ctx refuse deny key fs) gs st = (st', err) \<Longrightarrow>
    takes (map emElement (concat gs)) (emAcks key (concat gs)) st st' (err = None)"
proof (induction gs arbitrary: st)
  case (Cons g gs)
  obtain st1 e1 where p: "performAll (recordingEmitters ctx refuse deny key fs) g st = (st1, e1)" by fastforce
  note one = performAll_takes [OF p]
  consider "ctx_Err (recordingEmitters ctx refuse deny key fs) st \<noteq> None"
    | "ctx_Err (recordingEmitters ctx refuse deny key fs) st = None" "e1 \<noteq> None"
    | "ctx_Err (recordingEmitters ctx refuse deny key fs) st = None" "e1 = None" by blast
  then show ?case
  proof cases
    case 1
    then have "st' = st \<and> err \<noteq> None"
      using Cons.prems by (cases "ctx_Err (recordingEmitters ctx refuse deny key fs) st"; simp; metis option.distinct(1))
    then have "st' = st" "(err = None) = False" by simp_all
    then show ?thesis by (simp only: takes_none)
  next
    case 2
    then have "st' = st1" "err \<noteq> None" using Cons.prems p by auto
    with takes_part [of "map emElement g" "emAcks key g" st st1] one 2 show ?thesis by auto
  next
    case 3
    then have "takes (map emElement (concat gs)) (emAcks key (concat gs)) st1 st' (err = None)" using Cons p by simp
    from takes_then [OF _ this] one 3 show ?thesis by simp
  qed
qed simp

text \<open>Nothing in its way, a run makes every call.\<close>

abbreviation accepts :: "'a list \<Rightarrow> 'b \<Rightarrow> go_error option" where
  "accepts \<equiv> \<lambda>_ _. None"

lemma perform_accepted:
  "fa_injector fs = None \<Longrightarrow> snd (perform (recordingEmitters (\<lambda>_. None) accepts accepts key fs) em st) = None"
  by (cases em) (simp_all add: sourceEmitters_def source_emitRecord_def source_emitWatermark_def source_emitBarrier_def
      recordingOutlet_def recordingSend_def recordingCalls_def recordingCall_def cp_enabled_def cp_snapshot_def)

lemma performAll_accepted:
  "fa_injector fs = None \<Longrightarrow> snd (performAll (recordingEmitters (\<lambda>_. None) accepts accepts key fs) ems st) = None"
proof (induction ems arbitrary: st)
  case (Cons em ems)
  with perform_accepted [OF Cons.prems, of key em st] show ?case by (auto split: prod.splits)
qed simp

lemma runPlan_accepted:
  "fa_injector fs = None \<Longrightarrow> snd (runPlan (recordingEmitters (\<lambda>_. None) accepts accepts key fs) gs st) = None"
proof (induction gs arbitrary: st)
  case (Cons g gs)
  with performAll_accepted [OF Cons.prems, of key g st] show ?case by (auto simp: sourceEmitters_def split: prod.splits)
qed (simp add: sourceEmitters_def)

section \<open>Recovery\<close>

lemma map_emElement_at:
  assumes "map emElement ems @ [EndOfStreamElement] = xs @ BarrierElement b # ys"
  obtains exs pos eys where "ems = exs @ EmBarrier b pos # eys" "xs = map emElement exs"
proof -
  from assms obtain us where "map emElement ems = xs @ BarrierElement b # us"
    by (cases ys rule: rev_cases) (auto simp: append_eq_append_conv2)
  then obtain exs em eys where e: "ems = exs @ em # eys" "xs = map emElement exs" "emElement em = BarrierElement b"
    by (auto simp: map_eq_append_conv map_eq_Cons_conv)
  then show thesis using that by (cases em) auto
qed

lemma emBarriers_in: "(sint (CheckpointID b), sint pos) \<in> set (emBarriers (exs @ EmBarrier b pos # eys))"
  by simp

text \<open>A run that ends in \<open>st\<close>, cut short: by its context, its writer, its coordinator or a fault.\<close>

definition cutsShort ::
  "((StreamElement list \<Rightarrow> go_error option) \<Rightarrow> (StreamElement list \<Rightarrow> StreamElement \<Rightarrow> go_error option) \<Rightarrow>
    (call list \<Rightarrow> call \<Rightarrow> go_error option) \<Rightarrow> faults \<Rightarrow> (bytes \<times> int64) option \<Rightarrow>
    (('s \<times> (StreamElement list, call list) sourceRun) \<times> go_error option) option) \<Rightarrow>
   (bytes \<times> int64) option \<Rightarrow> (StreamElement list, call list) sourceRun \<Rightarrow> bool" where
  "cutsShort run restored st \<longleftrightarrow> (\<forall>ctx refuse deny fs. \<exists>s2 st2 err. run ctx refuse deny fs restored = Some ((s2, st2), err) \<and>
     prefix (sr_writer st2) (sr_writer st) \<and> prefix (sr_calls st2) (sr_calls st))"

text \<open>Checkpoint \<open>j\<close>, cut after the elements \<open>xs\<close>, restores with \<open>payload\<close> to the run that ends in \<open>st1\<close>.\<close>

definition recoversFrom where
  "recoversFrom run calm F xs j payload s1 st st1 \<longleftrightarrow>
     calm (Some (payload, j)) = Some ((s1, st1), sf_Close F s1) \<and> cutsShort run (Some (payload, j)) st1 \<and>
     recordsOf (sr_writer st) = recordsOf xs @ recordsOf (sr_writer st1)"

context replayable_source
begin

lemma recorded_run:
  assumes F: "sf_Source F = S" "sf_Open F (sf_New F) = (s, None)" "good s"
    and iv: "iv = BarrierIntervalElements v" "0 < sint iv"
    and fit: "rangeFits total (Parallelism v)" and i: "0 \<le> sint i" "sint i < sint (Parallelism v)"
    and r: "sourceRange total (Parallelism v) i = (start, stop)" and fuel: "nat (sint total) < fuel"
    and k: "0 \<le> sint k" "sint k \<le> sint total div sint (Parallelism v) div sint iv"
    and restored: "restored = None \<and> k = 0 \<or> restored = Some (encodePosition (start + k * iv), k)"
    and gs: "gs = plan recAt (nat (sint stop - (sint start + sint k * sint iv))) (start + k * iv)
        (newWatermarkGenerator (WatermarkIntervalElements v) (MaxOutOfOrderness v))
        \<lparr>bg_intervalElements = iv, bg_maxBarriers = maxBarriers total (Parallelism v) iv True, bg_sinceLast = 0, bg_injected = k\<rparr>"
  shows "\<exists>s' st err. runSourceSubtask fuel ctx v F i (recordingOutlet refuse) (Some (recordingCalls deny key)) fs restored [] [] = Some ((s', st), err) \<and>
      prefix (sr_writer st) (map emElement (concat gs) @ [EndOfStreamElement]) \<and>
      prefix (sr_calls st) (emAcks key (concat gs) @ [FinCall key (encodePosition stop)]) \<and>
      (ctx = (\<lambda>_. None) \<and> refuse = accepts \<and> deny = accepts \<and> fa_injector fs = None \<longrightarrow> err = sf_Close F s' \<and>
        sr_writer st = map emElement (concat gs) @ [EndOfStreamElement] \<and>
        sr_calls st = emAcks key (concat gs) @ [FinCall key (encodePosition stop)])"
proof -
  define resume where "resume = (if restored = None then None else Some \<lparr>rs_position = start + k * iv, rs_barriersInjected = k\<rparr>)"
  have res: "source_resume restored = Inr resume" "resume = None \<and> k = 0 \<or> resume = Some \<lparr>rs_position = start + k * iv, rs_barriersInjected = k\<rparr>"
    using restored by (auto simp: source_resume_def resume_def)
  let ?st = "\<lparr>sr_elements = 0, sr_writer = [], sr_calls = []\<rparr>" and ?E = "recordingEmitters ctx refuse deny key fs"
  obtain st1 e1 where p: "runPlan ?E gs ?st = (st1, e1)" by fastforce
  obtain s' where s': "sourceLoop fuel S ?E (Parallelism v) i (newWatermarkGenerator (WatermarkIntervalElements v) (MaxOutOfOrderness v)) iv
      resume s ?st = Some (s', st1, e1)" "e1 = None \<longrightarrow> src_Position S s' = stop"
    using run_calls(1) [OF fit iv(2) i F(3) r k res(2) fuel refl gs, of ?E ?st] p by auto
  have taken: "takes (map emElement (concat gs)) (emAcks key (concat gs)) ?st st1 (e1 = None)" by (rule runPlan_takes [OF p])
  have calm: "e1 = None" if "ctx = (\<lambda>_. None)" "refuse = accepts" "deny = accepts" "fa_injector fs = None"
    using runPlan_accepted [OF that(4), of key gs ?st] p that(1-3) by simp
  show ?thesis
  proof (cases e1)
    case None
    obtain st2 e2 where f: "source_finish (recordingOutlet refuse) (Some (recordingCalls deny key)) stop st1 = (st2, e2)" by fastforce
    obtain c ec where c: "recordingCall deny (FinCall key (encodePosition stop)) (sr_calls st1) = (c, ec)" by fastforce
    obtain w ew where w: "recordingSend refuse EndOfStreamElement (sr_writer st1) = (w, ew)" by fastforce
    have "if ec \<noteq> None then st2 = st1\<lparr>sr_calls := c\<rparr> \<and> e2 = ec else st2 = st1\<lparr>sr_calls := c, sr_writer := w\<rparr> \<and> e2 = ew"
      using f c w by (auto simp: source_finish_def cp_enabled_def cp_finished_def recordingCalls_def recordingOutlet_def
          NewEndOfStreamElement_def split: option.splits)
    then have fin: "takes [EndOfStreamElement] [FinCall key (encodePosition stop)] st1 st2 (e2 = None)"
      using recordingSend_takes [OF w] recordingCall_takes [OF c] by (auto simp: takes_def split: if_splits)
    have e2: "e2 = None" if "refuse = accepts" "deny = accepts"
      using f that by (auto simp: source_finish_def cp_enabled_def cp_finished_def recordingCalls_def recordingCall_def recordingOutlet_def
          recordingSend_def)
    show ?thesis
      using takes_then [OF taken [unfolded None, simplified] fin] F iv(1) res(1) s' None f e2
      by (auto simp: runSourceSubtask_def Let_def takes_def)
  next
    case (Some e)
    then show ?thesis
      using takes_part [of "map emElement (concat gs)" "emAcks key (concat gs)" ?st st1 "[EndOfStreamElement]"
          "[FinCall key (encodePosition stop)]"] taken F iv(1) res(1) s' calm
      by (auto simp: runSourceSubtask_def Let_def takes_def)
  qed
qed

text \<open>The barrier \<open>k\<close> of a run splits it: what precedes it, and what a run resumed from it does.\<close>

lemma split_at_barrier:
  assumes fit: "rangeFits total p" and iv: "0 < sint iv" and i: "0 \<le> sint i" "sint i < sint p"
    and s: "good s" and r: "sourceRange total p i = (start, stop)"
    and gs: "gs = (\<lambda>k. plan recAt (nat (sint stop - (sint start + sint k * sint iv))) (start + k * iv) wm
        \<lparr>bg_intervalElements = iv, bg_maxBarriers = maxBarriers total p iv True, bg_sinceLast = 0, bg_injected = k\<rparr>)"
    and at: "concat (gs 0) = exs @ EmBarrier b pos # eys" and k: "k = CheckpointID b"
  shows "0 \<le> sint k \<and> sint k \<le> sint total div sint p div sint iv \<and> pos = start + k * iv \<and>
    emRecords (concat (gs 0)) = emRecords exs @ emRecords (concat (gs k)) \<and>
    (\<exists>before. emAcks key (concat (gs 0)) = before @ AckCall k key (encodePosition pos) # emAcks key (concat (gs k)))"
proof -
  let ?M = "sint total div sint p div sint iv"
  have M: "0 \<le> ?M" using fit iv by (simp add: rangeFits_def pos_imp_zdiv_nonneg_iff)
  note calls = run_calls [where wm = wm, OF fit iv i s r _ _ disjI2 [OF refl] lessI refl refl]
  have b0: "emBarriers (concat (gs 0)) = map (\<lambda>j. (j, sint start + j * sint iv)) [1..?M]"
    using calls(3) [of 0] M by (simp add: gs)
  then have "(sint k, sint pos) \<in> set (map (\<lambda>j. (j, sint start + j * sint iv)) [1..?M])"
    using emBarriers_in [of b pos exs eys] unfolding at [symmetric] k by simp
  then have kM: "1 \<le> sint k" "sint k \<le> ?M" and p1: "sint pos = sint start + sint k * sint iv" by auto
  have k0: "0 \<le> sint k" using kM(1) by simp
  have pos: "pos = start + k * iv" using calls(4) [OF k0 kM(2)] p1 by (intro sint64_eqI) simp
  have len: "int (length (emRecords exs)) = sint k * sint iv"
    using calls(6) [of 0 exs b pos eys] at M p1 by (simp add: gs)
  define l where "l = length (emRecords exs)"
  have lk: "(word_of_nat l :: int64) = k * iv"
  proof -
    have "(word_of_nat l :: int64) = word_of_int (int l)" by simp
    also have "\<dots> = k * iv" using len unfolding l_def by (simp add: wi_hom_syms)
    finally show ?thesis .
  qed
  let ?n = "nat (sint stop - sint start)" and ?m = "nat (sint stop - (sint start + sint k * sint iv))"
  have n: "?n = l + ?m" using len calls(5) [OF k0 kM(2)] by (simp add: l_def)
  have recs: "emRecords (concat (gs 0)) = map (\<lambda>j. recAt (start + word_of_nat j)) [0..<?n]"
    "emRecords (concat (gs k)) = map (\<lambda>j. recAt (start + k * iv + word_of_nat j)) [0..<?m]"
    using calls(2) [of 0] calls(2) [OF k0 kM(2)] M by (simp_all add: gs)
  have "drop l (emRecords (concat (gs 0))) = emRecords (concat (gs k))"
    unfolding recs n by (rule nth_equalityI) (simp_all add: lk [symmetric] add.assoc)
  moreover have "take l (emRecords (concat (gs 0))) = emRecords exs" by (simp add: at l_def)
  ultimately have "emRecords (concat (gs 0)) = emRecords exs @ emRecords (concat (gs k))" by (metis append_take_drop_id)
  moreover have "\<exists>before. emAcks key (concat (gs 0)) = before @ AckCall k key (encodePosition pos) # emAcks key (concat (gs k))"
  proof -
    let ?A = "\<lambda>(i, pos). AckCall (word_of_int i) key (encodePosition (word_of_int pos))"
    have bk: "emBarriers (concat (gs k)) = map (\<lambda>j. (j, sint start + j * sint iv)) [sint k + 1..?M]"
      using calls(3) [OF k0 kM(2)] by (simp only: gs)
    have "?A (sint k, sint start + sint k * sint iv) = AckCall k key (encodePosition pos)"
      unfolding p1 [symmetric] by simp
    then show ?thesis
      unfolding emAcks_barriers b0 bk upto_split3 [OF kM] map_append list.map by blast
  qed
  ultimately show ?thesis using k0 kM(2) pos by blast
qed

lemma subtask_recovers:
  assumes F: "sf_Source F = S" "sf_Open F (sf_New F) = (s, None)" "good s"
    and iv: "0 < sint (BarrierIntervalElements v)"
    and fit: "rangeFits total (Parallelism v)" and i: "0 \<le> sint i" "sint i < sint (Parallelism v)"
    and r: "sourceRange total (Parallelism v) i = (start, stop)" and fuel: "nat (sint total) < fuel"
    and run: "run = (\<lambda>ctx refuse deny fs restored.
      runSourceSubtask fuel ctx v F i (recordingOutlet refuse) (Some (recordingCalls deny key)) fs restored [] [])"
    and calm: "calm = run (\<lambda>_. None) accepts accepts (noFaults si)"
  shows "\<exists>s' st. calm None = Some ((s', st), sf_Close F s') \<and>
    recordsOf (sr_writer st) = map (\<lambda>n. recAt (start + word_of_nat n)) [0..<nat (sint stop - sint start)] \<and>
    last (sr_writer st) = EndOfStreamElement \<and> last (sr_calls st) = FinCall key (encodePosition stop) \<and>
    cutsShort run None st \<and>
    (\<forall>xs b ys. sr_writer st = xs @ BarrierElement b # ys \<longrightarrow>
      (\<exists>before payload s1 st1. recoversFrom run calm F xs (CheckpointID b) payload s1 st st1 \<and>
        sr_calls st = before @ AckCall (CheckpointID b) key payload # sr_calls st1)) \<and>
    (\<forall>j l payload. AckCall j l payload \<in> set (sr_calls st) \<longrightarrow>
      (\<exists>xs b ys s1 st1. sr_writer st = xs @ BarrierElement b # ys \<and> CheckpointID b = j \<and>
        recoversFrom run calm F xs j payload s1 st st1))"
proof -
  let ?iv = "BarrierIntervalElements v" and ?p = "Parallelism v"
  let ?wm = "newWatermarkGenerator (WatermarkIntervalElements v) (MaxOutOfOrderness v)"
  define gs where "gs = (\<lambda>k. plan recAt (nat (sint stop - (sint start + sint k * sint ?iv))) (start + k * ?iv) ?wm
    \<lparr>bg_intervalElements = ?iv, bg_maxBarriers = maxBarriers total ?p ?iv True, bg_sinceLast = 0, bg_injected = k\<rparr>)"
  define W where "W = (\<lambda>k. map emElement (concat (gs k)) @ [EndOfStreamElement])"
  define C where "C = (\<lambda>k. emAcks key (concat (gs k)) @ [FinCall key (encodePosition stop)])"
  have M: "0 \<le> sint total div sint ?p div sint ?iv" using fit iv by (simp add: rangeFits_def pos_imp_zdiv_nonneg_iff)
  note rec = recorded_run [OF F refl iv fit i r fuel _ _ _ fun_cong [OF gs_def], where key = key]
  have rrun: "(\<exists>s' st. calm restored = Some ((s', st), sf_Close F s') \<and> sr_writer st = W k \<and> sr_calls st = C k) \<and>
      (\<forall>st. sr_writer st = W k \<and> sr_calls st = C k \<longrightarrow> cutsShort run restored st)"
    if "0 \<le> sint k" "sint k \<le> sint total div sint ?p div sint ?iv"
      "restored = None \<and> k = 0 \<or> restored = Some (encodePosition (start + k * ?iv), k)" for k restored
  proof (intro conjI allI impI)
    show "\<exists>s' st. calm restored = Some ((s', st), sf_Close F s') \<and> sr_writer st = W k \<and> sr_calls st = C k"
      using rec [OF that, of "\<lambda>_. None" accepts accepts "noFaults si"] unfolding run calm W_def C_def by fastforce
    show "cutsShort run restored st" if "sr_writer st = W k \<and> sr_calls st = C k" for st
      unfolding cutsShort_def run conjunct1 [OF that] conjunct2 [OF that] unfolding W_def C_def
      using rec [OF \<open>0 \<le> sint k\<close> \<open>sint k \<le> sint total div sint ?p div sint ?iv\<close>
          \<open>restored = None \<and> k = 0 \<or> restored = Some (encodePosition (start + k * ?iv), k)\<close>] by metis
  qed
  obtain s' st where run0: "calm None = Some ((s', st), sf_Close F s')" "sr_writer st = W 0" "sr_calls st = C 0" "cutsShort run None st"
    using rrun [of 0 None] M by auto
  have recs: "recordsOf (W k) = emRecords (concat (gs k))" for k
    by (simp add: recordsOf_emElement W_def)
  have all: "emRecords (concat (gs 0)) = map (\<lambda>n. recAt (start + word_of_nat n)) [0..<nat (sint stop - sint start)]"
    by (simp add: gs_def records_plan)
  have cut: "\<exists>before s1 st1. recoversFrom run calm F xs (CheckpointID b) (encodePosition pos) s1 st st1 \<and>
      sr_calls st = before @ AckCall (CheckpointID b) key (encodePosition pos) # sr_calls st1"
    if e: "concat (gs 0) = exs @ EmBarrier b pos # eys" "xs = map emElement exs" for exs b pos eys xs
  proof -
    note sp = split_at_barrier [OF fit iv i F(3) r gs_def e(1) refl, of key]
    obtain s1 st1 where "calm (Some (encodePosition pos, CheckpointID b)) = Some ((s1, st1), sf_Close F s1)"
      "sr_writer st1 = W (CheckpointID b)" "sr_calls st1 = C (CheckpointID b)" "cutsShort run (Some (encodePosition pos, CheckpointID b)) st1"
      using rrun [of "CheckpointID b" "Some (encodePosition pos, CheckpointID b)"] sp by blast
    then show ?thesis
      using sp e(2) recs [of 0] recs [of "CheckpointID b"] recordsOf_emElement [of exs] run0(2,3)
      by (fastforce simp: recoversFrom_def C_def)
  qed
  have barrier: "\<exists>before payload s1 st1. recoversFrom run calm F xs (CheckpointID b) payload s1 st st1 \<and>
      sr_calls st = before @ AckCall (CheckpointID b) key payload # sr_calls st1"
    if bar: "sr_writer st = xs @ BarrierElement b # ys" for xs b ys
    using map_emElement_at [OF bar [unfolded run0(2) W_def]] cut by metis
  have ack: "\<exists>xs b ys s1 st1. sr_writer st = xs @ BarrierElement b # ys \<and> CheckpointID b = j \<and>
        recoversFrom run calm F xs j payload s1 st st1"
    if a: "AckCall j l payload \<in> set (sr_calls st)" for j l payload
  proof -
    have "AckCall j l payload \<in> set (emAcks key (concat (gs 0)))" using a by (simp add: run0(3) C_def)
    from emAcks_from [OF this] obtain exs b pos eys where
      e: "concat (gs 0) = exs @ EmBarrier b pos # eys" "CheckpointID b = j" "payload = encodePosition pos" by blast
    have "sr_writer st = map emElement exs @ BarrierElement b # (map emElement eys @ [EndOfStreamElement])"
      by (simp add: run0(2) W_def e(1))
    then show ?thesis using cut [OF e(1) refl] e(2,3) by blast
  qed
  have "recordsOf (sr_writer st) = map (\<lambda>n. recAt (start + word_of_nat n)) [0..<nat (sint stop - sint start)]"
    "last (sr_writer st) = EndOfStreamElement" "last (sr_calls st) = FinCall key (encodePosition stop)"
    unfolding run0(2) recs all by (simp_all add: run0(3) W_def C_def)
  then show ?thesis using run0(1,4) barrier ack by blast
qed

end

section \<open>Properties\<close>

definition generatorFactory :: "GeneratorConfig \<Rightarrow> Generator sourceFactory" where
  "generatorFactory cfg = \<lparr>sf_New = NewGenerator cfg, sf_Open = \<lambda>g. (g, Generator_Open g), sf_Close = \<lambda>g. None,
     sf_Source = Generator_source\<rparr>"

text \<open>C7. A source subtask recovers from any of its checkpoints, however its run was cut short. Take a
  source that opens, that reports its count, that keeps the contract of \<open>core.Source\<close> on its
  offsets and that reads them without errors, and let the parallelism times the count fit in an
  \<open>int64\<close>. With nothing in its way the subtask sends the records of its range, in order, ends the
  stream, and tells the coordinator last that it is finished at the end of its range. With
  anything in its way - the context cancelled, the writer or the coordinator refusing a call,
  faults injected, whenever - it returns having sent a prefix of those elements and made a
  prefix of those calls. And whatever barrier it has acknowledged or sent, the payload it
  acknowledged for it restores a subtask that sends exactly the records not sent before that
  barrier and makes exactly the calls that followed it, the same barriers with the same
  positions, or a prefix of them when it is cut short in its turn.\<close>

theorem source_subtask_recovers:
  assumes "replayable_source (sf_Source F) good recAt tot" and "sf_Open F (sf_New F) = (s, None)" "good s"
    and "0 < sint (BarrierIntervalElements v)" "rangeFits tot (Parallelism v)"
    and "0 \<le> sint i" "sint i < sint (Parallelism v)" "sourceRange tot (Parallelism v) i = (start, stop)"
    and "nat (sint tot) < fuel"
    and "run = (\<lambda>ctx refuse deny fs restored.
      runSourceSubtask fuel ctx v F i (recordingOutlet refuse) (Some (recordingCalls deny key)) fs restored [] [])"
    and "calm = run (\<lambda>_. None) accepts accepts (noFaults si)"
  shows "\<exists>s' st. calm None = Some ((s', st), sf_Close F s') \<and>
    recordsOf (sr_writer st) = map (\<lambda>n. recAt (start + word_of_nat n)) [0..<nat (sint stop - sint start)] \<and>
    last (sr_writer st) = EndOfStreamElement \<and> last (sr_calls st) = FinCall key (encodePosition stop) \<and>
    cutsShort run None st \<and>
    (\<forall>xs b ys. sr_writer st = xs @ BarrierElement b # ys \<longrightarrow>
      (\<exists>before payload s1 st1. recoversFrom run calm F xs (CheckpointID b) payload s1 st st1 \<and>
        sr_calls st = before @ AckCall (CheckpointID b) key payload # sr_calls st1)) \<and>
    (\<forall>j l payload. AckCall j l payload \<in> set (sr_calls st) \<longrightarrow>
      (\<exists>xs b ys s1 st1. sr_writer st = xs @ BarrierElement b # ys \<and> CheckpointID b = j \<and>
        recoversFrom run calm F xs j payload s1 st st1))"
  by (rule replayable_source.subtask_recovers [OF assms(1) refl assms(2-11)])

definition example_source :: Vertex where
  "example_source = zeroVertex\<lparr>Parallelism := 4, WatermarkIntervalElements := 2, MaxOutOfOrderness := 25, BarrierIntervalElements := 1\<rparr>"

abbreviation example_source_key :: SubtaskKey where
  "example_source_key \<equiv> \<lparr>sk_VertexID = [115], sk_Index = 1\<rparr>"

definition example_source_run ::
  "(StreamElement list \<Rightarrow> go_error option) \<Rightarrow> (StreamElement list \<Rightarrow> StreamElement \<Rightarrow> go_error option) \<Rightarrow>
   (call list \<Rightarrow> call \<Rightarrow> go_error option) \<Rightarrow> faults \<Rightarrow> (bytes \<times> int64) option \<Rightarrow>
   ((Generator \<times> (StreamElement list, call list) sourceRun) \<times> go_error option) option" where
  "example_source_run ctx refuse deny fs restored = runSourceSubtask 11 ctx example_source (generatorFactory example_config) 1
     (recordingOutlet refuse) (Some (recordingCalls deny example_source_key)) fs restored [] []"

theorem source_subtask_recovers_witness:
  "\<exists>s' st. example_source_run (\<lambda>_. None) accepts accepts (noFaults \<lparr>si_vertexID = [115], si_index = 1\<rparr>) None = Some ((s', st), None) \<and>
    recordsOf (sr_writer st) = map (\<lambda>n. genRecord example_config (2 + word_of_nat n)) [0..<3] \<and>
    cutsShort example_source_run None st \<and>
    (\<forall>xs b ys. sr_writer st = xs @ BarrierElement b # ys \<longrightarrow>
      (\<exists>payload s1 st1. example_source_run (\<lambda>_. None) accepts accepts (noFaults \<lparr>si_vertexID = [115], si_index = 1\<rparr>)
          (Some (payload, CheckpointID b)) = Some ((s1, st1), None) \<and>
        recordsOf (sr_writer st) = recordsOf xs @ recordsOf (sr_writer st1)))"
proof -
  let ?F = "generatorFactory example_config"
  have opens: "sf_Open ?F (sf_New ?F) = (NewGenerator example_config, None)" "g_cfg (NewGenerator example_config) = example_config"
    "sf_Close ?F s = None" for s
    by (simp_all add: generatorFactory_def Generator_Open_def NewGenerator_def example_config_def word_sless_alt word_sle_eq)
  have src: "replayable_source (sf_Source ?F) (\<lambda>g. g_cfg g = example_config) (genRecord example_config) (Count example_config)"
    by (simp add: generatorFactory_def gen.replayable_source_axioms)
  have range: "sourceRange (Count example_config) (Parallelism example_source) 1 = (2, 5)"
    by (simp add: sourceRange_def example_config_def example_source_def go_div_def)
  have v: "0 < sint (BarrierIntervalElements example_source)" "rangeFits (Count example_config) (Parallelism example_source)"
    "0 \<le> sint (1 :: int64)" "sint (1 :: int64) < sint (Parallelism example_source)" "nat (sint (Count example_config)) < 11"
    by (simp_all add: example_source_def example_config_def rangeFits_def)
  have run: "example_source_run = (\<lambda>ctx refuse deny fs restored. runSourceSubtask 11 ctx example_source ?F 1 (recordingOutlet refuse)
     (Some (recordingCalls deny example_source_key)) fs restored [] [])"
    by (simp add: fun_eq_iff example_source_run_def)
  have "nat (sint (5 :: int64) - sint (2 :: int64)) = 3" by simp
  with source_subtask_recovers [OF src opens(1,2) v(1-4) range v(5) run refl, of "\<lparr>si_vertexID = [115], si_index = 1\<rparr>"]
  show ?thesis unfolding opens(3) recoversFrom_def by metis
qed

end
