(* ===== verification/Serialize.thy ===== *)
theory Serialize
  imports Keyed_State
begin

text \<open>
  \<open>pkg/state/serialize.go\<close>: the snapshot format. The writer is \<open>io.Writer\<close>, so \<open>WriteTo\<close> takes
  its \<open>Write\<close> as an argument; \<open>Buffer_Write\<close> is the \<open>bytes.Buffer\<close> every caller passes. The
  reader is \<open>bytes.NewReader\<close>, the list of bytes not read yet.
\<close>

section \<open>Writing\<close>

type_synonym 'w writer = "'w \<Rightarrow> bytes \<Rightarrow> 'w result"

definition Buffer_Write :: "bytes writer" where
  "Buffer_Write w b = Inr (w @ b)"

fun writeEntry :: "'w writer \<Rightarrow> bytes list \<Rightarrow> 'w \<Rightarrow> 'w result" where
  "writeEntry wr [] w = Inr w"
| "writeEntry wr (b # bs) w =
     (if 2 ^ 32 - 1 < length b then Inl (StateErr errEntryTooLong)
      else case wr w (be_put 4 (of_nat (length b) :: uint32)) of
        Inl e \<Rightarrow> Inl e
      | Inr w' \<Rightarrow>
          (case wr w' b of
             Inl e \<Rightarrow> Inl e
           | Inr w'' \<Rightarrow> writeEntry wr bs w''))"

text \<open>The callback of the second pass; \<open>out\<close> is \<open>writeErr\<close> or the writer so far.\<close>

definition writeCallback ::
  "'w writer \<Rightarrow> bytes \<times> bytes \<Rightarrow> uint64 \<times> 'w result \<Rightarrow> bool \<times> uint64 \<times> 'w result" where
  "writeCallback wr kv s =
     (case (kv, s) of ((key, v), written, out) \<Rightarrow>
        case out of
          Inl e \<Rightarrow> (False, written, Inl e)
        | Inr w \<Rightarrow>
            (case writeEntry wr [key, v] w of
               Inl e \<Rightarrow> (False, written, Inl e)
             | Inr w' \<Rightarrow> (True, written + 1, Inr w')))"

definition WriteTo :: "'w writer \<Rightarrow> Memory \<Rightarrow> 'w \<Rightarrow> 'w result" where
  "WriteTo wr m w =
     (let counted = snd (Memory_Iterate (readonly (\<lambda>kv n. (True, n + 1 :: uint64))) (m, 0))
      in case Memory_Err m of
        Some e \<Rightarrow> Inl e
      | None \<Rightarrow>
        (case wr w (be_put 8 counted) of
           Inl e \<Rightarrow> Inl e
         | Inr w' \<Rightarrow>
           (let (written, out) =
                  snd (Memory_Iterate (readonly (writeCallback wr)) (m, 0, Inr w'))
            in case out of
                 Inl e \<Rightarrow> Inl e
               | Inr w'' \<Rightarrow>
                   (case Memory_Err m of
                      Some e \<Rightarrow> Inl e
                    | None \<Rightarrow> if written \<noteq> counted then Inl (StateErr errStateChanged) else Inr w''))))"

section \<open>Reading\<close>

text \<open>\<open>io.ReadFull\<close> of \<open>n\<close> bytes: all of them, or \<open>EOF\<close> when there is none, or
  \<open>ErrUnexpectedEOF\<close> when there are some.\<close>

definition ReadFull :: "nat \<Rightarrow> bytes \<Rightarrow> (bytes \<times> bytes) result" where
  "ReadFull n r =
     (if n \<le> length r then Inr (take n r, drop n r)
      else if r = [] then Inl EOF else Inl ErrUnexpectedEOF)"

text \<open>The length check of the source is against the largest \<open>int\<close>, which a \<open>uint32\<close> cannot
  exceed on a 64-bit platform, so it has no branch here.\<close>

definition readBytes :: "bytes \<Rightarrow> (bytes \<times> bytes) result" where
  "readBytes r =
     (case ReadFull 4 r of
        Inl e \<Rightarrow> Inl e
      | Inr (lenBuf, r') \<Rightarrow>
          (let n = unat (be_get 4 lenBuf :: uint32)
           in if n = 0 then Inr ([], r') else ReadFull n r'))"

primrec readEntries :: "nat \<Rightarrow> Memory \<Rightarrow> bytes \<Rightarrow> Memory \<times> go_error option" where
  "readEntries 0 m r = (m, Memory_Err m)"
| "readEntries (Suc n) m r =
     (case readBytes r of
        Inl e \<Rightarrow> (m, Some e)
      | Inr (key, r') \<Rightarrow>
          (case readBytes r' of
             Inl e \<Rightarrow> (m, Some e)
           | Inr (v, r'') \<Rightarrow> readEntries n (Memory_Put key v m) r''))"

definition ReadFrom :: "Memory \<Rightarrow> bytes \<Rightarrow> Memory \<times> go_error option" where
  "ReadFrom m r =
     (let empty = snd (Memory_Iterate (readonly (\<lambda>kv e. (False, False))) (m, True))
      in case Memory_Err m of
        Some e \<Rightarrow> (m, Some e)
      | None \<Rightarrow>
        if \<not> empty then (m, Some (StateErr errStateNotEmpty))
        else case ReadFull 8 r of
               Inl e \<Rightarrow> (m, Some e)
             | Inr (header, r') \<Rightarrow> readEntries (unat (be_get 8 header :: uint64)) m r')"

section \<open>What the format is\<close>

text \<open>The bytes of a list of entries, as the comment at the head of the file draws them.\<close>

definition chunk :: "bytes \<Rightarrow> bytes" where
  "chunk b = be_put 4 (of_nat (length b) :: uint32) @ b"

definition stream :: "(bytes \<times> bytes) list \<Rightarrow> bytes" where
  "stream kvs = concat (map (\<lambda>(k, v). chunk k @ chunk v) kvs)"

definition fits32 :: "bytes \<Rightarrow> bool" where
  "fits32 b \<longleftrightarrow> length b < 2 ^ 32"

definition snapshottable :: "Memory \<Rightarrow> bool" where
  "snapshottable m \<longleftrightarrow> Memory_inv m \<and> Memory_Len m < 2 ^ 64 \<and>
     (\<forall>(k, v) \<in> set (entries m). fits32 k \<and> fits32 v)"

lemma Memory_scan_set: "Memory_inv m \<Longrightarrow> set (Memory_scan m) = set (entries m)"
  using mem.in_scan [of m] by (auto simp: Memory_Get_def Memory_inv_def)

lemma length_Memory_scan: "length (Memory_scan m) = Memory_Len m"
  by (simp add: Memory_scan_def Memory_Len_def)

lemma snapshottable_scan:
  "snapshottable m \<Longrightarrow> \<forall>(k, v) \<in> set (Memory_scan m). fits32 k \<and> fits32 v"
  by (simp add: snapshottable_def Memory_scan_set)

lemma fold_while_count: "fold_while (\<lambda>kv n. (True, n + 1)) kvs n = n + of_nat (length kvs)"
  for n :: uint64
  by (induction kvs arbitrary: n) simp_all

lemma writeEntry_Buffer:
  "fits32 k \<Longrightarrow> fits32 v \<Longrightarrow> writeEntry Buffer_Write [k, v] w = Inr (w @ chunk k @ chunk v)"
  by (simp add: Buffer_Write_def fits32_def chunk_def)

lemma fold_while_write:
  assumes "\<forall>(k, v) \<in> set kvs. fits32 k \<and> fits32 v"
  shows "fold_while (writeCallback Buffer_Write) kvs (n, Inr w) =
    (n + of_nat (length kvs), Inr (w @ stream kvs))"
  using assms
proof (induction kvs arbitrary: n w)
  case (Cons kv kvs)
  then show ?case
    by (cases kv) (simp add: writeCallback_def writeEntry_Buffer stream_def del: writeEntry.simps)
qed (simp add: stream_def)

lemma WriteTo_Buffer:
  assumes "snapshottable m"
  shows "WriteTo Buffer_Write m w =
    Inr (w @ be_put 8 (of_nat (Memory_Len m) :: uint64) @ stream (Memory_scan m))"
  using fold_while_write [OF snapshottable_scan [OF assms]]
  by (simp add: WriteTo_def Memory_Err_def fold_while_count length_Memory_scan Buffer_Write_def
      Let_def del: writeEntry.simps)

lemma readBytes_chunk: "fits32 b \<Longrightarrow> readBytes (chunk b @ r) = Inr (b, r)"
  by (auto simp: readBytes_def chunk_def ReadFull_def fits32_def unat_of_nat Let_def)

lemma readEntries_stream:
  assumes "\<forall>(k, v) \<in> set kvs. fits32 k \<and> fits32 v"
  shows "readEntries (length kvs) m (stream kvs @ r) = (fold (\<lambda>(k, v). Memory_Put k v) kvs m, None)"
  using assms
proof (induction kvs arbitrary: m)
  case (Cons kv kvs)
  then show ?case
    by (cases kv) (simp add: stream_def readBytes_chunk)
qed (simp add: Memory_Err_def)

lemma ReadFrom_stream:
  assumes "\<forall>(k, v) \<in> set kvs. fits32 k \<and> fits32 v" "length kvs < 2 ^ 64"
  shows "ReadFrom NewMemory (be_put 8 (of_nat (length kvs) :: uint64) @ stream kvs) =
    (fold (\<lambda>(k, v). Memory_Put k v) kvs NewMemory, None)"
  using readEntries_stream [OF assms(1), of NewMemory "[]"] assms(2)
  by (simp add: ReadFrom_def Memory_scan_def NewMemory_def Memory_Err_def ReadFull_def unat_of_nat Let_def)

lemma stream_Cons: "stream (kv # kvs) = chunk (fst kv) @ chunk (snd kv) @ stream kvs"
  by (cases kv) (simp add: stream_def)

lemma readBytes_truncated:
  assumes "fits32 b" "n < length (chunk b)"
  shows "readBytes (take n (chunk b)) \<in> {Inl EOF, Inl ErrUnexpectedEOF}"
proof (cases "n < 4")
  case True
  then show ?thesis using assms by (simp add: readBytes_def ReadFull_def chunk_def)
next
  case False
  then have "take n (chunk b) = be_put 4 (of_nat (length b) :: uint32) @ take (n - 4) b"
    by (simp add: chunk_def)
  then show ?thesis
    using False assms
    by (auto simp: readBytes_def ReadFull_def chunk_def fits32_def unat_of_nat Let_def)
qed

lemma readEntries_truncated:
  assumes "\<forall>(k, v) \<in> set kvs. fits32 k \<and> fits32 v" "n < length (stream kvs)"
  shows "snd (readEntries (length kvs) m (take n (stream kvs))) \<in> {Some EOF, Some ErrUnexpectedEOF}"
  using assms
proof (induction kvs arbitrary: m n)
  case (Cons kv kvs)
  obtain k v where kv: "kv = (k, v)" by (cases kv)
  have fits: "fits32 k" "fits32 v" using Cons.prems kv by auto
  let ?k = "length (chunk k)" and ?v = "length (chunk v)"
  have s: "stream (kv # kvs) = chunk k @ chunk v @ stream kvs" by (simp add: stream_Cons kv)
  consider "n < ?k" | "?k \<le> n" "n < ?k + ?v" | "?k + ?v \<le> n" by linarith
  then show ?case
  proof cases
    case 1
    then show ?thesis using readBytes_truncated [OF fits(1) 1] by (auto simp: s)
  next
    case 2
    then have "n - ?k < ?v" by simp
    then have "readBytes (take (n - ?k) (chunk v)) \<in> {Inl EOF, Inl ErrUnexpectedEOF}"
      by (rule readBytes_truncated [OF fits(2)])
    then show ?thesis using 2 by (auto simp: s readBytes_chunk fits)
  next
    case 3
    have "snd (readEntries (length kvs) (Memory_Put k v m) (take (n - ?k - ?v) (stream kvs)))
      \<in> {Some EOF, Some ErrUnexpectedEOF}"
      using Cons.prems 3 by (intro Cons.IH) (auto simp: s)
    then show ?thesis using 3 by (simp add: s readBytes_chunk fits)
  qed
qed (simp add: stream_def)

section \<open>Properties\<close>

lemma snapshot_restores:
  assumes "snapshottable m"
  shows "\<exists>bs m'. WriteTo Buffer_Write m [] = Inr bs \<and> ReadFrom NewMemory bs = (m', None) \<and>
    Memory_inv m' \<and> Memory_Get m' = Memory_Get m"
proof -
  let ?m' = "fold (\<lambda>(k, v). Memory_Put k v) (Memory_scan m) NewMemory"
  have inv: "Memory_inv m" using assms by (simp add: snapshottable_def)
  have "Memory_inv ?m' \<and> Memory_Get ?m' = Memory_Get m"
    using mem.get_fold_put [OF mem.invar_new mem.distinct_scan [OF inv]] mem.map_of_scan [OF inv]
    by simp
  moreover have "ReadFrom NewMemory (be_put 8 (of_nat (Memory_Len m) :: uint64) @ stream (Memory_scan m)) =
      (?m', None)"
    using ReadFrom_stream [OF snapshottable_scan [OF assms]] assms
    by (simp add: length_Memory_scan snapshottable_def)
  ultimately show ?thesis
    using WriteTo_Buffer [OF assms, of "[]"] by auto
qed

text \<open>C37. A snapshot of a subtask's state restores to the same state: \<open>WriteTo\<close> into a buffer
  succeeds on every state whose keys and values fit a 32-bit length, and \<open>ReadFrom\<close> of the
  bytes it wrote, into empty state, succeeds and gives back a map equal to the one written.\<close>

theorem snapshot_roundtrip:
  assumes "snapshottable m"
  shows "\<exists>bs m'. WriteTo Buffer_Write m [] = Inr bs \<and> ReadFrom NewMemory bs = (m', None) \<and>
    Memory_inv m' \<and> Memory_Get m' = Memory_Get m"
  by (rule snapshot_restores [OF assms])

definition example_memory :: Memory where
  "example_memory = Memory_Put [2] [7, 7] (Memory_Put [1, 5] [] NewMemory)"

lemma snapshottable_example: "snapshottable example_memory"
  by (simp add: snapshottable_def example_memory_def NewMemory_def Memory_Put_def Memory_inv_def
      Memory_Len_def fits32_def)

theorem snapshot_roundtrip_witness:
  "\<exists>bs m'. WriteTo Buffer_Write example_memory [] = Inr bs \<and> ReadFrom NewMemory bs = (m', None) \<and>
    Memory_inv m' \<and> Memory_Get m' = Memory_Get example_memory"
  by (rule snapshot_roundtrip [OF snapshottable_example])

text \<open>The bytes of a snapshot are a function of the state's contents and not of the order its
  entries were inserted in or the runtime ranges over the map in, whatever writer they go to.\<close>

theorem snapshot_deterministic:
  assumes "Memory_inv m" "Memory_inv m'" "Memory_Get m = Memory_Get m'"
  shows "WriteTo wr m w = WriteTo wr m' w"
  using mem.scan_determined [OF assms] by (auto simp: WriteTo_def Memory_Err_def Let_def split: sum.splits)

theorem snapshot_deterministic_witness:
  "entries (Memory_Put [2] [9] (Memory_Put [1] [8] NewMemory)) \<noteq>
     entries (Memory_Put [1] [8] (Memory_Put [2] [9] NewMemory)) \<and>
   WriteTo Buffer_Write (Memory_Put [2] [9] (Memory_Put [1] [8] NewMemory)) [] =
     WriteTo Buffer_Write (Memory_Put [1] [8] (Memory_Put [2] [9] NewMemory)) []"
proof
  show "entries (Memory_Put [2] [9] (Memory_Put [1] [8] NewMemory)) \<noteq>
     entries (Memory_Put [1] [8] (Memory_Put [2] [9] NewMemory))"
    by (simp add: NewMemory_def Memory_Put_def)
  show "WriteTo Buffer_Write (Memory_Put [2] [9] (Memory_Put [1] [8] NewMemory)) [] =
     WriteTo Buffer_Write (Memory_Put [1] [8] (Memory_Put [2] [9] NewMemory)) []"
    by (rule snapshot_deterministic) (auto simp: fun_eq_iff)
qed

text \<open>C38. A snapshot cut short is reported: \<open>ReadFrom\<close> of any proper prefix of the bytes of a
  snapshot returns \<open>EOF\<close> or \<open>ErrUnexpectedEOF\<close>, never a state with entries missing.\<close>

theorem snapshot_truncation_reported:
  assumes "snapshottable m" "WriteTo Buffer_Write m [] = Inr bs" "n < length bs"
  shows "snd (ReadFrom NewMemory (take n bs)) \<in> {Some EOF, Some ErrUnexpectedEOF}"
proof -
  let ?h = "be_put 8 (of_nat (Memory_Len m) :: uint64)" and ?s = "stream (Memory_scan m)"
  have bs: "bs = ?h @ ?s" using assms WriteTo_Buffer [OF assms(1), of "[]"] by simp
  have new: "Memory_scan NewMemory = []" by (simp add: Memory_scan_def NewMemory_def)
  show ?thesis
  proof (cases "n < 8")
    case True
    then show ?thesis
      using assms(3) by (simp add: ReadFrom_def new Memory_Err_def bs ReadFull_def Let_def)
  next
    case False
    then have "snd (readEntries (length (Memory_scan m)) NewMemory (take (n - 8) ?s))
      \<in> {Some EOF, Some ErrUnexpectedEOF}"
      using assms(3) by (intro readEntries_truncated snapshottable_scan [OF assms(1)]) (simp add: bs)
    moreover have "unat (of_nat (Memory_Len m) :: uint64) = length (Memory_scan m)"
      using assms(1) by (simp add: snapshottable_def length_Memory_scan unat_of_nat)
    ultimately show ?thesis
      using False by (simp add: ReadFrom_def new Memory_Err_def bs ReadFull_def Let_def)
  qed
qed

theorem snapshot_truncation_reported_witness:
  "\<exists>bs. WriteTo Buffer_Write example_memory [] = Inr bs \<and> 3 < length bs \<and>
     snd (ReadFrom NewMemory (take 3 bs)) \<in> {Some EOF, Some ErrUnexpectedEOF}"
proof -
  obtain bs where bs: "WriteTo Buffer_Write example_memory [] = Inr bs" and "3 < length bs"
    using WriteTo_Buffer [OF snapshottable_example, of "[]"] by auto
  with snapshot_truncation_reported [OF snapshottable_example bs, of 3] show ?thesis by blast
qed

text \<open>Restoring into state that already holds an entry is refused, and the state is left as
  it was, whatever the bytes.\<close>

theorem restore_refuses_nonempty:
  assumes "Memory_inv m" "Memory_Get m k = Some v"
  shows "ReadFrom m r = (m, Some (StateErr errStateNotEmpty))"
proof -
  have "(k, v) \<in> set (Memory_scan m)" using assms by (simp add: mem.in_scan)
  then obtain kv kvs where "Memory_scan m = kv # kvs" by (cases "Memory_scan m") auto
  then show ?thesis by (simp add: ReadFrom_def Memory_Err_def)
qed

theorem restore_refuses_nonempty_witness:
  "ReadFrom (Memory_Put [1] [8] NewMemory) [0, 0] =
     (Memory_Put [1] [8] NewMemory, Some (StateErr errStateNotEmpty))"
  by (rule restore_refuses_nonempty [of _ "[1]" "[8]"]) simp_all

text \<open>The ordered encoding of an \<open>int64\<close> is a bijection onto the eight-byte strings under
  which bytewise order is numeric order, negative numbers included.\<close>

theorem ordered_encoding_is_order_isomorphism:
  "(EncodeOrderedInt64 v < EncodeOrderedInt64 w \<longleftrightarrow> sint v < sint w) \<and>
   DecodeOrderedInt64 (EncodeOrderedInt64 v) = v \<and>
   EncodeOrderedInt64 ` UNIV = {bs. length bs = 8}"
proof -
  have "bs \<in> EncodeOrderedInt64 ` UNIV" if "length bs = 8" for bs
    using EncodeOrdered_Decode [OF that] by (metis UNIV_I image_eqI)
  then show ?thesis
    by (auto simp: EncodeOrderedInt64_less word_sless_alt)
qed

end
