(* ===== verification/Timers.thy ===== *)
theory Timers
  imports Keyed_State Saturating
begin

text \<open>
  What the windowed operators of \<open>pkg/operators\<close> share: the layout of the composite keys they
  store (\<open>window.go\<close>), the watermark they keep in state, the scan that collects the timers due
  at a watermark and the scan that purges aggregates (\<open>nexmark.go\<close>).
\<close>

section \<open>Key layouts\<close>

definition appendStateKey :: "bytes \<Rightarrow> bytes \<Rightarrow> int64 \<Rightarrow> bytes" where
  "appendStateKey dst key windowStart = dst @ [PrefixUserState] @ key @ be_put 8 windowStart"

definition windowStartOf :: "bytes \<Rightarrow> int64 result" where
  "windowStartOf stateKey =
     (if length stateKey < 1 + 8 then Inl (OperatorErr errStateKeyTooShort)
      else Inr (be_get 8 (drop (length stateKey - 8) stateKey)))"

definition appendTimerKey :: "bytes \<Rightarrow> int64 \<Rightarrow> bytes \<Rightarrow> int64 \<Rightarrow> bytes" where
  "appendTimerKey dst fireTime key windowStart =
     dst @ [PrefixTimer] @ EncodeOrderedInt64 fireTime @ key @ be_put 8 windowStart"

definition parseTimerKey :: "bytes \<Rightarrow> (int64 \<times> bytes \<times> int64) result" where
  "parseTimerKey timerKey =
     (if length timerKey < 1 + 8 + 8 then Inl (OperatorErr errTimerKeyTooShort)
      else Inr (DecodeOrderedInt64 (drop 1 timerKey),
                take (length timerKey - 8 - 9) (drop 9 timerKey),
                be_get 8 (drop (length timerKey - 8) timerKey)))"

definition watermarkStateKey :: bytes where
  "watermarkStateKey = PrefixOperatorState # map of_char ''watermark''"

abbreviation stateKeyOf :: "bytes \<Rightarrow> int64 \<Rightarrow> bytes" where
  "stateKeyOf key start \<equiv> appendStateKey [] key start"

abbreviation timerKeyOf :: "int64 \<Rightarrow> bytes \<Rightarrow> int64 \<Rightarrow> bytes" where
  "timerKeyOf fire key start \<equiv> appendTimerKey [] fire key start"

lemmas prefix_defs = PrefixUserState_def PrefixTimer_def PrefixOperatorState_def

lemma windowStartOf_stateKey [simp, codec_simps]: "windowStartOf (stateKeyOf key s) = Inr s"
  by (simp add: windowStartOf_def appendStateKey_def)

lemma parseTimerKey_timerKey [simp, codec_simps]:
  "parseTimerKey (timerKeyOf f key s) = Inr (f, key, s)"
  by (simp add: parseTimerKey_def appendTimerKey_def drop_Cons')

lemma stateKeyOf_inj [simp]: "stateKeyOf k s = stateKeyOf k' s' \<longleftrightarrow> k = k' \<and> s = s'"
  by (simp add: appendStateKey_def)

lemma timerKeyOf_inj [simp]:
  "timerKeyOf f k s = timerKeyOf f' k' s' \<longleftrightarrow> f = f' \<and> k = k' \<and> s = s'"
  by (metis Inr_inject parseTimerKey_timerKey prod.inject)

lemma key_partitions [simp]:
  "stateKeyOf k s \<noteq> timerKeyOf f k' s'" "timerKeyOf f k' s' \<noteq> stateKeyOf k s"
  "stateKeyOf k s \<noteq> watermarkStateKey" "watermarkStateKey \<noteq> stateKeyOf k s"
  "timerKeyOf f k' s' \<noteq> watermarkStateKey" "watermarkStateKey \<noteq> timerKeyOf f k' s'"
  by (simp_all add: appendStateKey_def appendTimerKey_def watermarkStateKey_def prefix_defs)

section \<open>The watermark in state\<close>

definition minWatermark :: int64 where
  "minWatermark = minInt64"

definition loadWatermark :: "Memory \<Rightarrow> int64 result" where
  "loadWatermark st =
     (case Memory_Get st watermarkStateKey of
        None \<Rightarrow> Inr minWatermark
      | Some v \<Rightarrow>
          if length v < 8 then Inl (OperatorErr errWatermarkTooShort)
          else Inr (DecodeOrderedInt64 v))"

definition storeWatermark :: "int64 \<Rightarrow> Memory \<Rightarrow> Memory" where
  "storeWatermark wm st = Memory_Put watermarkStateKey (EncodeOrderedInt64 wm) st"

lemma loadWatermark_store [simp]: "Memory_inv m \<Longrightarrow> loadWatermark (storeWatermark wm m) = Inr wm"
  by (simp add: loadWatermark_def storeWatermark_def)

section \<open>Collecting the due timers\<close>

record dueTimer =
  dt_stateKey :: bytes
  dt_key :: bytes
  dt_windowStart :: int64

definition dueCallback ::
  "int64 \<Rightarrow> bytes \<times> bytes \<Rightarrow> dueTimer list \<times> go_error option \<Rightarrow>
    bool \<times> dueTimer list \<times> go_error option" where
  "dueCallback wm kv s =
     (case (fst kv, s) of
        ([], due, scanErr) \<Rightarrow> (False, due, Some (OperatorErr errZeroLengthKey))
      | (b # _, due, scanErr) \<Rightarrow>
          if b < PrefixTimer then (True, due, scanErr)
          else if PrefixTimer < b then (False, due, scanErr)
          else (case parseTimerKey (fst kv) of
                  Inl e \<Rightarrow> (False, due, Some e)
                | Inr (fireTime, key, windowStart) \<Rightarrow>
                    if wm <s fireTime then (False, due, scanErr)
                    else (True,
                          due @ [\<lparr>dt_stateKey = fst kv, dt_key = key, dt_windowStart = windowStart\<rparr>],
                          scanErr)))"

definition collectDue :: "Memory \<Rightarrow> int64 \<Rightarrow> dueTimer list result" where
  "collectDue st wm =
     (case snd (Memory_Iterate (readonly (dueCallback wm)) (st, [], None)) of
        (due, Some e) \<Rightarrow> Inl e
      | (due, None) \<Rightarrow> Inr due)"

text \<open>Every key carries a discriminator, and every key in the timer partition is long enough
  to be one.\<close>

definition well_keyed :: "bytes \<Rightarrow> bool" where
  "well_keyed k \<longleftrightarrow> k \<noteq> [] \<and> (hd k = PrefixTimer \<longrightarrow> 17 \<le> length k)"

definition timerParts :: "bytes \<Rightarrow> int64 \<times> bytes \<times> int64" where
  "timerParts k = (case parseTimerKey k of Inr p \<Rightarrow> p | Inl _ \<Rightarrow> (0, [], 0))"

definition toDue :: "bytes \<Rightarrow> dueTimer" where
  "toDue k = (case timerParts k of (_, key, start) \<Rightarrow>
     \<lparr>dt_stateKey = k, dt_key = key, dt_windowStart = start\<rparr>)"

definition isDue :: "int64 \<Rightarrow> bytes \<Rightarrow> bool" where
  "isDue wm k \<longleftrightarrow> k \<noteq> [] \<and> hd k = PrefixTimer \<and> fst (timerParts k) \<le>s wm"

lemma timerParts_timerKey [simp]: "timerParts (timerKeyOf f key s) = (f, key, s)"
  by (simp add: timerParts_def)

lemma timer_key_exhaust:
  assumes "hd k = PrefixTimer" "17 \<le> length k"
  obtains f key s where "k = timerKeyOf f key s"
proof
  let ?t = "tl k" and ?n = "length k - 17"
  have "k = PrefixTimer # ?t" using assms by (cases k) auto
  also have "?t = take 8 ?t @ take ?n (drop 8 ?t) @ drop ?n (drop 8 ?t)"
    by (simp only: append_take_drop_id)
  finally show "k = timerKeyOf (DecodeOrderedInt64 (take 8 ?t)) (take ?n (drop 8 ?t))
      (be_get 8 (drop ?n (drop 8 ?t)))"
    using assms by (simp add: appendTimerKey_def EncodeOrdered_Decode be64_put_get)
qed

lemma timerKey_less:
  "timerKeyOf f k s < timerKeyOf f' k' s' \<longleftrightarrow>
    f <s f' \<or> f = f' \<and> k @ be_put 8 s < k' @ be_put 8 s'"
  by (auto simp: appendTimerKey_def bytes_append_less EncodeOrderedInt64_less)

lemma isDue_before_stop:
  assumes "well_keyed k" "well_keyed k'" "k < k'"
    and "hd k > PrefixTimer \<or> hd k = PrefixTimer \<and> wm <s fst (timerParts k)"
  shows "\<not> isDue wm k'"
proof
  assume d: "isDue wm k'"
  then have "hd k' = PrefixTimer" by (simp add: isDue_def)
  with assms obtain f' key' s' where k': "k' = timerKeyOf f' key' s'"
    using timer_key_exhaust unfolding well_keyed_def by metis
  have "hd k \<le> hd k'"
    using assms(1-3) by (cases k; cases k') (auto simp: well_keyed_def)
  with \<open>hd k' = PrefixTimer\<close> assms(4) have *: "hd k = PrefixTimer" "wm <s fst (timerParts k)" by auto
  with assms(1) obtain f key s where k: "k = timerKeyOf f key s"
    using timer_key_exhaust unfolding well_keyed_def by metis
  show False
    using assms(3) * d by (auto simp: k k' timerKey_less isDue_def word_sless_alt word_sle_eq)
qed

lemma dueCallback_user:
  "k \<noteq> [] \<Longrightarrow> hd k < PrefixTimer \<Longrightarrow> dueCallback wm (k, v) (due, err) = (True, due, err)"
  by (cases k) (simp_all add: dueCallback_def)

lemma dueCallback_past:
  "k \<noteq> [] \<Longrightarrow> PrefixTimer < hd k \<Longrightarrow> dueCallback wm (k, v) (due, err) = (False, due, err)"
  by (cases k) (auto simp: dueCallback_def)

lemma dueCallback_timer:
  "dueCallback wm (timerKeyOf f key s, v) (due, err) =
    (if wm <s f then (False, due, err) else (True, due @ [toDue (timerKeyOf f key s)], err))"
proof -
  obtain bs where "timerKeyOf f key s = PrefixTimer # bs" by (simp add: appendTimerKey_def)
  moreover from this have "parseTimerKey (PrefixTimer # bs) = Inr (f, key, s)"
    "toDue (PrefixTimer # bs) =
      \<lparr>dt_stateKey = PrefixTimer # bs, dt_key = key, dt_windowStart = s\<rparr>"
    by (simp_all flip: \<open>timerKeyOf f key s = _\<close> add: toDue_def)
  ultimately show ?thesis by (simp add: dueCallback_def)
qed

lemma hd_timerKey [simp]: "hd (timerKeyOf f key s) = PrefixTimer" "timerKeyOf f key s \<noteq> []"
  by (simp_all add: appendTimerKey_def)

lemma fold_while_due:
  assumes "sorted_wrt (<) (map fst kvs)" "\<forall>k \<in> set (map fst kvs). well_keyed k"
  shows "fold_while (dueCallback wm) kvs (due, None) =
    (due @ map toDue (filter (isDue wm) (map fst kvs)), None)"
  using assms
proof (induction kvs arbitrary: due)
  case (Cons kv kvs)
  obtain k v where kv: "kv = (k, v)" by (cases kv)
  have wk: "well_keyed k" using Cons.prems kv by simp
  then have ne: "k \<noteq> []" by (simp add: well_keyed_def)
  have IH: "fold_while (dueCallback wm) kvs (due', None) =
      (due' @ map toDue (filter (isDue wm) (map fst kvs)), None)" for due'
    using Cons by simp
  have stop: "filter (isDue wm) (map fst kvs) = []"
    if "hd k > PrefixTimer \<or> hd k = PrefixTimer \<and> wm <s fst (timerParts k)"
    using Cons.prems kv isDue_before_stop [OF wk _ _ that] by (simp add: filter_empty_conv)
  consider (user) "hd k < PrefixTimer" | (past) "PrefixTimer < hd k" | (timer) "hd k = PrefixTimer"
    by force
  then show ?case
  proof cases
    case user
    then have "\<not> isDue wm k" by (auto simp: isDue_def)
    then show ?thesis using user ne by (simp add: kv dueCallback_user IH)
  next
    case past
    then have "\<not> isDue wm k" by (auto simp: isDue_def)
    then show ?thesis using past stop ne by (simp add: kv dueCallback_past)
  next
    case timer
    with wk obtain f key s where tk: "k = timerKeyOf f key s"
      using timer_key_exhaust unfolding well_keyed_def by metis
    show ?thesis
    proof (cases "wm <s f")
      case True
      then have "\<not> isDue wm k" by (simp add: tk isDue_def word_sless_alt word_sle_eq)
      then show ?thesis using stop True by (simp add: kv dueCallback_timer tk)
    next
      case False
      then have "isDue wm k" by (simp add: tk isDue_def word_sless_alt word_sle_eq)
      then show ?thesis using False by (simp add: kv dueCallback_timer tk IH)
    qed
  qed
qed simp

lemma collectDue_eq:
  assumes "Memory_inv m" "\<forall>k \<in> dom (Memory_Get m). well_keyed k"
  shows "collectDue m wm = Inr (map toDue (filter (isDue wm) (map fst (Memory_scan m))))"
proof -
  have "\<forall>k \<in> set (map fst (Memory_scan m)). well_keyed k"
    using assms mem.in_scan [OF assms(1)] by (auto dest: domI)
  then show ?thesis
    using fold_while_due [OF mem.scan_sorted [OF assms(1)], of wm "[]"] by (simp add: collectDue_def)
qed

section \<open>Purging aggregates\<close>

definition purgeCallback ::
  "(bytes \<Rightarrow> bool result) \<Rightarrow> bytes \<times> bytes \<Rightarrow> go_error option \<Rightarrow> bool \<times> bool \<times> go_error option"
where
  "purgeCallback purged kv err =
     (case fst kv of
        [] \<Rightarrow> (False, False, Some (OperatorErr errZeroLengthKey))
      | b # _ \<Rightarrow>
          if b \<noteq> PrefixUserState then (False, False, err)
          else (case purged (fst kv) of
                  Inl e \<Rightarrow> (False, False, Some e)
                | Inr d \<Rightarrow> (True, d, err)))"

definition purgeWindows :: "(bytes \<Rightarrow> bool result) \<Rightarrow> Memory \<Rightarrow> Memory \<times> go_error option" where
  "purgeWindows purged st = Memory_Iterate (deleting (purgeCallback purged)) (st, None)"

definition isUserKey :: "bytes \<Rightarrow> bool" where
  "isUserKey k \<longleftrightarrow> k \<noteq> [] \<and> hd k = PrefixUserState"

lemma isUserKey_cases [simp]:
  "isUserKey (stateKeyOf k s)" "\<not> isUserKey (timerKeyOf f k s)" "\<not> isUserKey watermarkStateKey"
  by (simp_all add: isUserKey_def appendStateKey_def appendTimerKey_def watermarkStateKey_def prefix_defs)

lemma fold_deleting_purge:
  assumes "sorted_wrt (<) (map fst kvs)" "\<forall>k \<in> set (map fst kvs). k \<noteq> []"
    and "\<forall>k \<in> set (map fst kvs). isUserKey k \<longrightarrow> purged k = Inr (p k)" "Memory_inv m"
  shows "\<exists>m'. fold_deleting (purgeCallback purged) kvs m None = (m', None) \<and> Memory_inv m' \<and>
    Memory_Get m' = (\<lambda>k. if k \<in> set (map fst kvs) \<and> isUserKey k \<and> p k then None else Memory_Get m k)"
  using assms
proof (induction kvs arbitrary: m)
  case (Cons kv kvs)
  let ?k = "fst kv"
  obtain b bs where k: "?k = b # bs" using Cons.prems(2) by (cases ?k) auto
  show ?case
  proof (cases "isUserKey ?k")
    case True
    let ?m = "if p ?k then Memory_Delete ?k m else m"
    have inv: "Memory_inv ?m" using Cons.prems(4) by simp
    have "\<exists>m'. fold_deleting (purgeCallback purged) kvs ?m None = (m', None) \<and> Memory_inv m' \<and>
      Memory_Get m' = (\<lambda>k. if k \<in> set (map fst kvs) \<and> isUserKey k \<and> p k then None else Memory_Get ?m k)"
      using Cons.prems by (intro Cons.IH inv) auto
    then obtain m' where m': "fold_deleting (purgeCallback purged) kvs ?m None = (m', None)"
      "Memory_inv m'"
      "Memory_Get m' = (\<lambda>k. if k \<in> set (map fst kvs) \<and> isUserKey k \<and> p k then None else Memory_Get ?m k)"
      by blast
    have "purgeCallback purged kv None = (True, p ?k, None)"
      using True k Cons.prems(3) by (auto simp: purgeCallback_def isUserKey_def)
    with m' have "fold_deleting (purgeCallback purged) (kv # kvs) m None = (m', None)" by simp
    moreover have "Memory_Get m' = (\<lambda>k. if k \<in> set (map fst (kv # kvs)) \<and> isUserKey k \<and> p k
        then None else Memory_Get m k)"
      using m'(3) True Cons.prems(4) by (auto simp: fun_eq_iff)
    ultimately show ?thesis using m'(2) by blast
  next
    case False
    have "\<not> isUserKey k'" if "k' \<in> set (map fst kvs)" for k'
    proof
      assume u: "isUserKey k'"
      have "?k < k'" using Cons.prems(1) that by auto
      then have "b \<le> hd k'" using u k by (cases k') (auto simp: isUserKey_def)
      then show False using u False k by (simp add: isUserKey_def PrefixUserState_def)
    qed
    then show ?thesis
      using False k Cons.prems(4)
      by (auto simp: purgeCallback_def isUserKey_def Let_def fun_eq_iff)
  qed
qed (simp add: fun_eq_iff)

lemma purgeWindows_eq:
  assumes "Memory_inv m" "\<forall>k \<in> dom (Memory_Get m). well_keyed k"
    and "\<forall>k \<in> dom (Memory_Get m). isUserKey k \<longrightarrow> purged k = Inr (p k)"
  shows "\<exists>m'. purgeWindows purged m = (m', None) \<and> Memory_inv m' \<and>
    Memory_Get m' = (\<lambda>k. if isUserKey k \<and> p k then None else Memory_Get m k)"
proof -
  have keys: "set (map fst (Memory_scan m)) = dom (Memory_Get m)"
    using mem.map_of_scan [OF assms(1)] by (metis dom_map_of_conv_image_fst list.set_map)
  obtain m' where m': "fold_deleting (purgeCallback purged) (Memory_scan m) m None = (m', None)"
    "Memory_inv m'"
    "Memory_Get m' = (\<lambda>k. if k \<in> set (map fst (Memory_scan m)) \<and> isUserKey k \<and> p k
      then None else Memory_Get m k)"
    using fold_deleting_purge [OF mem.scan_sorted [OF assms(1)] _ _ assms(1), of purged p] assms
    unfolding keys by (auto simp: well_keyed_def)
  have "Memory_Get m' k = (if isUserKey k \<and> p k then None else Memory_Get m k)" for k
    using m'(3) unfolding keys by auto
  then show ?thesis
    using m' assms(1) by (auto simp: purgeWindows_def)
qed

section \<open>The firing loop\<close>

text \<open>The loop body of \<open>ProcessWatermark\<close>, the same in \<open>WindowCount\<close> and \<open>MaxBid\<close>: delete the
  timer, then build the record of its window or stop at the first error. \<open>fire\<close> reads the
  aggregate and returns the record handed to \<open>ctx.Emit\<close>.\<close>

fun fireAll ::
  "(Memory \<Rightarrow> bytes \<Rightarrow> int64 \<Rightarrow> Record result) \<Rightarrow> dueTimer list \<Rightarrow> Memory \<Rightarrow>
    (Memory \<times> Record list) \<times> go_error option" where
  "fireAll fire [] st = ((st, []), None)"
| "fireAll fire (t # ts) st =
     (let st' = Memory_Delete (dt_stateKey t) st
      in case fire st' (dt_key t) (dt_windowStart t) of
           Inl e \<Rightarrow> ((st', []), Some e)
         | Inr rec \<Rightarrow>
             (case fireAll fire ts st' of ((st'', out), err) \<Rightarrow> ((st'', rec # out), err)))"

section \<open>What a windowed operator keeps in state\<close>

text \<open>Aggregates of \<open>n\<close> bytes each, timers each of which has its fire time and an aggregate
  to fire, and the watermark: nothing else.\<close>

definition windowed_inv :: "nat \<Rightarrow> (int64 \<Rightarrow> int64) \<Rightarrow> Memory \<Rightarrow> bool" where
  "windowed_inv n fire st \<longleftrightarrow> Memory_inv st \<and>
     (\<forall>k v. Memory_Get st k = Some v \<longrightarrow>
        (\<exists>key s. k = stateKeyOf key s \<and> length v = n) \<or>
        (\<exists>key s. k = timerKeyOf (fire s) key s \<and> Memory_Get st (stateKeyOf key s) \<noteq> None) \<or>
        (k = watermarkStateKey \<and> length v = 8))"

definition timerSet :: "(int64 \<Rightarrow> int64) \<Rightarrow> Memory \<Rightarrow> (bytes \<times> int64) set" where
  "timerSet fire st = {(key, s). Memory_Get st (timerKeyOf (fire s) key s) \<noteq> None}"

definition dueSet :: "(int64 \<Rightarrow> int64) \<Rightarrow> int64 \<Rightarrow> Memory \<Rightarrow> (bytes \<times> int64) set" where
  "dueSet fire wm st = {(key, s) \<in> timerSet fire st. fire s \<le>s wm}"

definition mkDue :: "(int64 \<Rightarrow> int64) \<Rightarrow> bytes \<times> int64 \<Rightarrow> dueTimer" where
  "mkDue fire = (\<lambda>(key, s).
     \<lparr>dt_stateKey = timerKeyOf (fire s) key s, dt_key = key, dt_windowStart = s\<rparr>)"

lemma windowed_invI:
  assumes "Memory_inv st"
    and "\<And>k v. Memory_Get st k = Some v \<Longrightarrow>
        (\<exists>key s. k = stateKeyOf key s \<and> length v = n) \<or>
        (\<exists>key s. k = timerKeyOf (fire s) key s \<and> Memory_Get st (stateKeyOf key s) \<noteq> None) \<or>
        (k = watermarkStateKey \<and> length v = 8)"
  shows "windowed_inv n fire st"
  using assms unfolding windowed_inv_def by blast

lemma windowed_inv_Memory [dest]: "windowed_inv n fire st \<Longrightarrow> Memory_inv st"
  by (simp add: windowed_inv_def)

lemma windowed_inv_entry:
  assumes "windowed_inv n fire st" "Memory_Get st k = Some v"
  obtains (agg) key s where "k = stateKeyOf key s" "length v = n"
    | (timer) key s where "k = timerKeyOf (fire s) key s" "Memory_Get st (stateKeyOf key s) \<noteq> None"
    | (wm) "k = watermarkStateKey" "length v = 8"
  using assms unfolding windowed_inv_def by metis

lemma windowed_inv_agg:
  assumes "windowed_inv n fire st" "Memory_Get st (stateKeyOf key s) = Some v"
  shows "length v = n"
  using windowed_inv_entry [OF assms] by cases simp_all

lemma windowed_inv_timer:
  assumes "windowed_inv n fire st" "(key, s) \<in> timerSet fire st"
  shows "\<exists>v. Memory_Get st (stateKeyOf key s) = Some v \<and> length v = n"
proof -
  obtain v where "Memory_Get st (timerKeyOf (fire s) key s) = Some v"
    using assms(2) by (auto simp: timerSet_def)
  with assms(1) have "Memory_Get st (stateKeyOf key s) \<noteq> None"
    by (rule windowed_inv_entry) simp_all
  then show ?thesis using windowed_inv_agg [OF assms(1)] by auto
qed

lemma windowed_inv_watermark: "windowed_inv n fire st \<Longrightarrow> \<exists>wm. loadWatermark st = Inr wm"
  by (auto simp: loadWatermark_def split: option.splits elim: windowed_inv_entry)

lemma length_stateKey [simp]: "length (stateKeyOf key s) = length key + 9"
  by (simp add: appendStateKey_def)

lemma length_timerKey [simp]: "length (timerKeyOf f key s) = length key + 17"
  by (simp add: appendTimerKey_def)

lemma hd_stateKey [simp]: "hd (stateKeyOf key s) = PrefixUserState" "stateKeyOf key s \<noteq> []"
  by (simp_all add: appendStateKey_def)

lemma well_keyed_keys [simp]:
  "well_keyed (stateKeyOf key s)" "well_keyed (timerKeyOf f key s)" "well_keyed watermarkStateKey"
  by (simp_all add: well_keyed_def) (simp_all add: watermarkStateKey_def prefix_defs)

lemma windowed_inv_well_keyed:
  assumes "windowed_inv n fire st"
  shows "\<forall>k \<in> dom (Memory_Get st). well_keyed k"
proof
  fix k assume "k \<in> dom (Memory_Get st)"
  then obtain v where "Memory_Get st k = Some v" by auto
  with assms show "well_keyed k" by (rule windowed_inv_entry) simp_all
qed

lemma windowed_inv_new: "windowed_inv n fire NewMemory"
  by (simp add: windowed_inv_def)

lemma windowed_inv_storeWatermark:
  "windowed_inv n fire st \<Longrightarrow> windowed_inv n fire (storeWatermark wm st)"
  by (auto simp: windowed_inv_def storeWatermark_def)

text \<open>Storing an aggregate together with its timer, the two \<open>Put\<close>s of \<open>ProcessElement\<close>.\<close>

lemma windowed_inv_put:
  assumes "windowed_inv n fire st" "length v = n"
  shows "windowed_inv n fire
    (Memory_Put (timerKeyOf (fire s) key s) [] (Memory_Put (stateKeyOf key s) v st))"
proof (rule windowed_invI)
  let ?st = "Memory_Put (timerKeyOf (fire s) key s) [] (Memory_Put (stateKeyOf key s) v st)"
  have m: "Memory_inv st" using assms(1) by blast
  then show "Memory_inv ?st" by simp
  fix k u assume u: "Memory_Get ?st k = Some u"
  consider "k = timerKeyOf (fire s) key s" | "k = stateKeyOf key s" | "Memory_Get st k = Some u"
    "k \<noteq> timerKeyOf (fire s) key s" "k \<noteq> stateKeyOf key s"
    using u m by (auto split: if_splits)
  then show "(\<exists>key s. k = stateKeyOf key s \<and> length u = n) \<or>
      (\<exists>key s. k = timerKeyOf (fire s) key s \<and> Memory_Get ?st (stateKeyOf key s) \<noteq> None) \<or>
      (k = watermarkStateKey \<and> length u = 8)"
  proof cases
    case 3
    from assms(1) 3(1) show ?thesis by (rule windowed_inv_entry) (use m in auto)
  qed (use u m assms(2) in auto)
qed

text \<open>The due timers, in the order they fire.\<close>

lemma collectDue_timers:
  assumes m: "Memory_inv st" and wk: "\<forall>k \<in> dom (Memory_Get st). well_keyed k"
    and timers: "\<And>k. k \<in> dom (Memory_Get st) \<Longrightarrow> hd k = PrefixTimer \<Longrightarrow> \<exists>key s. k = timerKeyOf (fire s) key s"
  obtains ds where "collectDue st wm = Inr (map (mkDue fire) ds)" "distinct ds"
    "set ds = dueSet fire wm st" "sorted_wrt (\<lambda>a b. fire (snd a) \<le>s fire (snd b)) ds"
proof -
  let ?ks = "filter (isDue wm) (map fst (Memory_scan st))"
  define parts where "parts k = snd (timerParts k)" for k
  have key: "k = timerKeyOf (fire (snd (parts k))) (fst (parts k)) (snd (parts k)) \<and>
      k \<in> dom (Memory_Get st)" if kin: "k \<in> set ?ks" for k
  proof -
    have v: "k \<in> dom (Memory_Get st)" "isDue wm k" using kin mem.in_scan [OF m] by auto
    then obtain key s where "k = timerKeyOf (fire s) key s" using timers [of k] unfolding isDue_def by blast
    then show ?thesis using v by (simp add: parts_def)
  qed
  have sorted: "sorted_wrt (<) ?ks"
    using mem.scan_sorted [OF m] by (rule sorted_wrt_filter)
  show thesis
  proof
    let ?ds = "map parts ?ks"
    show "collectDue st wm = Inr (map (mkDue fire) ?ds)"
    proof -
      have "toDue k = mkDue fire (parts k)" if "k \<in> set ?ks" for k
        using key [OF that]
        by (auto simp: toDue_def mkDue_def parts_def split: prod.splits)
      then show ?thesis
        by (simp add: collectDue_eq [OF m wk])
    qed
    have inj: "inj_on parts (set ?ks)"
      by (rule inj_on_inverseI [where g = "\<lambda>p. timerKeyOf (fire (snd p)) (fst p) (snd p)"])
        (rule key [THEN conjunct1, symmetric])
    show "distinct ?ds"
      unfolding distinct_map using inj mem.distinct_scan [OF m] by simp
    show "set ?ds = dueSet fire wm st"
    proof (intro set_eqI iffI)
      fix p assume "p \<in> set ?ds"
      then obtain k where k: "k \<in> set ?ks" "p = parts k" by auto
      have "fst (timerParts k) = fire (snd (parts k))"
        using key [OF k(1)] by (metis fst_conv timerParts_timerKey)
      with k key [OF k(1)] show "p \<in> dueSet fire wm st"
        by (cases p) (auto simp: dueSet_def timerSet_def isDue_def dest: sym)
    next
      fix p assume "p \<in> dueSet fire wm st"
      then obtain key s v where p: "p = (key, s)" "fire s \<le>s wm"
        "Memory_Get st (timerKeyOf (fire s) key s) = Some v"
        by (auto simp: dueSet_def timerSet_def)
      then have "timerKeyOf (fire s) key s \<in> set ?ks"
        using mem.in_scan [OF m, of "timerKeyOf (fire s) key s" v] by (force simp: isDue_def)
      then show "p \<in> set ?ds" using p by (force simp: parts_def)
    qed
    have "fire (snd (parts k)) \<le>s fire (snd (parts k'))" if "k < k'" "k \<in> set ?ks" "k' \<in> set ?ks" for k k'
      using that key timerKey_less by (metis signed.dual_order.order_iff_strict)
    then show "sorted_wrt (\<lambda>a b. fire (snd a) \<le>s fire (snd b)) ?ds"
      unfolding sorted_wrt_map by (intro sorted_wrt_mono_rel [OF _ sorted]) blast
  qed
qed

lemma collectDue_windowed:
  assumes inv: "windowed_inv n fire st"
  obtains ds where "collectDue st wm = Inr (map (mkDue fire) ds)" "distinct ds"
    "set ds = dueSet fire wm st" "sorted_wrt (\<lambda>a b. fire (snd a) \<le>s fire (snd b)) ds"
proof (rule collectDue_timers)
  show "Memory_inv st" using inv by blast
  show "\<forall>k \<in> dom (Memory_Get st). well_keyed k" by (rule windowed_inv_well_keyed [OF inv])
  show "\<exists>key s. k = timerKeyOf (fire s) key s" if k: "k \<in> dom (Memory_Get st)" "hd k = PrefixTimer" for k
  proof -
    obtain v where "Memory_Get st k = Some v" using k(1) by blast
    with inv show ?thesis
      by (rule windowed_inv_entry) (use k(2) in \<open>auto simp: appendStateKey_def watermarkStateKey_def prefix_defs\<close>)
  qed
qed (rule that)

text \<open>Firing a list of distinct timers deletes exactly those and emits one record each, when
  every one of them has its aggregate.\<close>

lemma fireAll_windowed:
  assumes "Memory_inv st"
    and "\<And>st' key s. (key, s) \<in> set ds \<Longrightarrow>
      Memory_Get st' (stateKeyOf key s) = Memory_Get st (stateKeyOf key s) \<Longrightarrow>
      fire st' key s = Inr (emit (key, s))"
  shows "\<exists>st'. fireAll fire (map (mkDue ft) ds) st = ((st', map emit ds), None) \<and>
    Memory_inv st' \<and>
    Memory_Get st' = (\<lambda>k. if k \<in> (\<lambda>(key, s). timerKeyOf (ft s) key s) ` set ds
      then None else Memory_Get st k)"
  using assms
proof (induction ds arbitrary: st)
  case (Cons d ds)
  obtain key s where d: "d = (key, s)" by (cases d)
  let ?st = "Memory_Delete (timerKeyOf (ft s) key s) st"
  have inv: "Memory_inv ?st" using Cons.prems(1) by simp
  have eq: "Memory_Get ?st (stateKeyOf key' s') = Memory_Get st (stateKeyOf key' s')" for key' s'
    using Cons.prems(1) by simp
  have "\<exists>st'. fireAll fire (map (mkDue ft) ds) ?st = ((st', map emit ds), None) \<and>
    Memory_inv st' \<and>
    Memory_Get st' = (\<lambda>k. if k \<in> (\<lambda>(key, s). timerKeyOf (ft s) key s) ` set ds
      then None else Memory_Get ?st k)"
    by (rule Cons.IH [OF inv]) (use Cons.prems(2) eq in auto)
  then show ?case
    using Cons.prems(1) Cons.prems(2) [of key s ?st] eq
    by (auto simp: d mkDue_def Let_def fun_eq_iff)
qed (simp add: fun_eq_iff)

section \<open>The contract between timers and purging\<close>

text \<open>An operator's configuration fixes when a window fires and when its aggregate is purged.
  All the operators rely on is that nothing is purged before it has fired.\<close>

locale windowed_operator =
  fixes valid :: "'c \<Rightarrow> bool"
    and fireTime :: "'c \<Rightarrow> int64 \<Rightarrow> int64"
    and purged :: "'c \<Rightarrow> int64 \<Rightarrow> int64 \<Rightarrow> bool"
  assumes purged_after_fire: "valid c \<Longrightarrow> purged c wm s \<Longrightarrow> fireTime c s \<le>s wm"
begin

text \<open>One watermark: store it, fire what is due, purge. No error can arise, the invariant is
  kept, and the new state is known key by key.\<close>

lemma watermark_step:
  assumes valid: "valid c" and inv: "windowed_inv n (fireTime c) st"
    and fire: "\<And>st' key s v. Memory_Get st' (stateKeyOf key s) = Some v \<Longrightarrow> length v = n \<Longrightarrow>
      fire st' key s = Inr (emit key s v)"
    and purge: "\<And>key s. pf (stateKeyOf key s) = Inr (purged c wm s)"
  obtains ds st1 st2 where
    "collectDue (storeWatermark wm st) wm = Inr (map (mkDue (fireTime c)) ds)"
    "fireAll fire (map (mkDue (fireTime c)) ds) (storeWatermark wm st) =
      ((st1, map (\<lambda>(key, s). emit key s (the (Memory_Get st (stateKeyOf key s)))) ds), None)"
    "purgeWindows pf st1 = (st2, None)"
    "distinct ds" "set ds = dueSet (fireTime c) wm st"
    "sorted_wrt (\<lambda>a b. fireTime c (snd a) \<le>s fireTime c (snd b)) ds"
    "windowed_inv n (fireTime c) st2"
    "\<And>key s. Memory_Get st2 (stateKeyOf key s) =
      (if purged c wm s then None else Memory_Get st (stateKeyOf key s))"
    "timerSet (fireTime c) st2 = timerSet (fireTime c) st - dueSet (fireTime c) wm st"
    "loadWatermark st2 = Inr wm"
proof -
  let ?ft = "fireTime c" and ?st0 = "storeWatermark wm st"
  have m: "Memory_inv st" using inv by blast
  have inv0: "windowed_inv n ?ft ?st0" by (rule windowed_inv_storeWatermark [OF inv])
  have get0: "Memory_Get ?st0 k = (if k = watermarkStateKey then Some (EncodeOrderedInt64 wm)
      else Memory_Get st k)" for k
    using m by (simp add: storeWatermark_def)
  have due0: "dueSet ?ft wm ?st0 = dueSet ?ft wm st"
    by (simp add: dueSet_def timerSet_def get0)
  obtain ds where ds: "collectDue ?st0 wm = Inr (map (mkDue ?ft) ds)" "distinct ds"
    "set ds = dueSet ?ft wm st" "sorted_wrt (\<lambda>a b. ?ft (snd a) \<le>s ?ft (snd b)) ds"
    using collectDue_windowed [OF inv0, of wm] unfolding due0 by metis
  have agg: "\<exists>v. Memory_Get st (stateKeyOf key s) = Some v \<and> length v = n"
    if "(key, s) \<in> set ds" for key s
    using that windowed_inv_timer [OF inv] unfolding ds(3) dueSet_def by auto
  let ?emit = "\<lambda>(key, s). emit key s (the (Memory_Get st (stateKeyOf key s)))"
  let ?gone = "(\<lambda>(key, s). timerKeyOf (?ft s) key s) ` set ds"
  have "\<exists>st'. fireAll fire (map (mkDue ?ft) ds) ?st0 = ((st', map ?emit ds), None) \<and>
    Memory_inv st' \<and> Memory_Get st' = (\<lambda>k. if k \<in> ?gone then None else Memory_Get ?st0 k)"
    by (rule fireAll_windowed) (use inv0 agg fire get0 in \<open>auto, fastforce\<close>)
  then obtain st1 where st1: "fireAll fire (map (mkDue ?ft) ds) ?st0 = ((st1, map ?emit ds), None)"
    "Memory_inv st1" "Memory_Get st1 = (\<lambda>k. if k \<in> ?gone then None else Memory_Get ?st0 k)"
    by blast
  define p where "p k = (case pf k of Inr b \<Rightarrow> b | Inl _ \<Rightarrow> False)" for k
  have sub: "Memory_Get st1 k = Some v \<Longrightarrow> Memory_Get ?st0 k = Some v" for k v
    by (simp add: st1(3) split: if_splits)
  have "\<exists>st2. purgeWindows pf st1 = (st2, None) \<and> Memory_inv st2 \<and>
    Memory_Get st2 = (\<lambda>k. if isUserKey k \<and> p k then None else Memory_Get st1 k)"
  proof (rule purgeWindows_eq [OF st1(2)])
    show "\<forall>k\<in>dom (Memory_Get st1). well_keyed k"
      using windowed_inv_well_keyed [OF inv0] sub by blast
    show "\<forall>k\<in>dom (Memory_Get st1). isUserKey k \<longrightarrow> pf k = Inr (p k)"
    proof (intro ballI impI)
      fix k assume "k \<in> dom (Memory_Get st1)" "isUserKey k"
      then obtain v where "Memory_Get ?st0 k = Some v" using sub by blast
      with inv0 show "pf k = Inr (p k)"
        by (rule windowed_inv_entry) (use \<open>isUserKey k\<close> purge in \<open>auto simp: p_def\<close>)
    qed
  qed
  then obtain st2 where st2: "purgeWindows pf st1 = (st2, None)" "Memory_inv st2"
    "Memory_Get st2 = (\<lambda>k. if isUserKey k \<and> p k then None else Memory_Get st1 k)"
    by blast
  have pk [simp]: "p (stateKeyOf key s) = purged c wm s" for key s by (simp add: p_def purge)
  have agg2: "Memory_Get st2 (stateKeyOf key s) =
      (if purged c wm s then None else Memory_Get st (stateKeyOf key s))" for key s
    by (auto simp: st2(3) st1(3) get0)
  have tim2: "Memory_Get st2 (timerKeyOf (?ft s) key s) =
      (if (key, s) \<in> dueSet ?ft wm st then None else Memory_Get st (timerKeyOf (?ft s) key s))" for key s
    by (auto simp: st2(3) st1(3) get0 ds(3) image_iff)
  have inv2: "windowed_inv n ?ft st2"
  proof (rule windowed_invI [OF st2(2)])
    fix k v assume k: "Memory_Get st2 k = Some v"
    then have "Memory_Get ?st0 k = Some v" by (auto simp: st2(3) sub split: if_splits)
    with inv0 show "(\<exists>key s. k = stateKeyOf key s \<and> length v = n) \<or>
        (\<exists>key s. k = timerKeyOf (?ft s) key s \<and> Memory_Get st2 (stateKeyOf key s) \<noteq> None) \<or>
        (k = watermarkStateKey \<and> length v = 8)"
    proof (rule windowed_inv_entry)
      fix key s assume t: "k = timerKeyOf (?ft s) key s" "Memory_Get ?st0 (stateKeyOf key s) \<noteq> None"
      have "(key, s) \<notin> dueSet ?ft wm st" "(key, s) \<in> timerSet ?ft st"
        using k tim2 [of s key] by (auto simp: t timerSet_def split: if_splits)
      then have "\<not> purged c wm s"
        using purged_after_fire [OF valid] by (auto simp: dueSet_def)
      then show ?thesis using t agg2 [of key s] get0 by auto
    qed auto
  qed
  show thesis
  proof (rule that [OF ds(1) st1(1) st2(1) ds(2-4) inv2 agg2])
    show "timerSet ?ft st2 = timerSet ?ft st - dueSet ?ft wm st"
      by (auto simp: timerSet_def tim2 split: if_splits)
    have "watermarkStateKey \<notin> ?gone" by auto
    then show "loadWatermark st2 = Inr wm"
      by (simp add: loadWatermark_def st2(3) st1(3) get0)
  qed
qed

end

end
