(* ===== verification/Operator_Interface.thy ===== *)
theory Operator_Interface
  imports Keyed_State
begin

text \<open>
  \<open>core.Operator\<close> of \<open>pkg/core/operator.go\<close>: the method table a subtask calls. A method returns
  the operator, the keyed state of its subtask and the records it passed to \<open>ctx.Emit\<close>, in
  order; \<open>Open\<close> is given the keyed state of its context, if there is one. \<open>Snapshot\<close> and \<open>Restore\<close> are declared by the interface and called by nothing: the
  runtime serialises the keyed state itself.
\<close>

record 'o Operator =
  op_Open :: "Memory option \<Rightarrow> 'o \<Rightarrow> 'o \<times> go_error option"
  op_ProcessElement :: "Record \<Rightarrow> 'o \<Rightarrow> Memory \<Rightarrow> ('o \<times> Memory \<times> Record list) \<times> go_error option"
  op_ProcessWatermark :: "int64 \<Rightarrow> 'o \<Rightarrow> Memory \<Rightarrow> ('o \<times> Memory \<times> Record list) \<times> go_error option"
  op_OnEndOfStream :: "'o \<Rightarrow> Memory \<Rightarrow> ('o \<times> Memory \<times> Record list) \<times> go_error option"
  op_Close :: "'o \<Rightarrow> go_error option"

text \<open>Records and watermarks handed to the operator in order, up to the first error.\<close>

fun feed ::
  "'o Operator \<Rightarrow> StreamElement list \<Rightarrow> 'o \<Rightarrow> Memory \<Rightarrow> Record list \<times> ('o \<times> Memory) \<times> go_error option"
where
  "feed OP [] op st = ([], (op, st), None)"
| "feed OP (RecordElement r # es) op st =
     (case op_ProcessElement OP r op st of
        ((op', st', out), Some e) \<Rightarrow> (out, (op', st'), Some e)
      | ((op', st', out), None) \<Rightarrow>
          (case feed OP es op' st' of (out', ost, err) \<Rightarrow> (out @ out', ost, err)))"
| "feed OP (WatermarkElement t # es) op st =
     (case op_ProcessWatermark OP t op st of
        ((op', st', out), Some e) \<Rightarrow> (out, (op', st'), Some e)
      | ((op', st', out), None) \<Rightarrow>
          (case feed OP es op' st' of (out', ost, err) \<Rightarrow> (out @ out', ost, err)))"
| "feed OP (_ # es) op st = feed OP es op st"

end
