(* ===== verification/Windowed_Stream.thy ===== *)
theory Windowed_Stream
  imports Timers Operator_Interface
begin

text \<open>
  What the windowed operators share: an aggregate per key and window, folded over the records
  that fall in the window, fired once when the watermark reaches the window's last instant and
  purged when its lateness has run out. The contract is a locale; the count and the Nexmark
  queries are its instances.
\<close>

section \<open>The reference: a fold over the records\<close>

definition aggOf :: "(bytes \<Rightarrow> 'a) \<Rightarrow> Memory \<Rightarrow> bytes \<times> int64 \<Rightarrow> 'a option" where
  "aggOf decode st ks = map_option decode (Memory_Get st (stateKeyOf (fst ks) (snd ks)))"

definition aggregate ::
  "(bytes \<times> int64 \<Rightarrow> Record \<Rightarrow> bool) \<Rightarrow> (Record \<Rightarrow> 'a option \<Rightarrow> 'a) \<Rightarrow> Record list \<Rightarrow> bytes \<times> int64 \<Rightarrow> 'a option" where
  "aggregate fall add rs ks = fold (\<lambda>r a. if fall ks r then Some (add r a) else a) rs None"

lemma aggregate_Nil [simp]: "aggregate fall add [] ks = None"
  by (simp add: aggregate_def)

lemma aggregate_snoc:
  "aggregate fall add (rs @ [r]) ks = (if fall ks r then Some (add r (aggregate fall add rs ks)) else aggregate fall add rs ks)"
  by (simp add: aggregate_def)

lemma aggregate_None_iff: "aggregate fall add rs ks = None \<longleftrightarrow> (\<forall>r \<in> set rs. \<not> fall ks r)"
  by (induction rs rule: rev_induct) (auto simp: aggregate_snoc)

section \<open>The contract\<close>

locale windowed_stream = windowed_operator valid fireTime purged
  for valid :: "'c \<Rightarrow> bool" and fireTime :: "'c \<Rightarrow> int64 \<Rightarrow> int64" and purged :: "'c \<Rightarrow> int64 \<Rightarrow> int64 \<Rightarrow> bool" +
  fixes OP :: "'o Operator" and good :: "'c \<Rightarrow> 'o \<Rightarrow> bool" and width :: nat
    and decode :: "bytes \<Rightarrow> 'a"
    and fall :: "'c \<Rightarrow> bytes \<times> int64 \<Rightarrow> Record \<Rightarrow> bool" and add :: "Record \<Rightarrow> 'a option \<Rightarrow> 'a"
    and emit :: "'c \<Rightarrow> bytes \<times> int64 \<Rightarrow> 'a \<Rightarrow> Record" and admits :: "Record \<Rightarrow> bool"
  assumes falls_before_fire: "valid c \<Longrightarrow> fall c ks r \<Longrightarrow> EventTime r \<le>s fireTime c (snd ks)"
    and purged_mono: "valid c \<Longrightarrow> purged c wm s \<Longrightarrow> wm \<le>s t \<Longrightarrow> purged c t s"
    and element: "valid c \<Longrightarrow> good c op \<Longrightarrow> windowed_inv width (fireTime c) st \<Longrightarrow> loadWatermark st = Inr wm \<Longrightarrow>
      admits r \<Longrightarrow> (\<And>ks. fall c ks r \<Longrightarrow> \<not> purged c wm (snd ks)) \<Longrightarrow>
      \<exists>op' st'. op_ProcessElement OP r op st = ((op', st', []), None) \<and> good c op' \<and>
        windowed_inv width (fireTime c) st' \<and> loadWatermark st' = Inr wm \<and>
        (\<forall>ks. aggOf decode st' ks = (if fall c ks r then Some (add r (aggOf decode st ks)) else aggOf decode st ks)) \<and>
        timerSet (fireTime c) st' = timerSet (fireTime c) st \<union> {ks. fall c ks r}"
    and watermark: "valid c \<Longrightarrow> good c op \<Longrightarrow> windowed_inv width (fireTime c) st \<Longrightarrow>
      \<exists>st' ds. op_ProcessWatermark OP wm op st = ((op, st', map (\<lambda>ks. emit c ks (the (aggOf decode st ks))) ds), None) \<and>
        distinct ds \<and> set ds = dueSet (fireTime c) wm st \<and>
        windowed_inv width (fireTime c) st' \<and> loadWatermark st' = Inr wm \<and>
        (\<forall>ks. aggOf decode st' ks = (if purged c wm (snd ks) then None else aggOf decode st ks)) \<and>
        timerSet (fireTime c) st' = timerSet (fireTime c) st - set ds"
begin

text \<open>What the operator holds and has emitted after the records \<open>rs\<close> and the watermark \<open>wm\<close>: the
  aggregates not yet purged, the timers not yet due, and one record for every window whose fire
  time the watermark has reached.\<close>

definition stream_inv :: "'c \<Rightarrow> Record list \<Rightarrow> int64 \<Rightarrow> Memory \<Rightarrow> (bytes \<times> int64) list \<Rightarrow> bool" where
  "stream_inv c rs wm st ds \<longleftrightarrow>
     windowed_inv width (fireTime c) st \<and> loadWatermark st = Inr wm \<and>
     (\<forall>ks. aggOf decode st ks = (if purged c wm (snd ks) then None else aggregate (fall c) add rs ks)) \<and>
     timerSet (fireTime c) st = {ks. aggregate (fall c) add rs ks \<noteq> None \<and> wm <s fireTime c (snd ks)} \<and>
     distinct ds \<and> set ds = {ks. aggregate (fall c) add rs ks \<noteq> None \<and> fireTime c (snd ks) \<le>s wm}"

lemma stream_inv_init: "stream_inv c [] minInt64 NewMemory []"
  by (simp add: stream_inv_def windowed_inv_new loadWatermark_def minWatermark_def aggOf_def timerSet_def)

lemma falls_after:
  assumes "valid c" "wm <s EventTime r" "fall c ks r"
  shows "wm <s fireTime c (snd ks)" "\<not> purged c wm (snd ks)"
  using assms falls_before_fire [of c ks r] purged_after_fire [of c wm "snd ks"]
  by (auto simp: word_sless_alt word_sle_eq)

lemma stream_inv_record:
  assumes ok: "valid c" and op: "good c op" "admits r" and inv: "stream_inv c rs wm st ds" and late: "wm <s EventTime r"
  shows "\<exists>op' st'. op_ProcessElement OP r op st = ((op', st', []), None) \<and> good c op' \<and>
    stream_inv c (rs @ [r]) wm st' ds \<and>
    (\<forall>ks \<in> set ds. aggregate (fall c) add (rs @ [r]) ks = aggregate (fall c) add rs ks)"
proof -
  have wi: "windowed_inv width (fireTime c) st" "loadWatermark st = Inr wm"
    and agg: "\<And>ks. aggOf decode st ks = (if purged c wm (snd ks) then None else aggregate (fall c) add rs ks)"
    and timers: "timerSet (fireTime c) st = {ks. aggregate (fall c) add rs ks \<noteq> None \<and> wm <s fireTime c (snd ks)}"
    and ds: "distinct ds" "set ds = {ks. aggregate (fall c) add rs ks \<noteq> None \<and> fireTime c (snd ks) \<le>s wm}"
    using inv unfolding stream_inv_def by blast+
  obtain op' st' where st': "op_ProcessElement OP r op st = ((op', st', []), None)" "good c op'"
    "windowed_inv width (fireTime c) st'" "loadWatermark st' = Inr wm"
    "\<And>ks. aggOf decode st' ks = (if fall c ks r then Some (add r (aggOf decode st ks)) else aggOf decode st ks)"
    "timerSet (fireTime c) st' = timerSet (fireTime c) st \<union> {ks. fall c ks r}"
    using element [OF ok op(1) wi op(2)] falls_after(2) [OF ok late] by blast
  have unfired: "\<not> fall c ks r" if "fireTime c (snd ks) \<le>s wm" for ks
    using falls_after(1) [OF ok late, of ks] that by (auto simp: word_sless_alt word_sle_eq)
  have same: "\<forall>ks \<in> set ds. aggregate (fall c) add (rs @ [r]) ks = aggregate (fall c) add rs ks"
    using unfired by (auto simp: ds aggregate_snoc)
  have agg': "aggOf decode st' ks = (if purged c wm (snd ks) then None else aggregate (fall c) add (rs @ [r]) ks)" for ks
    using falls_after(2) [OF ok late, of ks] by (simp add: st'(5) agg aggregate_snoc)
  have timers': "timerSet (fireTime c) st' = {ks. aggregate (fall c) add (rs @ [r]) ks \<noteq> None \<and> wm <s fireTime c (snd ks)}"
    using falls_after(1) [OF ok late] by (auto simp: st'(6) timers aggregate_snoc split: if_splits)
  have ds': "set ds = {ks. aggregate (fall c) add (rs @ [r]) ks \<noteq> None \<and> fireTime c (snd ks) \<le>s wm}"
    using unfired by (auto simp: ds aggregate_snoc)
  have "stream_inv c (rs @ [r]) wm st' ds"
    unfolding stream_inv_def using st'(3,4) agg' timers' ds(1) ds' by blast
  then show ?thesis using st'(1,2) same by blast
qed

text \<open>A watermark emits the full aggregate of every window it reaches, and of no other.\<close>

lemma stream_inv_watermark:
  assumes ok: "valid c" and op: "good c op" and inv: "stream_inv c rs wm st ds" and mono: "wm \<le>s t"
  shows "\<exists>st' ds'. op_ProcessWatermark OP t op st =
      ((op, st', map (\<lambda>ks. emit c ks (the (aggregate (fall c) add rs ks))) ds'), None) \<and> stream_inv c rs t st' (ds @ ds')"
proof -
  have wi: "windowed_inv width (fireTime c) st"
    and agg: "\<And>ks. aggOf decode st ks = (if purged c wm (snd ks) then None else aggregate (fall c) add rs ks)"
    and timers: "timerSet (fireTime c) st = {ks. aggregate (fall c) add rs ks \<noteq> None \<and> wm <s fireTime c (snd ks)}"
    and ds: "distinct ds" "set ds = {ks. aggregate (fall c) add rs ks \<noteq> None \<and> fireTime c (snd ks) \<le>s wm}"
    using inv unfolding stream_inv_def by blast+
  obtain st' ds' where pw: "op_ProcessWatermark OP t op st = ((op, st', map (\<lambda>ks. emit c ks (the (aggOf decode st ks))) ds'), None)"
    and ds': "distinct ds'" "set ds' = dueSet (fireTime c) t st"
    and st': "windowed_inv width (fireTime c) st'" "loadWatermark st' = Inr t"
    and agg1: "\<And>ks. aggOf decode st' ks = (if purged c t (snd ks) then None else aggOf decode st ks)"
    and tm: "timerSet (fireTime c) st' = timerSet (fireTime c) st - set ds'"
    using watermark [OF ok op wi, of t] by blast
  have due: "set ds' = {ks. aggregate (fall c) add rs ks \<noteq> None \<and> wm <s fireTime c (snd ks) \<and> fireTime c (snd ks) \<le>s t}"
    by (auto simp: ds'(2) dueSet_def timers)
  have "aggOf decode st ks = aggregate (fall c) add rs ks" if "ks \<in> set ds'" for ks
    using that purged_after_fire [OF ok, of wm "snd ks"] by (auto simp: due agg word_sless_alt word_sle_eq)
  then have out: "map (\<lambda>ks. emit c ks (the (aggOf decode st ks))) ds' = map (\<lambda>ks. emit c ks (the (aggregate (fall c) add rs ks))) ds'"
    by simp
  have agg': "aggOf decode st' ks = (if purged c t (snd ks) then None else aggregate (fall c) add rs ks)" for ks
    using purged_mono [OF ok _ mono, of "snd ks"] by (simp add: agg1 agg)
  have timers': "timerSet (fireTime c) st' = {ks. aggregate (fall c) add rs ks \<noteq> None \<and> t <s fireTime c (snd ks)}"
    using mono unfolding tm timers due word_sless_alt word_sle_eq set_eq_iff mem_Collect_eq Diff_iff by (meson not_le order_le_less_trans)
  have fired: "set (ds @ ds') = {ks. aggregate (fall c) add rs ks \<noteq> None \<and> fireTime c (snd ks) \<le>s t}"
    using mono unfolding set_append ds due word_sless_alt word_sle_eq set_eq_iff mem_Collect_eq Un_iff by (meson not_le order_trans)
  moreover have "distinct (ds @ ds')"
    using ds ds'(1) due by (auto simp: word_sless_alt word_sle_eq)
  ultimately have "stream_inv c rs t st' (ds @ ds')"
    unfolding stream_inv_def using st' agg' timers' by blast
  then show ?thesis using pw unfolding out by blast
qed

lemma feed_nonlate:
  assumes ok: "valid c" and "good c op" "stream_inv c rs wm st ds" "nonlate wm es" "list_all admits (recordsOf es)"
  shows "\<exists>op' st' ds'. feed OP es op st =
      (map (\<lambda>ks. emit c ks (the (aggregate (fall c) add (rs @ recordsOf es) ks))) ds', (op', st'), None) \<and> good c op' \<and>
    stream_inv c (rs @ recordsOf es) (lastWatermark wm es) st' (ds @ ds') \<and>
    (\<forall>ks \<in> set ds. aggregate (fall c) add (rs @ recordsOf es) ks = aggregate (fall c) add rs ks)"
  using assms(2-)
proof (induction es arbitrary: op rs wm st ds)
  case (Cons e es)
  show ?case
  proof (cases e)
    case (RecordElement r)
    from Cons.prems have late: "wm <s EventTime r" "nonlate wm es" "admits r" "list_all admits (recordsOf es)"
      by (simp_all add: RecordElement)
    obtain op1 st1 where st1: "op_ProcessElement OP r op st = ((op1, st1, []), None)" "good c op1"
      "stream_inv c (rs @ [r]) wm st1 ds" "\<forall>ks \<in> set ds. aggregate (fall c) add (rs @ [r]) ks = aggregate (fall c) add rs ks"
      using stream_inv_record [OF ok Cons.prems(1) late(3) Cons.prems(2) late(1)] by blast
    from Cons.IH [OF st1(2,3) late(2,4)] st1(1,4) show ?thesis by (auto simp: RecordElement)
  next
    case (WatermarkElement t)
    from Cons.prems have late: "wm \<le>s t" "nonlate t es" "list_all admits (recordsOf es)" by (simp_all add: WatermarkElement)
    obtain st1 ds1 where st1: "op_ProcessWatermark OP t op st =
        ((op, st1, map (\<lambda>ks. emit c ks (the (aggregate (fall c) add rs ks))) ds1), None)" "stream_inv c rs t st1 (ds @ ds1)"
      using stream_inv_watermark [OF ok Cons.prems(1,2) late(1)] by blast
    from Cons.IH [OF Cons.prems(1) st1(2) late(2,3)] obtain op' st' ds' where IH:
      "feed OP es op st1 = (map (\<lambda>ks. emit c ks (the (aggregate (fall c) add (rs @ recordsOf es) ks))) ds', (op', st'), None)"
      "good c op'" "stream_inv c (rs @ recordsOf es) (lastWatermark t es) st' ((ds @ ds1) @ ds')"
      "\<forall>ks \<in> set (ds @ ds1). aggregate (fall c) add (rs @ recordsOf es) ks = aggregate (fall c) add rs ks" by blast
    from IH(4) have "map (\<lambda>ks. emit c ks (the (aggregate (fall c) add rs ks))) ds1 =
        map (\<lambda>ks. emit c ks (the (aggregate (fall c) add (rs @ recordsOf es) ks))) ds1" by simp
    with IH st1 show ?thesis
      by (intro exI [of _ op'] exI [of _ st'] exI [of _ "ds1 @ ds'"]) (simp add: WatermarkElement)
  qed (use Cons in \<open>simp_all\<close>)
qed (auto intro: exI [of _ "[]"])

text \<open>A stream with no late record, to the end of time: every window that some record fell in fires
  once, with its complete aggregate.\<close>

lemma fires_once:
  assumes "valid c" "good c op" "nonlate minInt64 es" "lastWatermark minInt64 es = maxInt64" "list_all admits (recordsOf es)"
  shows "\<exists>op' st' ds. feed OP es op NewMemory =
      (map (\<lambda>ks. emit c ks (the (aggregate (fall c) add (recordsOf es) ks))) ds, (op', st'), None) \<and> good c op' \<and>
    distinct ds \<and> set ds = {ks. aggregate (fall c) add (recordsOf es) ks \<noteq> None} \<and> timerSet (fireTime c) st' = {}"
proof -
  have top: "s \<le>s maxInt64" "\<not> maxInt64 <s s" for s :: int64
    using sint64_bounds [of s] by (simp_all add: word_sle_eq word_sless_alt maxInt64_def)
  obtain op' st' ds where r: "feed OP es op NewMemory =
      (map (\<lambda>ks. emit c ks (the (aggregate (fall c) add (recordsOf es) ks))) ds, (op', st'), None)" "good c op'"
    "stream_inv c (recordsOf es) maxInt64 st' ds"
    using feed_nonlate [OF assms(1,2) stream_inv_init assms(3,5)] assms(4) by auto
  then show ?thesis using top by (auto simp: stream_inv_def)
qed

end

end
