(* ===== verification/Window.thy ===== *)
theory Window
  imports Windowed_Stream
begin

text \<open>
  \<open>pkg/operators/window.go\<close>: the windowed count. The struct holds the configuration and the
  drop counter; the keyed state it aliases is passed and returned beside it. Its two scratch
  buffers are rebuilt at each use and hold nothing between calls. A record handed to
  \<open>ctx.Emit\<close> is an element of the returned list, in order.
\<close>

record WindowCount =
  w_size :: int64
  w_slide :: int64
  w_allowedLateness :: int64
  w_dropped :: int64

section \<open>Construction\<close>

text \<open>\<open>None\<close> is the panic of the constructor.\<close>

definition NewSlidingCount :: "int64 \<Rightarrow> int64 \<Rightarrow> int64 \<Rightarrow> WindowCount option" where
  "NewSlidingCount sz slide lateness =
     (if sz \<le>s 0 then None
      else if slide \<le>s 0 then None
      else if go_rem sz slide \<noteq> 0 then None
      else if lateness <s 0 then None
      else Some \<lparr>w_size = sz, w_slide = slide, w_allowedLateness = lateness, w_dropped = 0\<rparr>)"

definition NewTumblingCount :: "int64 \<Rightarrow> int64 \<Rightarrow> WindowCount option" where
  "NewTumblingCount sz lateness = NewSlidingCount sz sz lateness"

text \<open>\<open>Open\<close> takes the state of the context, \<open>None\<close> when it is nil.\<close>

definition WindowCount_Open :: "Memory option \<Rightarrow> Memory result" where
  "WindowCount_Open st = (case st of None \<Rightarrow> Inl (OperatorErr errNoKeyedState) | Some m \<Rightarrow> Inr m)"

section \<open>Windows and times\<close>

fun windowsLoop :: "nat \<Rightarrow> int64 \<Rightarrow> int64 \<Rightarrow> int64 list" where
  "windowsLoop 0 slide start = []"
| "windowsLoop (Suc n) slide start =
     start # (let nxt = subFloor start slide in if nxt = start then [] else windowsLoop n slide nxt)"

definition windowsFor :: "WindowCount \<Rightarrow> int64 \<Rightarrow> int64 list" where
  "windowsFor w eventTime =
     windowsLoop (nat (sint (go_div (w_size w) (w_slide w)))) (w_slide w)
       (subFloor eventTime (floorMod eventTime (w_slide w)))"

definition fireTimeOf :: "WindowCount \<Rightarrow> int64 \<Rightarrow> int64" where
  "fireTimeOf w start = addCeil start (w_size w - 1)"

definition isPurged :: "WindowCount \<Rightarrow> int64 \<Rightarrow> int64 \<Rightarrow> bool" where
  "isPurged w watermark start \<longleftrightarrow>
     addCeil (addCeil start (w_size w)) (w_allowedLateness w) <s watermark"

section \<open>Processing a record\<close>

definition encodeCount :: "int64 \<Rightarrow> bytes" where
  "encodeCount n = be_put 8 n"

definition DecodeCount :: "bytes \<Rightarrow> int64 result" where
  "DecodeCount v =
     (if length v < 8 then Inl (OperatorErr errCountTooShort) else Inr (be_get 8 v))"

definition currentWatermark :: "Memory \<Rightarrow> int64 result" where
  "currentWatermark st =
     (case Memory_Get st watermarkStateKey of
        None \<Rightarrow> Inr minWatermark
      | Some v \<Rightarrow>
          if length v < 8 then Inl (OperatorErr errWatermarkTooShort)
          else Inr (DecodeOrderedInt64 v))"

definition setWatermark :: "int64 \<Rightarrow> Memory \<Rightarrow> Memory" where
  "setWatermark wm st = Memory_Put watermarkStateKey (EncodeOrderedInt64 wm) st"

definition currentCount :: "Memory \<Rightarrow> bytes \<Rightarrow> int64 result" where
  "currentCount st stateKey =
     (case Memory_Get st stateKey of None \<Rightarrow> Inr 0 | Some v \<Rightarrow> DecodeCount v)"

fun countInto ::
  "int64 list \<Rightarrow> int64 \<Rightarrow> bytes \<Rightarrow> WindowCount \<Rightarrow> Memory \<Rightarrow> (WindowCount \<times> Memory) \<times> go_error option"
where
  "countInto [] watermark key w st = ((w, st), None)"
| "countInto (start # starts) watermark key w st =
     (if isPurged w watermark start
      then countInto starts watermark key (w\<lparr>w_dropped := w_dropped w + 1\<rparr>) st
      else let stateKey = appendStateKey [] key start
           in case currentCount st stateKey of
                Inl e \<Rightarrow> ((w, st), Some e)
              | Inr cnt \<Rightarrow>
                  countInto starts watermark key w
                    (Memory_Put (appendTimerKey [] (fireTimeOf w start) key start) []
                      (Memory_Put stateKey (be_put 8 (cnt + 1)) st)))"

definition WindowCount_ProcessElement ::
  "Record \<Rightarrow> WindowCount \<Rightarrow> Memory \<Rightarrow> (WindowCount \<times> Memory) \<times> go_error option" where
  "WindowCount_ProcessElement rec w st =
     (case currentWatermark st of
        Inl e \<Rightarrow> ((w, st), Some e)
      | Inr watermark \<Rightarrow>
          countInto (windowsFor w (EventTime rec)) watermark (Key rec) w st)"

section \<open>Processing a watermark\<close>

definition collectDueTimers :: "Memory \<Rightarrow> int64 \<Rightarrow> dueTimer list result" where
  "collectDueTimers st wm =
     (case snd (Memory_Iterate (readonly (dueCallback wm)) (st, [], None)) of
        (due, Some e) \<Rightarrow> Inl e
      | (due, None) \<Rightarrow> Inr due)"

definition WindowCount_fire :: "WindowCount \<Rightarrow> Memory \<Rightarrow> bytes \<Rightarrow> int64 \<Rightarrow> Record result" where
  "WindowCount_fire w st key start =
     (case Memory_Get st (appendStateKey [] key start) of
        None \<Rightarrow> Inl (OperatorErr errFiredWithNoState)
      | Some v \<Rightarrow>
          (case DecodeCount v of
             Inl e \<Rightarrow> Inl e
           | Inr cnt \<Rightarrow>
               Inr \<lparr>Key = key, Value = encodeCount cnt, EventTime = fireTimeOf w start\<rparr>))"

definition WindowCount_purge :: "WindowCount \<Rightarrow> int64 \<Rightarrow> Memory \<Rightarrow> Memory \<times> go_error option" where
  "WindowCount_purge w watermark st =
     Memory_Iterate (deleting (purgeCallback (\<lambda>stateKey.
        case windowStartOf stateKey of
          Inl e \<Rightarrow> Inl e
        | Inr start \<Rightarrow> Inr (isPurged w watermark start)))) (st, None)"

definition WindowCount_ProcessWatermark ::
  "int64 \<Rightarrow> WindowCount \<Rightarrow> Memory \<Rightarrow> (Memory \<times> Record list) \<times> go_error option" where
  "WindowCount_ProcessWatermark wm w st =
     (let st0 = setWatermark wm st
      in case collectDueTimers st0 wm of
           Inl e \<Rightarrow> ((st0, []), Some e)
         | Inr due \<Rightarrow>
             (case fireAll (WindowCount_fire w) due st0 of
                ((st1, out), Some e) \<Rightarrow> ((st1, out), Some e)
              | ((st1, out), None) \<Rightarrow>
                  (case WindowCount_purge w wm st1 of (st2, err) \<Rightarrow> ((st2, out), err))))"

text \<open>End of stream emits nothing, and the operator declines to be snapshotted on its own:
  its state is the subtask's.\<close>

definition WindowCount_OnEndOfStream :: "WindowCount \<Rightarrow> Memory \<Rightarrow> (Memory \<times> Record list) \<times> go_error option" where
  "WindowCount_OnEndOfStream w st = ((st, []), None)"

definition WindowCount_Snapshot :: "WindowCount \<Rightarrow> go_error option" where
  "WindowCount_Snapshot w = Some (OperatorErr errNotSnapshottable)"

definition WindowCount_Restore :: "WindowCount \<Rightarrow> go_error option" where
  "WindowCount_Restore w = Some (OperatorErr errNotSnapshottable)"

text \<open>The operator as the runtime calls it.\<close>

definition WindowCount_operator :: "WindowCount Operator" where
  "WindowCount_operator =
     \<lparr>op_Open = \<lambda>st w. (w, case WindowCount_Open st of Inl e \<Rightarrow> Some e | Inr _ \<Rightarrow> None),
      op_ProcessElement = \<lambda>rec w st. (case WindowCount_ProcessElement rec w st of ((w', st'), e) \<Rightarrow> ((w', st', []), e)),
      op_ProcessWatermark = \<lambda>wm w st. (case WindowCount_ProcessWatermark wm w st of ((st', out), e) \<Rightarrow> ((w, st', out), e)),
      op_OnEndOfStream = \<lambda>w st. (case WindowCount_OnEndOfStream w st of ((st', out), e) \<Rightarrow> ((w, st', out), e)),
      op_Close = (\<lambda>_. None)\<rparr>"

section \<open>Configurations\<close>

definition WindowCount_ok :: "WindowCount \<Rightarrow> bool" where
  "WindowCount_ok w \<longleftrightarrow> 0 < sint (w_size w) \<and> 0 < sint (w_slide w) \<and>
     sint (w_slide w) dvd sint (w_size w) \<and> 0 \<le> sint (w_allowedLateness w)"

lemma go_rem_eq_0:
  assumes "0 < sint b"
  shows "go_rem a b = 0 \<longleftrightarrow> sint b dvd sint a"
proof -
  have "go_rem a b = 0 \<longleftrightarrow> sint a smod sint b = 0"
    using sint64_rem [OF assms, of a] by (metis sint64_eqI sint_0)
  also have "\<dots> \<longleftrightarrow> sint b dvd sint a"
    by (auto simp: smod_int_alt_def sgn_if mod_eq_0_iff_dvd)
  finally show ?thesis .
qed

lemma NewSlidingCount_ok:
  "NewSlidingCount sz slide l = Some w \<longleftrightarrow>
    WindowCount_ok w \<and> w = \<lparr>w_size = sz, w_slide = slide, w_allowedLateness = l, w_dropped = 0\<rparr>"
  by (auto simp: NewSlidingCount_def WindowCount_ok_def word_sle_eq word_sless_alt go_rem_eq_0)

lemma window_config_simps [simp]:
  "fireTimeOf (w\<lparr>w_dropped := d\<rparr>) = fireTimeOf w"
  "isPurged (w\<lparr>w_dropped := d\<rparr>) = isPurged w"
  "windowsFor (w\<lparr>w_dropped := d\<rparr>) = windowsFor w"
  "WindowCount_ok (w\<lparr>w_dropped := d\<rparr>) = WindowCount_ok w"
  by (simp_all add: fireTimeOf_def isPurged_def windowsFor_def WindowCount_ok_def fun_eq_iff)

lemma sint_fireTimeOf:
  assumes "WindowCount_ok w"
  shows "sint (fireTimeOf w s) = min (sint s + sint (w_size w) - 1) 9223372036854775807"
proof -
  have "sint (w_size w - 1) = sint (w_size w) - 1"
    using assms sint64_bounds [of "w_size w"] by (simp add: sint64_diff WindowCount_ok_def)
  then show ?thesis using assms by (simp add: fireTimeOf_def saturating WindowCount_ok_def)
qed

lemma isPurged_iff:
  assumes "WindowCount_ok w"
  shows "isPurged w wm s \<longleftrightarrow>
    sint s + sint (w_size w) + sint (w_allowedLateness w) < sint wm"
  using assms sint64_bounds [of wm]
  by (auto simp: isPurged_def word_sless_alt saturating WindowCount_ok_def)

interpretation wc: windowed_operator WindowCount_ok fireTimeOf isPurged
proof
  fix w wm s assume "WindowCount_ok w" "isPurged w wm s"
  then show "fireTimeOf w s \<le>s wm"
    by (simp add: isPurged_iff sint_fireTimeOf word_sle_eq) (simp add: WindowCount_ok_def min_le_iff_disj)
qed

lemma own_copies:
  "currentWatermark = loadWatermark" "setWatermark = storeWatermark"
  "collectDueTimers = collectDue"
  "WindowCount_purge w wm st = purgeWindows (\<lambda>k. case windowStartOf k of
     Inl e \<Rightarrow> Inl e | Inr start \<Rightarrow> Inr (isPurged w wm start)) st"
  by (simp_all add: fun_eq_iff currentWatermark_def loadWatermark_def setWatermark_def
      storeWatermark_def collectDueTimers_def collectDue_def WindowCount_purge_def purgeWindows_def)

section \<open>The windows of an event time\<close>

lemma windowsLoop_less:
  assumes "0 < sint slide" "s \<in> set (windowsLoop n slide start)"
  shows "sint s \<le> sint start"
  using assms(2)
proof (induction n arbitrary: start)
  case (Suc n)
  have "sint (subFloor start slide) \<le> sint start"
    using assms(1) sint64_bounds [of start] by (simp add: saturating)
  then show ?case
    using Suc by (auto simp: Let_def split: if_splits intro: order_trans)
qed simp

lemma distinct_windowsLoop:
  assumes "0 < sint slide"
  shows "distinct (windowsLoop n slide start)"
proof (induction n arbitrary: start)
  case (Suc n)
  have "sint (subFloor start slide) < sint start" if "subFloor start slide \<noteq> start"
  proof -
    have "sint (subFloor start slide) \<le> sint start"
      using assms sint64_bounds [of start] by (simp add: saturating)
    with that show ?thesis by (metis order_le_less sint64_eqI)
  qed
  then show ?case
    using Suc windowsLoop_less [OF assms, of start n "subFloor start slide"]
    by (auto simp: Let_def)
qed simp

lemma distinct_windowsFor: "WindowCount_ok w \<Longrightarrow> distinct (windowsFor w t)"
  by (simp add: windowsFor_def distinct_windowsLoop WindowCount_ok_def)

lemma windowsLoop_exact:
  assumes "0 < sint slide" "- 9223372036854775808 \<le> sint start - (int n - 1) * sint slide"
  shows "map sint (windowsLoop n slide start) = map (\<lambda>i. sint start - int i * sint slide) [0..<n]"
  using assms(2)
proof (induction n arbitrary: start)
  case (Suc n)
  show ?case
  proof (cases n)
    case (Suc k)
    have "sint start - int n * sint slide \<le> sint start - sint slide"
      using assms(1) Suc by (simp add: algebra_simps)
    moreover have "- 9223372036854775808 \<le> sint start - int n * sint slide"
      using Suc.prems by simp
    ultimately have "- 9223372036854775808 \<le> sint start - sint slide" by linarith
    then have nxt: "sint (subFloor start slide) = sint start - sint slide"
      using assms(1) by (simp add: saturating)
    then have "subFloor start slide \<noteq> start" using assms(1) by auto
    moreover have "map sint (windowsLoop n slide (subFloor start slide)) =
        map (\<lambda>i. sint start - int (Suc i) * sint slide) [0..<n]"
      using Suc.IH [of "subFloor start slide"] Suc.prems nxt by (simp add: algebra_simps)
    moreover have "map (\<lambda>i. sint start - int i * sint slide) [0..<Suc n] =
        sint start # map (\<lambda>i. sint start - int (Suc i) * sint slide) [0..<n]"
      by (simp only: upt_conv_Cons zero_less_Suc list.map map_Suc_upt [symmetric]) (simp add: comp_def)
    ultimately show ?thesis by (simp add: Let_def)
  qed (simp add: Let_def)
qed simp

lemma windowsFor_exact:
  assumes ok: "WindowCount_ok w" and lo: "- (2 ^ 63) \<le> sint t - (sint (w_size w) - 1)"
  shows "s \<in> set (windowsFor w t) \<longleftrightarrow>
    sint (w_slide w) dvd sint s \<and> sint s \<le> sint t \<and> sint t < sint s + sint (w_size w)"
proof -
  let ?d = "sint (w_slide w)" and ?z = "sint (w_size w)" and ?t = "sint t"
  let ?start = "subFloor t (floorMod t (w_slide w))"
  have d: "0 < ?d" "0 < ?z" "?d dvd ?z" using ok by (simp_all add: WindowCount_ok_def)
  define n where "n = nat (?z div ?d)"
  have n: "int n * ?d = ?z" "0 < n"
    using d by (auto simp: n_def pos_imp_zdiv_nonneg_iff pos_imp_zdiv_pos_iff zdvd_imp_le)
  have md: "0 \<le> ?t mod ?d" "?t mod ?d < ?d" using d by auto
  have lo': "- 9223372036854775808 \<le> ?t - (?z - 1)" using lo by simp
  have "- 9223372036854775808 \<le> ?t - ?t mod ?d" using lo' md zdvd_imp_le [OF d(3,2)] by linarith
  then have st: "sint ?start = ?t - ?t mod ?d" using d md by (simp add: saturating)
  have "(int n - 1) * ?d = ?z - ?d" using n by (simp add: algebra_simps)
  then have "- 9223372036854775808 \<le> sint ?start - (int n - 1) * ?d" using lo' md st by linarith
  then have wins: "map sint (windowsFor w t) = map (\<lambda>i. ?t - ?t mod ?d - int i * ?d) [0..<n]"
    using windowsLoop_exact [OF d(1), of ?start n] d
    by (simp add: windowsFor_def sint64_div_nonneg n_def st)
  have "s \<in> set (windowsFor w t) \<longleftrightarrow> sint s \<in> sint ` set (windowsFor w t)"
    using sint64_eqI by blast
  also have "sint ` set (windowsFor w t) = set (map sint (windowsFor w t))" by simp
  also have "sint s \<in> \<dots> \<longleftrightarrow> (\<exists>i<n. sint s = ?t - ?t mod ?d - int i * ?d)"
    unfolding wins by auto
  also have "\<dots> \<longleftrightarrow> ?d dvd sint s \<and> sint s \<le> ?t \<and> ?t < sint s + ?z"
  proof (intro iffI conjI; (elim exE conjE)?)
    fix i assume i: "i < n" "sint s = ?t - ?t mod ?d - int i * ?d"
    show "?d dvd sint s" unfolding i(2) by (simp add: dvd_diff minus_mod_eq_mult_div)
    have "0 \<le> int i * ?d" using d by simp
    then show "sint s \<le> ?t" using i(2) md by linarith
    have "(int i + 1) * ?d \<le> int n * ?d" using i(1) d by (intro mult_right_mono) auto
    then show "?t < sint s + ?z" using i(2) md n(1) by (simp add: algebra_simps)
  next
    assume a: "?d dvd sint s" "sint s \<le> ?t" "?t < sint s + ?z"
    let ?b = "?t - ?t mod ?d"
    have "?d dvd ?b - sint s" using a(1) by (simp add: dvd_diff minus_mod_eq_mult_div)
    then obtain j where j: "?b - sint s = ?d * j" by blast
    have "?d * (- 1) < ?d * j" using j md a(2) by simp
    then have "0 \<le> j" using d by (simp only: mult_less_cancel_left_pos)
    moreover have "?d * j < ?d * int n" using j md a(3) n(1) by (simp add: algebra_simps)
    then have "j < int n" using d by simp
    ultimately show "\<exists>i<n. sint s = ?b - int i * ?d"
      using j by (intro exI [of _ "nat j"]) (auto simp: algebra_simps)
  qed
  finally show ?thesis .
qed

section \<open>What a record does\<close>

text \<open>The count a state holds for a key and a window.\<close>

definition countOf :: "Memory \<Rightarrow> bytes \<Rightarrow> int64 \<Rightarrow> int64 option" where
  "countOf st key s = map_option (be_get 8) (Memory_Get st (stateKeyOf key s))"

definition countOr0 :: "Memory \<Rightarrow> bytes \<Rightarrow> int64 \<Rightarrow> int64" where
  "countOr0 st key s = (case countOf st key s of None \<Rightarrow> 0 | Some c \<Rightarrow> c)"

abbreviation Window_inv :: "WindowCount \<Rightarrow> Memory \<Rightarrow> bool" where
  "Window_inv w \<equiv> windowed_inv 8 (fireTimeOf w)"

lemma currentCount_eq:
  assumes "windowed_inv 8 ft st"
  shows "currentCount st (stateKeyOf key s) = Inr (countOr0 st key s)"
  using windowed_inv_agg [OF assms, of key s]
  by (auto simp: currentCount_def countOr0_def countOf_def DecodeCount_def split: option.splits)

text \<open>One window: the count goes up by one and the timer is set.\<close>

lemma put_count:
  assumes inv: "Window_inv w st"
    and st': "st' = Memory_Put (timerKeyOf (fireTimeOf w s) key s) []
      (Memory_Put (stateKeyOf key s) (be_put 8 (countOr0 st key s + 1)) st)"
  shows "Window_inv w st'"
    "countOf st' key' s' =
      (if key' = key \<and> s' = s then Some (countOr0 st key s + 1) else countOf st key' s')"
    "timerSet (fireTimeOf w) st' = insert (key, s) (timerSet (fireTimeOf w) st)"
    "loadWatermark st' = loadWatermark st"
proof -
  have m: "Memory_inv st" using inv by blast
  show "Window_inv w st'" unfolding st' by (rule windowed_inv_put [OF inv]) simp
  show "countOf st' key' s' =
      (if key' = key \<and> s' = s then Some (countOr0 st key s + 1) else countOf st key' s')"
    using m by (auto simp: st' countOf_def)
  show "timerSet (fireTimeOf w) st' = insert (key, s) (timerSet (fireTimeOf w) st)"
    using m by (auto simp: st' timerSet_def)
  show "loadWatermark st' = loadWatermark st"
    using m by (simp add: st' loadWatermark_def)
qed

lemma countInto_eq:
  assumes "Window_inv w st" "distinct starts"
  shows "\<exists>st'. countInto starts wm key w st =
      ((w\<lparr>w_dropped := w_dropped w + of_nat (length (filter (isPurged w wm) starts))\<rparr>, st'), None) \<and>
    Window_inv w st' \<and>
    (\<forall>key' s. countOf st' key' s =
      (if key' = key \<and> s \<in> set starts \<and> \<not> isPurged w wm s
       then Some (countOr0 st key s + 1) else countOf st key' s)) \<and>
    timerSet (fireTimeOf w) st' =
      timerSet (fireTimeOf w) st \<union> {(key, s) |s. s \<in> set starts \<and> \<not> isPurged w wm s} \<and>
    loadWatermark st' = loadWatermark st"
  using assms
proof (induction starts arbitrary: w st)
  case (Cons s starts)
  show ?case
  proof (cases "isPurged w wm s")
    case True
    then show ?thesis
      using Cons.IH [of "w\<lparr>w_dropped := w_dropped w + 1\<rparr>" st] Cons.prems
      by (auto simp: algebra_simps)
  next
    case False
    let ?st = "Memory_Put (timerKeyOf (fireTimeOf w s) key s) []
      (Memory_Put (stateKeyOf key s) (be_put 8 (countOr0 st key s + 1)) st)"
    note put = put_count [OF Cons.prems(1) refl, of s key]
    obtain st' where st': "countInto starts wm key w ?st =
        ((w\<lparr>w_dropped := w_dropped w + of_nat (length (filter (isPurged w wm) starts))\<rparr>, st'), None)"
      "Window_inv w st'"
      "\<And>key' s'. countOf st' key' s' =
        (if key' = key \<and> s' \<in> set starts \<and> \<not> isPurged w wm s'
         then Some (countOr0 ?st key s' + 1) else countOf ?st key' s')"
      "timerSet (fireTimeOf w) st' =
        timerSet (fireTimeOf w) ?st \<union> {(key, s) |s. s \<in> set starts \<and> \<not> isPurged w wm s}"
      "loadWatermark st' = loadWatermark ?st"
      using Cons.IH [OF put(1)] Cons.prems(2) by auto
    have "countOr0 ?st key s' = countOr0 st key s'" if "s' \<noteq> s" for s'
      using that put(2) by (simp add: countOr0_def)
    then have "countOf st' key' s' =
        (if key' = key \<and> s' \<in> set (s # starts) \<and> \<not> isPurged w wm s'
         then Some (countOr0 st key s' + 1) else countOf st key' s')" for key' s'
      using st'(3) put(2) False Cons.prems(2) by auto
    moreover have "timerSet (fireTimeOf w) st' = timerSet (fireTimeOf w) st \<union>
        {(key, s') |s'. s' \<in> set (s # starts) \<and> \<not> isPurged w wm s'}"
      using st'(4) put(3) False by auto
    moreover have "loadWatermark st' = loadWatermark st" using st'(5) put(4) by simp
    ultimately show ?thesis
      using False st'(1,2) currentCount_eq [OF Cons.prems(1)] by (simp add: Let_def)
  qed
qed simp

definition emitCount :: "WindowCount \<Rightarrow> bytes \<times> int64 \<Rightarrow> int64 \<Rightarrow> Record" where
  "emitCount w ks c = \<lparr>Key = fst ks, Value = encodeCount c, EventTime = fireTimeOf w (snd ks)\<rparr>"

lemma ProcessWatermark_eq:
  assumes ok: "WindowCount_ok w" and inv: "Window_inv w st"
  shows "\<exists>st' ds. WindowCount_ProcessWatermark wm w st =
      ((st', map (\<lambda>ks. emitCount w ks (countOr0 st (fst ks) (snd ks))) ds), None) \<and>
    distinct ds \<and> set ds = dueSet (fireTimeOf w) wm st \<and>
    sorted_wrt (\<lambda>a b. fireTimeOf w (snd a) \<le>s fireTimeOf w (snd b)) ds \<and>
    Window_inv w st' \<and> loadWatermark st' = Inr wm \<and>
    (\<forall>key s. countOf st' key s = (if isPurged w wm s then None else countOf st key s)) \<and>
    timerSet (fireTimeOf w) st' = timerSet (fireTimeOf w) st - set ds"
proof -
  let ?emit = "\<lambda>key s v. \<lparr>Key = key, Value = encodeCount (be_get 8 v), EventTime = fireTimeOf w s\<rparr>"
  have fire: "WindowCount_fire w st' key s = Inr (?emit key s v)"
    if "Memory_Get st' (stateKeyOf key s) = Some v" "length v = 8" for st' key s v
    using that by (simp add: WindowCount_fire_def DecodeCount_def)
  have purge: "(case windowStartOf (stateKeyOf key s) of Inl e \<Rightarrow> Inl e
      | Inr start \<Rightarrow> Inr (isPurged w wm start)) = Inr (isPurged w wm s)" for key s
    by simp
  from ok inv fire purge show ?thesis
  proof (rule wc.watermark_step)
    fix ds st1 st2
    assume c: "collectDue (storeWatermark wm st) wm = Inr (map (mkDue (fireTimeOf w)) ds)"
      and f: "fireAll (WindowCount_fire w) (map (mkDue (fireTimeOf w)) ds) (storeWatermark wm st) =
        ((st1, map (\<lambda>(key, s). ?emit key s (the (Memory_Get st (stateKeyOf key s)))) ds), None)"
      and p: "purgeWindows (\<lambda>k. case windowStartOf k of Inl e \<Rightarrow> Inl e
        | Inr start \<Rightarrow> Inr (isPurged w wm start)) st1 = (st2, None)"
      and ds: "distinct ds" "set ds = dueSet (fireTimeOf w) wm st"
        "sorted_wrt (\<lambda>a b. fireTimeOf w (snd a) \<le>s fireTimeOf w (snd b)) ds"
      and inv2: "Window_inv w st2"
      and agg: "\<And>key s. Memory_Get st2 (stateKeyOf key s) =
        (if isPurged w wm s then None else Memory_Get st (stateKeyOf key s))"
      and t: "timerSet (fireTimeOf w) st2 = timerSet (fireTimeOf w) st - dueSet (fireTimeOf w) wm st"
      and l: "loadWatermark st2 = Inr wm"
    have "(case d of (key, s) \<Rightarrow> ?emit key s (the (Memory_Get st (stateKeyOf key s)))) =
        emitCount w d (countOr0 st (fst d) (snd d))" if din: "d \<in> set ds" for d
    proof -
      obtain key s where d: "d = (key, s)" by (cases d)
      then obtain v where "Memory_Get st (stateKeyOf key s) = Some v"
        using din ds(2) windowed_inv_timer [OF inv, of key s] by (auto simp: dueSet_def)
      then show ?thesis by (simp add: d emitCount_def countOr0_def countOf_def)
    qed
    then have "WindowCount_ProcessWatermark wm w st =
      ((st2, map (\<lambda>ks. emitCount w ks (countOr0 st (fst ks) (snd ks))) ds), None)"
      using c f p
      by (simp add: WindowCount_ProcessWatermark_def own_copies Let_def cong: map_cong)
    moreover have "\<forall>key s. countOf st2 key s = (if isPurged w wm s then None else countOf st key s)"
      by (simp add: countOf_def agg)
    ultimately show ?thesis using ds inv2 l t [folded ds(2)] by blast
  qed
qed

section \<open>Properties of the operator\<close>

text \<open>C27. The windows of a record are exactly the aligned windows that contain its event time:
  \<open>windowsFor\<close> lists, without repetition, every start that is a multiple of the slide with
  \<open>start \<le> t < start + size\<close>, for every event time that is not within a window of the least
  \<open>int64\<close>.\<close>

theorem windowsFor_correct:
  assumes "WindowCount_ok w" "- (2 ^ 63) \<le> sint t - (sint (w_size w) - 1)"
  shows "distinct (windowsFor w t) \<and>
    set (windowsFor w t) = {s. sint (w_slide w) dvd sint s \<and> sint s \<le> sint t \<and>
      sint t < sint s + sint (w_size w)}"
  using windowsFor_exact [OF assms] distinct_windowsFor [OF assms(1)] by blast

definition example_window :: WindowCount where
  "example_window = \<lparr>w_size = 10, w_slide = 5, w_allowedLateness = 2, w_dropped = 0\<rparr>"

lemma example_window_ok: "WindowCount_ok example_window"
  by (simp add: WindowCount_ok_def example_window_def)

theorem windowsFor_correct_witness:
  "distinct (windowsFor example_window (- 3)) \<and>
    set (windowsFor example_window (- 3)) = {s. 5 dvd sint s \<and> sint s \<le> - 3 \<and> - 3 < sint s + 10}"
  using windowsFor_correct [OF example_window_ok, of "- 3"] by (simp add: example_window_def)

text \<open>A record is counted once into every window that contains it and is still held: on any
  state of the operator, \<open>ProcessElement\<close> returns no error, adds one to the count of each of
  the record's windows that is not purged, sets the timer of each, counts the purged ones as
  dropped, leaves every other count, timer and the watermark alone, and keeps the invariant.\<close>

theorem process_element_counts:
  assumes ok: "WindowCount_ok w" and inv: "Window_inv w st" and wm: "currentWatermark st = Inr wm"
  shows "\<exists>st'. WindowCount_ProcessElement rec w st =
      ((w\<lparr>w_dropped := w_dropped w +
          of_nat (length (filter (isPurged w wm) (windowsFor w (EventTime rec))))\<rparr>, st'), None) \<and>
    Window_inv w st' \<and> currentWatermark st' = Inr wm \<and>
    (\<forall>key s. countOf st' key s =
      (if key = Key rec \<and> s \<in> set (windowsFor w (EventTime rec)) \<and> \<not> isPurged w wm s
       then Some (countOr0 st key s + 1) else countOf st key s)) \<and>
    timerSet (fireTimeOf w) st' = timerSet (fireTimeOf w) st \<union>
      {(Key rec, s) |s. s \<in> set (windowsFor w (EventTime rec)) \<and> \<not> isPurged w wm s}"
  using countInto_eq [OF inv distinct_windowsFor [OF ok], of "EventTime rec" wm "Key rec"] wm
  by (auto simp: WindowCount_ProcessElement_def own_copies)

theorem process_element_counts_witness:
  "\<exists>st'. WindowCount_ProcessElement \<lparr>Key = [1], Value = [], EventTime = 12\<rparr> example_window NewMemory =
      ((example_window\<lparr>w_dropped := w_dropped example_window +
          of_nat (length (filter (isPurged example_window minInt64) (windowsFor example_window 12)))\<rparr>, st'), None) \<and>
    Window_inv example_window st' \<and> currentWatermark st' = Inr minInt64"
  using process_element_counts [OF example_window_ok windowed_inv_new,
      of minInt64 "\<lparr>Key = [1], Value = [], EventTime = 12\<rparr>"]
  by (auto simp: currentWatermark_def minWatermark_def)

text \<open>C26. A watermark fires exactly the timers due at it, once each and in the order of their fire
  times: on any state of the operator \<open>ProcessWatermark\<close> returns no error, emits one record per
  due (key, window) with the count the state holds, deletes exactly those timers, purges
  exactly the counts whose lateness has run out, stores the watermark and keeps the invariant.\<close>

theorem process_watermark_fires_due:
  assumes ok: "WindowCount_ok w" and inv: "Window_inv w st"
  shows "\<exists>st' ds. WindowCount_ProcessWatermark wm w st =
      ((st', map (\<lambda>ks. emitCount w ks (countOr0 st (fst ks) (snd ks))) ds), None) \<and>
    distinct ds \<and> set ds = {(key, s) \<in> timerSet (fireTimeOf w) st. fireTimeOf w s \<le>s wm} \<and>
    sorted_wrt (\<lambda>a b. sint (fireTimeOf w (snd a)) \<le> sint (fireTimeOf w (snd b))) ds \<and>
    Window_inv w st' \<and> currentWatermark st' = Inr wm \<and>
    (\<forall>key s. countOf st' key s = (if isPurged w wm s then None else countOf st key s)) \<and>
    timerSet (fireTimeOf w) st' = timerSet (fireTimeOf w) st - set ds"
  using ProcessWatermark_eq [OF ok inv, of wm]
  unfolding own_copies word_sle_eq dueSet_def .

text \<open>The record at 12 is counted in the windows that start at 5 and 10; the watermark 18 fires the
  first, whose lateness has run out by then, and leaves the second.\<close>

theorem process_watermark_fires_due_witness:
  "\<exists>st1 st2. WindowCount_ProcessElement \<lparr>Key = [1], Value = [], EventTime = 12\<rparr> example_window NewMemory =
      ((example_window, st1), None) \<and>
    timerSet (fireTimeOf example_window) st1 = {([1], 5), ([1], 10)} \<and> countOf st1 [1] 5 = Some 1 \<and>
    WindowCount_ProcessWatermark 18 example_window st1 =
      ((st2, [\<lparr>Key = [1], Value = encodeCount 1, EventTime = 14\<rparr>]), None) \<and>
    timerSet (fireTimeOf example_window) st2 = {([1], 10)} \<and>
    countOf st2 [1] 5 = None \<and> countOf st2 [1] 10 = Some 1 \<and> currentWatermark st2 = Inr 18"
proof -
  let ?r = "\<lparr>Key = [1], Value = [], EventTime = 12\<rparr>" and ?w = example_window
  have ws: "set (windowsFor ?w 12) = {5, 10}" "filter (isPurged ?w minInt64) (windowsFor ?w 12) = []"
    "\<not> isPurged ?w minInt64 5" "\<not> isPurged ?w minInt64 10" "isPurged ?w 18 5" "\<not> isPurged ?w 18 10"
    "fireTimeOf ?w 5 = 14" "fireTimeOf ?w 10 = 19"
    by code_simp+
  have new: "currentWatermark NewMemory = Inr minInt64" "timerSet f NewMemory = {}" "countOf NewMemory k s = None" for f k s
    by (simp_all add: currentWatermark_def minWatermark_def timerSet_def countOf_def)
  have pairs: "{([1 :: byte], s) |s. (s = 5 \<or> s = 10) \<and> \<not> isPurged ?w minInt64 s} = {([1], 5), ([1], 10)}" using ws(3,4) by blast
  obtain st1 where st1: "WindowCount_ProcessElement ?r ?w NewMemory = ((?w, st1), None)" "Window_inv ?w st1"
    "timerSet (fireTimeOf ?w) st1 = {([1], 5), ([1], 10)}" "countOf st1 [1] 5 = Some 1" "countOf st1 [1] 10 = Some 1"
    using process_element_counts [OF example_window_ok windowed_inv_new new(1), of ?r] ws(1-4) new(2,3)
    by (auto simp: countOr0_def pairs)
  obtain st2 ds where st2: "WindowCount_ProcessWatermark 18 ?w st1 =
      ((st2, map (\<lambda>ks. emitCount ?w ks (countOr0 st1 (fst ks) (snd ks))) ds), None)"
    "distinct ds" "set ds = {(key, s) \<in> timerSet (fireTimeOf ?w) st1. fireTimeOf ?w s \<le>s 18}"
    "currentWatermark st2 = Inr 18" "\<forall>key s. countOf st2 key s = (if isPurged ?w 18 s then None else countOf st1 key s)"
    "timerSet (fireTimeOf ?w) st2 = timerSet (fireTimeOf ?w) st1 - set ds"
    using process_watermark_fires_due [OF example_window_ok st1(2), of 18] by blast
  have le: "fireTimeOf ?w 5 \<le>s 18" "\<not> fireTimeOf ?w 10 \<le>s 18" by code_simp+
  have due: "set ds = {([1], 5)}" unfolding st2(3) st1(3) using le by blast
  have "length ds = 1" using distinct_card [OF st2(2)] by (simp add: due)
  then obtain x where "ds = [x]" by (auto simp: length_Suc_conv)
  then have "ds = [([1], 5)]" using due by simp
  then show ?thesis
    using st1 st2 ws by (intro exI [of _ st1] exI [of _ st2]) (auto simp: emitCount_def countOr0_def)
qed

end
