(* ===== verification/Oracle.thy ===== *)
theory Oracle
  imports Window
begin

text \<open>
  \<open>test/oracle/oracle.go\<close>: the batch count the engine is validated against, and the theorem
  that the streaming operator agrees with it. The oracle keeps a Go map from (key, window
  start) to a count; its arithmetic wraps where the operator's saturates.
\<close>

section \<open>The batch oracle\<close>

record Spec =
  Spec_Size :: int64
  Spec_Slide :: int64

text \<open>\<open>true\<close> is the nil error.\<close>

definition Spec_check :: "Spec \<Rightarrow> bool" where
  "Spec_check s \<longleftrightarrow>
     (if Spec_Size s \<le>s 0 then False
      else if Spec_Slide s \<le>s 0 then False
      else go_rem (Spec_Size s) (Spec_Slide s) = 0)"

definition oracle_floorMod :: "int64 \<Rightarrow> int64 \<Rightarrow> int64" where
  "oracle_floorMod a b = (let m = go_rem a b in if m <s 0 then m + b else m)"

type_synonym counts = "bytes \<times> int64 \<rightharpoonup> int64"

fun accumulateLoop :: "nat \<Rightarrow> bytes \<Rightarrow> int64 \<Rightarrow> int64 \<Rightarrow> counts \<Rightarrow> counts" where
  "accumulateLoop 0 key slide start cs = cs"
| "accumulateLoop (Suc n) key slide start cs =
     accumulateLoop n key slide (start - slide)
       (cs((key, start) \<mapsto> (case cs (key, start) of None \<Rightarrow> 0 | Some c \<Rightarrow> c) + 1))"

definition accumulate :: "Spec \<Rightarrow> Record \<Rightarrow> counts \<Rightarrow> counts" where
  "accumulate spec rec cs =
     accumulateLoop (nat (sint (go_div (Spec_Size spec) (Spec_Slide spec)))) (Key rec) (Spec_Slide spec)
       (EventTime rec - oracle_floorMod (EventTime rec) (Spec_Slide spec)) cs"

definition countRecords :: "Record list \<Rightarrow> Spec \<Rightarrow> counts option" where
  "countRecords recs spec =
     (if \<not> Spec_check spec then None else Some (fold (accumulate spec) recs Map.empty))"

section \<open>Tallies\<close>

text \<open>How many of a list of records fall in a window of a key, as the wrapping \<open>int64\<close> both
  sides keep.\<close>

definition falls :: "WindowCount \<Rightarrow> bytes \<times> int64 \<Rightarrow> Record \<Rightarrow> bool" where
  "falls w ks r \<longleftrightarrow> Key r = fst ks \<and> snd ks \<in> set (windowsFor w (EventTime r))"

definition tally :: "WindowCount \<Rightarrow> Record list \<Rightarrow> bytes \<times> int64 \<Rightarrow> int64" where
  "tally w rs ks = of_nat (length (filter (falls w ks) rs))"

definition touched :: "WindowCount \<Rightarrow> Record list \<Rightarrow> (bytes \<times> int64) set" where
  "touched w rs = {ks. \<exists>r \<in> set rs. falls w ks r}"

lemma tally_snoc: "tally w (rs @ [r]) ks = tally w rs ks + of_bool (falls w ks r)"
  by (simp add: tally_def)

lemma touched_snoc: "touched w (rs @ [r]) = touched w rs \<union> {ks. falls w ks r}"
  by (auto simp: touched_def)

lemma tally_untouched: "ks \<notin> touched w rs \<Longrightarrow> tally w rs ks = 0"
  by (simp add: tally_def touched_def filter_empty_conv)

lemma falls_dropped [simp]: "falls (w\<lparr>w_dropped := d\<rparr>) = falls w"
  by (simp add: falls_def fun_eq_iff)

text \<open>The oracle counts into the same windows as the operator, away from the least \<open>int64\<close>.\<close>

lemma accumulateLoop_eq:
  assumes "0 < sint slide" "- 9223372036854775808 \<le> sint start - (int n - 1) * sint slide"
  shows "accumulateLoop n key slide start cs =
    (\<lambda>ks. if fst ks = key \<and> snd ks \<in> set (windowsLoop n slide start)
      then Some ((case cs ks of None \<Rightarrow> 0 | Some c \<Rightarrow> c) + 1) else cs ks)"
  using assms(2)
proof (induction n arbitrary: start cs)
  case (Suc n)
  show ?case
  proof (cases n)
    case (Suc k)
    have "sint start - int n * sint slide \<le> sint start - sint slide"
      using assms(1) Suc by (simp add: algebra_simps)
    moreover have "- 9223372036854775808 \<le> sint start - int n * sint slide"
      using Suc.prems by simp
    ultimately have ge: "- 9223372036854775808 \<le> sint start - sint slide" by linarith
    then have d: "sint (start - slide) = sint start - sint slide"
      using assms(1) sint64_bounds [of start] by (simp add: sint64_diff)
    have "start - slide = subFloor start slide"
      using assms(1) ge by (intro sint64_eqI) (simp add: d saturating)
    moreover from this have ne: "subFloor start slide \<noteq> start" using d assms(1) by auto
    moreover have "start \<notin> set (windowsLoop n slide (subFloor start slide))"
      using windowsLoop_less [OF assms(1), of start n "subFloor start slide"] d assms(1)
        \<open>start - slide = subFloor start slide\<close> by auto
    moreover have "- 9223372036854775808 \<le> sint (start - slide) - (int n - 1) * sint slide"
      using Suc.prems d by (simp add: algebra_simps)
    ultimately show ?thesis
      using Suc.IH [of "start - slide"] by (auto simp: fun_eq_iff Let_def)
  qed (auto simp: fun_eq_iff Let_def split: if_splits)
qed simp

definition inRange :: "WindowCount \<Rightarrow> Record \<Rightarrow> bool" where
  "inRange w r \<longleftrightarrow> - (2 ^ 63) \<le> sint (EventTime r) - (sint (w_size w) - 1)"

lemma accumulate_eq:
  assumes ok: "WindowCount_ok w" and r: "inRange w r"
    and spec: "spec = \<lparr>Spec_Size = w_size w, Spec_Slide = w_slide w\<rparr>"
  shows "accumulate spec r cs =
    (\<lambda>ks. if falls w ks r then Some ((case cs ks of None \<Rightarrow> 0 | Some c \<Rightarrow> c) + 1) else cs ks)"
proof -
  let ?d = "sint (w_slide w)" and ?z = "sint (w_size w)" and ?t = "sint (EventTime r)"
  let ?start = "subFloor (EventTime r) (floorMod (EventTime r) (w_slide w))"
  have d: "0 < ?d" "0 < ?z" "?d dvd ?z" using ok by (simp_all add: WindowCount_ok_def)
  define n where "n = nat (?z div ?d)"
  have n: "(int n - 1) * ?d = ?z - ?d"
    using d by (simp add: n_def pos_imp_zdiv_nonneg_iff algebra_simps)
  have md: "0 \<le> ?t mod ?d" "?t mod ?d < ?d" using d by auto
  have lo: "- 9223372036854775808 \<le> ?t - (?z - 1)" using r by (simp add: inRange_def)
  have ge: "- 9223372036854775808 \<le> ?t - ?t mod ?d" using lo md zdvd_imp_le [OF d(3,2)] by linarith
  then have st: "sint ?start = ?t - ?t mod ?d" using d md by (simp add: saturating)
  have fm: "oracle_floorMod = floorMod" by (simp add: fun_eq_iff oracle_floorMod_def floorMod_def)
  have "sint (EventTime r - floorMod (EventTime r) (w_slide w)) = ?t - ?t mod ?d"
    using ge d md sint64_bounds [of "EventTime r"] by (simp add: sint64_diff saturating)
  then have "EventTime r - floorMod (EventTime r) (w_slide w) = ?start"
    using st by (intro sint64_eqI) simp
  moreover have "- 9223372036854775808 \<le> sint ?start - (int n - 1) * ?d"
    using st n lo md by linarith
  ultimately show ?thesis
    using accumulateLoop_eq [OF d(1), of ?start n "Key r" cs] d
    by (auto simp: accumulate_def spec fm falls_def windowsFor_def sint64_div_nonneg n_def fun_eq_iff)
qed

lemma countRecords_eq:
  assumes ok: "WindowCount_ok w" and rs: "\<forall>r \<in> set rs. inRange w r"
    and spec: "spec = \<lparr>Spec_Size = w_size w, Spec_Slide = w_slide w\<rparr>"
  shows "countRecords rs spec =
    Some (\<lambda>ks. if ks \<in> touched w rs then Some (tally w rs ks) else None)"
proof -
  have "Spec_check spec"
    using ok by (auto simp: Spec_check_def spec WindowCount_ok_def word_sle_eq go_rem_eq_0)
  moreover have "fold (accumulate spec) rs Map.empty =
      (\<lambda>ks. if ks \<in> touched w rs then Some (tally w rs ks) else None)"
    using rs
  proof (induction rs rule: rev_induct)
    case (snoc r rs)
    then show ?case
      by (auto simp: accumulate_eq [OF ok _ spec] fun_eq_iff tally_snoc touched_snoc tally_untouched)
  qed (simp add: touched_def fun_eq_iff)
  ultimately show ?thesis by (simp add: countRecords_def)
qed

section \<open>A stream through the operator\<close>

lemma windowsLoop_contains:
  assumes "0 < sint slide" "s \<in> set (windowsLoop n slide start)"
  shows "sint start \<le> sint s + (int n - 1) * sint slide"
  using assms(2)
proof (induction n arbitrary: start)
  case (Suc n)
  have p: "0 \<le> int n * sint slide" using assms(1) by simp
  show ?case
  proof (cases "s = start")
    case False
    then have "s \<in> set (windowsLoop n slide (subFloor start slide))"
      using Suc.prems by (auto simp: Let_def split: if_splits)
    from Suc.IH [OF this] have "sint start - sint slide \<le> sint s + (int n - 1) * sint slide"
      using assms(1) by (simp add: saturating)
    then show ?thesis by (simp add: algebra_simps)
  qed (use p in simp)
qed simp

text \<open>A window never fires before the last instant it contains.\<close>

lemma windowsFor_fire:
  assumes ok: "WindowCount_ok w" and s: "s \<in> set (windowsFor w t)"
  shows "sint t \<le> sint (fireTimeOf w s)"
proof -
  let ?d = "sint (w_slide w)" and ?z = "sint (w_size w)"
  have d: "0 < ?d" "0 < ?z" "?d dvd ?z" using ok by (simp_all add: WindowCount_ok_def)
  let ?start = "subFloor t (floorMod t (w_slide w))"
  have "sint ?start \<le> sint s + (int (nat (?z div ?d)) - 1) * ?d"
    by (rule windowsLoop_contains [OF d(1)]) (use s d in \<open>simp add: windowsFor_def sint64_div_nonneg\<close>)
  moreover have "(int (nat (?z div ?d)) - 1) * ?d = ?z - ?d"
    using d by (simp add: pos_imp_zdiv_nonneg_iff algebra_simps)
  moreover have "sint t - sint t mod ?d \<le> sint ?start" "sint t mod ?d < ?d"
    using d by (simp_all add: saturating)
  ultimately have "sint t \<le> sint s + ?z - 1" by linarith
  then show ?thesis using sint64_bounds [of t] by (simp add: sint_fireTimeOf [OF ok])
qed

definition countAdd :: "Record \<Rightarrow> int64 option \<Rightarrow> int64" where
  "countAdd r a = (case a of None \<Rightarrow> 1 | Some c \<Rightarrow> c + 1)"

lemma aggregate_tally:
  "aggregate (falls w) countAdd rs ks = (if ks \<in> touched w rs then Some (tally w rs ks) else None)"
proof (induction rs rule: rev_induct)
  case (snoc r rs)
  then show ?case by (auto simp: aggregate_snoc countAdd_def tally_snoc touched_snoc tally_untouched)
qed (simp add: touched_def)

lemma aggOf_count: "aggOf (be_get 8) st ks = countOf st (fst ks) (snd ks)"
  by (simp add: aggOf_def countOf_def)

lemma count_element:
  assumes ok: "WindowCount_ok w" and inv: "Window_inv w st" and wm: "loadWatermark st = Inr wm"
    and np: "\<And>ks. falls w ks r \<Longrightarrow> \<not> isPurged w wm (snd ks)"
  shows "\<exists>st'. WindowCount_ProcessElement r w st = ((w, st'), None) \<and> Window_inv w st' \<and> loadWatermark st' = Inr wm \<and>
    (\<forall>ks. countOf st' (fst ks) (snd ks) =
      (if falls w ks r then Some (countAdd r (countOf st (fst ks) (snd ks))) else countOf st (fst ks) (snd ks))) \<and>
    timerSet (fireTimeOf w) st' = timerSet (fireTimeOf w) st \<union> {ks. falls w ks r}"
proof -
  let ?ws = "windowsFor w (EventTime r)"
  have np': "\<not> isPurged w wm s" if "s \<in> set ?ws" for s
    using that np [of "(Key r, s)"] by (simp add: falls_def)
  then have none: "filter (isPurged w wm) ?ws = []" by (simp add: filter_empty_conv)
  obtain st' where st': "WindowCount_ProcessElement r w st = ((w, st'), None)" "Window_inv w st'" "loadWatermark st' = Inr wm"
    "\<And>key s. countOf st' key s = (if key = Key r \<and> s \<in> set ?ws \<and> \<not> isPurged w wm s
        then Some (countOr0 st (Key r) s + 1) else countOf st key s)"
    "timerSet (fireTimeOf w) st' = timerSet (fireTimeOf w) st \<union> {(Key r, s) |s. s \<in> set ?ws \<and> \<not> isPurged w wm s}"
    using countInto_eq [OF inv distinct_windowsFor [OF ok], of "EventTime r" wm "Key r"] wm
    by (auto simp: WindowCount_ProcessElement_def own_copies none)
  have "{(Key r, s) |s. s \<in> set ?ws \<and> \<not> isPurged w wm s} = {ks. falls w ks r}"
    using np' by (auto simp: falls_def)
  moreover have "countOf st' (fst ks) (snd ks) =
      (if falls w ks r then Some (countAdd r (countOf st (fst ks) (snd ks))) else countOf st (fst ks) (snd ks))" for ks
    using np' by (auto simp: st'(4) falls_def countOr0_def countAdd_def split: option.split)
  ultimately show ?thesis using st'(1-3) st'(5) by auto
qed

interpretation wcs: windowed_stream WindowCount_ok fireTimeOf isPurged WindowCount_operator "\<lambda>w w'. w' = w" 8
  "be_get 8 :: bytes \<Rightarrow> int64" falls countAdd emitCount "\<lambda>r. True"
proof (unfold_locales, goal_cases)
  case (1 w ks r)
  then show ?case by (simp add: falls_def word_sle_eq windowsFor_fire)
next
  case (2 w wm s t)
  then show ?case by (simp add: isPurged_iff word_sle_eq)
next
  case (3 w op st wm r)
  then show ?case using count_element [OF 3(1,3,4), of r] 3(6)
    by (auto simp: WindowCount_operator_def aggOf_count)
next
  case (4 w op st wm)
  let ?emit = "\<lambda>ks. emitCount w ks (countOr0 st (fst ks) (snd ks))"
  obtain st' ds where r: "WindowCount_ProcessWatermark wm w st = ((st', map ?emit ds), None)"
    "distinct ds" "set ds = dueSet (fireTimeOf w) wm st" "Window_inv w st'" "loadWatermark st' = Inr wm"
    "\<forall>key s. countOf st' key s = (if isPurged w wm s then None else countOf st key s)"
    "timerSet (fireTimeOf w) st' = timerSet (fireTimeOf w) st - set ds"
    using ProcessWatermark_eq [OF 4(1,3), of wm] by blast
  have "countOr0 st (fst ks) (snd ks) = the (countOf st (fst ks) (snd ks))" if "ks \<in> set ds" for ks
    using that windowed_inv_timer [OF 4(3), of "fst ks" "snd ks"] by (auto simp: r(3) dueSet_def countOr0_def countOf_def)
  then have "map ?emit ds = map (\<lambda>ks. emitCount w ks (the (aggOf (be_get 8) st ks))) ds" by (simp add: aggOf_count)
  then have "op_ProcessWatermark WindowCount_operator wm op st =
      ((op, st', map (\<lambda>ks. emitCount w ks (the (aggOf (be_get 8) st ks))) ds), None)"
    using r(1) 4(2) by (simp add: WindowCount_operator_def)
  then show ?case using r(2-) by (intro exI [of _ st'] exI [of _ ds]) (simp add: aggOf_count)
qed

lemma count_fires_once:
  assumes "WindowCount_ok w" "nonlate minInt64 es" "lastWatermark minInt64 es = maxInt64"
  shows "\<exists>st' ds. feed WindowCount_operator es w NewMemory =
      (map (\<lambda>ks. emitCount w ks (tally w (recordsOf es) ks)) ds, (w, st'), None) \<and>
    distinct ds \<and> set ds = touched w (recordsOf es) \<and> timerSet (fireTimeOf w) st' = {}"
proof -
  have "list_all (\<lambda>r. True) (recordsOf es)" by (simp add: list_all_iff)
  from wcs.fires_once [OF assms(1) refl assms(2,3) this] obtain st' ds where
    run: "feed WindowCount_operator es w NewMemory =
      (map (\<lambda>ks. emitCount w ks (the (aggregate (falls w) countAdd (recordsOf es) ks))) ds, (w, st'), None)"
    and ds: "distinct ds" "set ds = {ks. aggregate (falls w) countAdd (recordsOf es) ks \<noteq> None}"
    and st': "timerSet (fireTimeOf w) st' = {}" by blast
  have "set ds = touched w (recordsOf es)" by (auto simp: ds(2) aggregate_tally split: if_splits)
  moreover from this have "map (\<lambda>ks. emitCount w ks (the (aggregate (falls w) countAdd (recordsOf es) ks))) ds =
      map (\<lambda>ks. emitCount w ks (tally w (recordsOf es) ks)) ds" by (simp add: aggregate_tally)
  ultimately show ?thesis using run ds(1) st' by (intro exI [of _ st'] exI [of _ ds]) (simp only: simp_thms)
qed

section \<open>Properties of a stream\<close>

text \<open>C3. Every window fires exactly once, with its complete count: a stream whose records are all
  ahead of the watermark, from a fresh state to a final watermark of the greatest \<open>int64\<close>, is
  processed without error and without a drop, and the records emitted are one for each (key,
  window) that some record fell in, each carrying the number of records that fell there.\<close>

theorem every_window_fires_once:
  assumes "WindowCount_ok w" "nonlate minInt64 es" "lastWatermark minInt64 es = maxInt64"
  shows "\<exists>st' ds. feed WindowCount_operator es w NewMemory =
      (map (\<lambda>ks. emitCount w ks (tally w (recordsOf es) ks)) ds, (w, st'), None) \<and>
    distinct ds \<and> set ds = touched w (recordsOf es) \<and> timerSet (fireTimeOf w) st' = {}"
  by (rule count_fires_once [OF assms])

definition example_stream :: "StreamElement list" where
  "example_stream = [RecordElement \<lparr>Key = [1], Value = [], EventTime = 12\<rparr>, WatermarkElement 11,
     RecordElement \<lparr>Key = [1], Value = [], EventTime = 13\<rparr>, WatermarkElement maxInt64]"

lemma example_stream_simps:
  "nonlate minInt64 example_stream" "lastWatermark minInt64 example_stream = maxInt64"
  "recordsOf example_stream =
    [\<lparr>Key = [1], Value = [], EventTime = 12\<rparr>, \<lparr>Key = [1], Value = [], EventTime = 13\<rparr>]"
  by (simp_all add: example_stream_def minInt64_def maxInt64_def)

theorem every_window_fires_once_witness:
  "\<exists>st' ds. feed WindowCount_operator example_stream example_window NewMemory =
      (map (\<lambda>ks. emitCount example_window ks (tally example_window (recordsOf example_stream) ks)) ds,
       (example_window, st'), None) \<and>
    distinct ds \<and> set ds = touched example_window (recordsOf example_stream)"
  using every_window_fires_once [OF example_window_ok example_stream_simps(1,2)] by blast

text \<open>C2. The stream agrees with the batch oracle: on such a stream, the records the operator emits
  are, read as a map from (key, window start), the counts \<open>Count\<close> of the oracle computes over
  the same records, each reported once. The oracle wraps below the least \<open>int64\<close>, so the
  records are required to lie a window above it.\<close>

theorem stream_matches_oracle:
  assumes "WindowCount_ok w" "nonlate minInt64 es" "lastWatermark minInt64 es = maxInt64"
    and "list_all (inRange w) (recordsOf es)"
  shows "\<exists>st' ds cs. feed WindowCount_operator es w NewMemory = (map (\<lambda>ks. emitCount w ks (the (cs ks))) ds, (w, st'), None) \<and>
    countRecords (recordsOf es) \<lparr>Spec_Size = w_size w, Spec_Slide = w_slide w\<rparr> = Some cs \<and>
    distinct ds \<and> set ds = dom cs"
proof -
  let ?cs = "\<lambda>ks. if ks \<in> touched w (recordsOf es) then Some (tally w (recordsOf es) ks) else None"
  obtain st' ds where run: "feed WindowCount_operator es w NewMemory =
      (map (\<lambda>ks. emitCount w ks (tally w (recordsOf es) ks)) ds, (w, st'), None)"
    "distinct ds" "set ds = touched w (recordsOf es)"
    using count_fires_once [OF assms(1-3)] by blast
  moreover have "countRecords (recordsOf es) \<lparr>Spec_Size = w_size w, Spec_Slide = w_slide w\<rparr> = Some ?cs"
    by (rule countRecords_eq [OF assms(1) _ refl]) (use assms(4) in \<open>simp add: list_all_iff\<close>)
  moreover have "dom ?cs = touched w (recordsOf es)" by (auto simp: dom_def)
  ultimately show ?thesis
    by (intro exI [of _ st'] exI [of _ ds] exI [of _ ?cs]) simp
qed

theorem stream_matches_oracle_witness:
  "\<exists>st' ds cs. feed WindowCount_operator example_stream example_window NewMemory =
      (map (\<lambda>ks. emitCount example_window ks (the (cs ks))) ds, (example_window, st'), None) \<and>
    countRecords (recordsOf example_stream) \<lparr>Spec_Size = 10, Spec_Slide = 5\<rparr> = Some cs \<and>
    distinct ds \<and> set ds = dom cs"
proof -
  have "list_all (inRange example_window) (recordsOf example_stream)"
    by (simp add: example_stream_simps(3) inRange_def example_window_def)
  from stream_matches_oracle [OF example_window_ok example_stream_simps(1,2) this]
  show ?thesis by (simp add: example_window_def)
qed

end
