(* ===== verification/Operator_Task.thy ===== *)
theory Operator_Task
  imports Serialize Oracle Subtask
begin

text \<open>
  The subtask of an operator in \<open>pkg/runtime/subtask.go\<close>: its context, its loop over the elements
  the gate delivers, and its snapshots. The operator is a table of methods.
\<close>

section \<open>The context of an operator\<close>

record 'e opContext =
  oc_writer :: 'e
  oc_watermark :: int64
  oc_err :: "go_error option"
  oc_state :: Memory

definition newOpContextWithState :: "'e \<Rightarrow> Memory \<Rightarrow> 'e opContext" where
  "newOpContextWithState w st = \<lparr>oc_writer = w, oc_watermark = minInt64, oc_err = None, oc_state = st\<rparr>"

definition newOpContext :: "'e \<Rightarrow> 'e opContext" where
  "newOpContext w = newOpContextWithState w NewMemory"

definition Emit :: "'e outlet \<Rightarrow> Record \<Rightarrow> 'e opContext \<Rightarrow> 'e opContext" where
  "Emit ol rec c =
     (if oc_err c \<noteq> None then c
      else case ol_EmitRecord ol rec (oc_writer c) of (w, e) \<Rightarrow> c\<lparr>oc_writer := w, oc_err := e\<rparr>)"

definition takeErr :: "'e opContext \<Rightarrow> 'e opContext \<times> go_error option" where
  "takeErr c =
     (c\<lparr>oc_err := None\<rparr>, case oc_err c of Some e \<Rightarrow> Some e | None \<Rightarrow> Memory_Err (oc_state c))"

section \<open>The loop\<close>

text \<open>The call of a method, the records it emits, and the check that follows every call.\<close>

definition invoke ::
  "'e outlet \<Rightarrow> (Memory \<Rightarrow> ('o \<times> Memory \<times> Record list) \<times> go_error option) \<Rightarrow> 'e opContext \<Rightarrow> ('o \<times> 'e opContext) \<times> go_error option" where
  "invoke ol meth oc =
     (case meth (oc_state oc) of
        ((op, st, out), err) \<Rightarrow>
          (let oc1 = fold (Emit ol) out (oc\<lparr>oc_state := st\<rparr>)
           in case err of
                Some e \<Rightarrow> ((op, oc1), Some e)
              | None \<Rightarrow> (case takeErr oc1 of (oc2, e) \<Rightarrow> ((op, oc2), e))))"

definition broadcast :: "'e outlet \<Rightarrow> StreamElement \<Rightarrow> 'e opContext \<Rightarrow> 'e opContext \<times> go_error option" where
  "broadcast ol e oc = (case ol_Broadcast ol e (oc_writer oc) of (w, err) \<Rightarrow> (oc\<lparr>oc_writer := w\<rparr>, err))"

definition snapshotOperatorState :: "'c checkpointer \<Rightarrow> int64 \<Rightarrow> Memory \<Rightarrow> 'c \<Rightarrow> 'c \<times> go_error option" where
  "snapshotOperatorState cp i st c =
     (if \<not> cp_enabled cp then (c, None)
      else case WriteTo Buffer_Write st [] of
          Inl e \<Rightarrow> (cp_fail cp i c, Some e)
        | Inr buf \<Rightarrow> cp_snapshot cp i buf c)"

text \<open>\<open>fin\<close> is what the loop returns when the gate delivers no more: the error of the gate, or that of
  the context.\<close>

fun runOperatorLoop ::
  "'o Operator \<Rightarrow> 'e outlet \<Rightarrow> 'c checkpointer \<Rightarrow> faults \<Rightarrow> go_error option \<Rightarrow> StreamElement list \<Rightarrow>
   int64 \<Rightarrow> 'o \<Rightarrow> 'e opContext \<Rightarrow> 'c \<Rightarrow> ('o \<times> 'e opContext \<times> 'c) \<times> go_error option" where
  "runOperatorLoop OP ol cp fs fin [] elements op oc c = ((op, oc, c), fin)"
| "runOperatorLoop OP ol cp fs fin (RecordElement rec # es) elements op oc c =
     (case beforeElement fs elements of
        Some e \<Rightarrow> ((op, oc, c), Some e)
      | None \<Rightarrow>
          (case invoke ol (op_ProcessElement OP rec op) oc of
             ((op1, oc1), Some e) \<Rightarrow> ((op1, oc1, c), Some e)
           | ((op1, oc1), None) \<Rightarrow> runOperatorLoop OP ol cp fs fin es (elements + 1) op1 oc1 c))"
| "runOperatorLoop OP ol cp fs fin (WatermarkElement wm # es) elements op oc c =
     (case invoke ol (op_ProcessWatermark OP wm op) (oc\<lparr>oc_watermark := wm\<rparr>) of
        ((op1, oc1), Some e) \<Rightarrow> ((op1, oc1, c), Some e)
      | ((op1, oc1), None) \<Rightarrow>
          (case broadcast ol (WatermarkElement wm) oc1 of
             (oc2, Some e) \<Rightarrow> ((op1, oc2, c), Some e)
           | (oc2, None) \<Rightarrow> runOperatorLoop OP ol cp fs fin es elements op1 oc2 c))"
| "runOperatorLoop OP ol cp fs fin (EndOfStreamElement # es) elements op oc c =
     (case invoke ol (op_OnEndOfStream OP op) oc of
        ((op1, oc1), Some e) \<Rightarrow> ((op1, oc1, c), Some e)
      | ((op1, oc1), None) \<Rightarrow> (case broadcast ol EndOfStreamElement oc1 of (oc2, err) \<Rightarrow> ((op1, oc2, c), err)))"
| "runOperatorLoop OP ol cp fs fin (BarrierElement b # es) elements op oc c =
     (case snapshotOperatorState cp (CheckpointID b) (oc_state oc) c of
        (c1, Some e) \<Rightarrow> ((op, oc, c1), Some e)
      | (c1, None) \<Rightarrow>
          (case broadcast ol (BarrierElement b) oc of
             (oc1, Some e) \<Rightarrow> ((op, oc1, c1), Some e)
           | (oc1, None) \<Rightarrow>
               (case afterBarrierForwarded fs (CheckpointID b) of
                  Some e \<Rightarrow> ((op, oc1, c1), Some e)
                | None \<Rightarrow> runOperatorLoop OP ol cp fs fin es elements op oc1 c1)))"
| "runOperatorLoop OP ol cp fs fin (UnknownElement k # es) elements op oc c =
     ((op, oc, c), Some (RuntimeErr errUnexpectedElement))"

text \<open>The part between \<open>Open\<close> and the deferred \<open>Close\<close>. A subtask that is restored has a payload.\<close>

definition runOperatorOpened ::
  "'o Operator \<Rightarrow> 'o \<Rightarrow> 'e outlet \<Rightarrow> 'c checkpointer \<Rightarrow> faults \<Rightarrow> bytes option \<Rightarrow> go_error option \<Rightarrow> StreamElement list \<Rightarrow>
   'e opContext \<Rightarrow> 'c \<Rightarrow> ('o \<times> 'e opContext \<times> 'c) \<times> go_error option" where
  "runOperatorOpened OP op ol cp fs restore fin es oc c =
     (case restore of
        None \<Rightarrow> runOperatorLoop OP ol cp fs fin es 0 op oc c
      | Some payload \<Rightarrow>
          (case ReadFrom (oc_state oc) payload of
             (st, Some e) \<Rightarrow> ((op, oc\<lparr>oc_state := st\<rparr>, c), Some e)
           | (st, None) \<Rightarrow> runOperatorLoop OP ol cp fs fin es 0 op (oc\<lparr>oc_state := st\<rparr>) c))"

text \<open>\<open>makeState\<close> gives the in-memory backend, which cannot fail and has nothing to close.\<close>

definition runOperatorSubtask ::
  "'o Operator \<Rightarrow> 'o \<Rightarrow> 'e outlet \<Rightarrow> 'c checkpointer \<Rightarrow> faults \<Rightarrow> bytes option \<Rightarrow> go_error option \<Rightarrow> StreamElement list \<Rightarrow>
   'e \<Rightarrow> 'c \<Rightarrow> ('o \<times> 'e opContext \<times> 'c) \<times> go_error option" where
  "runOperatorSubtask OP op ol cp fs restore fin es w c =
     (let oc = newOpContext w
      in case op_Open OP (Some (oc_state oc)) op of
           (op1, Some e) \<Rightarrow> ((op1, oc, c), Some e)
         | (op1, None) \<Rightarrow>
             (case runOperatorOpened OP op1 ol cp fs restore fin es oc c of
                ((op2, oc2, c2), err) \<Rightarrow>
                  ((op2, oc2, c2), if op_Close OP op2 \<noteq> None \<and> err = None then op_Close OP op2 else err)))"

section \<open>Operators whose memory is their state\<close>

text \<open>Two backends with the same contents.\<close>

definition sameState :: "Memory \<Rightarrow> Memory \<Rightarrow> bool" where
  "sameState m m' \<longleftrightarrow> Memory_inv m \<and> Memory_inv m' \<and> Memory_Get m = Memory_Get m'"

lemma sameState_scan: "sameState m m' \<Longrightarrow> Memory_scan m = Memory_scan m'"
  by (simp add: sameState_def mem.scan_determined)

lemma sameState_put [simp]: "sameState m m' \<Longrightarrow> sameState (Memory_Put k v m) (Memory_Put k v m')"
  by (simp add: sameState_def)

lemma sameState_del [simp]: "sameState m m' \<Longrightarrow> sameState (Memory_Delete k m) (Memory_Delete k m')"
  by (simp add: sameState_def)

lemma sameState_get: "sameState m m' \<Longrightarrow> Memory_Get m = Memory_Get m'"
  by (simp add: sameState_def)

text \<open>The contract: what a method returns and emits is determined by the contents of the state and by
  the part of the operator that \<open>same\<close> compares.\<close>

definition agrees ::
  "('o \<Rightarrow> 'o \<Rightarrow> bool) \<Rightarrow> ('o \<times> Memory \<times> Record list) \<times> go_error option \<Rightarrow> ('o \<times> Memory \<times> Record list) \<times> go_error option \<Rightarrow> bool" where
  "agrees same a b \<longleftrightarrow> (case (a, b) of (((op, m, out), err), ((op', m', out'), err')) \<Rightarrow>
     same op op' \<and> sameState m m' \<and> out = out' \<and> err = err')"

locale state_operator =
  fixes OP :: "'o Operator" and same :: "'o \<Rightarrow> 'o \<Rightarrow> bool"
  assumes same_equiv: "equivp same"
    and element: "same op op' \<Longrightarrow> sameState m m' \<Longrightarrow>
      agrees same (op_ProcessElement OP rec op m) (op_ProcessElement OP rec op' m')"
    and watermark: "same op op' \<Longrightarrow> sameState m m' \<Longrightarrow>
      agrees same (op_ProcessWatermark OP wm op m) (op_ProcessWatermark OP wm op' m')"
    and end_of_stream: "same op op' \<Longrightarrow> sameState m m' \<Longrightarrow>
      agrees same (op_OnEndOfStream OP op m) (op_OnEndOfStream OP op' m')"
    and kept: "same op (fst (fst (op_ProcessElement OP rec op m)))"
      "same op (fst (fst (op_ProcessWatermark OP wm op m)))"
      "same op (fst (fst (op_OnEndOfStream OP op m)))"
    and opens: "op_Open OP (Some m) op = (op, None)"
    and closes: "op_Close OP op = None"
begin

lemma opened:
  "runOperatorSubtask OP op ol cp fs restore fin es w c = runOperatorOpened OP op ol cp fs restore fin es (newOpContext w) c"
  by (simp add: runOperatorSubtask_def opens closes Let_def split: prod.split)

definition alike :: "'o \<Rightarrow> 'e opContext \<Rightarrow> 'o \<Rightarrow> 'e opContext \<Rightarrow> bool" where
  "alike op oc op' oc' \<longleftrightarrow> same op op' \<and> sameState (oc_state oc) (oc_state oc') \<and>
     oc_writer oc = oc_writer oc' \<and> oc_err oc = oc_err oc'"

definition alike_result ::
  "('o \<times> 'e opContext \<times> 'c) \<times> go_error option \<Rightarrow> ('o \<times> 'e opContext \<times> 'c) \<times> go_error option \<Rightarrow> bool" where
  "alike_result a b \<longleftrightarrow> (case (a, b) of (((op, oc, c), err), ((op', oc', c'), err')) \<Rightarrow>
     alike op oc op' oc' \<and> c = c' \<and> err = err')"

lemma emit_alike: "alike op oc op' oc' \<Longrightarrow> alike op (fold (Emit ol) out oc) op' (fold (Emit ol) out oc')"
proof (induction out arbitrary: oc oc')
  case (Cons r out)
  have "alike op (Emit ol r oc) op' (Emit ol r oc')"
    using Cons.prems by (auto simp: alike_def Emit_def split: prod.splits)
  then show ?case using Cons.IH by simp
qed simp

lemma invoke_alike:
  assumes "agrees same (meth (oc_state oc)) (meth' (oc_state oc'))" "oc_writer oc = oc_writer oc'" "oc_err oc = oc_err oc'"
  shows "\<exists>op1 oc1 op1' oc1' e. invoke ol meth oc = ((op1, oc1), e) \<and> invoke ol meth' oc' = ((op1', oc1'), e) \<and>
    alike op1 oc1 op1' oc1'"
proof -
  obtain op m out e where r: "meth (oc_state oc) = ((op, m, out), e)" by (metis prod.exhaust)
  obtain op' m' out' e' where r': "meth' (oc_state oc') = ((op', m', out'), e')" by (metis prod.exhaust)
  have eq: "same op op'" "sameState m m'" "out' = out" "e' = e" using assms(1) r r' by (auto simp: agrees_def)
  have "alike op (oc\<lparr>oc_state := m\<rparr>) op' (oc'\<lparr>oc_state := m'\<rparr>)" using eq assms(2,3) by (simp add: alike_def)
  note out = emit_alike [OF this, of ol out]
  show ?thesis
    using out eq by (cases e) (auto simp: invoke_def r r' Let_def takeErr_def alike_def Memory_Err_def split: option.splits)
qed

lemma loop_alike:
  "alike op oc op' oc' \<Longrightarrow>
    alike_result (runOperatorLoop OP ol cp (noFaults si) fin es n op oc c) (runOperatorLoop OP ol cp (noFaults si) fin es n' op' oc' c)"
proof (induction es arbitrary: n n' op oc op' oc' c)
  case Nil
  then show ?case by (simp add: alike_result_def)
next
  case (Cons e es)
  have st: "same op op'" "sameState (oc_state oc) (oc_state oc')" "oc_writer oc = oc_writer oc'" "oc_err oc = oc_err oc'"
    using Cons.prems by (auto simp: alike_def)
  have bc: "alike p x p' x' \<Longrightarrow> \<exists>y y' er. broadcast ol el x = (y, er) \<and> broadcast ol el x' = (y', er) \<and> alike p y p' y'"
    for p x p' x' el by (auto simp: broadcast_def alike_def split: prod.splits)
  show ?case
  proof (cases e)
    case (RecordElement rec)
    obtain p1 x1 p1' x1' er where i: "invoke ol (op_ProcessElement OP rec op) oc = ((p1, x1), er)"
      "invoke ol (op_ProcessElement OP rec op') oc' = ((p1', x1'), er)" "alike p1 x1 p1' x1'"
      using invoke_alike [where meth = "op_ProcessElement OP rec op" and meth' = "op_ProcessElement OP rec op'",
          OF element [OF st(1,2)] st(3,4)] by blast
    show ?thesis
      using i Cons.IH [OF i(3)] by (cases er) (simp_all add: RecordElement alike_result_def)
  next
    case (WatermarkElement wm)
    obtain p1 x1 p1' x1' er where i: "invoke ol (op_ProcessWatermark OP wm op) (oc\<lparr>oc_watermark := wm\<rparr>) = ((p1, x1), er)"
      "invoke ol (op_ProcessWatermark OP wm op') (oc'\<lparr>oc_watermark := wm\<rparr>) = ((p1', x1'), er)" "alike p1 x1 p1' x1'"
      using invoke_alike [of "op_ProcessWatermark OP wm op" "oc\<lparr>oc_watermark := wm\<rparr>"
          "op_ProcessWatermark OP wm op'" "oc'\<lparr>oc_watermark := wm\<rparr>"] watermark [OF st(1,2)] st(3,4)
      by simp blast
    obtain y y' er2 where b: "broadcast ol (WatermarkElement wm) x1 = (y, er2)"
      "broadcast ol (WatermarkElement wm) x1' = (y', er2)" "alike p1 y p1' y'" using bc [OF i(3)] by blast
    show ?thesis
      using i b Cons.IH [OF b(3)] by (cases er; cases er2) (simp_all add: WatermarkElement alike_result_def)
  next
    case EndOfStreamElement
    obtain p1 x1 p1' x1' er where i: "invoke ol (op_OnEndOfStream OP op) oc = ((p1, x1), er)"
      "invoke ol (op_OnEndOfStream OP op') oc' = ((p1', x1'), er)" "alike p1 x1 p1' x1'"
      using invoke_alike [where meth = "op_OnEndOfStream OP op" and meth' = "op_OnEndOfStream OP op'",
          OF end_of_stream [OF st(1,2)] st(3,4)] by blast
    obtain y y' er2 where b: "broadcast ol EndOfStreamElement x1 = (y, er2)"
      "broadcast ol EndOfStreamElement x1' = (y', er2)" "alike p1 y p1' y'" using bc [OF i(3)] by blast
    show ?thesis using i b by (cases er) (simp_all add: EndOfStreamElement alike_result_def)
  next
    case (BarrierElement b)
    have "WriteTo Buffer_Write (oc_state oc) [] = WriteTo Buffer_Write (oc_state oc') []"
      using sameState_scan [OF st(2)] by (auto simp: WriteTo_def Memory_Err_def Let_def split: sum.splits)
    then have s: "snapshotOperatorState cp i (oc_state oc) c = snapshotOperatorState cp i (oc_state oc') c" for i
      by (simp add: snapshotOperatorState_def)
    obtain c1 er where r: "snapshotOperatorState cp (CheckpointID b) (oc_state oc) c = (c1, er)" by fastforce
    obtain y y' er2 where b: "broadcast ol (BarrierElement b) oc = (y, er2)"
      "broadcast ol (BarrierElement b) oc' = (y', er2)" "alike op y op' y'" using bc [OF Cons.prems] by blast
    show ?thesis
      using r s b Cons.IH [OF b(3)] Cons.prems
      by (cases er; cases er2) (simp_all add: BarrierElement alike_result_def)
  next
    case (UnknownElement k)
    then show ?thesis using Cons.prems by (simp add: alike_result_def)
  qed
qed

lemma invoke_kept:
  assumes "invoke ol meth oc = ((op1, oc1), None)" "same op (fst (fst (meth (oc_state oc))))"
    and "agrees same (meth (oc_state oc)) (meth (oc_state oc))" "oc_err oc = None"
  shows "same op op1 \<and> Memory_inv (oc_state oc1) \<and> oc_err oc1 = None"
proof -
  obtain o1 m out e where r: "meth (oc_state oc) = ((o1, m, out), e)" by (metis prod.exhaust)
  have "oc_state (fold (Emit ol) out x) = oc_state x" for x
    by (induction out arbitrary: x) (simp_all add: Emit_def split: prod.splits)
  then show ?thesis
    using assms by (auto simp: invoke_def r Let_def takeErr_def agrees_def sameState_def split: option.splits)
qed

lemma broadcast_kept: "broadcast ol e oc = (oc1, r) \<Longrightarrow> oc_state oc1 = oc_state oc \<and> oc_err oc1 = oc_err oc"
  by (auto simp: broadcast_def split: prod.splits)

lemma loop_kept:
  "runOperatorLoop OP ol cp (noFaults si) fin es n op oc c = ((op1, oc1, c1), None) \<Longrightarrow>
    Memory_inv (oc_state oc) \<Longrightarrow> oc_err oc = None \<Longrightarrow>
    same op op1 \<and> Memory_inv (oc_state oc1) \<and> oc_err oc1 = None"
proof (induction es arbitrary: n op oc c)
  case Nil
  then show ?case using equivp_reflp [OF same_equiv] by simp
next
  case (Cons e es)
  note trans = equivp_transp [OF same_equiv]
  have st: "sameState (oc_state oc) (oc_state oc)" using Cons.prems(2) by (simp add: sameState_def)
  have own: "agrees same (op_ProcessElement OP r op (oc_state oc)) (op_ProcessElement OP r op (oc_state oc))"
    "agrees same (op_ProcessWatermark OP wm op (oc_state oc)) (op_ProcessWatermark OP wm op (oc_state oc))"
    "agrees same (op_OnEndOfStream OP op (oc_state oc)) (op_OnEndOfStream OP op (oc_state oc))" for r wm
    using element watermark end_of_stream st equivp_reflp [OF same_equiv] by blast+
  show ?case
  proof (cases e)
    case (RecordElement r)
    obtain p x where i: "invoke ol (op_ProcessElement OP r op) oc = ((p, x), None)"
      "runOperatorLoop OP ol cp (noFaults si) fin es (n + 1) p x c = ((op1, oc1, c1), None)"
      using Cons.prems(1) by (auto simp: RecordElement split: prod.splits option.splits)
    have "same op p \<and> Memory_inv (oc_state x) \<and> oc_err x = None"
      by (rule invoke_kept [OF i(1) kept(1) own(1) Cons.prems(3)])
    then show ?thesis using Cons.IH [OF i(2)] trans by blast
  next
    case (WatermarkElement wm)
    obtain p x y where i: "invoke ol (op_ProcessWatermark OP wm op) (oc\<lparr>oc_watermark := wm\<rparr>) = ((p, x), None)"
      "broadcast ol (WatermarkElement wm) x = (y, None)"
      "runOperatorLoop OP ol cp (noFaults si) fin es n p y c = ((op1, oc1, c1), None)"
      using Cons.prems(1) by (auto simp: WatermarkElement split: prod.splits option.splits)
    have "same op p \<and> Memory_inv (oc_state x) \<and> oc_err x = None"
      by (rule invoke_kept [OF i(1)]) (simp_all add: kept own Cons.prems)
    then show ?thesis using Cons.IH [OF i(3)] broadcast_kept [OF i(2)] trans by auto
  next
    case EndOfStreamElement
    obtain x where i: "invoke ol (op_OnEndOfStream OP op) oc = ((op1, x), None)" "broadcast ol EndOfStreamElement x = (oc1, None)"
      using Cons.prems(1) by (auto simp: EndOfStreamElement split: prod.splits option.splits)
    have "same op op1 \<and> Memory_inv (oc_state x) \<and> oc_err x = None"
      by (rule invoke_kept [OF i(1) kept(3) own(3) Cons.prems(3)])
    then show ?thesis using broadcast_kept [OF i(2)] by simp
  next
    case (BarrierElement b)
    obtain x c2 where i: "broadcast ol (BarrierElement b) oc = (x, None)"
      "runOperatorLoop OP ol cp (noFaults si) fin es n op x c2 = ((op1, oc1, c1), None)"
      using Cons.prems(1) by (auto simp: BarrierElement split: prod.splits option.splits)
    then show ?thesis using Cons.IH [OF i(2)] broadcast_kept [OF i(1)] Cons.prems by simp
  next
    case (UnknownElement k)
    then show ?thesis using Cons.prems by simp
  qed
qed

text \<open>A subtask restored from the snapshot of another goes on as that one does.\<close>

lemma restored_goes_on:
  assumes "snapshottable (oc_state oc1)" "oc_err oc1 = None" "same op1 op"
    and "WriteTo Buffer_Write (oc_state oc1) [] = Inr payload"
  shows "alike_result (runOperatorLoop OP ol cp (noFaults si) fin es n op1 oc1 c)
    (runOperatorOpened OP op ol cp (noFaults si) (Some payload) fin es (newOpContext (oc_writer oc1)) c)"
proof -
  obtain m where m: "ReadFrom NewMemory payload = (m, None)" "sameState (oc_state oc1) m"
    using snapshot_restores [OF assms(1)] assms(1,4) by (auto simp: sameState_def snapshottable_def)
  show ?thesis
    using loop_alike [of op1 oc1 op "(newOpContext (oc_writer oc1))\<lparr>oc_state := m\<rparr>"] m assms(2,3)
    by (simp add: runOperatorOpened_def newOpContext_def newOpContextWithState_def Let_def alike_def)
qed

end

section \<open>The loop over two stretches of its input\<close>

lemma loop_any_count:
  "runOperatorLoop OP ol cp (noFaults si) fin es n op oc c = runOperatorLoop OP ol cp (noFaults si) fin es n' op oc c"
proof (induction es arbitrary: n n' op oc c)
  case (Cons e es)
  then show ?case
    by (cases e) (auto simp: split: prod.splits option.splits)
qed simp

lemma loop_append:
  "EndOfStreamElement \<notin> set es1 \<Longrightarrow> runOperatorLoop OP ol cp (noFaults si) fin (es1 @ es2) n op oc c =
    (case runOperatorLoop OP ol cp (noFaults si) None es1 n op oc c of
       (r, Some e) \<Rightarrow> (r, Some e)
     | ((op1, oc1, c1), None) \<Rightarrow> runOperatorLoop OP ol cp (noFaults si) fin es2 0 op1 oc1 c1)"
proof (induction es1 arbitrary: n op oc c)
  case Nil
  then show ?case by (simp add: loop_any_count)
next
  case (Cons e es)
  then show ?case
    by (cases e) (auto simp: split: prod.splits option.splits)
qed

section \<open>Recovery\<close>

lemma ReadFrom_inv: "Memory_inv m \<Longrightarrow> Memory_inv (fst (ReadFrom m bs))"
proof -
  have "Memory_inv m \<Longrightarrow> Memory_inv (fst (readEntries n m r))" for n m r
    by (induction n arbitrary: m r) (simp_all split: sum.split prod.split)
  then show "Memory_inv m \<Longrightarrow> Memory_inv (fst (ReadFrom m bs))"
    by (simp add: ReadFrom_def Let_def split: sum.split prod.split option.split)
qed

lemma subtask_loop:
  assumes "runOperatorOpened OP op ol cp fs restore fin es (newOpContext w) c = ((op1, oc1, c1), None)"
  shows "\<exists>oc. Memory_inv (oc_state oc) \<and> oc_err oc = None \<and> (\<forall>fin es.
    runOperatorOpened OP op ol cp fs restore fin es (newOpContext w) c = runOperatorLoop OP ol cp fs fin es 0 op oc c)"
proof (cases restore)
  case None
  then show ?thesis
    by (intro exI [of _ "newOpContext w"])
      (simp add: runOperatorOpened_def newOpContext_def newOpContextWithState_def)
next
  case (Some payload)
  obtain st where "ReadFrom NewMemory payload = (st, None)"
    using assms by (auto simp: Some runOperatorOpened_def newOpContext_def newOpContextWithState_def Let_def
        split: prod.splits option.splits)
  then show ?thesis
    using ReadFrom_inv [OF mem.invar_new, of payload]
    by (intro exI [of _ "(newOpContext w)\<lparr>oc_state := st\<rparr>"])
      (simp add: Some runOperatorOpened_def newOpContext_def newOpContextWithState_def)
qed

lemma loop_to_barrier:
  assumes "runOperatorLoop OP ol (Some co) (noFaults si) None (es @ [BarrierElement b]) n op oc c = ((op1, oc1, c1), None)"
    and "EndOfStreamElement \<notin> set es" "snapshottable (oc_state oc1)"
  shows "\<exists>payload c0. WriteTo Buffer_Write (oc_state oc1) [] = Inr payload \<and>
    cc_Acknowledge co (CheckpointID b) payload c0 = (c1, None)"
proof -
  obtain oc0 c0 where r: "snapshotOperatorState (Some co) (CheckpointID b) (oc_state oc0) c0 = (c1, None)"
    "broadcast ol (BarrierElement b) oc0 = (oc1, None)"
    using assms(1) by (auto simp: loop_append [OF assms(2)] split: prod.splits option.splits)
  have "oc_state oc0 = oc_state oc1" using r(2) by (auto simp: broadcast_def split: prod.splits)
  then show ?thesis
    using r(1) WriteTo_Buffer [OF assms(3)] by (auto simp: snapshotOperatorState_def cp_enabled_def cp_snapshot_def)
qed

context state_operator
begin

lemma recovers:
  assumes "runOperatorSubtask OP op ol (Some co) (noFaults si) restore None (es1 @ [BarrierElement b]) w0 c = ((op1, oc1, c1), None)"
    and "EndOfStreamElement \<notin> set es1" "snapshottable (oc_state oc1)"
  shows "\<exists>payload c0. cc_Acknowledge co (CheckpointID b) payload c0 = (c1, None) \<and>
    (\<forall>fin es2. \<exists>op2 oc2 op2' oc2' c2 err.
      runOperatorSubtask OP op ol (Some co) (noFaults si) restore fin (es1 @ BarrierElement b # es2) w0 c = ((op2, oc2, c2), err) \<and>
      runOperatorSubtask OP op ol (Some co) (noFaults si) (Some payload) fin es2 (oc_writer oc1) c1 = ((op2', oc2', c2), err) \<and>
      oc_writer oc2' = oc_writer oc2 \<and> Memory_Get (oc_state oc2') = Memory_Get (oc_state oc2))"
proof -
  let ?run = "\<lambda>fin es. runOperatorOpened OP op ol (Some co) (noFaults si) restore fin es (newOpContext w0) c"
  obtain oc where oc: "Memory_inv (oc_state oc)" "oc_err oc = None"
    "?run fin es = runOperatorLoop OP ol (Some co) (noFaults si) fin es 0 op oc c" for fin es
    using subtask_loop [OF assms(1) [unfolded opened]] by blast
  note loop = assms(1) [unfolded opened oc(3)]
  obtain payload c0 where p: "WriteTo Buffer_Write (oc_state oc1) [] = Inr payload"
    "cc_Acknowledge co (CheckpointID b) payload c0 = (c1, None)"
    using loop_to_barrier [OF loop assms(2,3)] by blast
  have st: "same op1 op" "oc_err oc1 = None"
    using loop_kept [OF loop oc(1,2)] equivp_symp [OF same_equiv] by auto
  have split: "?run fin (es1 @ BarrierElement b # es2) =
      runOperatorLoop OP ol (Some co) (noFaults si) fin es2 0 op1 oc1 c1" for fin es2
    using loop_append [of "es1 @ [BarrierElement b]" OP ol "Some co" si fin es2 0 op oc c] assms(2)
    by (simp add: loop oc(3))
  have "alike_result (?run fin (es1 @ BarrierElement b # es2))
      (runOperatorOpened OP op ol (Some co) (noFaults si) (Some payload) fin es2 (newOpContext (oc_writer oc1)) c1)" for fin es2
    unfolding split by (rule restored_goes_on [OF assms(3) st(2,1) p(1)])
  then show ?thesis
    unfolding opened using p(2) by (fastforce simp: alike_result_def alike_def sameState_def)
qed

end

section \<open>The windowed count as an operator\<close>

text \<open>Its configuration is all a restart must rebuild: the counter of dropped records is a metric.\<close>

definition sameConfig :: "WindowCount \<Rightarrow> WindowCount \<Rightarrow> bool" where
  "sameConfig w w' \<longleftrightarrow> w\<lparr>w_dropped := 0\<rparr> = w'\<lparr>w_dropped := 0\<rparr>"

lemma sameConfig_equiv: "equivp sameConfig"
  by (rule equivpI) (auto simp: reflp_def symp_def transp_def sameConfig_def)

lemma sameConfig_iff:
  "sameConfig w w' \<longleftrightarrow> w_size w = w_size w' \<and> w_slide w = w_slide w' \<and> w_allowedLateness w = w_allowedLateness w'"
  by (cases w; cases w') (auto simp: sameConfig_def)

lemma sameConfig_times:
  assumes "sameConfig w w'"
  shows "windowsFor w = windowsFor w'" "fireTimeOf w = fireTimeOf w'" "isPurged w = isPurged w'"
    "WindowCount_fire w = WindowCount_fire w'"
proof -
  show times: "windowsFor w = windowsFor w'" "fireTimeOf w = fireTimeOf w'" "isPurged w = isPurged w'"
    using assms by (simp_all add: fun_eq_iff sameConfig_iff windowsFor_def fireTimeOf_def isPurged_def)
  show "WindowCount_fire w = WindowCount_fire w'"
    by (intro ext) (unfold WindowCount_fire_def times(2), rule refl)
qed

lemma sameConfig_countInto: "sameConfig w (fst (fst (countInto ss wm key w m)))"
proof (induction ss arbitrary: w m)
  case (Cons a ss)
  have "sameConfig w (w\<lparr>w_dropped := w_dropped w + 1\<rparr>)" by (simp add: sameConfig_def)
  then show ?case
    using Cons equivp_reflp [OF sameConfig_equiv] equivp_transp [OF sameConfig_equiv]
    by (simp add: Let_def split: sum.split)
qed (simp add: sameConfig_def)

lemma countInto_alike:
  "sameConfig w w' \<Longrightarrow> sameState m m' \<Longrightarrow>
    \<exists>w1 w1' m1 m1' e. countInto ss wm key w m = ((w1, m1), e) \<and> countInto ss wm key w' m' = ((w1', m1'), e) \<and>
      sameConfig w1 w1' \<and> sameState m1 m1'"
proof (induction ss arbitrary: w w' m m')
  case (Cons a ss)
  have drops: "sameConfig (w\<lparr>w_dropped := x\<rparr>) (w'\<lparr>w_dropped := y\<rparr>)" for x y
    using Cons.prems(1) by (simp add: sameConfig_def)
  have "currentCount m k = currentCount m' k" for k by (simp add: currentCount_def sameState_get [OF Cons.prems(2)])
  then show ?case
    using Cons.IH [OF drops Cons.prems(2)] Cons.IH [OF Cons.prems(1)] Cons.prems sameConfig_times [OF Cons.prems(1)]
    by (simp add: Let_def split: sum.split)
qed simp

lemma fold_deleting_alike:
  "sameState m m' \<Longrightarrow> \<exists>m1 m1' s1. fold_deleting f kvs m s = (m1, s1) \<and> fold_deleting f kvs m' s = (m1', s1) \<and> sameState m1 m1'"
proof (induction kvs arbitrary: m m' s)
  case (Cons kv kvs)
  obtain c d s1 where "f kv s = (c, d, s1)" by (metis prod.exhaust)
  moreover have "sameState (if d then Memory_Delete (fst kv) m else m) (if d then Memory_Delete (fst kv) m' else m')"
    using Cons.prems by simp
  ultimately show ?case using Cons.IH [of _ _ s1] by (simp add: Let_def)
qed simp

lemma fireAll_alike:
  assumes "\<And>n n'. sameState n n' \<Longrightarrow> fire n = fire n'"
  shows "sameState m m' \<Longrightarrow> \<exists>m1 m1' out e. fireAll fire ts m = ((m1, out), e) \<and> fireAll fire ts m' = ((m1', out), e) \<and> sameState m1 m1'"
proof (induction ts arbitrary: m m')
  case (Cons t ts)
  let ?m = "Memory_Delete (dt_stateKey t) m" and ?m' = "Memory_Delete (dt_stateKey t) m'"
  have s: "sameState ?m ?m'" using Cons.prems by simp
  show ?case using Cons.IH [OF s] s assms [OF s] by (auto simp: Let_def split: sum.split)
qed simp

lemma fire_alike: "sameState m m' \<Longrightarrow> WindowCount_fire w m = WindowCount_fire w m'"
  by (simp add: fun_eq_iff WindowCount_fire_def sameState_get)

lemma ProcessElement_alike:
  assumes "sameConfig w w'" "sameState m m'"
  shows "\<exists>w1 w1' m1 m1' e. WindowCount_ProcessElement rec w m = ((w1, m1), e) \<and>
    WindowCount_ProcessElement rec w' m' = ((w1', m1'), e) \<and> sameConfig w1 w1' \<and> sameState m1 m1'"
proof -
  have "currentWatermark m = currentWatermark m'" by (simp add: currentWatermark_def sameState_get [OF assms(2)])
  then show ?thesis
    using countInto_alike [OF assms] assms sameConfig_times(1) [OF assms(1)]
    by (simp add: WindowCount_ProcessElement_def split: sum.split)
qed

lemma ProcessWatermark_alike:
  assumes "sameConfig w w'" "sameState m m'"
  shows "\<exists>m1 m1' out e. WindowCount_ProcessWatermark wm w m = ((m1, out), e) \<and>
    WindowCount_ProcessWatermark wm w' m' = ((m1', out), e) \<and> sameState m1 m1'"
proof -
  have s: "sameState (setWatermark wm m) (setWatermark wm m')" using assms(2) by (simp add: setWatermark_def)
  have due: "collectDueTimers (setWatermark wm m) wm = collectDueTimers (setWatermark wm m') wm"
    by (simp add: collectDueTimers_def sameState_scan [OF s])
  obtain m1 m1' out e where fired: "fireAll (WindowCount_fire w) ts (setWatermark wm m) = ((m1 ts, out ts), e ts)"
    "fireAll (WindowCount_fire w) ts (setWatermark wm m') = ((m1' ts, out ts), e ts)" "sameState (m1 ts) (m1' ts)" for ts
    using fireAll_alike [of "WindowCount_fire w", OF fire_alike s] by metis
  have purge: "\<exists>n1 n1' e. WindowCount_purge w wm n = (n1, e) \<and> WindowCount_purge w' wm n' = (n1', e) \<and> sameState n1 n1'"
    if "sameState n n'" for n n'
    using fold_deleting_alike [OF that] that sameState_scan [OF that]
    unfolding WindowCount_purge_def sameConfig_times(3) [OF assms(1)] by (simp add: sameState_def)
  show ?thesis
  proof (cases "collectDueTimers (setWatermark wm m) wm")
    case (Inl x)
    then show ?thesis using due s by (simp add: WindowCount_ProcessWatermark_def Let_def)
  next
    case (Inr ts)
    then show ?thesis
      using due fired [of ts] purge [OF fired(3) [of ts]] sameConfig_times(4) [OF assms(1)]
      by (cases "e ts") (auto simp: WindowCount_ProcessWatermark_def Let_def)
  qed
qed

interpretation wco: state_operator WindowCount_operator sameConfig
proof (unfold_locales, goal_cases)
  case 1
  show ?case by (rule sameConfig_equiv)
next
  case (2 op op' m m' rec)
  then show ?case using ProcessElement_alike [OF 2, of rec] by (auto simp: WindowCount_operator_def agrees_def)
next
  case (3 op op' m m' wm)
  then show ?case using ProcessWatermark_alike [OF 3, of wm] by (auto simp: WindowCount_operator_def agrees_def)
next
  case (4 op op' m m')
  then show ?case by (simp add: WindowCount_operator_def WindowCount_OnEndOfStream_def agrees_def)
next
  case (5 op rec m)
  then show ?case
    using sameConfig_countInto [of op] equivp_reflp [OF sameConfig_equiv]
    by (auto simp: WindowCount_operator_def WindowCount_ProcessElement_def split: sum.split prod.split)
      (metis fst_conv)
next
  case (6 op wm m)
  then show ?case using equivp_reflp [OF sameConfig_equiv] by (simp add: WindowCount_operator_def split: prod.split)
next
  case (7 op m)
  then show ?case
    using equivp_reflp [OF sameConfig_equiv] by (simp add: WindowCount_operator_def WindowCount_OnEndOfStream_def)
next
  case (8 m op)
  show ?case by (simp add: WindowCount_operator_def WindowCount_Open_def)
next
  case (9 op)
  show ?case by (simp add: WindowCount_operator_def)
qed

section \<open>Properties\<close>

text \<open>C5. A window operator recovers to the state of its checkpoint and goes on as if it had never
  stopped. Take a run of its subtask on the in-memory state, itself fresh or restored, with no
  fault injected, up to a barrier at which every length in its state fits in 32 bits, over any
  outlet and any coordinator. The payload it
  acknowledges to the coordinator for that barrier restores a new subtask, built from the
  factory's operator, that from there on emits, broadcasts, acknowledges and returns what the
  uninterrupted run does on the same input, and ends with the same keyed state.\<close>

theorem operator_recovers:
  assumes "runOperatorSubtask WindowCount_operator w ol (Some co) (noFaults si) restore None (es1 @ [BarrierElement b]) w0 c =
      ((w1, oc1, c1), None)"
    and "EndOfStreamElement \<notin> set es1" "snapshottable (oc_state oc1)"
  shows "\<exists>payload c0. cc_Acknowledge co (CheckpointID b) payload c0 = (c1, None) \<and>
    (\<forall>fin es2. \<exists>w2 oc2 w2' oc2' c2 err.
      runOperatorSubtask WindowCount_operator w ol (Some co) (noFaults si) restore fin (es1 @ BarrierElement b # es2) w0 c =
        ((w2, oc2, c2), err) \<and>
      runOperatorSubtask WindowCount_operator w ol (Some co) (noFaults si) (Some payload) fin es2 (oc_writer oc1) c1 =
        ((w2', oc2', c2), err) \<and>
      oc_writer oc2' = oc_writer oc2 \<and> Memory_Get (oc_state oc2') = Memory_Get (oc_state oc2))"
  by (rule wco.recovers [OF assms])

definition example_outlet :: "StreamElement list outlet" where
  "example_outlet =
     \<lparr>ol_EmitRecord = \<lambda>rec w. (w @ [RecordElement rec], None), ol_Broadcast = \<lambda>e w. (w @ [e], None)\<rparr>"

definition example_coordinator :: "(int64 \<times> bytes) list coordinator_calls" where
  "example_coordinator =
     \<lparr>cc_Acknowledge = \<lambda>i payload c. (c @ [(i, payload)], None), cc_Fail = \<lambda>i c. c,
      cc_Finished = \<lambda>payload c. (c, None), cc_CompletedAmong = \<lambda>ids c. (c, []),
      cc_AwaitCompletedAmong = \<lambda>ids c. Some (c, [])\<rparr>"

definition example_id :: subtaskID where
  "example_id = \<lparr>si_vertexID = [111], si_index = 0\<rparr>"

definition example_tumbling :: WindowCount where
  "example_tumbling = \<lparr>w_size = 10, w_slide = 10, w_allowedLateness = 0, w_dropped = 0\<rparr>"

definition example_event :: Record where
  "example_event = \<lparr>Key = [1], Value = [], EventTime = 12\<rparr>"

definition example_barrier :: Barrier where
  "example_barrier = \<lparr>CheckpointID = 1, Timestamp = 0\<rparr>"

lemma example_windows: "windowsFor example_tumbling 12 = [10]"
  by code_simp

lemma example_not_purged: "\<not> isPurged example_tumbling minInt64 10"
  by code_simp

lemma example_element:
  "WindowCount_ProcessElement example_event example_tumbling NewMemory =
    ((example_tumbling, Memory_Put (timerKeyOf (fireTimeOf example_tumbling 10) [1] 10) []
       (Memory_Put (stateKeyOf [1] 10) (be_put 8 (1 :: int64)) NewMemory)), None)"
  by (simp add: WindowCount_ProcessElement_def currentWatermark_def minWatermark_def example_event_def
      example_windows example_not_purged currentCount_def Let_def)

definition example_state :: Memory where
  "example_state = Memory_Put (timerKeyOf (fireTimeOf example_tumbling 10) [1] 10) []
     (Memory_Put (stateKeyOf [1] 10) (be_put 8 (1 :: int64)) NewMemory)"

lemma example_snapshottable: "snapshottable example_state"
proof -
  have "fits32 (stateKeyOf [1] s)" "fits32 (timerKeyOf f [1] s)" "stateKeyOf [1] s \<noteq> timerKeyOf f [1] s" for f s
    by (simp_all add: appendStateKey_def appendTimerKey_def fits32_def prefix_defs)
  then show ?thesis
    by (simp add: example_state_def snapshottable_def Memory_Put_def NewMemory_def Memory_inv_def Memory_Len_def fits32_def)
qed

lemma example_subtask_run:
  "\<exists>oc1 c1. runOperatorSubtask WindowCount_operator example_tumbling example_outlet (Some example_coordinator) (noFaults example_id) None None
      ([RecordElement example_event] @ [BarrierElement example_barrier]) [] [] = ((example_tumbling, oc1, c1), None) \<and>
    oc_state oc1 = example_state \<and> oc_writer oc1 = [BarrierElement example_barrier]"
  unfolding wco.opened using WriteTo_Buffer [OF example_snapshottable, of "[]"]
  by (simp add: runOperatorOpened_def newOpContext_def newOpContextWithState_def invoke_def
      WindowCount_operator_def example_element flip: example_state_def)
    (simp add: takeErr_def Memory_Err_def snapshotOperatorState_def cp_enabled_def cp_snapshot_def example_coordinator_def
      example_outlet_def broadcast_def)

theorem operator_recovers_witness:
  "\<exists>payload c0 c1. cc_Acknowledge example_coordinator 1 payload c0 = (c1, None) \<and>
    (\<forall>fin es2. \<exists>w2 oc2 w2' oc2' c2 err.
      runOperatorSubtask WindowCount_operator example_tumbling example_outlet (Some example_coordinator) (noFaults example_id) None fin
        ([RecordElement example_event] @ BarrierElement example_barrier # es2) [] [] = ((w2, oc2, c2), err) \<and>
      runOperatorSubtask WindowCount_operator example_tumbling example_outlet (Some example_coordinator) (noFaults example_id) (Some payload) fin
        es2 [BarrierElement example_barrier] c1 = ((w2', oc2', c2), err) \<and>
      oc_writer oc2' = oc_writer oc2 \<and> Memory_Get (oc_state oc2') = Memory_Get (oc_state oc2))"
proof -
  obtain oc1 c1 where r: "runOperatorSubtask WindowCount_operator example_tumbling example_outlet (Some example_coordinator) (noFaults example_id) None
      None ([RecordElement example_event] @ [BarrierElement example_barrier]) [] [] = ((example_tumbling, oc1, c1), None)"
    "oc_state oc1 = example_state" "oc_writer oc1 = [BarrierElement example_barrier]"
    using example_subtask_run by blast
  have "CheckpointID example_barrier = 1" by (simp add: example_barrier_def)
  then show ?thesis
    using operator_recovers [OF r(1)] example_snapshottable unfolding r(2,3) by auto
qed

end
