(* ===== verification/Transform.thy ===== *)
theory Transform
  imports Operator_Interface
begin

text \<open>
  \<open>pkg/operators/transform.go\<close>: the stateless operators. A function that returns \<open>nil\<close> for a
  record drops it. \<open>Restore\<close> drains a reader, which is the bytes it yields and the error it
  ends with.
\<close>

section \<open>Map\<close>

record Map =
  m_fn :: "Record \<Rightarrow> Record option result"

definition NewMap :: "(Record \<Rightarrow> Record option result) \<Rightarrow> Map" where
  "NewMap fn = \<lparr>m_fn = fn\<rparr>"

definition Map_ProcessElement :: "Map \<Rightarrow> Record \<Rightarrow> Record list \<times> go_error option" where
  "Map_ProcessElement m rec =
     (case m_fn m rec of
        Inl e \<Rightarrow> ([], Some e)
      | Inr None \<Rightarrow> ([], None)
      | Inr (Some r) \<Rightarrow> ([r], None))"

definition Map_ProcessWatermark :: "Map \<Rightarrow> int64 \<Rightarrow> Record list \<times> go_error option" where
  "Map_ProcessWatermark m wm = ([], None)"

definition Map_OnEndOfStream :: "Map \<Rightarrow> Record list \<times> go_error option" where
  "Map_OnEndOfStream m = ([], None)"

definition Map_Snapshot :: "Map \<Rightarrow> bytes \<times> go_error option" where
  "Map_Snapshot m = ([], None)"

definition Map_Restore :: "Map \<Rightarrow> bytes \<times> go_error option \<Rightarrow> go_error option" where
  "Map_Restore m rd = snd rd"

section \<open>Filter\<close>

record Filter =
  f_pred :: "Record \<Rightarrow> bool"

definition NewFilter :: "(Record \<Rightarrow> bool) \<Rightarrow> Filter" where
  "NewFilter p = \<lparr>f_pred = p\<rparr>"

definition Filter_ProcessElement :: "Filter \<Rightarrow> Record \<Rightarrow> Record list \<times> go_error option" where
  "Filter_ProcessElement f rec = (if f_pred f rec then ([rec], None) else ([], None))"

definition Filter_ProcessWatermark :: "Filter \<Rightarrow> int64 \<Rightarrow> Record list \<times> go_error option" where
  "Filter_ProcessWatermark f wm = ([], None)"

definition Filter_OnEndOfStream :: "Filter \<Rightarrow> Record list \<times> go_error option" where
  "Filter_OnEndOfStream f = ([], None)"

definition Filter_Snapshot :: "Filter \<Rightarrow> bytes \<times> go_error option" where
  "Filter_Snapshot f = ([], None)"

definition Filter_Restore :: "Filter \<Rightarrow> bytes \<times> go_error option \<Rightarrow> go_error option" where
  "Filter_Restore f rd = snd rd"

section \<open>As the runtime calls them\<close>

definition Map_operator :: "Map Operator" where
  "Map_operator =
     \<lparr>op_Open = (\<lambda>_ m. (m, None)),
      op_ProcessElement = \<lambda>rec m st. (case Map_ProcessElement m rec of (out, e) \<Rightarrow> ((m, st, out), e)),
      op_ProcessWatermark = \<lambda>wm m st. (case Map_ProcessWatermark m wm of (out, e) \<Rightarrow> ((m, st, out), e)),
      op_OnEndOfStream = \<lambda>m st. (case Map_OnEndOfStream m of (out, e) \<Rightarrow> ((m, st, out), e)),
      op_Close = (\<lambda>_. None)\<rparr>"

definition Filter_operator :: "Filter Operator" where
  "Filter_operator =
     \<lparr>op_Open = (\<lambda>_ f. (f, None)),
      op_ProcessElement = \<lambda>rec f st. (case Filter_ProcessElement f rec of (out, e) \<Rightarrow> ((f, st, out), e)),
      op_ProcessWatermark = \<lambda>wm f st. (case Filter_ProcessWatermark f wm of (out, e) \<Rightarrow> ((f, st, out), e)),
      op_OnEndOfStream = \<lambda>f st. (case Filter_OnEndOfStream f of (out, e) \<Rightarrow> ((f, st, out), e)),
      op_Close = (\<lambda>_. None)\<rparr>"

section \<open>A stream through them\<close>

text \<open>The output of a map over records its function accepts, and the prefix before the first it does
  not.\<close>

fun mapped :: "(Record \<Rightarrow> Record option result) \<Rightarrow> Record list \<Rightarrow> Record list \<times> go_error option" where
  "mapped fn [] = ([], None)"
| "mapped fn (r # rs) =
     (case fn r of
        Inl e \<Rightarrow> ([], Some e)
      | Inr out \<Rightarrow> (case mapped fn rs of (outs, err) \<Rightarrow> (case out of None \<Rightarrow> outs | Some r' \<Rightarrow> r' # outs, err)))"

lemma mapped_total:
  assumes "\<forall>r \<in> set rs. fn r = Inr (f r)"
  shows "mapped fn rs = (List.map_filter f rs, None)"
  using assms by (induction rs) (auto simp: map_filter_simps split: option.split)

lemma feed_Map: "feed Map_operator es m st = (case mapped (m_fn m) (recordsOf es) of (out, e) \<Rightarrow> (out, (m, st), e))"
proof (induction es)
  case (Cons x es)
  then show ?case
    by (cases x) (auto simp: Map_operator_def Map_ProcessElement_def Map_ProcessWatermark_def split: sum.split option.split prod.split)
qed simp

lemma feed_Filter: "feed Filter_operator es f st = (filter (f_pred f) (recordsOf es), (f, st), None)"
proof (induction es)
  case (Cons x es)
  then show ?case
    by (cases x) (auto simp: Filter_operator_def Filter_ProcessElement_def Filter_ProcessWatermark_def)
qed simp

end
