(* ===== verification/Nexmark_Source.thy ===== *)
theory Nexmark_Source
  imports Generator Saturating
begin

text \<open>
  \<open>pkg/sources/nexmark.go\<close>: the Nexmark events, their fixed-width encodings, and the
  deterministic source of them. \<open>valueErrorf\<close> is one error; the fields of the three structs
  carry a letter, since a record's fields share one name space.
\<close>

unbundle bit_operations_syntax

section \<open>Events\<close>

type_synonym NexmarkEventType = byte

definition EventPerson :: NexmarkEventType where "EventPerson = 0x01"
definition EventAuction :: NexmarkEventType where "EventAuction = 0x02"
definition EventBid :: NexmarkEventType where "EventBid = 0x03"

definition NexmarkEventType_String :: "NexmarkEventType \<Rightarrow> string" where
  "NexmarkEventType_String t =
     (if t = EventPerson then ''Person''
      else if t = EventAuction then ''Auction''
      else if t = EventBid then ''Bid''
      else ''Unknown'')"

definition nexmarkTypeBytes :: nat where "nexmarkTypeBytes = 1"
definition NexmarkFieldBytes :: nat where "NexmarkFieldBytes = 8"
definition NexmarkPersonBytes :: nat where "NexmarkPersonBytes = nexmarkTypeBytes + 5 * NexmarkFieldBytes"
definition NexmarkAuctionBytes :: nat where "NexmarkAuctionBytes = nexmarkTypeBytes + 7 * NexmarkFieldBytes"
definition NexmarkBidBytes :: nat where "NexmarkBidBytes = nexmarkTypeBytes + 4 * NexmarkFieldBytes"
definition NexmarkKeyBytes :: nat where "NexmarkKeyBytes = NexmarkFieldBytes"

lemmas event_types = EventPerson_def EventAuction_def EventBid_def
lemmas nexmark_sizes = nexmarkTypeBytes_def NexmarkFieldBytes_def NexmarkPersonBytes_def NexmarkAuctionBytes_def
  NexmarkBidBytes_def NexmarkKeyBytes_def

record Person =
  p_ID :: uint64
  p_NameOffset :: uint64
  p_CityOffset :: uint64
  p_StateOffset :: uint64
  p_DateTime :: int64

record Auction =
  a_ID :: uint64
  a_Seller :: uint64
  a_Category :: uint64
  a_InitialBid :: uint64
  a_Reserve :: uint64
  a_DateTime :: int64
  a_Expires :: int64

record Bid =
  b_Auction :: uint64
  b_Bidder :: uint64
  b_Price :: uint64
  b_DateTime :: int64

section \<open>Encodings\<close>

definition NexmarkKey :: "uint64 \<Rightarrow> bytes" where
  "NexmarkKey i = be_put 8 i"

definition NexmarkKeyID :: "bytes \<Rightarrow> uint64 result" where
  "NexmarkKeyID key =
     (if length key \<noteq> NexmarkKeyBytes then Inl (SourceErr errNexmarkValue) else Inr (be_get 8 key))"

definition NexmarkTypeOf :: "bytes \<Rightarrow> NexmarkEventType result" where
  "NexmarkTypeOf v =
     (if length v < nexmarkTypeBytes then Inl (SourceErr errNexmarkValue)
      else let t = v ! 0
           in if t = EventPerson \<or> t = EventAuction \<or> t = EventBid then Inr t
              else Inl (SourceErr errNexmarkValue))"

definition field :: "bytes \<Rightarrow> nat \<Rightarrow> uint64" where
  "field v i =
     (let off = nexmarkTypeBytes + i * NexmarkFieldBytes in be_get 8 (take NexmarkFieldBytes (drop off v)))"

definition putField :: "nat \<Rightarrow> uint64 \<Rightarrow> bytes \<Rightarrow> bytes" where
  "putField i x v =
     (let off = nexmarkTypeBytes + i * NexmarkFieldBytes
      in take off v @ be_put 8 x @ drop (off + NexmarkFieldBytes) v)"

definition checkValue :: "bytes \<Rightarrow> NexmarkEventType \<Rightarrow> nat \<Rightarrow> go_error option" where
  "checkValue v want n =
     (case NexmarkTypeOf v of
        Inl e \<Rightarrow> Some e
      | Inr got \<Rightarrow>
          if got \<noteq> want then Some (SourceErr errNexmarkValue)
          else if length v \<noteq> n then Some (SourceErr errNexmarkValue)
          else None)"

definition EncodePerson :: "Person \<Rightarrow> bytes" where
  "EncodePerson p =
     (let v = replicate NexmarkPersonBytes 0;
          v = v[0 := EventPerson];
          v = putField 0 (p_ID p) v;
          v = putField 1 (p_NameOffset p) v;
          v = putField 2 (p_CityOffset p) v;
          v = putField 3 (p_StateOffset p) v
      in putField 4 (p_DateTime p) v)"

definition DecodePerson :: "bytes \<Rightarrow> Person result" where
  "DecodePerson v =
     (case checkValue v EventPerson NexmarkPersonBytes of
        Some e \<Rightarrow> Inl e
      | None \<Rightarrow>
          Inr \<lparr>p_ID = field v 0, p_NameOffset = field v 1, p_CityOffset = field v 2,
               p_StateOffset = field v 3, p_DateTime = field v 4\<rparr>)"

definition EncodeAuction :: "Auction \<Rightarrow> bytes" where
  "EncodeAuction a =
     (let v = replicate NexmarkAuctionBytes 0;
          v = v[0 := EventAuction];
          v = putField 0 (a_ID a) v;
          v = putField 1 (a_Seller a) v;
          v = putField 2 (a_Category a) v;
          v = putField 3 (a_InitialBid a) v;
          v = putField 4 (a_Reserve a) v;
          v = putField 5 (a_DateTime a) v
      in putField 6 (a_Expires a) v)"

definition DecodeAuction :: "bytes \<Rightarrow> Auction result" where
  "DecodeAuction v =
     (case checkValue v EventAuction NexmarkAuctionBytes of
        Some e \<Rightarrow> Inl e
      | None \<Rightarrow>
          Inr \<lparr>a_ID = field v 0, a_Seller = field v 1, a_Category = field v 2, a_InitialBid = field v 3,
               a_Reserve = field v 4, a_DateTime = field v 5, a_Expires = field v 6\<rparr>)"

definition EncodeBid :: "Bid \<Rightarrow> bytes" where
  "EncodeBid b =
     (let v = replicate NexmarkBidBytes 0;
          v = v[0 := EventBid];
          v = putField 0 (b_Auction b) v;
          v = putField 1 (b_Bidder b) v;
          v = putField 2 (b_Price b) v
      in putField 3 (b_DateTime b) v)"

definition DecodeBid :: "bytes \<Rightarrow> Bid result" where
  "DecodeBid v =
     (case checkValue v EventBid NexmarkBidBytes of
        Some e \<Rightarrow> Inl e
      | None \<Rightarrow>
          Inr \<lparr>b_Auction = field v 0, b_Bidder = field v 1, b_Price = field v 2, b_DateTime = field v 3\<rparr>)"

section \<open>The source\<close>

definition nexmarkPersonsPerCycle :: int64 where "nexmarkPersonsPerCycle = 1"
definition nexmarkAuctionsPerCycle :: int64 where "nexmarkAuctionsPerCycle = 3"
definition nexmarkBidsPerCycle :: int64 where "nexmarkBidsPerCycle = 46"
definition nexmarkEventsPerCycle :: int64 where
  "nexmarkEventsPerCycle = nexmarkPersonsPerCycle + nexmarkAuctionsPerCycle + nexmarkBidsPerCycle"

lemmas nexmark_cycle = nexmarkPersonsPerCycle_def nexmarkAuctionsPerCycle_def nexmarkBidsPerCycle_def
  nexmarkEventsPerCycle_def

definition nexmarkNameSpace :: int64 where "nexmarkNameSpace = 1000"
definition nexmarkCitySpace :: int64 where "nexmarkCitySpace = 100"
definition nexmarkStateSpace :: int64 where "nexmarkStateSpace = 50"

definition nexmarkTimeSalt :: uint64 where "nexmarkTimeSalt = 0x10"
definition nexmarkPersonIDSalt :: uint64 where "nexmarkPersonIDSalt = 0x11"
definition nexmarkNameSalt :: uint64 where "nexmarkNameSalt = 0x12"
definition nexmarkCitySalt :: uint64 where "nexmarkCitySalt = 0x13"
definition nexmarkStateSalt :: uint64 where "nexmarkStateSalt = 0x14"
definition nexmarkAuctionIDSalt :: uint64 where "nexmarkAuctionIDSalt = 0x15"
definition nexmarkSellerSalt :: uint64 where "nexmarkSellerSalt = 0x16"
definition nexmarkCategorySalt :: uint64 where "nexmarkCategorySalt = 0x17"
definition nexmarkInitialBidSalt :: uint64 where "nexmarkInitialBidSalt = 0x18"
definition nexmarkReserveSalt :: uint64 where "nexmarkReserveSalt = 0x19"
definition nexmarkExpiresSalt :: uint64 where "nexmarkExpiresSalt = 0x1A"
definition nexmarkBidAuctionSalt :: uint64 where "nexmarkBidAuctionSalt = 0x1B"
definition nexmarkBidderSalt :: uint64 where "nexmarkBidderSalt = 0x1C"
definition nexmarkPriceSalt :: uint64 where "nexmarkPriceSalt = 0x1D"

definition maxNexmarkPriceRange :: int64 where "maxNexmarkPriceRange = 2 ^ 62"

record NexmarkConfig =
  n_Seed :: uint64
  n_Count :: int64
  n_AuctionCardinality :: int64
  n_PersonCardinality :: int64
  n_PriceRange :: int64
  n_CategoryCount :: int64
  n_AuctionDuration :: int64
  n_BaseEventTime :: int64
  n_EventTimeStep :: int64
  n_MaxLag :: int64

record Nexmark =
  n_cfg :: NexmarkConfig
  n_pos :: int64

definition NewNexmark :: "NexmarkConfig \<Rightarrow> Nexmark" where
  "NewNexmark cfg = \<lparr>n_cfg = cfg, n_pos = 0\<rparr>"

definition Nexmark_Open :: "Nexmark \<Rightarrow> go_error option" where
  "Nexmark_Open n =
     (let cfg = n_cfg n
      in if n_Count cfg \<le>s 0 then Some (SourceErr errSourceConfig)
         else if n_AuctionCardinality cfg \<le>s 0 then Some (SourceErr errSourceConfig)
         else if n_PersonCardinality cfg \<le>s 0 then Some (SourceErr errSourceConfig)
         else if n_PriceRange cfg <s 1 then Some (SourceErr errSourceConfig)
         else if maxNexmarkPriceRange <s n_PriceRange cfg then Some (SourceErr errSourceConfig)
         else if n_CategoryCount cfg <s 1 then Some (SourceErr errSourceConfig)
         else if n_AuctionDuration cfg <s 1 then Some (SourceErr errSourceConfig)
         else if n_MaxLag cfg <s 0 then Some (SourceErr errSourceConfig)
         else None)"

definition TypeAt :: "int64 \<Rightarrow> NexmarkEventType" where
  "TypeAt i =
     (let phase = floorMod64 i nexmarkEventsPerCycle
      in if phase <s nexmarkPersonsPerCycle then EventPerson
         else if phase <s nexmarkPersonsPerCycle + nexmarkAuctionsPerCycle then EventAuction
         else EventBid)"

definition draw :: "NexmarkConfig \<Rightarrow> uint64 \<Rightarrow> int64 \<Rightarrow> int64 \<Rightarrow> uint64" where
  "draw cfg salt i space = mix (n_Seed cfg XOR salt) i mod space"

definition nexmark_timeOf :: "NexmarkConfig \<Rightarrow> int64 \<Rightarrow> int64" where
  "nexmark_timeOf cfg i =
     (let lag = mix (n_Seed cfg XOR nexmarkTimeSalt) i mod (n_MaxLag cfg + 1)
      in n_BaseEventTime cfg + i * n_EventTimeStep cfg - lag)"

definition personAt :: "NexmarkConfig \<Rightarrow> int64 \<Rightarrow> Person" where
  "personAt cfg i =
     \<lparr>p_ID = draw cfg nexmarkPersonIDSalt i (n_PersonCardinality cfg),
      p_NameOffset = draw cfg nexmarkNameSalt i nexmarkNameSpace,
      p_CityOffset = draw cfg nexmarkCitySalt i nexmarkCitySpace,
      p_StateOffset = draw cfg nexmarkStateSalt i nexmarkStateSpace,
      p_DateTime = nexmark_timeOf cfg i\<rparr>"

definition auctionAt :: "NexmarkConfig \<Rightarrow> int64 \<Rightarrow> Auction" where
  "auctionAt cfg i =
     (let initial = draw cfg nexmarkInitialBidSalt i (n_PriceRange cfg);
          eventTime = nexmark_timeOf cfg i
      in \<lparr>a_ID = draw cfg nexmarkAuctionIDSalt i (n_AuctionCardinality cfg),
          a_Seller = draw cfg nexmarkSellerSalt i (n_PersonCardinality cfg),
          a_Category = draw cfg nexmarkCategorySalt i (n_CategoryCount cfg),
          a_InitialBid = initial,
          a_Reserve = initial + draw cfg nexmarkReserveSalt i (n_PriceRange cfg),
          a_DateTime = eventTime,
          a_Expires = addCeil64 eventTime (1 + draw cfg nexmarkExpiresSalt i (n_AuctionDuration cfg))\<rparr>)"

definition bidAt :: "NexmarkConfig \<Rightarrow> int64 \<Rightarrow> Bid" where
  "bidAt cfg i =
     \<lparr>b_Auction = draw cfg nexmarkBidAuctionSalt i (n_AuctionCardinality cfg),
      b_Bidder = draw cfg nexmarkBidderSalt i (n_PersonCardinality cfg),
      b_Price = draw cfg nexmarkPriceSalt i (n_PriceRange cfg),
      b_DateTime = nexmark_timeOf cfg i\<rparr>"

definition Nexmark_At :: "NexmarkConfig \<Rightarrow> int64 \<Rightarrow> Record" where
  "Nexmark_At cfg i =
     (let eventTime = nexmark_timeOf cfg i
      in if TypeAt i = EventPerson
         then let p = personAt cfg i
              in \<lparr>Key = NexmarkKey (p_ID p), Value = EncodePerson p, EventTime = eventTime\<rparr>
         else if TypeAt i = EventAuction
         then let a = auctionAt cfg i
              in \<lparr>Key = NexmarkKey (a_ID a), Value = EncodeAuction a, EventTime = eventTime\<rparr>
         else let b = bidAt cfg i
              in \<lparr>Key = NexmarkKey (b_Auction b), Value = EncodeBid b, EventTime = eventTime\<rparr>)"

definition Nexmark_Next :: "Nexmark \<Rightarrow> Nexmark \<times> Record option result" where
  "Nexmark_Next n =
     (if n_Count (n_cfg n) \<le>s n_pos n then (n, Inr None)
      else (n\<lparr>n_pos := n_pos n + 1\<rparr>, Inr (Some (Nexmark_At (n_cfg n) (n_pos n)))))"

definition Nexmark_SeekTo :: "int64 \<Rightarrow> Nexmark \<Rightarrow> Nexmark \<times> go_error option" where
  "Nexmark_SeekTo offset n =
     (if offset <s 0 then (n, Some (SourceErr errNegativeSeek)) else (n\<lparr>n_pos := offset\<rparr>, None))"

definition Nexmark_Position :: "Nexmark \<Rightarrow> int64" where
  "Nexmark_Position n = n_pos n"

definition Nexmark_Count :: "Nexmark \<Rightarrow> int64" where
  "Nexmark_Count n = n_Count (n_cfg n)"

definition Nexmark_source :: "Nexmark Source" where
  "Nexmark_source = \<lparr>src_Next = Nexmark_Next, src_SeekTo = Nexmark_SeekTo,
     src_Position = Nexmark_Position, src_Count = Some Nexmark_Count\<rparr>"

interpretation nex: replayable_source Nexmark_source "\<lambda>n. n_cfg n = cfg" "Nexmark_At cfg" "n_Count cfg"
  for cfg
  by unfold_locales
    (auto simp: Nexmark_source_def Nexmark_Count_def Nexmark_SeekTo_def Nexmark_Position_def
      Nexmark_Next_def word_sless_alt word_sle_eq)

section \<open>The layout of a value\<close>

definition fieldsOf :: "nat \<Rightarrow> bytes \<Rightarrow> uint64 list" where
  "fieldsOf n v = map (field v) [0..<n]"

definition layout :: "NexmarkEventType \<Rightarrow> uint64 list \<Rightarrow> bytes" where
  "layout t xs = t # concat (map (be_put 8) xs)"

lemma length_layout [simp]: "length (layout t xs) = Suc (8 * length xs)"
  by (induction xs) (simp_all add: layout_def)

lemma layout_Cons: "layout t (x # xs) = t # be_put 8 x @ tl (layout t xs)"
  by (simp add: layout_def)

lemma NexmarkTypeOf_layout: "NexmarkTypeOf (layout t xs) =
    (if t \<in> {EventPerson, EventAuction, EventBid} then Inr t else Inl (SourceErr errNexmarkValue))"
  by (simp add: NexmarkTypeOf_def layout_def nexmark_sizes)

lemma drop_concat_be: "drop (8 * i) (concat (map (be_put 8) xs)) = concat (map (be_put 8) (drop i xs))"
proof (induction xs arbitrary: i)
  case (Cons x xs)
  show ?case
  proof (cases i)
    case (Suc j)
    then show ?thesis using Cons [of j] by simp
  qed simp
qed simp

lemma field_layout: "i < length xs \<Longrightarrow> field (layout t xs) i = xs ! i"
proof -
  assume i: "i < length xs"
  have "drop (Suc (8 * i)) (layout t xs) = be_put 8 (xs ! i) @ concat (map (be_put 8) (drop (Suc i) xs))"
    using i by (simp add: layout_def drop_concat_be Cons_nth_drop_Suc [symmetric])
  then show ?thesis by (simp add: field_def nexmark_sizes mult.commute)
qed

lemma layout_fieldsOf:
  "length v = Suc (8 * n) \<Longrightarrow> layout (v ! 0) (fieldsOf n v) = v"
proof (induction n arbitrary: v)
  case 0
  then show ?case by (cases v) (simp_all add: layout_def fieldsOf_def)
next
  case (Suc n)
  then obtain b w where v: "v = b # w" "length w = 8 + 8 * n" by (cases v) auto
  let ?v = "b # drop 8 w"
  have f: "field v (Suc i) = field ?v i" "field v 0 = be_get 8 (take 8 w)" for i
    by (simp_all add: v field_def nexmark_sizes add.commute drop_Cons')
  have "fieldsOf (Suc n) v = field v 0 # fieldsOf n ?v"
    unfolding fieldsOf_def upt_rec [of 0 "Suc n"] by (simp add: f map_Suc_upt [symmetric] del: upt_Suc)
  moreover have "layout b (fieldsOf n ?v) = ?v" using Suc.IH [of ?v] v by simp
  ultimately show ?case
    using v be64_put_get [of "take 8 w"] f(2) by (simp add: layout_Cons)
qed

lemma putField_layout:
  "putField (length xs) x (layout t xs @ replicate (8 + n) 0) = layout t (xs @ [x]) @ replicate n 0"
  by (simp add: putField_def nexmark_sizes mult.commute) (simp add: layout_def)

lemma putField_steps:
  "putField 0 x (layout t [] @ replicate (8 + n) 0) = layout t [x] @ replicate n 0"
  "putField 1 x (layout t [a] @ replicate (8 + n) 0) = layout t [a, x] @ replicate n 0"
  "putField 2 x (layout t [a, b] @ replicate (8 + n) 0) = layout t [a, b, x] @ replicate n 0"
  "putField 3 x (layout t [a, b, c] @ replicate (8 + n) 0) = layout t [a, b, c, x] @ replicate n 0"
  "putField 4 x (layout t [a, b, c, d] @ replicate (8 + n) 0) = layout t [a, b, c, d, x] @ replicate n 0"
  "putField 5 x (layout t [a, b, c, d, e] @ replicate (8 + n) 0) = layout t [a, b, c, d, e, x] @ replicate n 0"
  "putField 6 x (layout t [a, b, c, d, e, f] @ replicate (8 + n) 0) = layout t [a, b, c, d, e, f, x] @ replicate n 0"
  using putField_layout [of "[]" x t n] putField_layout [of "[a]" x t n] putField_layout [of "[a, b]" x t n]
    putField_layout [of "[a, b, c]" x t n] putField_layout [of "[a, b, c, d]" x t n]
    putField_layout [of "[a, b, c, d, e]" x t n] putField_layout [of "[a, b, c, d, e, f]" x t n]
  by (simp_all add: eval_nat_numeral)

lemma blank_layout: "(replicate (Suc n) 0)[0 := t] = layout t [] @ replicate n 0"
  by (simp add: layout_def)

lemma EncodePerson_layout:
  "EncodePerson p = layout EventPerson [p_ID p, p_NameOffset p, p_CityOffset p, p_StateOffset p, p_DateTime p]"
proof -
  have "replicate NexmarkPersonBytes (0 :: byte) = replicate (Suc (8 + (8 + (8 + (8 + (8 + 0)))))) 0" by (simp add: nexmark_sizes)
  then show ?thesis unfolding EncodePerson_def Let_def by (simp only: blank_layout putField_steps) simp
qed

lemma EncodeAuction_layout:
  "EncodeAuction a = layout EventAuction
     [a_ID a, a_Seller a, a_Category a, a_InitialBid a, a_Reserve a, a_DateTime a, a_Expires a]"
proof -
  have "replicate NexmarkAuctionBytes (0 :: byte) = replicate (Suc (8 + (8 + (8 + (8 + (8 + (8 + (8 + 0)))))))) 0"
    by (simp add: nexmark_sizes)
  then show ?thesis unfolding EncodeAuction_def Let_def by (simp only: blank_layout putField_steps) simp
qed

lemma EncodeBid_layout: "EncodeBid b = layout EventBid [b_Auction b, b_Bidder b, b_Price b, b_DateTime b]"
proof -
  have "replicate NexmarkBidBytes (0 :: byte) = replicate (Suc (8 + (8 + (8 + (8 + 0))))) 0" by (simp add: nexmark_sizes)
  then show ?thesis unfolding EncodeBid_def Let_def by (simp only: blank_layout putField_steps) simp
qed

lemmas encode_layouts = EncodePerson_layout EncodeAuction_layout EncodeBid_layout

lemma checkValue_layout:
  "t \<in> {EventPerson, EventAuction, EventBid} \<Longrightarrow>
    checkValue (layout t xs) t' n = (if t = t' \<and> Suc (8 * length xs) = n then None else Some (SourceErr errNexmarkValue))"
  by (auto simp: checkValue_def NexmarkTypeOf_layout)

lemma checkValue_None:
  assumes "checkValue v t (Suc (8 * n)) = None"
  shows "v = layout t (fieldsOf n v)"
proof -
  have "length v = Suc (8 * n)" "v ! 0 = t"
    using assms by (auto simp: checkValue_def NexmarkTypeOf_def Let_def split: if_splits sum.splits)
  then show ?thesis using layout_fieldsOf by metis
qed

lemma nexmark_value_bytes:
  "NexmarkPersonBytes = Suc (8 * 5)" "NexmarkAuctionBytes = Suc (8 * 7)" "NexmarkBidBytes = Suc (8 * 4)"
  by (simp_all add: nexmark_sizes)

lemma fieldsOf_numeral:
  "fieldsOf 5 v = [field v 0, field v 1, field v 2, field v 3, field v 4]"
  "fieldsOf 7 v = [field v 0, field v 1, field v 2, field v 3, field v 4, field v 5, field v 6]"
  "fieldsOf 4 v = [field v 0, field v 1, field v 2, field v 3]"
  by (simp_all add: fieldsOf_def upt_rec eval_nat_numeral)

lemma DecodePerson_iff: "DecodePerson v = Inr p \<longleftrightarrow> v = EncodePerson p"
proof
  assume "DecodePerson v = Inr p"
  then have "checkValue v EventPerson (Suc (8 * 5)) = None"
    "p = \<lparr>p_ID = field v 0, p_NameOffset = field v 1, p_CityOffset = field v 2,
               p_StateOffset = field v 3, p_DateTime = field v 4\<rparr>"
    by (auto simp: DecodePerson_def nexmark_value_bytes split: option.splits)
  then show "v = EncodePerson p"
    using checkValue_None [of v EventPerson 5] by (simp add: fieldsOf_numeral EncodePerson_layout)
qed (simp add: DecodePerson_def EncodePerson_layout checkValue_layout nexmark_value_bytes field_layout)

lemma DecodeAuction_iff: "DecodeAuction v = Inr a \<longleftrightarrow> v = EncodeAuction a"
proof
  assume "DecodeAuction v = Inr a"
  then have "checkValue v EventAuction (Suc (8 * 7)) = None"
    "a = \<lparr>a_ID = field v 0, a_Seller = field v 1, a_Category = field v 2, a_InitialBid = field v 3,
               a_Reserve = field v 4, a_DateTime = field v 5, a_Expires = field v 6\<rparr>"
    by (auto simp: DecodeAuction_def nexmark_value_bytes split: option.splits)
  then show "v = EncodeAuction a"
    using checkValue_None [of v EventAuction 7] by (simp add: fieldsOf_numeral EncodeAuction_layout)
qed (simp add: DecodeAuction_def EncodeAuction_layout checkValue_layout nexmark_value_bytes field_layout)

lemma DecodeBid_iff: "DecodeBid v = Inr b \<longleftrightarrow> v = EncodeBid b"
proof
  assume "DecodeBid v = Inr b"
  then have "checkValue v EventBid (Suc (8 * 4)) = None"
    "b = \<lparr>b_Auction = field v 0, b_Bidder = field v 1, b_Price = field v 2, b_DateTime = field v 3\<rparr>"
    by (auto simp: DecodeBid_def nexmark_value_bytes split: option.splits)
  then show "v = EncodeBid b"
    using checkValue_None [of v EventBid 4] by (simp add: fieldsOf_numeral EncodeBid_layout)
qed (simp add: DecodeBid_def EncodeBid_layout checkValue_layout nexmark_value_bytes field_layout)

lemma NexmarkTypeOf_Encode [simp, codec_simps]:
  "NexmarkTypeOf (EncodePerson p) = Inr EventPerson" "NexmarkTypeOf (EncodeAuction a) = Inr EventAuction"
  "NexmarkTypeOf (EncodeBid b) = Inr EventBid"
  by (simp_all add: encode_layouts NexmarkTypeOf_layout)

section \<open>What the events look like\<close>

text \<open>The event times are those of a \<open>Generator\<close>: the lag is drawn with another salt.\<close>

definition asGenerator :: "NexmarkConfig \<Rightarrow> GeneratorConfig" where
  "asGenerator cfg = \<lparr>Seed = n_Seed cfg XOR nexmarkTimeSalt XOR timeSalt, Count = n_Count cfg, KeyCardinality = 1,
     BaseEventTime = n_BaseEventTime cfg, EventTimeStep = n_EventTimeStep cfg, MaxLag = n_MaxLag cfg,
     ValueSize = 8, AmountRange = 1\<rparr>"

lemma nexmark_timeOf_eq: "nexmark_timeOf cfg = timeOf (asGenerator cfg)"
  by (simp add: fun_eq_iff nexmark_timeOf_def timeOf_def asGenerator_def xor.assoc)

lemma Nexmark_Open_None:
  assumes "Nexmark_Open n = None"
  shows "0 < sint (n_AuctionCardinality (n_cfg n))" "0 < sint (n_PersonCardinality (n_cfg n))"
    "0 < sint (n_PriceRange (n_cfg n))" "sint (n_PriceRange (n_cfg n)) \<le> 2 ^ 62"
    "0 < sint (n_CategoryCount (n_cfg n))" "0 < sint (n_AuctionDuration (n_cfg n))"
  using assms
  by (auto simp: Nexmark_Open_def Let_def maxNexmarkPriceRange_def word_sless_alt word_sle_eq split: if_splits)

lemma TypeAt_eq:
  "TypeAt i = (if sint i mod 50 = 0 then EventPerson else if sint i mod 50 < 4 then EventAuction else EventBid)"
proof -
  have "sint (floorMod64 i nexmarkEventsPerCycle) = sint i mod 50"
    by (simp add: sint_floorMod nexmark_cycle)
  moreover have "0 \<le> sint i mod 50" by simp
  ultimately show ?thesis by (auto simp: TypeAt_def Let_def word_sless_alt nexmark_cycle)
qed

text \<open>A reserve does not wrap, and an auction ends after it opens unless the time saturates.\<close>

lemma reserve_covers:
  assumes "0 < sint (n_PriceRange cfg)" "sint (n_PriceRange cfg) \<le> 2 ^ 62"
  shows "uint (a_InitialBid (auctionAt cfg i)) \<le> uint (a_Reserve (auctionAt cfg i))"
    "uint (a_Reserve (auctionAt cfg i)) < uint (a_InitialBid (auctionAt cfg i)) + sint (n_PriceRange cfg)"
proof -
  let ?a = "draw cfg nexmarkInitialBidSalt i (n_PriceRange cfg)" and ?b = "draw cfg nexmarkReserveSalt i (n_PriceRange cfg)"
  have b: "uint ?a < sint (n_PriceRange cfg)" "uint ?b < sint (n_PriceRange cfg)"
    by (simp_all add: draw_def mod_below assms)
  moreover have "uint (?a + ?b) = uint ?a + uint ?b"
    using b assms(2) by (simp add: uint_add_lem [symmetric])
  ultimately show "uint (a_InitialBid (auctionAt cfg i)) \<le> uint (a_Reserve (auctionAt cfg i))"
    "uint (a_Reserve (auctionAt cfg i)) < uint (a_InitialBid (auctionAt cfg i)) + sint (n_PriceRange cfg)"
    by (simp_all add: auctionAt_def Let_def)
qed

lemma expires_later:
  assumes "0 < sint (n_AuctionDuration cfg)"
  shows "sint (a_DateTime (auctionAt cfg i)) < sint (a_Expires (auctionAt cfg i)) \<or> a_Expires (auctionAt cfg i) = maxInt64"
    "sint (a_Expires (auctionAt cfg i)) \<le> sint (a_DateTime (auctionAt cfg i)) + sint (n_AuctionDuration cfg)"
proof -
  let ?d = "draw cfg nexmarkExpiresSalt i (n_AuctionDuration cfg)"
  have d: "uint ?d < sint (n_AuctionDuration cfg)" by (simp add: draw_def mod_below assms)
  have b: "sint (n_AuctionDuration cfg) \<le> 9223372036854775807" by (rule sint64_bounds)
  have "1 + ?d = word_of_int (1 + uint ?d)" by (simp add: wi_hom_syms)
  then have "sint (1 + ?d) = 1 + uint ?d" using d b sint64_of_int [of "1 + uint ?d"] by simp
  then obtain u where "sint (1 + ?d) = 1 + u" "0 \<le> u" "u < sint (n_AuctionDuration cfg)" using d by simp
  then show "sint (a_DateTime (auctionAt cfg i)) < sint (a_Expires (auctionAt cfg i)) \<or> a_Expires (auctionAt cfg i) = maxInt64"
    "sint (a_Expires (auctionAt cfg i)) \<le> sint (a_DateTime (auctionAt cfg i)) + sint (n_AuctionDuration cfg)"
    by (auto simp: auctionAt_def Let_def sint_addCeil min_def intro: sint64_eqI)
qed

text \<open>A name space, a number drawn from it.\<close>

lemma draw_below: "0 < sint space \<Longrightarrow> uint (draw cfg salt i space) < sint space"
  by (simp add: draw_def mod_below)

lemma spaces: "0 < sint nexmarkNameSpace" "0 < sint nexmarkCitySpace" "0 < sint nexmarkStateSpace"
  "sint nexmarkNameSpace = 1000" "sint nexmarkCitySpace = 100" "sint nexmarkStateSpace = 50"
  by (simp_all add: nexmarkNameSpace_def nexmarkCitySpace_def nexmarkStateSpace_def)

text \<open>What each kind of event holds: every number in its range.\<close>

definition validPerson :: "NexmarkConfig \<Rightarrow> Person \<Rightarrow> bool" where
  "validPerson cfg p \<longleftrightarrow> uint (p_ID p) < sint (n_PersonCardinality cfg) \<and>
     uint (p_NameOffset p) < 1000 \<and> uint (p_CityOffset p) < 100 \<and> uint (p_StateOffset p) < 50"

definition validAuction :: "NexmarkConfig \<Rightarrow> Auction \<Rightarrow> bool" where
  "validAuction cfg a \<longleftrightarrow> uint (a_ID a) < sint (n_AuctionCardinality cfg) \<and>
     uint (a_Seller a) < sint (n_PersonCardinality cfg) \<and> uint (a_Category a) < sint (n_CategoryCount cfg) \<and>
     uint (a_InitialBid a) < sint (n_PriceRange cfg) \<and>
     uint (a_InitialBid a) \<le> uint (a_Reserve a) \<and> uint (a_Reserve a) < uint (a_InitialBid a) + sint (n_PriceRange cfg) \<and>
     (sint (a_DateTime a) < sint (a_Expires a) \<or> a_Expires a = maxInt64) \<and>
     sint (a_Expires a) \<le> sint (a_DateTime a) + sint (n_AuctionDuration cfg)"

definition validBid :: "NexmarkConfig \<Rightarrow> Bid \<Rightarrow> bool" where
  "validBid cfg b \<longleftrightarrow> uint (b_Auction b) < sint (n_AuctionCardinality cfg) \<and>
     uint (b_Bidder b) < sint (n_PersonCardinality cfg) \<and> uint (b_Price b) < sint (n_PriceRange cfg)"

lemma events_valid:
  assumes "Nexmark_Open n = None" "n_cfg n = cfg"
  shows "validPerson cfg (personAt cfg i)" "validAuction cfg (auctionAt cfg i)" "validBid cfg (bidAt cfg i)"
proof -
  note ok = Nexmark_Open_None [OF assms(1), unfolded assms(2)]
  show "validPerson cfg (personAt cfg i)"
    using draw_below [OF ok(2)] draw_below [OF spaces(1)] draw_below [OF spaces(2)] draw_below [OF spaces(3)]
    by (simp add: validPerson_def personAt_def spaces)
  have "uint (a_Category (auctionAt cfg i)) < sint (n_CategoryCount cfg)"
    "uint (a_InitialBid (auctionAt cfg i)) < sint (n_PriceRange cfg)"
    "uint (a_ID (auctionAt cfg i)) < sint (n_AuctionCardinality cfg)"
    "uint (a_Seller (auctionAt cfg i)) < sint (n_PersonCardinality cfg)"
    by (simp_all add: auctionAt_def Let_def draw_below ok)
  then show "validAuction cfg (auctionAt cfg i)"
    using reserve_covers [OF ok(3,4)] expires_later [OF ok(6)] unfolding validAuction_def by blast
  show "validBid cfg (bidAt cfg i)" by (simp add: validBid_def bidAt_def draw_below ok)
qed

section \<open>Properties\<close>

text \<open>C36. Every decoder of Nexmark events is exact: it accepts precisely the bytes its encoder writes and
  gives back the event they were written from, so that no value decodes as two kinds of event
  and every other value, short, long or mistagged, is refused with the error of the package.\<close>

theorem nexmark_codec_exact:
  "(DecodePerson v = Inr p \<longleftrightarrow> v = EncodePerson p) \<and> (DecodeAuction v = Inr a \<longleftrightarrow> v = EncodeAuction a) \<and>
   (DecodeBid v = Inr b \<longleftrightarrow> v = EncodeBid b) \<and>
   EncodePerson p \<noteq> EncodeAuction a \<and> EncodePerson p \<noteq> EncodeBid b \<and> EncodeAuction a \<noteq> EncodeBid b \<and>
   DecodePerson v \<in> insert (Inl (SourceErr errNexmarkValue)) (range Inr) \<and>
   DecodeAuction v \<in> insert (Inl (SourceErr errNexmarkValue)) (range Inr) \<and>
   DecodeBid v \<in> insert (Inl (SourceErr errNexmarkValue)) (range Inr)"
proof -
  have err: "checkValue v t n \<in> {None, Some (SourceErr errNexmarkValue)}" for t n
    by (auto simp: checkValue_def NexmarkTypeOf_def Let_def)
  have "DecodePerson v \<in> insert (Inl (SourceErr errNexmarkValue)) (range Inr)"
    "DecodeAuction v \<in> insert (Inl (SourceErr errNexmarkValue)) (range Inr)"
    "DecodeBid v \<in> insert (Inl (SourceErr errNexmarkValue)) (range Inr)"
    using err [of EventPerson NexmarkPersonBytes] err [of EventAuction NexmarkAuctionBytes] err [of EventBid NexmarkBidBytes]
    by (auto simp: DecodePerson_def DecodeAuction_def DecodeBid_def)
  then show ?thesis
    by (auto simp: DecodePerson_iff DecodeAuction_iff DecodeBid_iff encode_layouts layout_def event_types)
qed

text \<open>C35. The Nexmark source makes well-formed events in bounded disorder. Take a configuration \<open>Open\<close>
  accepts whose event-time step is not negative, which \<open>Open\<close> does not check, and whose event
  times fit in an \<open>int64\<close>. The record at each offset is the first event of its cycle of fifty
  as a person, the next three as auctions, the rest as bids; it decodes as that kind, keyed by
  the person's or the auction's id. Ids, sellers and bidders are below their cardinalities,
  categories below the number of categories, first bids and prices below the price range,
  names, cities and states below the sizes of their spaces. A reserve is the first bid or above
  it by less than the price range, without wrapping; an auction ends after it opens, or at the
  end of time, and no later than the longest duration after. The event time is no more than
  \<open>MaxLag\<close> before that of any earlier record.\<close>

theorem nexmark_records:
  assumes "Nexmark_Open n = None" "n_cfg n = cfg" "timesFit (asGenerator cfg)"
    and "0 \<le> sint m" "sint m \<le> sint (n_pos n)" "sint (n_pos n) < sint (n_Count cfg)"
  shows "\<exists>n' r. Nexmark_Next n = (n', Inr (Some r)) \<and> n_pos n' = n_pos n + 1 \<and> n_cfg n' = cfg \<and>
    sint (nexmark_timeOf cfg m) - sint (n_MaxLag cfg) \<le> sint (EventTime r) \<and>
    (if sint (n_pos n) mod 50 = 0 then
       \<exists>p. DecodePerson (Value r) = Inr p \<and> NexmarkKeyID (Key r) = Inr (p_ID p) \<and> p_DateTime p = EventTime r \<and> validPerson cfg p
     else if sint (n_pos n) mod 50 < 4 then
       \<exists>a. DecodeAuction (Value r) = Inr a \<and> NexmarkKeyID (Key r) = Inr (a_ID a) \<and> a_DateTime a = EventTime r \<and> validAuction cfg a
     else
       \<exists>b. DecodeBid (Value r) = Inr b \<and> NexmarkKeyID (Key r) = Inr (b_Auction b) \<and> b_DateTime b = EventTime r \<and> validBid cfg b)"
proof -
  let ?i = "n_pos n"
  have nxt: "Nexmark_Next n = (n\<lparr>n_pos := ?i + 1\<rparr>, Inr (Some (Nexmark_At cfg ?i)))"
    using assms(2,6) by (simp add: Nexmark_Next_def word_sle_eq)
  have time: "EventTime (Nexmark_At cfg ?i) = nexmark_timeOf cfg ?i"
    by (simp add: Nexmark_At_def Let_def)
  have lag: "sint (nexmark_timeOf cfg m) - sint (n_MaxLag cfg) \<le> sint (nexmark_timeOf cfg ?i)"
    using timeOf_bounded_disorder(1) [OF assms(3-5)] assms(6) by (simp add: nexmark_timeOf_eq asGenerator_def)
  have key: "NexmarkKeyID (NexmarkKey x) = Inr x" for x
    by (simp add: NexmarkKeyID_def NexmarkKey_def nexmark_sizes)
  have dates: "p_DateTime (personAt cfg ?i) = nexmark_timeOf cfg ?i" "a_DateTime (auctionAt cfg ?i) = nexmark_timeOf cfg ?i"
    "b_DateTime (bidAt cfg ?i) = nexmark_timeOf cfg ?i"
    by (simp_all add: personAt_def auctionAt_def bidAt_def Let_def)
  show ?thesis
    using lag events_valid [OF assms(1,2), of ?i] assms(2) dates
    by (auto simp: nxt time Nexmark_At_def Let_def TypeAt_eq event_types key DecodePerson_iff DecodeAuction_iff DecodeBid_iff)
qed

definition example_nexmark :: NexmarkConfig where
  "example_nexmark = \<lparr>n_Seed = 7, n_Count = 100, n_AuctionCardinality = 5, n_PersonCardinality = 4, n_PriceRange = 1000,
     n_CategoryCount = 3, n_AuctionDuration = 50, n_BaseEventTime = 0, n_EventTimeStep = 10, n_MaxLag = 30\<rparr>"

theorem nexmark_records_witness:
  "\<exists>n' r. Nexmark_Next (NewNexmark example_nexmark\<lparr>n_pos := 52\<rparr>) = (n', Inr (Some r)) \<and>
    sint (nexmark_timeOf example_nexmark 9) - 30 \<le> sint (EventTime r) \<and>
    (\<exists>a. DecodeAuction (Value r) = Inr a \<and> NexmarkKeyID (Key r) = Inr (a_ID a) \<and> validAuction example_nexmark a)"
  using nexmark_records [of "NewNexmark example_nexmark\<lparr>n_pos := 52\<rparr>" example_nexmark 9]
  by (simp add: Nexmark_Open_def NewNexmark_def example_nexmark_def asGenerator_def timesFit_def maxNexmarkPriceRange_def
      word_sless_alt word_sle_eq) blast

text \<open>A reserve can be at or above the price range.\<close>

definition narrow_nexmark :: NexmarkConfig where
  "narrow_nexmark = example_nexmark\<lparr>n_PriceRange := 2\<rparr>"

lemma reserve_above_range:
  "Nexmark_Open (NewNexmark narrow_nexmark) = None" "TypeAt 3 = EventAuction" "a_Reserve (auctionAt narrow_nexmark 3) = 2"
  by code_simp+

end
