(* ===== verification/Nexmark_Queries.thy ===== *)
theory Nexmark_Queries
  imports Oracle Transform Nexmark_Source
begin

text \<open>
  \<open>pkg/operators/nexmark.go\<close>, the stateless queries and q7: passthrough, conversion, selection,
  and the highest bid of each auction and window. The constructors that panic return \<open>None\<close>
  there. The struct of q7 holds its configuration and two counters; the keyed state it aliases
  is passed and returned beside it.
\<close>

section \<open>Stateless queries\<close>

definition Q1Factor :: uint64 where "Q1Factor = 89"
definition Q2Divisor :: uint64 where "Q2Divisor = 3"

text \<open>\<open>Inr None\<close> is a record that is not a bid.\<close>

definition bidOf :: "Record \<Rightarrow> Bid option result" where
  "bidOf rec =
     (case NexmarkTypeOf (Value rec) of
        Inl e \<Rightarrow> Inl e
      | Inr typ \<Rightarrow>
          if typ \<noteq> EventBid then Inr None
          else (case DecodeBid (Value rec) of Inl e \<Rightarrow> Inl e | Inr bid \<Rightarrow> Inr (Some bid)))"

definition NewQ0 :: Map where
  "NewQ0 = NewMap (\<lambda>rec. Inr (Some rec))"

definition NewQ1 :: "uint64 \<Rightarrow> Map" where
  "NewQ1 factor = NewMap (\<lambda>rec.
     case bidOf rec of
       Inl e \<Rightarrow> Inl e
     | Inr None \<Rightarrow> Inr None
     | Inr (Some bid) \<Rightarrow>
         Inr (Some \<lparr>Key = Key rec, Value = EncodeBid (bid\<lparr>b_Price := b_Price bid * factor\<rparr>),
                    EventTime = EventTime rec\<rparr>))"

definition NewQ2 :: "uint64 \<Rightarrow> Map option" where
  "NewQ2 divisor =
     (if divisor = 0 then None
      else Some (NewMap (\<lambda>rec.
        case bidOf rec of
          Inl e \<Rightarrow> Inl e
        | Inr None \<Rightarrow> Inr None
        | Inr (Some bid) \<Rightarrow> if b_Auction bid mod divisor \<noteq> 0 then Inr None else Inr (Some rec))))"

definition NewBidsOnly :: Map where
  "NewBidsOnly = NewMap (\<lambda>rec.
     case NexmarkTypeOf (Value rec) of
       Inl e \<Rightarrow> Inl e
     | Inr typ \<Rightarrow> if typ \<noteq> EventBid then Inr None else Inr (Some rec))"

section \<open>The winning bid\<close>

record MaxBid =
  mb_size :: int64
  mb_allowedLateness :: int64
  mb_dropped :: int64
  mb_onTime :: int64

definition winningBidBytes :: nat where "winningBidBytes = 3 * 8"

record WinningBid =
  wb_Price :: uint64
  wb_Bidder :: uint64
  wb_Auction :: uint64

definition EncodeWinningBid :: "WinningBid \<Rightarrow> bytes" where
  "EncodeWinningBid w = be_put 8 (wb_Price w) @ be_put 8 (wb_Bidder w) @ be_put 8 (wb_Auction w)"

definition DecodeWinningBid :: "bytes \<Rightarrow> WinningBid result" where
  "DecodeWinningBid v =
     (if length v \<noteq> winningBidBytes then Inl (OperatorErr errWinningBidLength)
      else Inr \<lparr>wb_Price = be_get 8 (take 8 v), wb_Bidder = be_get 8 (take 8 (drop 8 v)),
                wb_Auction = be_get 8 (take 8 (drop 16 v))\<rparr>)"

definition betterBid :: "WinningBid \<Rightarrow> WinningBid \<Rightarrow> bool" where
  "betterBid a b =
     (if wb_Price a \<noteq> wb_Price b then wb_Price b < wb_Price a
      else if wb_Bidder a \<noteq> wb_Bidder b then wb_Bidder a < wb_Bidder b
      else wb_Auction a < wb_Auction b)"

definition NewQ7 :: "int64 \<Rightarrow> int64 \<Rightarrow> MaxBid option" where
  "NewQ7 sz lateness =
     (if sz \<le>s 0 then None
      else if lateness <s 0 then None
      else Some \<lparr>mb_size = sz, mb_allowedLateness = lateness, mb_dropped = 0, mb_onTime = 0\<rparr>)"

definition MaxBid_Open :: "Memory option \<Rightarrow> Memory result" where
  "MaxBid_Open st = (case st of None \<Rightarrow> Inl (OperatorErr errNoKeyedState) | Some m \<Rightarrow> Inr m)"

definition MaxBid_Dropped :: "MaxBid \<Rightarrow> int64" where
  "MaxBid_Dropped m = mb_dropped m"

definition MaxBid_OnTime :: "MaxBid \<Rightarrow> int64" where
  "MaxBid_OnTime m = mb_onTime m"

definition windowStartOfTime :: "MaxBid \<Rightarrow> int64 \<Rightarrow> int64" where
  "windowStartOfTime m t = subFloor t (floorMod t (mb_size m))"

definition MaxBid_fireTimeOf :: "MaxBid \<Rightarrow> int64 \<Rightarrow> int64" where
  "MaxBid_fireTimeOf m start = addCeil start (mb_size m - 1)"

definition MaxBid_isPurged :: "MaxBid \<Rightarrow> int64 \<Rightarrow> int64 \<Rightarrow> bool" where
  "MaxBid_isPurged m watermark start \<longleftrightarrow> addCeil (addCeil start (mb_size m)) (mb_allowedLateness m) <s watermark"

definition MaxBid_ProcessElement :: "Record \<Rightarrow> MaxBid \<Rightarrow> Memory \<Rightarrow> (MaxBid \<times> Memory) \<times> go_error option" where
  "MaxBid_ProcessElement rec m st =
     (case bidOf rec of
        Inl e \<Rightarrow> ((m, st), Some e)
      | Inr None \<Rightarrow> ((m, st), None)
      | Inr (Some bid) \<Rightarrow>
          (case loadWatermark st of
             Inl e \<Rightarrow> ((m, st), Some e)
           | Inr watermark \<Rightarrow>
               (let start = windowStartOfTime m (EventTime rec)
                in if MaxBid_isPurged m watermark start
                   then ((m\<lparr>mb_dropped := mb_dropped m + 1\<rparr>, st), None)
                   else let m' = m\<lparr>mb_onTime := mb_onTime m + 1\<rparr>;
                            candidate = \<lparr>wb_Price = b_Price bid, wb_Bidder = b_Bidder bid, wb_Auction = b_Auction bid\<rparr>;
                            stateKey = appendStateKey [] (Key rec) start;
                            timerKey = appendTimerKey [] (MaxBid_fireTimeOf m start) (Key rec) start
                        in case Memory_Get st stateKey of
                             None \<Rightarrow>
                               ((m', Memory_Put timerKey [] (Memory_Put stateKey (EncodeWinningBid candidate) st)), None)
                           | Some held \<Rightarrow>
                               (case DecodeWinningBid held of
                                  Inl e \<Rightarrow> ((m', st), Some e)
                                | Inr current \<Rightarrow>
                                    (let candidate = if \<not> betterBid candidate current then current else candidate
                                     in ((m', Memory_Put timerKey [] (Memory_Put stateKey (EncodeWinningBid candidate) st)),
                                         None))))))"

definition MaxBid_fire :: "MaxBid \<Rightarrow> Memory \<Rightarrow> bytes \<Rightarrow> int64 \<Rightarrow> Record result" where
  "MaxBid_fire m st key start =
     (case Memory_Get st (appendStateKey [] key start) of
        None \<Rightarrow> Inl (OperatorErr errFiredWithNoState)
      | Some v \<Rightarrow>
          (case DecodeWinningBid v of
             Inl e \<Rightarrow> Inl e
           | Inr winner \<Rightarrow>
               Inr \<lparr>Key = key, Value = EncodeWinningBid winner, EventTime = MaxBid_fireTimeOf m start\<rparr>))"

definition MaxBid_ProcessWatermark :: "int64 \<Rightarrow> MaxBid \<Rightarrow> Memory \<Rightarrow> (Memory \<times> Record list) \<times> go_error option" where
  "MaxBid_ProcessWatermark wm m st =
     (let st0 = storeWatermark wm st
      in case collectDue st0 wm of
           Inl e \<Rightarrow> ((st0, []), Some e)
         | Inr due \<Rightarrow>
             (case fireAll (MaxBid_fire m) due st0 of
                ((st1, out), Some e) \<Rightarrow> ((st1, out), Some e)
              | ((st1, out), None) \<Rightarrow>
                  (case purgeWindows (\<lambda>stateKey.
                      case windowStartOf stateKey of
                        Inl e \<Rightarrow> Inl e
                      | Inr start \<Rightarrow> Inr (MaxBid_isPurged m wm start)) st1 of
                     (st2, err) \<Rightarrow> ((st2, out), err))))"

definition MaxBid_OnEndOfStream :: "MaxBid \<Rightarrow> Memory \<Rightarrow> (Memory \<times> Record list) \<times> go_error option" where
  "MaxBid_OnEndOfStream m st = ((st, []), None)"

definition MaxBid_Snapshot :: "MaxBid \<Rightarrow> go_error option" where
  "MaxBid_Snapshot m = Some (OperatorErr errNotSnapshottable)"

definition MaxBid_Restore :: "MaxBid \<Rightarrow> go_error option" where
  "MaxBid_Restore m = Some (OperatorErr errNotSnapshottable)"

definition MaxBid_operator :: "MaxBid Operator" where
  "MaxBid_operator =
     \<lparr>op_Open = \<lambda>st m. (m, case MaxBid_Open st of Inl e \<Rightarrow> Some e | Inr _ \<Rightarrow> None),
      op_ProcessElement = \<lambda>rec m st. (case MaxBid_ProcessElement rec m st of ((m', st'), e) \<Rightarrow> ((m', st', []), e)),
      op_ProcessWatermark = \<lambda>wm m st. (case MaxBid_ProcessWatermark wm m st of ((st', out), e) \<Rightarrow> ((m, st', out), e)),
      op_OnEndOfStream = \<lambda>m st. (case MaxBid_OnEndOfStream m st of ((st', out), e) \<Rightarrow> ((m, st', out), e)),
      op_Close = (\<lambda>_. None)\<rparr>"

section \<open>Configurations\<close>

definition MaxBid_ok :: "MaxBid \<Rightarrow> bool" where
  "MaxBid_ok m \<longleftrightarrow> 0 < sint (mb_size m) \<and> 0 \<le> sint (mb_allowedLateness m)"

text \<open>Its windows are those of a tumbling count.\<close>

definition asWindow :: "MaxBid \<Rightarrow> WindowCount" where
  "asWindow m = \<lparr>w_size = mb_size m, w_slide = mb_size m, w_allowedLateness = mb_allowedLateness m, w_dropped = 0\<rparr>"

lemma asWindow_ok: "MaxBid_ok m \<Longrightarrow> WindowCount_ok (asWindow m)"
  by (simp add: MaxBid_ok_def WindowCount_ok_def asWindow_def)

lemma asWindow_times:
  "MaxBid_fireTimeOf m = fireTimeOf (asWindow m)" "MaxBid_isPurged m = isPurged (asWindow m)"
  by (simp_all add: fun_eq_iff MaxBid_fireTimeOf_def fireTimeOf_def MaxBid_isPurged_def isPurged_def asWindow_def)

lemma asWindow_windows: "MaxBid_ok m \<Longrightarrow> windowsFor (asWindow m) t = [windowStartOfTime m t]"
proof -
  assume "MaxBid_ok m"
  then have "sint (go_div (mb_size m) (mb_size m)) = 1" by (simp add: MaxBid_ok_def sint64_div_nonneg)
  then show ?thesis by (simp add: windowsFor_def asWindow_def windowStartOfTime_def Let_def)
qed

lemma MaxBid_times_onTime [simp]:
  "MaxBid_fireTimeOf (m\<lparr>mb_onTime := k\<rparr>) = MaxBid_fireTimeOf m" "MaxBid_isPurged (m\<lparr>mb_onTime := k\<rparr>) = MaxBid_isPurged m"
  "windowStartOfTime (m\<lparr>mb_onTime := k\<rparr>) = windowStartOfTime m" "MaxBid_fire (m\<lparr>mb_onTime := k\<rparr>) = MaxBid_fire m"
proof -
  show t: "MaxBid_fireTimeOf (m\<lparr>mb_onTime := k\<rparr>) = MaxBid_fireTimeOf m" "MaxBid_isPurged (m\<lparr>mb_onTime := k\<rparr>) = MaxBid_isPurged m"
    "windowStartOfTime (m\<lparr>mb_onTime := k\<rparr>) = windowStartOfTime m"
    by (simp_all add: fun_eq_iff MaxBid_fireTimeOf_def MaxBid_isPurged_def windowStartOfTime_def)
  show "MaxBid_fire (m\<lparr>mb_onTime := k\<rparr>) = MaxBid_fire m"
    by (intro ext) (unfold MaxBid_fire_def t(1), rule refl)
qed

interpretation mbw: windowed_operator MaxBid_ok MaxBid_fireTimeOf MaxBid_isPurged
  by unfold_locales (auto simp: asWindow_times intro: wc.purged_after_fire [OF asWindow_ok])

section \<open>The order on bids\<close>

text \<open>A higher price wins, then a lower bidder, then a lower auction: a strict order in which any two
  different bids compare, so the best of a window does not depend on the order they came in.\<close>

lemma betterBid_irrefl: "\<not> betterBid a a"
  by (simp add: betterBid_def)

lemma betterBid_trans: "betterBid a b \<Longrightarrow> betterBid b c \<Longrightarrow> betterBid a c"
  by (auto simp: betterBid_def split: if_splits)

lemma betterBid_total: "a \<noteq> b \<Longrightarrow> betterBid a b \<or> betterBid b a"
  by (cases a; cases b) (auto simp: betterBid_def)

lemma betterBid_asym: "betterBid a b \<Longrightarrow> \<not> betterBid b a"
  using betterBid_trans betterBid_irrefl by blast

definition winnerIn :: "bytes \<Rightarrow> WinningBid" where
  "winnerIn v = \<lparr>wb_Price = be_get 8 (take 8 v), wb_Bidder = be_get 8 (take 8 (drop 8 v)),
     wb_Auction = be_get 8 (take 8 (drop 16 v))\<rparr>"

lemma DecodeWinningBid_eq: "length v = 24 \<Longrightarrow> DecodeWinningBid v = Inr (winnerIn v)"
  by (simp add: DecodeWinningBid_def winningBidBytes_def winnerIn_def)

lemma length_EncodeWinningBid [simp, codec_simps]: "length (EncodeWinningBid w) = 24"
  by (simp add: EncodeWinningBid_def)

lemma winnerIn_Encode [simp, codec_simps]: "winnerIn (EncodeWinningBid w) = w"
  by (simp add: EncodeWinningBid_def winnerIn_def)

section \<open>What a record does\<close>

definition candidateOf :: "Record \<Rightarrow> WinningBid option" where
  "candidateOf r =
     (case bidOf r of
        Inr (Some bid) \<Rightarrow> Some \<lparr>wb_Price = b_Price bid, wb_Bidder = b_Bidder bid, wb_Auction = b_Auction bid\<rparr>
      | _ \<Rightarrow> None)"

definition bids :: "MaxBid \<Rightarrow> bytes \<times> int64 \<Rightarrow> Record \<Rightarrow> bool" where
  "bids m ks r \<longleftrightarrow> candidateOf r \<noteq> None \<and> ks = (Key r, windowStartOfTime m (EventTime r))"

definition bestAdd :: "Record \<Rightarrow> WinningBid option \<Rightarrow> WinningBid" where
  "bestAdd r a =
     (case a of
        None \<Rightarrow> the (candidateOf r)
      | Some c \<Rightarrow> if betterBid (the (candidateOf r)) c then the (candidateOf r) else c)"

lemma bestAdd_simps:
  "bestAdd r None = the (candidateOf r)"
  "bestAdd r (Some c) = (if betterBid (the (candidateOf r)) c then the (candidateOf r) else c)"
  by (simp_all add: bestAdd_def)

definition emitWinner :: "MaxBid \<Rightarrow> bytes \<times> int64 \<Rightarrow> WinningBid \<Rightarrow> Record" where
  "emitWinner m ks w = \<lparr>Key = fst ks, Value = EncodeWinningBid w, EventTime = MaxBid_fireTimeOf m (snd ks)\<rparr>"

definition sameQ7 :: "MaxBid \<Rightarrow> MaxBid \<Rightarrow> bool" where
  "sameQ7 m m' \<longleftrightarrow> m'\<lparr>mb_onTime := mb_onTime m\<rparr> = m"

lemma sameQ7_upd: "sameQ7 m m' \<Longrightarrow> sameQ7 m (m'\<lparr>mb_onTime := k\<rparr>)"
  by (simp add: sameQ7_def)

lemma sameQ7_times:
  assumes "sameQ7 m m'"
  shows "MaxBid_fireTimeOf m' = MaxBid_fireTimeOf m" "MaxBid_isPurged m' = MaxBid_isPurged m"
    "windowStartOfTime m' = windowStartOfTime m" "MaxBid_fire m' = MaxBid_fire m"
  using assms MaxBid_times_onTime [where m = m' and k = "mb_onTime m"] by (simp_all add: sameQ7_def)

lemma put_winner:
  assumes inv: "windowed_inv 24 ft st"
    and st': "st' = Memory_Put (timerKeyOf (ft (snd ks)) (fst ks) (snd ks)) []
      (Memory_Put (stateKeyOf (fst ks) (snd ks)) (EncodeWinningBid w) st)"
  shows "windowed_inv 24 ft st'" "loadWatermark st' = loadWatermark st"
    "aggOf winnerIn st' ks' = (if ks' = ks then Some w else aggOf winnerIn st ks')"
    "timerSet ft st' = insert ks (timerSet ft st)"
proof -
  have m: "Memory_inv st" using inv by blast
  show "windowed_inv 24 ft st'" unfolding st' by (rule windowed_inv_put [OF inv]) simp
  show "loadWatermark st' = loadWatermark st" using m by (simp add: st' loadWatermark_def)
  show "aggOf winnerIn st' ks' = (if ks' = ks then Some w else aggOf winnerIn st ks')"
    using m by (auto simp: st' aggOf_def prod_eq_iff)
  show "timerSet ft st' = insert ks (timerSet ft st)"
    using m by (auto simp: st' timerSet_def)
qed

lemma q7_element:
  assumes op: "sameQ7 m op" and inv: "windowed_inv 24 (MaxBid_fireTimeOf m) st" and wm: "loadWatermark st = Inr wm"
    and r: "\<not> isl (bidOf r)" and np: "\<And>ks. bids m ks r \<Longrightarrow> \<not> MaxBid_isPurged m wm (snd ks)"
  shows "\<exists>op' st'. MaxBid_ProcessElement r op st = ((op', st'), None) \<and> sameQ7 m op' \<and>
    windowed_inv 24 (MaxBid_fireTimeOf m) st' \<and> loadWatermark st' = Inr wm \<and>
    (\<forall>ks. aggOf winnerIn st' ks = (if bids m ks r then Some (bestAdd r (aggOf winnerIn st ks)) else aggOf winnerIn st ks)) \<and>
    timerSet (MaxBid_fireTimeOf m) st' = timerSet (MaxBid_fireTimeOf m) st \<union> {ks. bids m ks r}"
proof (cases "candidateOf r")
  case None
  then have "bidOf r = Inr None" using r by (cases "bidOf r") (auto simp: candidateOf_def split: option.splits)
  then show ?thesis
    using op inv wm None by (intro exI [of _ op] exI [of _ st]) (simp add: MaxBid_ProcessElement_def bids_def)
next
  case (Some cand)
  let ?ks = "(Key r, windowStartOfTime m (EventTime r))" and ?op = "op\<lparr>mb_onTime := mb_onTime op + 1\<rparr>"
  obtain bid where bid: "bidOf r = Inr (Some bid)"
    "cand = \<lparr>wb_Price = b_Price bid, wb_Bidder = b_Bidder bid, wb_Auction = b_Auction bid\<rparr>"
    using Some by (auto simp: candidateOf_def split: sum.splits option.splits)
  have np': "\<not> MaxBid_isPurged m wm (snd ?ks)" using np [of ?ks] Some by (simp add: bids_def)
  let ?w = "bestAdd r (aggOf winnerIn st ?ks)"
  define st' where "st' = Memory_Put (timerKeyOf (MaxBid_fireTimeOf m (snd ?ks)) (fst ?ks) (snd ?ks)) []
    (Memory_Put (stateKeyOf (fst ?ks) (snd ?ks)) (EncodeWinningBid ?w) st)"
  note put = put_winner [OF inv st'_def]
  have "MaxBid_ProcessElement r op st = ((?op, st'), None)"
  proof (cases "Memory_Get st (stateKeyOf (fst ?ks) (snd ?ks))")
    case None
    then show ?thesis
      using np' bid Some wm
      by (simp add: MaxBid_ProcessElement_def sameQ7_times [OF op] Let_def st'_def aggOf_def bestAdd_def)
  next
    case (Some v)
    have "DecodeWinningBid v = Inr (winnerIn v)" by (rule DecodeWinningBid_eq [OF windowed_inv_agg [OF inv Some]])
    then show ?thesis
      using np' bid \<open>candidateOf r = Some cand\<close> wm Some
      by (simp add: MaxBid_ProcessElement_def sameQ7_times [OF op] Let_def st'_def aggOf_def bestAdd_def)
  qed
  moreover have "bids m ks r \<longleftrightarrow> ks = ?ks" for ks using Some by (auto simp: bids_def)
  ultimately show ?thesis
    using put wm sameQ7_upd [OF op] by (intro exI [of _ ?op] exI [of _ st']) auto
qed

lemma q7_watermark:
  assumes ok: "MaxBid_ok m" and op: "sameQ7 m op" and inv: "windowed_inv 24 (MaxBid_fireTimeOf m) st"
  shows "\<exists>st' ds. MaxBid_ProcessWatermark wm op st = ((st', map (\<lambda>ks. emitWinner m ks (the (aggOf winnerIn st ks))) ds), None) \<and>
    distinct ds \<and> set ds = dueSet (MaxBid_fireTimeOf m) wm st \<and>
    windowed_inv 24 (MaxBid_fireTimeOf m) st' \<and> loadWatermark st' = Inr wm \<and>
    (\<forall>ks. aggOf winnerIn st' ks = (if MaxBid_isPurged m wm (snd ks) then None else aggOf winnerIn st ks)) \<and>
    timerSet (MaxBid_fireTimeOf m) st' = timerSet (MaxBid_fireTimeOf m) st - set ds"
proof -
  let ?pf = "\<lambda>k. case windowStartOf k of Inl e \<Rightarrow> Inl e | Inr start \<Rightarrow> Inr (MaxBid_isPurged m wm start)"
  let ?emit = "\<lambda>key s v. emitWinner m (key, s) (winnerIn v)"
  have fire: "MaxBid_fire m st' key s = Inr (?emit key s v)"
    if "Memory_Get st' (stateKeyOf key s) = Some v" "length v = 24" for st' key s v
    using that by (simp add: MaxBid_fire_def DecodeWinningBid_eq emitWinner_def)
  have purge: "?pf (stateKeyOf key s) = Inr (MaxBid_isPurged m wm s)" for key s by simp
  from ok inv fire purge show ?thesis
  proof (rule mbw.watermark_step)
    fix ds st1 st2
    assume c: "collectDue (storeWatermark wm st) wm = Inr (map (mkDue (MaxBid_fireTimeOf m)) ds)"
      and f: "fireAll (MaxBid_fire m) (map (mkDue (MaxBid_fireTimeOf m)) ds) (storeWatermark wm st) =
        ((st1, map (\<lambda>(key, s). ?emit key s (the (Memory_Get st (stateKeyOf key s)))) ds), None)"
      and p: "purgeWindows ?pf st1 = (st2, None)"
      and ds: "distinct ds" "set ds = dueSet (MaxBid_fireTimeOf m) wm st"
      and inv2: "windowed_inv 24 (MaxBid_fireTimeOf m) st2"
      and agg: "\<And>key s. Memory_Get st2 (stateKeyOf key s) =
        (if MaxBid_isPurged m wm s then None else Memory_Get st (stateKeyOf key s))"
      and t: "timerSet (MaxBid_fireTimeOf m) st2 = timerSet (MaxBid_fireTimeOf m) st - dueSet (MaxBid_fireTimeOf m) wm st"
      and l: "loadWatermark st2 = Inr wm"
    have "(case d of (key, s) \<Rightarrow> ?emit key s (the (Memory_Get st (stateKeyOf key s)))) = emitWinner m d (the (aggOf winnerIn st d))"
      if "d \<in> set ds" for d
      using that windowed_inv_timer [OF inv, of "fst d" "snd d"] by (auto simp: ds(2) dueSet_def aggOf_def split: prod.split)
    then have "MaxBid_ProcessWatermark wm op st = ((st2, map (\<lambda>ks. emitWinner m ks (the (aggOf winnerIn st ks))) ds), None)"
      using c f p unfolding MaxBid_ProcessWatermark_def sameQ7_times [OF op] by (simp add: Let_def cong: map_cong)
    moreover have "\<forall>ks. aggOf winnerIn st2 ks = (if MaxBid_isPurged m wm (snd ks) then None else aggOf winnerIn st ks)"
      by (simp add: aggOf_def agg)
    ultimately show ?thesis using ds inv2 l t [folded ds(2)] by blast
  qed
qed

interpretation mbs: windowed_stream MaxBid_ok MaxBid_fireTimeOf MaxBid_isPurged MaxBid_operator sameQ7 24 winnerIn bids bestAdd
  emitWinner "\<lambda>r. \<not> isl (bidOf r)"
proof (unfold_locales, goal_cases)
  case (1 m ks r)
  then show ?case
    using windowsFor_fire [OF asWindow_ok, of m "snd ks" "EventTime r"]
    by (simp add: asWindow_windows bids_def asWindow_times word_sle_eq)
next
  case (2 m wm s t)
  then show ?case using isPurged_iff [OF asWindow_ok, of m] by (simp add: asWindow_times word_sle_eq)
next
  case (3 m op st wm r)
  then show ?case using q7_element [OF 3(2-5)] 3(6) by (fastforce simp: MaxBid_operator_def)
next
  case (4 m op st wm)
  then show ?case using q7_watermark [OF 4, of wm] by (fastforce simp: MaxBid_operator_def)
qed

section \<open>The best of a window\<close>

definition bidsIn :: "MaxBid \<Rightarrow> Record list \<Rightarrow> bytes \<times> int64 \<Rightarrow> WinningBid set" where
  "bidsIn m rs ks = {w. \<exists>r \<in> set rs. bids m ks r \<and> candidateOf r = Some w}"

definition highest :: "WinningBid set \<Rightarrow> WinningBid \<Rightarrow> bool" where
  "highest B w \<longleftrightarrow> w \<in> B \<and> (\<forall>b \<in> B. b \<noteq> w \<longrightarrow> betterBid w b)"

lemma highest_insert:
  assumes "highest B w"
  shows "highest (insert c B) (if betterBid c w then c else w)"
  using assms betterBid_total [of c w] betterBid_trans [of c w] by (auto simp: highest_def)

lemma aggregate_highest:
  "aggregate (bids m) bestAdd rs ks = Some w \<Longrightarrow> highest (bidsIn m rs ks) w"
proof (induction rs arbitrary: w rule: rev_induct)
  case (snoc r rs)
  show ?case
  proof (cases "bids m ks r")
    case True
    then obtain c where c: "candidateOf r = Some c" by (auto simp: bids_def)
    have B: "bidsIn m (rs @ [r]) ks = insert c (bidsIn m rs ks)" using True c by (auto simp: bidsIn_def)
    show ?thesis
    proof (cases "aggregate (bids m) bestAdd rs ks")
      case None
      then have "bidsIn m rs ks = {}" by (auto simp: bidsIn_def aggregate_None_iff)
      then show ?thesis using snoc.prems True None c B by (auto simp: aggregate_snoc bestAdd_simps highest_def)
    next
      case (Some a)
      then show ?thesis using snoc.prems True c B highest_insert [OF snoc.IH [OF Some], of c]
        by (auto simp: aggregate_snoc bestAdd_simps split: if_splits)
    qed
  next
    case False
    then have "bidsIn m (rs @ [r]) ks = bidsIn m rs ks" by (auto simp: bidsIn_def)
    then show ?thesis using snoc False by (simp add: aggregate_snoc)
  qed
qed simp

section \<open>Properties\<close>

text \<open>C24. Query q7 emits the highest bid of every auction and window, once: for a stream whose values all
  decode, with no late record and to the end of time, \<open>MaxBid\<close> returns no error and drops
  nothing, and emits one record for each (key, window) in which a bid was placed, carrying the
  bid of that window that beats every other one there, whatever order they arrived in.\<close>

theorem q7_emits_highest_bids:
  assumes "MaxBid_ok m" "nonlate minInt64 es" "lastWatermark minInt64 es = maxInt64"
    and "list_all (\<lambda>r. \<not> isl (bidOf r)) (recordsOf es)"
  shows "\<exists>m' st' ds best. feed MaxBid_operator es m NewMemory =
      (map (\<lambda>ks. emitWinner m ks (best ks)) ds, (m', st'), None) \<and> mb_dropped m' = mb_dropped m \<and>
    distinct ds \<and> set ds = {ks. bidsIn m (recordsOf es) ks \<noteq> {}} \<and>
    list_all (\<lambda>ks. highest (bidsIn m (recordsOf es) ks) (best ks)) ds"
proof -
  let ?agg = "aggregate (bids m) bestAdd (recordsOf es)"
  have "sameQ7 m m" by (simp add: sameQ7_def)
  from mbs.fires_once [OF assms(1) this assms(2-4)] obtain m' st' ds where
    run: "feed MaxBid_operator es m NewMemory = (map (\<lambda>ks. emitWinner m ks (the (?agg ks))) ds, (m', st'), None)"
    and m': "sameQ7 m m'" and ds: "distinct ds" "set ds = {ks. ?agg ks \<noteq> None}" by blast
  have "?agg ks \<noteq> None \<longleftrightarrow> bidsIn m (recordsOf es) ks \<noteq> {}" for ks
    by (auto simp: aggregate_None_iff bidsIn_def bids_def)
  then have "set ds = {ks. bidsIn m (recordsOf es) ks \<noteq> {}}" using ds(2) by blast
  moreover have "list_all (\<lambda>ks. highest (bidsIn m (recordsOf es) ks) (the (?agg ks))) ds"
    using aggregate_highest [of m "recordsOf es"] by (auto simp: list_all_iff ds(2))
  moreover have "mb_dropped m' = mb_dropped m" using m' by (metis MaxBid.select_convs(3) MaxBid.surjective MaxBid.update_convs(4) sameQ7_def)
  ultimately show ?thesis
    using run ds(1) by (intro exI [of _ m'] exI [of _ st'] exI [of _ ds] exI [of _ "\<lambda>ks. the (?agg ks)"]) (simp only: simp_thms)
qed

definition example_bid :: "uint64 \<Rightarrow> uint64 \<Rightarrow> int64 \<Rightarrow> Record" where
  "example_bid bidder price t = \<lparr>Key = NexmarkKey 3, Value = EncodeBid \<lparr>b_Auction = 3, b_Bidder = bidder, b_Price = price, b_DateTime = t\<rparr>,
     EventTime = t\<rparr>"

definition example_q7 :: MaxBid where
  "example_q7 = \<lparr>mb_size = 10, mb_allowedLateness = 0, mb_dropped = 0, mb_onTime = 0\<rparr>"

definition example_bids :: "StreamElement list" where
  "example_bids = [RecordElement (example_bid 1 50 12), RecordElement (example_bid 2 70 11), WatermarkElement 15,
     RecordElement (example_bid 5 60 19), WatermarkElement maxInt64]"

lemma bidOf_example: "bidOf (example_bid bidder price t) = Inr (Some \<lparr>b_Auction = 3, b_Bidder = bidder, b_Price = price, b_DateTime = t\<rparr>)"
proof -
  have "DecodeBid (EncodeBid b) = Inr b" for b by (simp add: DecodeBid_iff)
  then show ?thesis by (simp add: bidOf_def example_bid_def)
qed

lemma EventTime_example [simp]: "EventTime (example_bid bidder price t) = t"
  by (simp add: example_bid_def)

theorem q7_emits_highest_bids_witness:
  "\<exists>m' st' ds best. feed MaxBid_operator example_bids example_q7 NewMemory =
      (map (\<lambda>ks. emitWinner example_q7 ks (best ks)) ds, (m', st'), None) \<and>
    set ds = {ks. bidsIn example_q7 (recordsOf example_bids) ks \<noteq> {}} \<and>
    list_all (\<lambda>ks. highest (bidsIn example_q7 (recordsOf example_bids) ks) (best ks)) ds"
proof -
  have "MaxBid_ok example_q7" by (simp add: MaxBid_ok_def example_q7_def)
  moreover have "nonlate minInt64 example_bids" "lastWatermark minInt64 example_bids = maxInt64"
    by (simp_all add: example_bids_def word_sless_alt word_sle_eq)
  moreover have "list_all (\<lambda>r. \<not> isl (bidOf r)) (recordsOf example_bids)"
    by (simp add: example_bids_def bidOf_example)
  ultimately show ?thesis using q7_emits_highest_bids [of example_q7 example_bids] by blast
qed

section \<open>The stateless queries\<close>

lemma bidOf_values:
  "Value r = EncodePerson p \<Longrightarrow> bidOf r = Inr None" "Value r = EncodeAuction a \<Longrightarrow> bidOf r = Inr None"
  "Value r = EncodeBid b \<Longrightarrow> bidOf r = Inr (Some b)"
  using DecodeBid_iff [of "EncodeBid b" b] by (simp_all add: bidOf_def event_types)

lemma encode_distinct: "EncodePerson p \<noteq> EncodeBid b" "EncodeAuction a \<noteq> EncodeBid b"
  by (simp_all add: encode_layouts layout_def event_types)

definition eventOf :: "Record \<Rightarrow> bool" where
  "eventOf r \<longleftrightarrow> Value r \<in> range EncodePerson \<union> range EncodeAuction \<union> range EncodeBid"

definition bidPart :: "Record \<Rightarrow> Bid option" where
  "bidPart r = (case bidOf r of Inr b \<Rightarrow> b | Inl e \<Rightarrow> None)"

lemma bidPart_iff: "bidPart r = Some b \<longleftrightarrow> Value r = EncodeBid b"
proof
  assume "bidPart r = Some b"
  then have "DecodeBid (Value r) = Inr b" by (auto simp: bidPart_def bidOf_def split: sum.splits if_splits option.splits)
  then show "Value r = EncodeBid b" by (simp add: DecodeBid_iff)
qed (simp add: bidPart_def bidOf_values)

lemma bidOf_event: "eventOf r \<Longrightarrow> bidOf r = Inr (bidPart r)"
  by (auto simp: eventOf_def bidPart_def bidOf_values)

lemma map_filter_If: "List.map_filter (\<lambda>x. if P x then Some x else None) xs = filter P xs"
  by (induction xs) (simp_all add: map_filter_simps)

lemma map_filter_Some: "List.map_filter Some xs = xs"
  by (induction xs) (simp_all add: map_filter_simps)

lemma mod_zero_iff: "a mod b = (0 :: uint64) \<longleftrightarrow> unat b dvd unat a"
  by (metis dvd_eq_mod_eq_0 unat_eq_0 unat_mod)

text \<open>The stateless Nexmark queries compute their selections: on a stream of events, each returns no
  error and emits, in order, for q0 every record, for q1 every bid with its price multiplied
  and its key and event time kept, for q2 every bid on an auction the divisor divides, unchanged,
  and for the first stage of q5 every bid.\<close>

theorem stateless_queries:
  assumes "list_all eventOf (recordsOf es)" "divisor \<noteq> 0"
  shows "fst (feed Map_operator es NewQ0 st) = recordsOf es \<and>
    feed Map_operator es (NewQ1 factor) st =
      (List.map_filter (\<lambda>r. map_option (\<lambda>b. r\<lparr>Value := EncodeBid (b\<lparr>b_Price := b_Price b * factor\<rparr>)\<rparr>) (bidPart r)) (recordsOf es),
       (NewQ1 factor, st), None) \<and>
    (\<exists>q2. NewQ2 divisor = Some q2 \<and> feed Map_operator es q2 st =
      (filter (\<lambda>r. \<exists>b. Value r = EncodeBid b \<and> unat divisor dvd unat (b_Auction b)) (recordsOf es), (q2, st), None)) \<and>
    fst (feed Map_operator es NewBidsOnly st) = filter (\<lambda>r. \<exists>b. Value r = EncodeBid b) (recordsOf es)"
proof -
  have ev: "eventOf r" if "r \<in> set (recordsOf es)" for r using assms(1) that by (simp add: list_all_iff)
  have q0: "mapped (m_fn NewQ0) (recordsOf es) = (List.map_filter Some (recordsOf es), None)"
    by (rule mapped_total) (simp add: NewQ0_def NewMap_def)
  have q1: "mapped (m_fn (NewQ1 factor)) (recordsOf es) =
      (List.map_filter (\<lambda>r. map_option (\<lambda>b. r\<lparr>Value := EncodeBid (b\<lparr>b_Price := b_Price b * factor\<rparr>)\<rparr>) (bidPart r)) (recordsOf es), None)"
    by (rule mapped_total) (use ev in \<open>auto simp: NewQ1_def NewMap_def bidOf_event split: option.split\<close>)
  let ?p2 = "\<lambda>r. \<exists>b. Value r = EncodeBid b \<and> unat divisor dvd unat (b_Auction b)" and ?p5 = "\<lambda>r. \<exists>b. Value r = EncodeBid b"
  obtain q2 where q2: "NewQ2 divisor = Some q2" using assms(2) by (simp add: NewQ2_def)
  have "m_fn q2 r = Inr (if ?p2 r then Some r else None)" if "r \<in> set (recordsOf es)" for r
  proof (cases "bidPart r")
    case None
    then show ?thesis using bidOf_event [OF ev [OF that]] bidPart_iff [of r] q2 by (auto simp: NewQ2_def NewMap_def split: if_splits)
  next
    case (Some b)
    then have "?p2 r \<longleftrightarrow> unat divisor dvd unat (b_Auction b)" by (metis bidPart_iff option.inject)
    then show ?thesis using bidOf_event [OF ev [OF that]] Some q2 by (auto simp: NewQ2_def NewMap_def mod_zero_iff split: if_splits)
  qed
  then have s2: "mapped (m_fn q2) (recordsOf es) = (filter ?p2 (recordsOf es), None)"
    using mapped_total [of "recordsOf es" "m_fn q2" "\<lambda>r. if ?p2 r then Some r else None"] by (simp add: map_filter_If)
  have "m_fn NewBidsOnly r = Inr (if ?p5 r then Some r else None)" if "r \<in> set (recordsOf es)" for r
    using ev [OF that] by (auto simp: eventOf_def NewBidsOnly_def NewMap_def encode_distinct encode_distinct [symmetric])
      (simp_all add: event_types)
  then have s5: "mapped (m_fn NewBidsOnly) (recordsOf es) = (filter ?p5 (recordsOf es), None)"
    using mapped_total [of "recordsOf es" "m_fn NewBidsOnly" "\<lambda>r. if ?p5 r then Some r else None"] by (simp add: map_filter_If)
  show ?thesis by (simp add: feed_Map q0 q1 s2 s5 q2 map_filter_Some)
qed

theorem stateless_queries_witness:
  "fst (feed Map_operator example_bids NewQ0 NewMemory) = recordsOf example_bids \<and>
    (\<exists>q2. NewQ2 Q2Divisor = Some q2 \<and> feed Map_operator example_bids q2 NewMemory =
      (filter (\<lambda>r. \<exists>b. Value r = EncodeBid b \<and> unat Q2Divisor dvd unat (b_Auction b)) (recordsOf example_bids), (q2, NewMemory), None))"
proof -
  have "list_all eventOf (recordsOf example_bids)" by (simp add: example_bids_def eventOf_def example_bid_def)
  moreover have "Q2Divisor \<noteq> 0" by (simp add: Q2Divisor_def)
  ultimately show ?thesis using stateless_queries [of example_bids Q2Divisor NewMemory] by blast
qed

end
