(* ===== verification/Hot_Items.thy ===== *)
theory Hot_Items
  imports Nexmark_Queries
begin

text \<open>
  \<open>pkg/operators/nexmark.go\<close>, q5: the re-keying of counts onto their window, and the operator that
  reports the auctions with the most bids of each window. Its state has one count per window
  and auction and one timer per window.
\<close>

section \<open>Counts and window keys\<close>

definition auctionCountBytes :: nat where "auctionCountBytes = 16"

record AuctionCount =
  ac_Auction :: uint64
  ac_Count :: int64

definition EncodeAuctionCount :: "AuctionCount \<Rightarrow> bytes" where
  "EncodeAuctionCount ac = be_put 8 (ac_Auction ac) @ be_put 8 (ac_Count ac)"

definition DecodeAuctionCount :: "bytes \<Rightarrow> AuctionCount result" where
  "DecodeAuctionCount v =
     (if length v \<noteq> auctionCountBytes then Inl (OperatorErr errAuctionCountLength)
      else Inr \<lparr>ac_Auction = be_get 8 (take 8 v), ac_Count = be_get 8 (take 8 (drop 8 v))\<rparr>)"

definition WindowKey :: "int64 \<Rightarrow> bytes" where
  "WindowKey windowStart = be_put 8 windowStart"

definition WindowKeyStart :: "bytes \<Rightarrow> int64 result" where
  "WindowKeyStart key = (if length key \<noteq> 8 then Inl (OperatorErr errWindowKeyLength) else Inr (be_get 8 key))"

definition NewQ5Rekey :: "int64 \<Rightarrow> Map option" where
  "NewQ5Rekey sz =
     (if sz \<le>s 0 then None
      else Some (NewMap (\<lambda>rec.
        case NexmarkKeyID (Key rec) of
          Inl e \<Rightarrow> Inl e
        | Inr auction \<Rightarrow>
            (case DecodeCount (Value rec) of
               Inl e \<Rightarrow> Inl e
             | Inr cnt \<Rightarrow>
                 Inr (Some \<lparr>Key = WindowKey (subFloor (EventTime rec) (sz - 1)),
                            Value = EncodeAuctionCount \<lparr>ac_Auction = auction, ac_Count = cnt\<rparr>,
                            EventTime = EventTime rec\<rparr>)))))"

section \<open>The operator\<close>

record HotItems =
  h_size :: int64
  h_allowedLateness :: int64
  h_dropped :: int64
  h_onTime :: int64

definition hotItemKeyBytes :: nat where "hotItemKeyBytes = 1 + 8 + 8"

definition NewQ5HotItems :: "int64 \<Rightarrow> int64 \<Rightarrow> HotItems option" where
  "NewQ5HotItems sz lateness =
     (if sz \<le>s 0 then None
      else if lateness <s 0 then None
      else Some \<lparr>h_size = sz, h_allowedLateness = lateness, h_dropped = 0, h_onTime = 0\<rparr>)"

definition HotItems_Open :: "Memory option \<Rightarrow> Memory result" where
  "HotItems_Open st = (case st of None \<Rightarrow> Inl (OperatorErr errNoKeyedState) | Some m \<Rightarrow> Inr m)"

definition HotItems_Dropped :: "HotItems \<Rightarrow> int64" where
  "HotItems_Dropped h = h_dropped h"

definition HotItems_OnTime :: "HotItems \<Rightarrow> int64" where
  "HotItems_OnTime h = h_onTime h"

definition appendHotItemKey :: "bytes \<Rightarrow> bytes \<Rightarrow> uint64 \<Rightarrow> bytes" where
  "appendHotItemKey dst windowKey auction = dst @ [PrefixUserState] @ windowKey @ be_put 8 auction"

definition parseHotItemKey :: "bytes \<Rightarrow> (bytes \<times> uint64) result" where
  "parseHotItemKey stateKey =
     (if length stateKey \<noteq> hotItemKeyBytes then Inl (OperatorErr errHotItemKeyLength)
      else Inr (take 8 (drop 1 stateKey), be_get 8 (drop 9 stateKey)))"

definition HotItems_fireTimeOf :: "HotItems \<Rightarrow> int64 \<Rightarrow> int64" where
  "HotItems_fireTimeOf h start = addCeil start (h_size h - 1)"

definition HotItems_isPurged :: "HotItems \<Rightarrow> int64 \<Rightarrow> int64 \<Rightarrow> bool" where
  "HotItems_isPurged h watermark start \<longleftrightarrow> addCeil (addCeil start (h_size h)) (h_allowedLateness h) <s watermark"

definition HotItems_ProcessElement :: "Record \<Rightarrow> HotItems \<Rightarrow> Memory \<Rightarrow> (HotItems \<times> Memory) \<times> go_error option" where
  "HotItems_ProcessElement rec h st =
     (case WindowKeyStart (Key rec) of
        Inl e \<Rightarrow> ((h, st), Some e)
      | Inr windowStart \<Rightarrow>
          if EventTime rec \<noteq> HotItems_fireTimeOf h windowStart then ((h, st), Some (OperatorErr errSizeDisagreement))
          else (case DecodeAuctionCount (Value rec) of
                  Inl e \<Rightarrow> ((h, st), Some e)
                | Inr ac \<Rightarrow>
                    (case loadWatermark st of
                       Inl e \<Rightarrow> ((h, st), Some e)
                     | Inr watermark \<Rightarrow>
                         if HotItems_isPurged h watermark windowStart
                         then ((h\<lparr>h_dropped := h_dropped h + 1\<rparr>, st), None)
                         else ((h\<lparr>h_onTime := h_onTime h + 1\<rparr>,
                                Memory_Put (appendTimerKey [] (EventTime rec) (Key rec) windowStart) []
                                  (Memory_Put (appendHotItemKey [] (Key rec) (ac_Auction ac)) (encodeCount (ac_Count ac)) st)),
                               None))))"

record hotWindow =
  hw_max :: int64
  hw_winners :: "uint64 list"

text \<open>The callback of the scan: the windows being fired, and the scan's error.\<close>

definition hotCallback ::
  "bytes \<times> bytes \<Rightarrow> (bytes \<rightharpoonup> hotWindow) \<times> go_error option \<Rightarrow> bool \<times> (bytes \<rightharpoonup> hotWindow) \<times> go_error option" where
  "hotCallback kv s =
     (case (fst kv, s) of
        ([], windows, scanErr) \<Rightarrow> (False, windows, Some (OperatorErr errZeroLengthKey))
      | (b # _, windows, scanErr) \<Rightarrow>
          if b \<noteq> PrefixUserState then (False, windows, scanErr)
          else (case parseHotItemKey (fst kv) of
                  Inl e \<Rightarrow> (False, windows, Some e)
                | Inr (windowKey, auction) \<Rightarrow>
                    (case windows windowKey of
                       None \<Rightarrow> (True, windows, scanErr)
                     | Some w \<Rightarrow>
                         (case DecodeCount (snd kv) of
                            Inl e \<Rightarrow> (False, windows, Some e)
                          | Inr cnt \<Rightarrow>
                              if hw_winners w = [] \<or> hw_max w <s cnt
                              then (True, windows(windowKey \<mapsto> \<lparr>hw_max = cnt, hw_winners = [auction]\<rparr>), scanErr)
                              else if cnt = hw_max w
                              then (True, windows(windowKey \<mapsto> w\<lparr>hw_winners := hw_winners w @ [auction]\<rparr>), scanErr)
                              else (True, windows, scanErr)))))"

text \<open>The loop over the due timers. Every key of a timer is a key of \<open>windows\<close>, which was made from
  them.\<close>

fun fireHot :: "HotItems \<Rightarrow> (bytes \<rightharpoonup> hotWindow) \<Rightarrow> dueTimer list \<Rightarrow> Memory \<Rightarrow> (Memory \<times> Record list) \<times> go_error option" where
  "fireHot h windows [] st = ((st, []), None)"
| "fireHot h windows (t # ts) st =
     (let st' = Memory_Delete (dt_stateKey t) st;
          w = the (windows (dt_key t))
      in if hw_winners w = [] then ((st', []), Some (OperatorErr errFiredWithNoCounts))
         else (case fireHot h windows ts st' of
                 ((st'', out), err) \<Rightarrow>
                   ((st'', map (\<lambda>auction. \<lparr>Key = NexmarkKey auction, Value = encodeCount (hw_max w),
                                           EventTime = HotItems_fireTimeOf h (dt_windowStart t)\<rparr>) (hw_winners w) @ out),
                    err)))"

definition HotItems_purge :: "HotItems \<Rightarrow> int64 \<Rightarrow> Memory \<Rightarrow> Memory \<times> go_error option" where
  "HotItems_purge h wm st =
     purgeWindows (\<lambda>stateKey.
       case parseHotItemKey stateKey of
         Inl e \<Rightarrow> Inl e
       | Inr (windowKey, auction) \<Rightarrow>
           (case WindowKeyStart windowKey of
              Inl e \<Rightarrow> Inl e
            | Inr start \<Rightarrow> Inr (HotItems_isPurged h wm start))) st"

definition HotItems_ProcessWatermark :: "int64 \<Rightarrow> HotItems \<Rightarrow> Memory \<Rightarrow> (Memory \<times> Record list) \<times> go_error option" where
  "HotItems_ProcessWatermark wm h st =
     (let st0 = storeWatermark wm st
      in case collectDue st0 wm of
           Inl e \<Rightarrow> ((st0, []), Some e)
         | Inr due \<Rightarrow>
             if due = [] then (case HotItems_purge h wm st0 of (st1, err) \<Rightarrow> ((st1, []), err))
             else let windows = fold (\<lambda>t ws. ws(dt_key t \<mapsto> \<lparr>hw_max = 0, hw_winners = []\<rparr>)) due Map.empty
                  in case snd (Memory_Iterate (readonly hotCallback) (st0, windows, None)) of
                       (windows', Some e) \<Rightarrow> ((st0, []), Some e)
                     | (windows', None) \<Rightarrow>
                         (case fireHot h windows' due st0 of
                            ((st1, out), Some e) \<Rightarrow> ((st1, out), Some e)
                          | ((st1, out), None) \<Rightarrow>
                              (case HotItems_purge h wm st1 of (st2, err) \<Rightarrow> ((st2, out), err))))"

definition HotItems_OnEndOfStream :: "HotItems \<Rightarrow> Memory \<Rightarrow> (Memory \<times> Record list) \<times> go_error option" where
  "HotItems_OnEndOfStream h st = ((st, []), None)"

definition HotItems_Snapshot :: "HotItems \<Rightarrow> go_error option" where
  "HotItems_Snapshot h = Some (OperatorErr errNotSnapshottable)"

definition HotItems_Restore :: "HotItems \<Rightarrow> go_error option" where
  "HotItems_Restore h = Some (OperatorErr errNotSnapshottable)"

definition HotItems_operator :: "HotItems Operator" where
  "HotItems_operator =
     \<lparr>op_Open = \<lambda>st h. (h, case HotItems_Open st of Inl e \<Rightarrow> Some e | Inr _ \<Rightarrow> None),
      op_ProcessElement = \<lambda>rec h st. (case HotItems_ProcessElement rec h st of ((h', st'), e) \<Rightarrow> ((h', st', []), e)),
      op_ProcessWatermark = \<lambda>wm h st. (case HotItems_ProcessWatermark wm h st of ((st', out), e) \<Rightarrow> ((h, st', out), e)),
      op_OnEndOfStream = \<lambda>h st. (case HotItems_OnEndOfStream h st of ((st', out), e) \<Rightarrow> ((h, st', out), e)),
      op_Close = (\<lambda>_. None)\<rparr>"

section \<open>What the operator keeps in state\<close>

definition HotItems_ok :: "HotItems \<Rightarrow> bool" where
  "HotItems_ok h \<longleftrightarrow> 0 < sint (h_size h) \<and> 0 \<le> sint (h_allowedLateness h)"

abbreviation hotKey :: "int64 \<Rightarrow> uint64 \<Rightarrow> bytes" where
  "hotKey s a \<equiv> appendHotItemKey [] (WindowKey s) a"

text \<open>A key of a count is laid out as a window operator's aggregate of the key \<open>WindowKey s\<close> would
  be.\<close>

lemma hotKey_eq: "hotKey s a = stateKeyOf (WindowKey s) a"
  by (simp add: appendHotItemKey_def appendStateKey_def)

lemma WindowKey_inj [simp]: "WindowKey s = WindowKey s' \<longleftrightarrow> s = s'"
  by (simp add: WindowKey_def)

lemma parseHotItemKey_hotKey [simp, codec_simps]: "parseHotItemKey (stateKeyOf (WindowKey s) a) = Inr (WindowKey s, a)"
  by (simp add: parseHotItemKey_def appendStateKey_def WindowKey_def hotItemKeyBytes_def)

lemma WindowKeyStart_WindowKey [simp, codec_simps]: "WindowKeyStart (WindowKey s) = Inr s"
  by (simp add: WindowKeyStart_def WindowKey_def)

definition hot_inv :: "HotItems \<Rightarrow> Memory \<Rightarrow> bool" where
  "hot_inv h st \<longleftrightarrow> Memory_inv st \<and>
     (\<forall>k v. Memory_Get st k = Some v \<longrightarrow>
        (\<exists>s a. k = hotKey s a \<and> length v = 8) \<or>
        (\<exists>s. k = timerKeyOf (HotItems_fireTimeOf h s) (WindowKey s) s \<and> (\<exists>a. Memory_Get st (hotKey s a) \<noteq> None)) \<or>
        (k = watermarkStateKey \<and> length v = 8))"

lemma hot_inv_Memory [dest]: "hot_inv h st \<Longrightarrow> Memory_inv st"
  by (simp add: hot_inv_def)

lemma hot_inv_entry:
  assumes "hot_inv h st" "Memory_Get st k = Some v"
  obtains (agg) s a where "k = stateKeyOf (WindowKey s) a" "length v = 8"
    | (timer) s a where "k = timerKeyOf (HotItems_fireTimeOf h s) (WindowKey s) s" "Memory_Get st (stateKeyOf (WindowKey s) a) \<noteq> None"
    | (wm) "k = watermarkStateKey" "length v = 8"
  using assms unfolding hot_inv_def hotKey_eq by metis

lemma hot_inv_new: "hot_inv h NewMemory"
  by (simp add: hot_inv_def)

definition asHotWindow :: "HotItems \<Rightarrow> WindowCount" where
  "asHotWindow h = \<lparr>w_size = h_size h, w_slide = h_size h, w_allowedLateness = h_allowedLateness h, w_dropped = 0\<rparr>"

lemma asHotWindow_times:
  "HotItems_fireTimeOf h = fireTimeOf (asHotWindow h)" "HotItems_isPurged h = isPurged (asHotWindow h)"
  by (simp_all add: fun_eq_iff HotItems_fireTimeOf_def fireTimeOf_def HotItems_isPurged_def isPurged_def asHotWindow_def)

interpretation hiw: windowed_operator HotItems_ok HotItems_fireTimeOf HotItems_isPurged
proof
  fix h wm s assume "HotItems_ok h" "HotItems_isPurged h wm s"
  moreover from this have "WindowCount_ok (asHotWindow h)" by (simp add: HotItems_ok_def WindowCount_ok_def asHotWindow_def)
  ultimately show "HotItems_fireTimeOf h s \<le>s wm" using wc.purged_after_fire by (simp add: asHotWindow_times)
qed

section \<open>Selecting the winners\<close>

definition hotStep :: "uint64 \<times> int64 \<Rightarrow> hotWindow \<Rightarrow> hotWindow" where
  "hotStep ac w =
     (if hw_winners w = [] \<or> hw_max w <s snd ac then \<lparr>hw_max = snd ac, hw_winners = [fst ac]\<rparr>
      else if snd ac = hw_max w then w\<lparr>hw_winners := hw_winners w @ [fst ac]\<rparr>
      else w)"

text \<open>Over counts in order, the winners are those that attain the greatest, in that order.\<close>

definition topOf :: "(uint64 \<times> int64) list \<Rightarrow> int64 \<Rightarrow> bool" where
  "topOf xs c \<longleftrightarrow> c \<in> snd ` set xs \<and> (\<forall>x \<in> set xs. snd x \<le>s c)"

lemma fold_hotStep:
  assumes "xs \<noteq> []"
  shows "\<exists>c. topOf xs c \<and> fold hotStep xs \<lparr>hw_max = 0, hw_winners = []\<rparr> =
    \<lparr>hw_max = c, hw_winners = map fst (filter (\<lambda>x. snd x = c) xs)\<rparr>"
  using assms
proof (induction xs rule: rev_induct)
  case (snoc x xs)
  show ?case
  proof (cases "xs = []")
    case True
    then show ?thesis by (simp add: topOf_def hotStep_def)
  next
    case False
    then obtain c where c: "topOf xs c" "fold hotStep xs \<lparr>hw_max = 0, hw_winners = []\<rparr> =
        \<lparr>hw_max = c, hw_winners = map fst (filter (\<lambda>x. snd x = c) xs)\<rparr>"
      using snoc.IH by blast
    have ne: "map fst (filter (\<lambda>x. snd x = c) xs) \<noteq> []" using c(1) by (auto simp: topOf_def filter_empty_conv)
    show ?thesis
    proof (cases "c <s snd x")
      case True
      then have "filter (\<lambda>y. snd y = snd x) xs = []" "topOf (xs @ [x]) (snd x)"
        using c(1) by (fastforce simp: topOf_def filter_empty_conv word_sless_alt word_sle_eq)+
      then show ?thesis using c(2) True by (intro exI [of _ "snd x"]) (simp add: hotStep_def [of x])
    next
      case below: False
      then have "topOf (xs @ [x]) c" using c(1) by (auto simp: topOf_def word_sless_alt word_sle_eq)
      then show ?thesis using c(2) below ne by (intro exI [of _ c]) (auto simp: hotStep_def [of x])
    qed
  qed
qed simp

section \<open>The scan\<close>

definition items :: "bytes \<Rightarrow> (bytes \<times> bytes) list \<Rightarrow> (uint64 \<times> int64) list" where
  "items wk kvs = List.map_filter (\<lambda>(k, v).
     case parseHotItemKey k of
       Inl e \<Rightarrow> None
     | Inr (wk', a) \<Rightarrow> if isUserKey k \<and> wk' = wk then Some (a, be_get 8 v) else None) kvs"

definition hot_entry :: "bytes \<times> bytes \<Rightarrow> bool" where
  "hot_entry kv \<longleftrightarrow> fst kv \<noteq> [] \<and> (isUserKey (fst kv) \<longrightarrow> (\<exists>s a. fst kv = stateKeyOf (WindowKey s) a) \<and> length (snd kv) = 8)"

lemma user_keys_first:
  assumes "k < k'" "k \<noteq> []" "\<not> isUserKey k"
  shows "\<not> isUserKey k'"
proof
  assume u: "isUserKey k'"
  then have "hd k \<le> hd k'" using assms(1,2) by (cases k; cases k') (auto simp: isUserKey_def)
  then show False using u assms(2,3) by (simp add: isUserKey_def PrefixUserState_def)
qed

lemma items_no_user: "\<forall>kv \<in> set kvs. \<not> isUserKey (fst kv) \<Longrightarrow> items wk kvs = []"
  by (induction kvs) (auto simp: items_def map_filter_simps split: sum.split)

lemma hotCallback_cases:
  "fst kv \<noteq> [] \<Longrightarrow> \<not> isUserKey (fst kv) \<Longrightarrow> hotCallback kv (ws, e) = (False, ws, e)"
  "fst kv = stateKeyOf (WindowKey s) a \<Longrightarrow> length (snd kv) = 8 \<Longrightarrow> hotCallback kv (ws, e) =
    (True, (\<lambda>wk. if wk = WindowKey s then map_option (hotStep (a, be_get 8 (snd kv))) (ws wk) else ws wk), e)"
proof -
  assume "fst kv \<noteq> []" "\<not> isUserKey (fst kv)"
  then show "hotCallback kv (ws, e) = (False, ws, e)"
    by (cases "fst kv") (simp_all add: hotCallback_def isUserKey_def)
next
  assume k: "fst kv = stateKeyOf (WindowKey s) a" "length (snd kv) = 8"
  have "stateKeyOf (WindowKey s) a = PrefixUserState # WindowKey s @ be_put 8 a" by (simp add: appendStateKey_def)
  moreover have "DecodeCount (snd kv) = Inr (be_get 8 (snd kv))" using k(2) by (simp add: DecodeCount_def)
  ultimately show "hotCallback kv (ws, e) =
      (True, (\<lambda>wk. if wk = WindowKey s then map_option (hotStep (a, be_get 8 (snd kv))) (ws wk) else ws wk), e)"
    using k(1) parseHotItemKey_hotKey [of s a]
    by (cases "ws (WindowKey s)") (auto simp: hotCallback_def hotStep_def fun_eq_iff)
qed

lemma hot_scan:
  assumes "sorted_wrt (<) (map fst kvs)" "\<forall>kv \<in> set kvs. hot_entry kv"
  shows "fold_while hotCallback kvs (ws, None) = (\<lambda>wk. map_option (fold hotStep (items wk kvs)) (ws wk), None)"
  using assms
proof (induction kvs arbitrary: ws)
  case Nil
  show ?case by (simp add: items_def map_filter_simps option.map_id0 [unfolded id_def] fun_eq_iff)
next
  case (Cons kv kvs)
  have ne: "fst kv \<noteq> []" using Cons.prems(2) by (simp add: hot_entry_def)
  show ?case
  proof (cases "isUserKey (fst kv)")
    case True
    then obtain s a where k: "fst kv = stateKeyOf (WindowKey s) a" "length (snd kv) = 8"
      using Cons.prems(2) by (auto simp: hot_entry_def)
    have it: "items wk (kv # kvs) = (if wk = WindowKey s then [(a, be_get 8 (snd kv))] else []) @ items wk kvs" for wk
      using k(1) True by (cases kv) (auto simp: items_def map_filter_simps)
    show ?thesis
      using Cons.IH Cons.prems by (simp add: hotCallback_cases(2) [OF k] it option.map_comp o_def fun_eq_iff)
  next
    case False
    then have "\<forall>x \<in> set (kv # kvs). \<not> isUserKey (fst x)"
      using Cons.prems(1) user_keys_first [OF _ ne False] by auto
    then show ?thesis
      using items_no_user [of "kv # kvs"] hotCallback_cases(1) [OF ne False]
      by (simp add: option.map_id0 [unfolded id_def] fun_eq_iff)
  qed
qed

section \<open>The counts of a window\<close>

definition countsAt :: "Memory \<Rightarrow> int64 \<Rightarrow> uint64 \<Rightarrow> int64 option" where
  "countsAt st s a = map_option (be_get 8) (Memory_Get st (hotKey s a))"

lemma keys_nonempty [simp]: "stateKeyOf k s \<noteq> []" "timerKeyOf f k s \<noteq> []" "watermarkStateKey \<noteq> []"
  by (simp_all add: appendStateKey_def appendTimerKey_def watermarkStateKey_def)

lemma hot_entry_scan:
  assumes "hot_inv h st"
  shows "\<forall>kv \<in> set (Memory_scan st). hot_entry kv"
proof
  fix kv assume "kv \<in> set (Memory_scan st)"
  then have "Memory_Get st (fst kv) = Some (snd kv)" using mem.in_scan [of st "fst kv" "snd kv"] assms by auto
  with assms show "hot_entry kv"
    by (rule hot_inv_entry) (auto simp: hot_entry_def)
qed

lemma set_items:
  assumes "\<forall>kv \<in> set kvs. hot_entry kv"
  shows "(a, c) \<in> set (items (WindowKey s) kvs) \<longleftrightarrow> (\<exists>v. (stateKeyOf (WindowKey s) a, v) \<in> set kvs \<and> c = be_get 8 v)"
  using assms
proof (induction kvs)
  case (Cons kv kvs)
  obtain k v where kv: "kv = (k, v)" by (cases kv)
  show ?case
  proof (cases "isUserKey k")
    case True
    then obtain s' a' where "k = stateKeyOf (WindowKey s') a'" using Cons.prems by (auto simp: kv hot_entry_def)
    then show ?thesis using Cons True by (auto simp: kv items_def map_filter_simps)
  next
    case False
    then show ?thesis using Cons by (auto simp: kv items_def map_filter_simps split: sum.split)
  qed
qed (simp add: items_def map_filter_simps)

lemma stateKeyOf_less: "stateKeyOf wk a < stateKeyOf wk a' \<longleftrightarrow> a < (a' :: uint64)"
  by (simp add: appendStateKey_def bytes_append_less be_put_less)

lemma sorted_items:
  assumes "sorted_wrt (<) (map fst kvs)" "\<forall>kv \<in> set kvs. hot_entry kv"
  shows "sorted_wrt (<) (map fst (items (WindowKey s) kvs))"
  using assms
proof (induction kvs)
  case (Cons kv kvs)
  obtain k v where kv: "kv = (k, v)" by (cases kv)
  have IH: "sorted_wrt (<) (map fst (items (WindowKey s) kvs))" using Cons by simp
  show ?case
  proof (cases "\<exists>a. k = stateKeyOf (WindowKey s) a")
    case True
    then obtain a where k: "k = stateKeyOf (WindowKey s) a" by blast
    have "a < fst x" if xin: "x \<in> set (items (WindowKey s) kvs)" for x
    proof -
      obtain a' c where x: "x = (a', c)" by (cases x)
      then obtain v' where "(stateKeyOf (WindowKey s) a', v') \<in> set kvs" using xin set_items [of kvs a' c s] Cons.prems(2) by auto
      then have "k < stateKeyOf (WindowKey s) a'" using Cons.prems(1) by (force simp: kv)
      then show ?thesis using stateKeyOf_less by (simp add: k x)
    qed
    then show ?thesis using IH k by (simp add: kv items_def map_filter_simps)
  next
    case False
    then have "items (WindowKey s) (kv # kvs) = items (WindowKey s) kvs"
      using Cons.prems(2) by (fastforce simp: kv items_def map_filter_simps hot_entry_def split: sum.split)
    then show ?thesis using IH by simp
  qed
qed (simp add: items_def map_filter_simps)

lemma items_scan:
  assumes inv: "hot_inv h st"
  shows "(a, c) \<in> set (items (WindowKey s) (Memory_scan st)) \<longleftrightarrow> countsAt st s a = Some c"
    "sorted_wrt (<) (map fst (items (WindowKey s) (Memory_scan st)))"
proof -
  have m: "Memory_inv st" using inv by blast
  show "(a, c) \<in> set (items (WindowKey s) (Memory_scan st)) \<longleftrightarrow> countsAt st s a = Some c"
    using set_items [OF hot_entry_scan [OF inv], of a c s] mem.in_scan [OF m] by (auto simp: countsAt_def hotKey_eq)
  show "sorted_wrt (<) (map fst (items (WindowKey s) (Memory_scan st)))"
    by (rule sorted_items [OF mem.scan_sorted [OF m] hot_entry_scan [OF inv]])
qed

text \<open>The auctions of a window that attain its greatest count, in ascending order, and that count.\<close>

definition hottest :: "Memory \<Rightarrow> int64 \<Rightarrow> hotWindow" where
  "hottest st s = fold hotStep (items (WindowKey s) (Memory_scan st)) \<lparr>hw_max = 0, hw_winners = []\<rparr>"

definition isTop :: "(uint64 \<Rightarrow> int64 option) \<Rightarrow> hotWindow \<Rightarrow> bool" where
  "isTop cnt w \<longleftrightarrow> hw_winners w \<noteq> [] \<and> sorted_wrt (<) (hw_winners w) \<and>
     (\<forall>a. a \<in> set (hw_winners w) \<longleftrightarrow> cnt a = Some (hw_max w)) \<and>
     (\<forall>a c. cnt a = Some c \<longrightarrow> c \<le>s hw_max w)"

lemma hottest_correct:
  assumes inv: "hot_inv h st" and some: "countsAt st s a \<noteq> None"
  shows "isTop (countsAt st s) (hottest st s)"
proof -
  let ?xs = "items (WindowKey s) (Memory_scan st)"
  note it = items_scan [OF inv, where s = s]
  obtain c0 where "countsAt st s a = Some c0" using some by blast
  then have "?xs \<noteq> []" using it(1) [of a c0] by auto
  then obtain c where c: "topOf ?xs c" "hottest st s = \<lparr>hw_max = c, hw_winners = map fst (filter (\<lambda>x. snd x = c) ?xs)\<rparr>"
    using fold_hotStep unfolding hottest_def by blast
  have win: "a \<in> set (map fst (filter (\<lambda>x. snd x = c) ?xs)) \<longleftrightarrow> countsAt st s a = Some c" for a
    using it(1) [of a c] by force
  moreover have "\<exists>a. countsAt st s a = Some c" using c(1) it(1) by (force simp: topOf_def)
  ultimately have "map fst (filter (\<lambda>x. snd x = c) ?xs) \<noteq> []" by (metis empty_iff empty_set)
  moreover have "c' \<le>s c" if "countsAt st s a = Some c'" for a c'
    using that c(1) it(1) [of a c'] by (auto simp: topOf_def)
  moreover have "sorted_wrt (<) (map fst (filter (\<lambda>x. snd x = c) ?xs))"
    using it(2) unfolding sorted_wrt_map by (rule sorted_wrt_filter)
  ultimately show ?thesis using win unfolding isTop_def c(2) by simp
qed

section \<open>A watermark\<close>

definition hotRows :: "HotItems \<Rightarrow> int64 \<Rightarrow> hotWindow \<Rightarrow> Record list" where
  "hotRows h s w = map (\<lambda>auction. \<lparr>Key = NexmarkKey auction, Value = encodeCount (hw_max w),
     EventTime = HotItems_fireTimeOf h s\<rparr>) (hw_winners w)"

abbreviation hotTimer :: "HotItems \<Rightarrow> int64 \<Rightarrow> bytes" where
  "hotTimer h s \<equiv> timerKeyOf (HotItems_fireTimeOf h s) (WindowKey s) s"

lemma fireHot_all:
  assumes "Memory_inv st" "\<And>s. s \<in> set ss \<Longrightarrow> ws (WindowKey s) = Some (w s) \<and> hw_winners (w s) \<noteq> []"
  shows "\<exists>st'. fireHot h ws (map (\<lambda>s. mkDue (HotItems_fireTimeOf h) (WindowKey s, s)) ss) st =
      ((st', concat (map (\<lambda>s. hotRows h s (w s)) ss)), None) \<and> Memory_inv st' \<and>
    Memory_Get st' = (\<lambda>k. if k \<in> hotTimer h ` set ss then None else Memory_Get st k)"
  using assms
proof (induction ss arbitrary: st)
  case (Cons s ss)
  let ?st = "Memory_Delete (hotTimer h s) st"
  have "Memory_inv ?st" using Cons.prems(1) by simp
  then obtain st' where st': "fireHot h ws (map (\<lambda>s. mkDue (HotItems_fireTimeOf h) (WindowKey s, s)) ss) ?st =
      ((st', concat (map (\<lambda>s. hotRows h s (w s)) ss)), None)" "Memory_inv st'"
    "Memory_Get st' = (\<lambda>k. if k \<in> hotTimer h ` set ss then None else Memory_Get ?st k)"
    using Cons.IH Cons.prems(2) by (metis (no_types, lifting) list.set_intros(2))
  have "ws (WindowKey s) = Some (w s)" "hw_winners (w s) \<noteq> []" using Cons.prems(2) [of s] by simp_all
  then show ?case
    using st' Cons.prems(1) by (auto simp: mkDue_def Let_def hotRows_def fun_eq_iff)
qed (simp add: fun_eq_iff)

lemma hot_well_keyed:
  assumes "hot_inv h st"
  shows "\<forall>k \<in> dom (Memory_Get st). well_keyed k"
proof
  fix k assume "k \<in> dom (Memory_Get st)"
  then obtain v where "Memory_Get st k = Some v" by auto
  with assms show "well_keyed k" by (rule hot_inv_entry) simp_all
qed

lemma hot_inv_storeWatermark: "hot_inv h st \<Longrightarrow> hot_inv h (storeWatermark wm st)"
  unfolding hot_inv_def storeWatermark_def by (auto simp: hotKey_eq split: if_splits)

lemma hot_due:
  assumes inv: "hot_inv h st"
  obtains ss where "collectDue st wm = Inr (map (\<lambda>s. mkDue (HotItems_fireTimeOf h) (WindowKey s, s)) ss)" "distinct ss"
    "set ss = {s. Memory_Get st (hotTimer h s) \<noteq> None \<and> HotItems_fireTimeOf h s \<le>s wm}"
    "sorted_wrt (\<lambda>a b. HotItems_fireTimeOf h a \<le>s HotItems_fireTimeOf h b) ss"
proof -
  have m: "Memory_inv st" using inv by blast
  have shape: "\<exists>s. k = hotTimer h s" if k: "k \<in> dom (Memory_Get st)" "hd k = PrefixTimer" for k
  proof -
    obtain v where "Memory_Get st k = Some v" using k(1) by blast
    with inv show ?thesis
      by (rule hot_inv_entry) (use k(2) in \<open>auto simp: appendStateKey_def watermarkStateKey_def prefix_defs\<close>)
  qed
  obtain ds where ds: "collectDue st wm = Inr (map (mkDue (HotItems_fireTimeOf h)) ds)" "distinct ds"
    "set ds = dueSet (HotItems_fireTimeOf h) wm st"
    "sorted_wrt (\<lambda>a b. HotItems_fireTimeOf h (snd a) \<le>s HotItems_fireTimeOf h (snd b)) ds"
    using collectDue_timers [OF m hot_well_keyed [OF inv], of "HotItems_fireTimeOf h" wm] shape by metis
  have pair: "d = (WindowKey (snd d), snd d)" if "d \<in> set ds" for d
  proof -
    obtain key s where d: "d = (key, s)" by (cases d)
    then have "timerKeyOf (HotItems_fireTimeOf h s) key s \<in> dom (Memory_Get st)" using that by (auto simp: ds(3) dueSet_def timerSet_def)
    then obtain s' where "timerKeyOf (HotItems_fireTimeOf h s) key s = hotTimer h s'"
      using shape by (metis appendTimerKey_def append_Nil append_Cons list.sel(1))
    then show ?thesis by (simp add: d)
  qed
  show thesis
  proof (rule that [of "map snd ds"])
    have "map (mkDue (HotItems_fireTimeOf h)) ds = map (\<lambda>d. mkDue (HotItems_fireTimeOf h) (WindowKey (snd d), snd d)) ds"
      using pair by simp
    then show "collectDue st wm = Inr (map (\<lambda>s. mkDue (HotItems_fireTimeOf h) (WindowKey s, s)) (map snd ds))"
      by (simp add: ds(1) o_def)
    show "distinct (map snd ds)"
      unfolding distinct_map using ds(2) pair by (auto intro!: inj_onI) (metis prod.inject)
    show "set (map snd ds) = {s. Memory_Get st (hotTimer h s) \<noteq> None \<and> HotItems_fireTimeOf h s \<le>s wm}"
      using pair by (force simp: ds(3) dueSet_def timerSet_def image_iff)
    show "sorted_wrt (\<lambda>a b. HotItems_fireTimeOf h a \<le>s HotItems_fireTimeOf h b) (map snd ds)"
      using ds(4) by (simp add: sorted_wrt_map)
  qed
qed

lemma hot_windows:
  "fold (\<lambda>t ws. ws(dt_key t \<mapsto> z)) (map (\<lambda>s. mkDue ft (WindowKey s, s)) ss) ws0 =
    (\<lambda>wk. if wk \<in> WindowKey ` set ss then Some z else ws0 wk)"
  by (induction ss arbitrary: ws0) (auto simp: mkDue_def fun_eq_iff)

lemma hot_purge:
  assumes inv: "hot_inv h st" and m: "Memory_inv st1" and sub: "\<And>k v. Memory_Get st1 k = Some v \<Longrightarrow> Memory_Get st k = Some v"
  shows "\<exists>st2. HotItems_purge h wm st1 = (st2, None) \<and> Memory_inv st2 \<and>
    (\<forall>s a. Memory_Get st2 (hotKey s a) = (if HotItems_isPurged h wm s then None else Memory_Get st1 (hotKey s a))) \<and>
    (\<forall>k. \<not> isUserKey k \<longrightarrow> Memory_Get st2 k = Memory_Get st1 k) \<and>
    (\<forall>k v. Memory_Get st2 k = Some v \<longrightarrow> Memory_Get st1 k = Some v)"
proof -
  define pf where "pf stateKey = (case parseHotItemKey stateKey of Inl e \<Rightarrow> Inl e
      | Inr (windowKey, auction) \<Rightarrow> (case WindowKeyStart windowKey of Inl e \<Rightarrow> Inl e
          | Inr start \<Rightarrow> Inr (HotItems_isPurged h wm start)))" for stateKey
  define p where "p k = (case pf k of Inr b \<Rightarrow> b | Inl _ \<Rightarrow> False)" for k
  have hot: "pf (hotKey s a) = Inr (HotItems_isPurged h wm s)" for s a by (simp add: pf_def hotKey_eq)
  have "\<exists>st2. purgeWindows pf st1 = (st2, None) \<and> Memory_inv st2 \<and>
    Memory_Get st2 = (\<lambda>k. if isUserKey k \<and> p k then None else Memory_Get st1 k)"
  proof (rule purgeWindows_eq [OF m])
    show "\<forall>k\<in>dom (Memory_Get st1). well_keyed k" using hot_well_keyed [OF inv] sub by blast
    show "\<forall>k\<in>dom (Memory_Get st1). isUserKey k \<longrightarrow> pf k = Inr (p k)"
    proof (intro ballI impI)
      fix k assume k: "k \<in> dom (Memory_Get st1)" "isUserKey k"
      then obtain v where "Memory_Get st k = Some v" using sub by blast
      with inv show "pf k = Inr (p k)"
        by (rule hot_inv_entry) (use k(2) hot in \<open>auto simp: p_def hotKey_eq\<close>)
    qed
  qed
  then obtain st2 where st2: "purgeWindows pf st1 = (st2, None)" "Memory_inv st2"
    "Memory_Get st2 = (\<lambda>k. if isUserKey k \<and> p k then None else Memory_Get st1 k)" by blast
  moreover have "HotItems_purge h wm st1 = purgeWindows pf st1" by (simp add: HotItems_purge_def pf_def [abs_def])
  moreover have "p (hotKey s a) = HotItems_isPurged h wm s" for s a by (simp add: p_def hot)
  ultimately show ?thesis by (auto simp: hotKey_eq split: if_splits)
qed

lemma hot_watermark:
  assumes ok: "HotItems_ok h" and inv: "hot_inv h st"
  shows "\<exists>st' ss hot. HotItems_ProcessWatermark wm h st = ((st', concat (map (\<lambda>s. hotRows h s (hot s)) ss)), None) \<and>
    distinct ss \<and> set ss = {s. Memory_Get st (hotTimer h s) \<noteq> None \<and> HotItems_fireTimeOf h s \<le>s wm} \<and>
    sorted_wrt (\<lambda>a b. HotItems_fireTimeOf h a \<le>s HotItems_fireTimeOf h b) ss \<and>
    list_all (\<lambda>s. isTop (countsAt st s) (hot s)) ss \<and>
    hot_inv h st' \<and> loadWatermark st' = Inr wm \<and>
    (\<forall>s a. countsAt st' s a = (if HotItems_isPurged h wm s then None else countsAt st s a)) \<and>
    (\<forall>s. Memory_Get st' (hotTimer h s) = (if s \<in> set ss then None else Memory_Get st (hotTimer h s)))"
proof -
  let ?st0 = "storeWatermark wm st"
  have m: "Memory_inv st" using inv by blast
  have inv0: "hot_inv h ?st0" by (rule hot_inv_storeWatermark [OF inv])
  have get0: "Memory_Get ?st0 k = (if k = watermarkStateKey then Some (EncodeOrderedInt64 wm) else Memory_Get st k)" for k
    using m by (simp add: storeWatermark_def)
  have cnt0: "countsAt ?st0 = countsAt st" by (simp add: fun_eq_iff countsAt_def hotKey_eq get0)
  obtain ss where ss: "collectDue ?st0 wm = Inr (map (\<lambda>s. mkDue (HotItems_fireTimeOf h) (WindowKey s, s)) ss)" "distinct ss"
    "set ss = {s. Memory_Get st (hotTimer h s) \<noteq> None \<and> HotItems_fireTimeOf h s \<le>s wm}"
    "sorted_wrt (\<lambda>a b. HotItems_fireTimeOf h a \<le>s HotItems_fireTimeOf h b) ss"
    using hot_due [OF inv0, of wm] by (auto simp: get0)
  let ?ws = "fold (\<lambda>t ws. ws(dt_key t \<mapsto> \<lparr>hw_max = 0, hw_winners = []\<rparr>)) (map (\<lambda>s. mkDue (HotItems_fireTimeOf h) (WindowKey s, s)) ss) Map.empty"
  let ?ws' = "\<lambda>wk. map_option (fold hotStep (items wk (Memory_scan ?st0))) (?ws wk)"
  have hot: "isTop (countsAt st s) (hottest ?st0 s)" if "s \<in> set ss" for s
  proof -
    obtain v where "Memory_Get st (hotTimer h s) = Some v" using \<open>s \<in> set ss\<close> ss(3) by auto
    with inv obtain a where "Memory_Get st (hotKey s a) \<noteq> None" by (rule hot_inv_entry) (auto simp: hotKey_eq)
    then have "countsAt ?st0 s a \<noteq> None" by (simp add: cnt0 countsAt_def)
    then show ?thesis using hottest_correct [OF inv0] by (simp add: isTop_def cnt0)
  qed
  have scan: "snd (Memory_Iterate (readonly hotCallback) (?st0, ?ws, None)) = (?ws', None)"
    using hot_scan [OF mem.scan_sorted hot_entry_scan [OF inv0]] inv0 by (simp add: hot_inv_Memory)
  have ws': "?ws' (WindowKey s) = Some (hottest ?st0 s)" if "s \<in> set ss" for s
    using that by (simp add: hot_windows hottest_def)
  have cond: "?ws' (WindowKey s) = Some (hottest ?st0 s) \<and> hw_winners (hottest ?st0 s) \<noteq> []" if "s \<in> set ss" for s
    using ws' [OF that] hot [OF that] unfolding isTop_def by blast
  obtain st1 where st1: "fireHot h ?ws' (map (\<lambda>s. mkDue (HotItems_fireTimeOf h) (WindowKey s, s)) ss) ?st0 =
      ((st1, concat (map (\<lambda>s. hotRows h s (hottest ?st0 s)) ss)), None)" "Memory_inv st1"
    "Memory_Get st1 = (\<lambda>k. if k \<in> hotTimer h ` set ss then None else Memory_Get ?st0 k)"
    using fireHot_all [where ws = ?ws' and w = "hottest ?st0" and h = h, OF hot_inv_Memory [OF inv0] cond] by blast
  have sub: "Memory_Get st1 k = Some v \<Longrightarrow> Memory_Get ?st0 k = Some v" for k v by (simp add: st1(3) split: if_splits)
  obtain st2 where st2: "HotItems_purge h wm st1 = (st2, None)" "Memory_inv st2"
    "\<And>s a. Memory_Get st2 (hotKey s a) = (if HotItems_isPurged h wm s then None else Memory_Get st1 (hotKey s a))"
    "\<And>k. \<not> isUserKey k \<Longrightarrow> Memory_Get st2 k = Memory_Get st1 k"
    "\<And>k v. Memory_Get st2 k = Some v \<Longrightarrow> Memory_Get st1 k = Some v"
    using hot_purge [OF inv0 st1(2) sub, of wm] by blast
  have "HotItems_ProcessWatermark wm h st = ((st2, concat (map (\<lambda>s. hotRows h s (hottest ?st0 s)) ss)), None)"
  proof (cases "ss = []")
    case True
    then have "st1 = ?st0" using st1(1) by simp
    then show ?thesis using True st2(1) ss(1) by (simp add: HotItems_ProcessWatermark_def Let_def)
  next
    case False
    then show ?thesis using ss(1) scan st1(1) st2(1) unfolding HotItems_ProcessWatermark_def Let_def by simp
  qed
  moreover have cnt: "countsAt st2 s a = (if HotItems_isPurged h wm s then None else countsAt st s a)" for s a
    using st2(3) [of s a] by (auto simp: countsAt_def st1(3) get0 hotKey_eq)
  moreover have tim: "Memory_Get st2 (hotTimer h s) = (if s \<in> set ss then None else Memory_Get st (hotTimer h s))" for s
    using st2(4) [of "hotTimer h s"] by (auto simp: st1(3) get0 image_iff)
  moreover have "loadWatermark st2 = Inr wm"
    using st2(4) [of watermarkStateKey] by (auto simp: loadWatermark_def st1(3) get0 image_iff)
  moreover have "hot_inv h st2"
    unfolding hot_inv_def
  proof (intro conjI allI impI st2(2))
    fix k v assume k: "Memory_Get st2 k = Some v"
    have "Memory_Get ?st0 k = Some v" by (rule sub [OF st2(5) [OF k]])
    with inv0 show "(\<exists>s a. k = hotKey s a \<and> length v = 8) \<or>
        (\<exists>s. k = hotTimer h s \<and> (\<exists>a. Memory_Get st2 (hotKey s a) \<noteq> None)) \<or> (k = watermarkStateKey \<and> length v = 8)"
    proof (rule hot_inv_entry)
      fix s a assume t: "k = hotTimer h s" "Memory_Get ?st0 (stateKeyOf (WindowKey s) a) \<noteq> None"
      have "s \<notin> set ss" "Memory_Get st (hotTimer h s) \<noteq> None" using k tim [of s] by (auto simp: t split: if_splits)
      then have "\<not> HotItems_isPurged h wm s" using hiw.purged_after_fire [OF ok, of wm s] ss(3) by blast
      moreover have "countsAt st s a \<noteq> None" using t(2) by (simp add: countsAt_def hotKey_eq get0)
      ultimately have "countsAt st2 s a \<noteq> None" by (simp only: cnt if_False not_False_eq_True)
      then show ?thesis using t(1) by (auto simp: countsAt_def)
    qed (auto simp: hotKey_eq)
  qed
  moreover have "list_all (\<lambda>s. isTop (countsAt st s) (hottest ?st0 s)) ss" using hot by (simp add: list_all_iff)
  ultimately show ?thesis using ss(2-4) by blast
qed

section \<open>A record\<close>

text \<open>A record of the re-keyed stream: it names a window by its start, and comes at the instant the
  window is complete.\<close>

definition hotRecord :: "HotItems \<Rightarrow> Record \<Rightarrow> bool" where
  "hotRecord h r \<longleftrightarrow> length (Key r) = 8 \<and> length (Value r) = 16 \<and> EventTime r = HotItems_fireTimeOf h (be_get 8 (Key r))"

definition hotFall :: "bytes \<times> int64 \<Rightarrow> Record \<Rightarrow> bool" where
  "hotFall ks r \<longleftrightarrow> Key r = fst ks \<and> be_get 8 (take 8 (Value r)) = snd ks"

definition hotCount :: "Record \<Rightarrow> int64 option \<Rightarrow> int64" where
  "hotCount r prev = be_get 8 (take 8 (drop 8 (Value r)))"

definition sameHot :: "HotItems \<Rightarrow> HotItems \<Rightarrow> bool" where
  "sameHot h h' \<longleftrightarrow> h_size h' = h_size h \<and> h_allowedLateness h' = h_allowedLateness h \<and> h_dropped h' = h_dropped h"

lemma sameHot_times:
  assumes "sameHot h h'"
  shows "HotItems_fireTimeOf h' = HotItems_fireTimeOf h" "HotItems_isPurged h' = HotItems_isPurged h"
  using assms by (simp_all add: fun_eq_iff sameHot_def HotItems_fireTimeOf_def HotItems_isPurged_def)

lemma be_get_WindowKey [simp]: "be_get 8 (WindowKey s) = (s :: int64)"
  by (simp add: WindowKey_def)

lemma hot_element:
  assumes op: "sameHot h op" and inv: "hot_inv h st" and wm: "loadWatermark st = Inr wm" and r: "hotRecord h r"
    and np: "\<not> HotItems_isPurged h wm (be_get 8 (Key r))"
  shows "\<exists>op' st'. HotItems_ProcessElement r op st = ((op', st'), None) \<and> sameHot h op' \<and> hot_inv h st' \<and> loadWatermark st' = Inr wm \<and>
    (\<forall>s a. countsAt st' s a = (if hotFall (WindowKey s, a) r then Some (hotCount r None) else countsAt st s a)) \<and>
    (\<forall>s. Memory_Get st' (hotTimer h s) = (if Key r = WindowKey s then Some [] else Memory_Get st (hotTimer h s)))"
proof -
  define s where "s = (be_get 8 (Key r) :: int64)"
  define a where "a = (be_get 8 (take 8 (Value r)) :: uint64)"
  have m: "Memory_inv st" using inv by blast
  have k: "Key r = WindowKey s" using r by (simp add: hotRecord_def s_def WindowKey_def be64_put_get)
  let ?st = "Memory_Put (hotTimer h s) [] (Memory_Put (stateKeyOf (WindowKey s) a) (encodeCount (hotCount r None)) st)"
  have "HotItems_ProcessElement r op st = ((op\<lparr>h_onTime := h_onTime op + 1\<rparr>, ?st), None)"
    using r np wm
    by (simp add: HotItems_ProcessElement_def k hotRecord_def sameHot_times [OF op] DecodeAuctionCount_def auctionCountBytes_def
        s_def [symmetric] a_def [symmetric] hotCount_def hotKey_eq)
  moreover have "sameHot h (op\<lparr>h_onTime := h_onTime op + 1\<rparr>)" using op by (simp add: sameHot_def)
  moreover have "loadWatermark ?st = Inr wm" using m wm by (simp add: loadWatermark_def)
  moreover have "countsAt ?st s' a' = (if hotFall (WindowKey s', a') r then Some (hotCount r None) else countsAt st s' a')" for s' a'
    using m by (auto simp: countsAt_def hotKey_eq hotFall_def k a_def encodeCount_def)
  moreover have "Memory_Get ?st (hotTimer h s') = (if Key r = WindowKey s' then Some [] else Memory_Get st (hotTimer h s'))" for s'
    using m by (auto simp: k)
  moreover have "hot_inv h ?st"
    unfolding hot_inv_def
  proof (intro conjI allI impI)
    show "Memory_inv ?st" using m by simp
    fix k' v assume "Memory_Get ?st k' = Some v"
    then consider "k' = hotTimer h s" | "k' = stateKeyOf (WindowKey s) a" "length v = 8" | "Memory_Get st k' = Some v"
      using m by (auto simp: encodeCount_def split: if_splits)
    then show "(\<exists>s a. k' = hotKey s a \<and> length v = 8) \<or>
        (\<exists>s. k' = hotTimer h s \<and> (\<exists>a. Memory_Get ?st (hotKey s a) \<noteq> None)) \<or> (k' = watermarkStateKey \<and> length v = 8)"
    proof cases
      case 3
      with inv show ?thesis by (rule hot_inv_entry) (use m in \<open>auto simp: hotKey_eq\<close>)
    qed (use m in \<open>auto simp: hotKey_eq\<close>)
  qed
  ultimately show ?thesis by blast
qed

section \<open>A stream\<close>

definition latest :: "Record list \<Rightarrow> int64 \<Rightarrow> uint64 \<Rightarrow> int64 option" where
  "latest rs s a = aggregate hotFall hotCount rs (WindowKey s, a)"

definition reported :: "Record list \<Rightarrow> int64 set" where
  "reported rs = {s. \<exists>a. latest rs s a \<noteq> None}"

lemma latest_snoc:
  "latest (rs @ [r]) s a = (if hotFall (WindowKey s, a) r then Some (hotCount r None) else latest rs s a)"
  by (simp add: latest_def aggregate_snoc hotCount_def)

lemma reported_snoc: "length (Key r) = 8 \<Longrightarrow> reported (rs @ [r]) = insert (be_get 8 (Key r)) (reported rs)"
proof -
  assume "length (Key r) = 8"
  then have "Key r = WindowKey (be_get 8 (Key r))" by (simp add: WindowKey_def be64_put_get)
  then have "hotFall (WindowKey s, a) r \<longleftrightarrow> s = be_get 8 (Key r) \<and> a = be_get 8 (take 8 (Value r))" for s a
    by (auto simp: hotFall_def)
  then show ?thesis by (auto simp: reported_def latest_snoc split: if_splits)
qed

definition hot_stream :: "HotItems \<Rightarrow> Record list \<Rightarrow> int64 \<Rightarrow> Memory \<Rightarrow> int64 list \<Rightarrow> bool" where
  "hot_stream h rs wm st ss \<longleftrightarrow> hot_inv h st \<and> loadWatermark st = Inr wm \<and>
     (\<forall>s a. countsAt st s a = (if HotItems_isPurged h wm s then None else latest rs s a)) \<and>
     (\<forall>s. Memory_Get st (hotTimer h s) \<noteq> None \<longleftrightarrow> s \<in> reported rs \<and> wm <s HotItems_fireTimeOf h s) \<and>
     distinct ss \<and> set ss = {s \<in> reported rs. HotItems_fireTimeOf h s \<le>s wm}"

lemma hot_stream_record:
  assumes ok: "HotItems_ok h" and op: "sameHot h op" and inv: "hot_stream h rs wm st ss" and r: "hotRecord h r"
    and late: "wm <s EventTime r"
  shows "\<exists>op' st'. HotItems_ProcessElement r op st = ((op', st'), None) \<and> sameHot h op' \<and> hot_stream h (rs @ [r]) wm st' ss \<and>
    (\<forall>s \<in> set ss. latest (rs @ [r]) s = latest rs s)"
proof -
  define s where "s = (be_get 8 (Key r) :: int64)"
  have key: "Key r = WindowKey s" "length (Key r) = 8" "wm <s HotItems_fireTimeOf h s"
    using r late by (simp_all add: hotRecord_def s_def WindowKey_def be64_put_get)
  then have np: "\<not> HotItems_isPurged h wm s"
    using hiw.purged_after_fire [OF ok, of wm s] by (auto simp: word_sless_alt word_sle_eq)
  have hi: "hot_inv h st" "loadWatermark st = Inr wm"
    and cnt: "\<And>s a. countsAt st s a = (if HotItems_isPurged h wm s then None else latest rs s a)"
    and tim: "\<And>s. Memory_Get st (hotTimer h s) \<noteq> None \<longleftrightarrow> s \<in> reported rs \<and> wm <s HotItems_fireTimeOf h s"
    and ss: "distinct ss" "set ss = {s \<in> reported rs. HotItems_fireTimeOf h s \<le>s wm}"
    using inv unfolding hot_stream_def by blast+
  obtain op' st' where e: "HotItems_ProcessElement r op st = ((op', st'), None)" "sameHot h op'" "hot_inv h st'" "loadWatermark st' = Inr wm"
    "\<And>s a. countsAt st' s a = (if hotFall (WindowKey s, a) r then Some (hotCount r None) else countsAt st s a)"
    "\<And>s. Memory_Get st' (hotTimer h s) = (if Key r = WindowKey s then Some [] else Memory_Get st (hotTimer h s))"
    using hot_element [OF op hi r] np unfolding s_def by blast
  have rep: "reported (rs @ [r]) = insert s (reported rs)" using reported_snoc [OF key(2)] by (simp add: s_def)
  have only: "hotFall (WindowKey s', a) r \<Longrightarrow> s' = s" for s' a by (simp add: hotFall_def key(1))
  have "countsAt st' s' a = (if HotItems_isPurged h wm s' then None else latest (rs @ [r]) s' a)" for s' a
    using only [of s' a] np by (auto simp: e(5) cnt latest_snoc)
  moreover have "Memory_Get st' (hotTimer h s') \<noteq> None \<longleftrightarrow> s' \<in> reported (rs @ [r]) \<and> wm <s HotItems_fireTimeOf h s'" for s'
    using tim [of s'] key(3) by (auto simp: e(6) rep key(1))
  moreover have nfs: "\<not> HotItems_fireTimeOf h s \<le>s wm" using key(3) by (auto simp: word_sless_alt word_sle_eq)
  then have "set ss = {s \<in> reported (rs @ [r]). HotItems_fireTimeOf h s \<le>s wm}" by (auto simp: rep ss(2))
  ultimately have "hot_stream h (rs @ [r]) wm st' ss"
    unfolding hot_stream_def using e(3,4) ss(1) by blast
  moreover have "latest (rs @ [r]) s' = latest rs s'" if "s' \<in> set ss" for s'
    using only [of s'] nfs that by (auto simp: fun_eq_iff latest_snoc ss(2))
  ultimately show ?thesis using e(1,2) by blast
qed

lemma hot_stream_watermark:
  assumes ok: "HotItems_ok h" and op: "sameHot h op" and inv: "hot_stream h rs wm st ss" and mono: "wm \<le>s t"
  shows "\<exists>st' ss' hot. HotItems_ProcessWatermark t op st = ((st', concat (map (\<lambda>s. hotRows h s (hot s)) ss')), None) \<and>
    list_all (\<lambda>s. isTop (latest rs s) (hot s)) ss' \<and> hot_stream h rs t st' (ss @ ss')"
proof -
  have hi: "hot_inv h st"
    and cnt: "\<And>s a. countsAt st s a = (if HotItems_isPurged h wm s then None else latest rs s a)"
    and tim: "\<And>s. Memory_Get st (hotTimer h s) \<noteq> None \<longleftrightarrow> s \<in> reported rs \<and> wm <s HotItems_fireTimeOf h s"
    and ss: "distinct ss" "set ss = {s \<in> reported rs. HotItems_fireTimeOf h s \<le>s wm}"
    using inv unfolding hot_stream_def by blast+
  have same: "hot_inv op st = hot_inv h st" "hotRows op = hotRows h" "hotTimer op = hotTimer h" for st
    by (simp_all add: fun_eq_iff hot_inv_def hotRows_def sameHot_times [OF op])
  have ok': "HotItems_ok op" using ok op by (simp add: HotItems_ok_def sameHot_def)
  obtain st' ss' hot where w: "HotItems_ProcessWatermark t op st = ((st', concat (map (\<lambda>s. hotRows h s (hot s)) ss')), None)"
    "distinct ss'" "set ss' = {s. Memory_Get st (hotTimer h s) \<noteq> None \<and> HotItems_fireTimeOf h s \<le>s t}"
    "list_all (\<lambda>s. isTop (countsAt st s) (hot s)) ss'" "hot_inv h st'" "loadWatermark st' = Inr t"
    "\<And>s a. countsAt st' s a = (if HotItems_isPurged h t s then None else countsAt st s a)"
    "\<And>s. Memory_Get st' (hotTimer h s) = (if s \<in> set ss' then None else Memory_Get st (hotTimer h s))"
    using hot_watermark [OF ok' hi [folded same(1)], of t] unfolding same sameHot_times [OF op] by blast
  have due: "s \<in> set ss' \<longleftrightarrow> s \<in> reported rs \<and> wm <s HotItems_fireTimeOf h s \<and> HotItems_fireTimeOf h s \<le>s t" for s
    using tim [of s] by (auto simp: w(3))
  have "countsAt st s = latest rs s" if "s \<in> set ss'" for s
    using that due hiw.purged_after_fire [OF ok, of wm s] by (auto simp: fun_eq_iff cnt word_sless_alt word_sle_eq)
  then have top: "list_all (\<lambda>s. isTop (latest rs s) (hot s)) ss'" using w(4) by (simp add: list_all_iff)
  have "WindowCount_ok (asHotWindow h)" using ok by (simp add: HotItems_ok_def WindowCount_ok_def asHotWindow_def)
  then have "HotItems_isPurged h t s" if "HotItems_isPurged h wm s" for s
    using that mono by (simp add: asHotWindow_times isPurged_iff word_sle_eq)
  then have "countsAt st' s a = (if HotItems_isPurged h t s then None else latest rs s a)" for s a
    by (auto simp: w(7) cnt)
  moreover have "Memory_Get st' (hotTimer h s) \<noteq> None \<longleftrightarrow> s \<in> reported rs \<and> t <s HotItems_fireTimeOf h s" for s
    using tim [of s] due [of s] mono unfolding w(8) word_sless_alt word_sle_eq by (cases "s \<in> set ss'") auto
  moreover have "set (ss @ ss') = {s \<in> reported rs. HotItems_fireTimeOf h s \<le>s t}"
    unfolding set_append ss(2) set_eq_iff Un_iff mem_Collect_eq due word_sless_alt word_sle_eq
    using mono [unfolded word_sle_eq] by (meson not_le order_trans)
  moreover have "distinct (ss @ ss')" using ss w(2) due by (auto simp: word_sless_alt word_sle_eq)
  ultimately have "hot_stream h rs t st' (ss @ ss')" unfolding hot_stream_def using w(5,6) by blast
  then show ?thesis using w(1) top by blast
qed

lemma hot_feed:
  assumes ok: "HotItems_ok h" and "sameHot h op" "hot_stream h rs wm st ss" "nonlate wm es" "list_all (hotRecord h) (recordsOf es)"
  shows "\<exists>op' st' ss' hot. feed HotItems_operator es op st = (concat (map (\<lambda>s. hotRows h s (hot s)) ss'), (op', st'), None) \<and>
    sameHot h op' \<and> list_all (\<lambda>s. isTop (latest (rs @ recordsOf es) s) (hot s)) ss' \<and>
    hot_stream h (rs @ recordsOf es) (lastWatermark wm es) st' (ss @ ss') \<and>
    (\<forall>s \<in> set ss. latest (rs @ recordsOf es) s = latest rs s)"
  using assms(2-)
proof (induction es arbitrary: op rs wm st ss)
  case Nil
  then show ?case by (intro exI [of _ op] exI [of _ st] exI [of _ "[]"]) simp
next
  case (Cons e es)
  show ?case
  proof (cases e)
    case (RecordElement r)
    from Cons.prems have late: "wm <s EventTime r" "nonlate wm es" "hotRecord h r" "list_all (hotRecord h) (recordsOf es)"
      by (simp_all add: RecordElement)
    obtain op1 st1 where e1: "HotItems_ProcessElement r op st = ((op1, st1), None)" "sameHot h op1"
      "hot_stream h (rs @ [r]) wm st1 ss" "\<forall>s \<in> set ss. latest (rs @ [r]) s = latest rs s"
      using hot_stream_record [OF ok Cons.prems(1,2) late(3,1)] by blast
    then show ?thesis
      using Cons.IH [OF e1(2,3) late(2,4)] by (auto simp: RecordElement HotItems_operator_def)
  next
    case (WatermarkElement t)
    from Cons.prems have late: "wm \<le>s t" "nonlate t es" "list_all (hotRecord h) (recordsOf es)" by (simp_all add: WatermarkElement)
    obtain st1 ss1 hot1 where w: "HotItems_ProcessWatermark t op st = ((st1, concat (map (\<lambda>s. hotRows h s (hot1 s)) ss1)), None)"
      "list_all (\<lambda>s. isTop (latest rs s) (hot1 s)) ss1" "hot_stream h rs t st1 (ss @ ss1)"
      using hot_stream_watermark [OF ok Cons.prems(1,2) late(1)] by blast
    obtain op' st' ss' hot where IH: "feed HotItems_operator es op st1 = (concat (map (\<lambda>s. hotRows h s (hot s)) ss'), (op', st'), None)"
      "sameHot h op'" "list_all (\<lambda>s. isTop (latest (rs @ recordsOf es) s) (hot s)) ss'"
      "hot_stream h (rs @ recordsOf es) (lastWatermark t es) st' ((ss @ ss1) @ ss')"
      "\<forall>s \<in> set (ss @ ss1). latest (rs @ recordsOf es) s = latest rs s"
      using Cons.IH [OF Cons.prems(1) w(3) late(2,3)] by blast
    let ?hot = "\<lambda>s. if s \<in> set ss1 then hot1 s else hot s"
    have dj: "set ss1 \<inter> set ss' = {}" using IH(4) by (auto simp: hot_stream_def)
    have "map (\<lambda>s. hotRows h s (hot1 s)) ss1 = map (\<lambda>s. hotRows h s (?hot s)) ss1"
      "map (\<lambda>s. hotRows h s (hot s)) ss' = map (\<lambda>s. hotRows h s (?hot s)) ss'" using dj by (auto intro!: map_cong)
    then have "concat (map (\<lambda>s. hotRows h s (hot1 s)) ss1) @ concat (map (\<lambda>s. hotRows h s (hot s)) ss') =
        concat (map (\<lambda>s. hotRows h s (?hot s)) (ss1 @ ss'))"
      by (simp only: map_append concat_append)
    moreover have "list_all (\<lambda>s. isTop (latest (rs @ recordsOf es) s) (?hot s)) (ss1 @ ss')"
      using w(2) IH(3,5) dj by (auto simp: list_all_iff)
    ultimately show ?thesis
      using w(1) IH(1,2,4,5)
      by (intro exI [of _ op'] exI [of _ st'] exI [of _ "ss1 @ ss'"] exI [of _ ?hot])
        (simp add: WatermarkElement HotItems_operator_def)
  qed (use Cons in simp_all)
qed

text \<open>C25. The second stage of q5 reports the hot items of every window, once: over a re-keyed stream with
  no late record, to the end of time, \<open>HotItems\<close> returns no error and drops nothing, and for each
  window some count was reported for, it emits the auctions whose latest count is the greatest
  of that window, all of them, in ascending order, with that count.\<close>

theorem q5_reports_hot_items:
  assumes "HotItems_ok h" "nonlate minInt64 es" "lastWatermark minInt64 es = maxInt64" "list_all (hotRecord h) (recordsOf es)"
  shows "\<exists>h' st' ss hot. feed HotItems_operator es h NewMemory = (concat (map (\<lambda>s. hotRows h s (hot s)) ss), (h', st'), None) \<and>
    h_dropped h' = h_dropped h \<and> distinct ss \<and> set ss = reported (recordsOf es) \<and>
    list_all (\<lambda>s. isTop (latest (recordsOf es) s) (hot s)) ss"
proof -
  have top: "s \<le>s maxInt64" for s :: int64 using sint64_bounds [of s] by (simp add: word_sle_eq maxInt64_def)
  have init: "hot_stream h [] minInt64 NewMemory []"
    by (simp add: hot_stream_def hot_inv_new loadWatermark_def minWatermark_def countsAt_def reported_def latest_def)
  have "sameHot h h" by (simp add: sameHot_def)
  from hot_feed [OF assms(1) this init assms(2,4)] obtain h' st' ss hot where
    r: "feed HotItems_operator es h NewMemory = (concat (map (\<lambda>s. hotRows h s (hot s)) ss), (h', st'), None)" "sameHot h h'"
      "list_all (\<lambda>s. isTop (latest (recordsOf es) s) (hot s)) ss" "hot_stream h (recordsOf es) maxInt64 st' ss"
    using assms(3) by auto
  then show ?thesis using top by (auto simp: hot_stream_def sameHot_def)
qed

definition example_hot :: HotItems where
  "example_hot = \<lparr>h_size = 10, h_allowedLateness = 0, h_dropped = 0, h_onTime = 0\<rparr>"

definition example_report :: "uint64 \<Rightarrow> int64 \<Rightarrow> StreamElement" where
  "example_report auction c =
     RecordElement \<lparr>Key = WindowKey 20, Value = EncodeAuctionCount \<lparr>ac_Auction = auction, ac_Count = c\<rparr>, EventTime = 29\<rparr>"

definition example_reports :: "StreamElement list" where
  "example_reports = [example_report 4 2, example_report 9 5, WatermarkElement 25, example_report 1 5, WatermarkElement maxInt64]"

theorem q5_reports_hot_items_witness:
  "\<exists>h' st' ss hot. feed HotItems_operator example_reports example_hot NewMemory =
      (concat (map (\<lambda>s. hotRows example_hot s (hot s)) ss), (h', st'), None) \<and>
    distinct ss \<and> set ss = reported (recordsOf example_reports) \<and>
    list_all (\<lambda>s. isTop (latest (recordsOf example_reports) s) (hot s)) ss"
proof -
  have "HotItems_fireTimeOf example_hot 20 = 29"
    by (intro sint64_eqI) (simp add: HotItems_fireTimeOf_def example_hot_def sint_addCeil)
  then have "list_all (hotRecord example_hot) (recordsOf example_reports)"
    by (simp add: example_reports_def example_report_def hotRecord_def EncodeAuctionCount_def) (simp add: WindowKey_def)
  moreover have "HotItems_ok example_hot" by (simp add: HotItems_ok_def example_hot_def)
  moreover have "nonlate minInt64 example_reports" "lastWatermark minInt64 example_reports = maxInt64"
    by (simp_all add: example_reports_def example_report_def word_sless_alt word_sle_eq)
  ultimately show ?thesis using q5_reports_hot_items [of example_hot example_reports] by blast
qed

end
