(* ===== verification/Operator_Recovery.thy ===== *)
theory Operator_Recovery
  imports Operator_Task Hot_Items
begin

text \<open>
  Every other operator of \<open>pkg/operators\<close> as an instance of the contract of \<open>Operator_Task\<close>: what it
  does is determined by its configuration and by the contents of its keyed state, so a subtask
  restored from a snapshot goes on as the one it was taken from would have.
\<close>

section \<open>Equal contents\<close>

lemma loadWatermark_alike: "sameState m m' \<Longrightarrow> loadWatermark m = loadWatermark m'"
  by (simp add: loadWatermark_def sameState_get)

lemma collectDue_alike: "sameState m m' \<Longrightarrow> collectDue m wm = collectDue m' wm"
  by (simp add: collectDue_def sameState_scan)

lemma storeWatermark_alike: "sameState m m' \<Longrightarrow> sameState (storeWatermark wm m) (storeWatermark wm m')"
  by (simp add: storeWatermark_def)

lemma purgeWindows_alike:
  "sameState m m' \<Longrightarrow> \<exists>m1 m1' e. purgeWindows pf m = (m1, e) \<and> purgeWindows pf m' = (m1', e) \<and> sameState m1 m1'"
  using fold_deleting_alike [of m m'] sameState_scan [of m m'] by (simp add: purgeWindows_def sameState_def)

section \<open>Map and filter\<close>

interpretation mpo: state_operator Map_operator "(=)"
  by unfold_locales (auto simp: Map_operator_def agrees_def Map_ProcessWatermark_def Map_OnEndOfStream_def identity_equivp
      split: prod.splits)

interpretation fio: state_operator Filter_operator "(=)"
  by unfold_locales (auto simp: Filter_operator_def agrees_def Filter_ProcessWatermark_def Filter_OnEndOfStream_def identity_equivp
      split: prod.splits)

section \<open>The highest bid\<close>

definition sameMaxBid :: "MaxBid \<Rightarrow> MaxBid \<Rightarrow> bool" where
  "sameMaxBid m m' \<longleftrightarrow> mb_size m = mb_size m' \<and> mb_allowedLateness m = mb_allowedLateness m'"

lemma sameMaxBid_equiv: "equivp sameMaxBid"
  by (rule equivpI) (auto simp: reflp_def symp_def transp_def sameMaxBid_def)

lemma sameMaxBid_times:
  assumes "sameMaxBid m m'"
  shows "MaxBid_fireTimeOf m = MaxBid_fireTimeOf m'" "MaxBid_isPurged m = MaxBid_isPurged m'"
    "windowStartOfTime m = windowStartOfTime m'" "MaxBid_fire m = MaxBid_fire m'"
proof -
  show t: "MaxBid_fireTimeOf m = MaxBid_fireTimeOf m'" "MaxBid_isPurged m = MaxBid_isPurged m'"
    "windowStartOfTime m = windowStartOfTime m'"
    using assms by (simp_all add: fun_eq_iff sameMaxBid_def MaxBid_fireTimeOf_def MaxBid_isPurged_def windowStartOfTime_def)
  show "MaxBid_fire m = MaxBid_fire m'" by (intro ext) (unfold MaxBid_fire_def t(1), rule refl)
qed

lemma MaxBid_element_alike:
  assumes "sameMaxBid p p'" "sameState m m'"
  shows "\<exists>p1 p1' m1 m1' e. MaxBid_ProcessElement rec p m = ((p1, m1), e) \<and> MaxBid_ProcessElement rec p' m' = ((p1', m1'), e) \<and>
    sameMaxBid p1 p1' \<and> sameMaxBid p p1 \<and> sameState m1 m1'"
  using assms unfolding MaxBid_ProcessElement_def sameMaxBid_times [OF assms(1)] loadWatermark_alike [OF assms(2)] sameState_get [OF assms(2)]
  by (auto simp: Let_def sameMaxBid_def split: sum.split option.split)

lemma MaxBid_watermark_alike:
  assumes "sameMaxBid p p'" "sameState m m'"
  shows "\<exists>m1 m1' out e. MaxBid_ProcessWatermark wm p m = ((m1, out), e) \<and> MaxBid_ProcessWatermark wm p' m' = ((m1', out), e) \<and> sameState m1 m1'"
proof -
  note s = storeWatermark_alike [OF assms(2), of wm]
  have fire: "\<And>n n'. sameState n n' \<Longrightarrow> MaxBid_fire p' n = MaxBid_fire p' n'"
    by (simp add: fun_eq_iff MaxBid_fire_def sameState_get)
  show ?thesis
  proof (cases "collectDue (storeWatermark wm m') wm")
    case (Inl e)
    then show ?thesis using s by (simp add: MaxBid_ProcessWatermark_def collectDue_alike [OF s] Let_def)
  next
    case (Inr ts)
    obtain m1 m1' out e where f: "fireAll (MaxBid_fire p') ts (storeWatermark wm m) = ((m1, out), e)"
      "fireAll (MaxBid_fire p') ts (storeWatermark wm m') = ((m1', out), e)" "sameState m1 m1'"
      using fireAll_alike [of "MaxBid_fire p'", OF fire s] by blast
    obtain n1 n1' e' where
      "purgeWindows (\<lambda>k. case windowStartOf k of Inl e \<Rightarrow> Inl e | Inr start \<Rightarrow> Inr (MaxBid_isPurged p' wm start)) m1 = (n1, e')"
      "purgeWindows (\<lambda>k. case windowStartOf k of Inl e \<Rightarrow> Inl e | Inr start \<Rightarrow> Inr (MaxBid_isPurged p' wm start)) m1' = (n1', e')"
      "sameState n1 n1'" using purgeWindows_alike [OF f(3)] by blast
    then show ?thesis
      using Inr f unfolding MaxBid_ProcessWatermark_def sameMaxBid_times [OF assms(1)] collectDue_alike [OF s] Let_def
      by (cases e) simp_all
  qed
qed

interpretation mbo: state_operator MaxBid_operator sameMaxBid
proof (unfold_locales, goal_cases)
  case 1
  show ?case by (rule sameMaxBid_equiv)
next
  case (2 op op' m m' rec)
  then show ?case using MaxBid_element_alike [OF 2, of rec] by (auto simp: MaxBid_operator_def agrees_def)
next
  case (3 op op' m m' wm)
  then show ?case using MaxBid_watermark_alike [OF 3, of wm] by (auto simp: MaxBid_operator_def agrees_def)
next
  case (4 op op' m m')
  then show ?case by (simp add: MaxBid_operator_def MaxBid_OnEndOfStream_def agrees_def)
next
  case (5 op rec m)
  then show ?case
    by (auto simp: MaxBid_operator_def MaxBid_ProcessElement_def sameMaxBid_def Let_def split: sum.split option.split prod.split)
next
  case (6 op wm m)
  then show ?case by (simp add: MaxBid_operator_def sameMaxBid_def split: prod.split)
next
  case (7 op m)
  then show ?case by (simp add: MaxBid_operator_def MaxBid_OnEndOfStream_def sameMaxBid_def)
next
  case (8 m op)
  show ?case by (simp add: MaxBid_operator_def MaxBid_Open_def)
next
  case (9 op)
  show ?case by (simp add: MaxBid_operator_def)
qed

section \<open>The hot items\<close>

definition sameHotItems :: "HotItems \<Rightarrow> HotItems \<Rightarrow> bool" where
  "sameHotItems h h' \<longleftrightarrow> h_size h = h_size h' \<and> h_allowedLateness h = h_allowedLateness h'"

lemma sameHotItems_equiv: "equivp sameHotItems"
  by (rule equivpI) (auto simp: reflp_def symp_def transp_def sameHotItems_def)

lemma sameHotItems_times:
  assumes "sameHotItems h h'"
  shows "HotItems_fireTimeOf h = HotItems_fireTimeOf h'" "HotItems_isPurged h = HotItems_isPurged h'" "HotItems_purge h = HotItems_purge h'"
proof -
  show t: "HotItems_fireTimeOf h = HotItems_fireTimeOf h'" "HotItems_isPurged h = HotItems_isPurged h'"
    using assms by (simp_all add: fun_eq_iff sameHotItems_def HotItems_fireTimeOf_def HotItems_isPurged_def)
  show "HotItems_purge h = HotItems_purge h'" by (intro ext) (unfold HotItems_purge_def t(2), rule refl)
qed

lemma fireHot_alike:
  assumes "sameHotItems h h'"
  shows "sameState m m' \<Longrightarrow> \<exists>m1 m1' out e. fireHot h ws ts m = ((m1, out), e) \<and> fireHot h' ws ts m' = ((m1', out), e) \<and> sameState m1 m1'"
proof (induction ts arbitrary: m m')
  case (Cons t ts)
  have "sameState (Memory_Delete (dt_stateKey t) m) (Memory_Delete (dt_stateKey t) m')" using Cons.prems by simp
  then show ?case using Cons.IH by (fastforce simp: Let_def sameHotItems_times [OF assms])
qed simp

lemma HotItems_element_alike:
  assumes "sameHotItems h h'" "sameState m m'"
  shows "\<exists>h1 h1' m1 m1' e. HotItems_ProcessElement rec h m = ((h1, m1), e) \<and> HotItems_ProcessElement rec h' m' = ((h1', m1'), e) \<and>
    sameHotItems h1 h1' \<and> sameHotItems h h1 \<and> sameState m1 m1'"
  using assms unfolding HotItems_ProcessElement_def sameHotItems_times [OF assms(1)] loadWatermark_alike [OF assms(2)]
  by (auto simp: Let_def sameHotItems_def split: sum.split)

lemma HotItems_watermark_alike:
  assumes "sameHotItems h h'" "sameState m m'"
  shows "\<exists>m1 m1' out e. HotItems_ProcessWatermark wm h m = ((m1, out), e) \<and> HotItems_ProcessWatermark wm h' m' = ((m1', out), e) \<and> sameState m1 m1'"
proof -
  note s = storeWatermark_alike [OF assms(2), of wm]
  have purge: "\<exists>n1 n1' e. HotItems_purge h' wm n = (n1, e) \<and> HotItems_purge h' wm n' = (n1', e) \<and> sameState n1 n1'"
    if "sameState n n'" for n n' using purgeWindows_alike [OF that] by (simp add: HotItems_purge_def)
  show ?thesis
  proof (cases "collectDue (storeWatermark wm m') wm")
    case (Inl e)
    then show ?thesis using s by (simp add: HotItems_ProcessWatermark_def collectDue_alike [OF s] Let_def)
  next
    case (Inr ts)
    show ?thesis
    proof (cases "ts = []")
      case True
      then show ?thesis
        using Inr purge [OF s] unfolding HotItems_ProcessWatermark_def sameHotItems_times [OF assms(1)] collectDue_alike [OF s] Let_def
        by fastforce
    next
      case False
      define ws0 where "ws0 = fold (\<lambda>t ws. ws(dt_key t \<mapsto> \<lparr>hw_max = 0, hw_winners = []\<rparr>)) ts Map.empty"
      obtain ws err where scan: "fold_while hotCallback (Memory_scan (storeWatermark wm m')) (ws0, None) = (ws, err)" by fastforce
      obtain m1 m1' out e where f: "fireHot h ws ts (storeWatermark wm m) = ((m1, out), e)"
        "fireHot h' ws ts (storeWatermark wm m') = ((m1', out), e)" "sameState m1 m1'"
        using fireHot_alike [OF assms(1) s] by blast
      obtain n1 n1' e' where p: "HotItems_purge h' wm m1 = (n1, e')" "HotItems_purge h' wm m1' = (n1', e')" "sameState n1 n1'"
        using purge [OF f(3)] by blast
      have step: "HotItems_ProcessWatermark wm x n = (case err of Some e \<Rightarrow> ((storeWatermark wm n, []), Some e)
          | None \<Rightarrow> (case fireHot x ws ts (storeWatermark wm n) of ((st1, out), Some e) \<Rightarrow> ((st1, out), Some e)
             | ((st1, out), None) \<Rightarrow> (case HotItems_purge x wm st1 of (st2, err) \<Rightarrow> ((st2, out), err))))"
        if "collectDue (storeWatermark wm n) wm = Inr ts" "Memory_scan (storeWatermark wm n) = Memory_scan (storeWatermark wm m')" for x n
        using False scan that by (cases err) (simp_all add: HotItems_ProcessWatermark_def Let_def flip: ws0_def)
      show ?thesis
        using step [of m h] step [of m' h'] Inr collectDue_alike [OF s] sameState_scan [OF s] s f p
        by (cases err; cases e) (simp_all add: sameHotItems_times [OF assms(1)])
    qed
  qed
qed

interpretation hio: state_operator HotItems_operator sameHotItems
proof (unfold_locales, goal_cases)
  case 1
  show ?case by (rule sameHotItems_equiv)
next
  case (2 op op' m m' rec)
  then show ?case using HotItems_element_alike [OF 2, of rec] by (auto simp: HotItems_operator_def agrees_def)
next
  case (3 op op' m m' wm)
  then show ?case using HotItems_watermark_alike [OF 3, of wm] by (auto simp: HotItems_operator_def agrees_def)
next
  case (4 op op' m m')
  then show ?case by (simp add: HotItems_operator_def HotItems_OnEndOfStream_def agrees_def)
next
  case (5 op rec m)
  then show ?case
    by (auto simp: HotItems_operator_def HotItems_ProcessElement_def sameHotItems_def split: sum.split prod.split)
next
  case (6 op wm m)
  then show ?case by (simp add: HotItems_operator_def sameHotItems_def split: prod.split)
next
  case (7 op m)
  then show ?case by (simp add: HotItems_operator_def HotItems_OnEndOfStream_def sameHotItems_def)
next
  case (8 m op)
  show ?case by (simp add: HotItems_operator_def HotItems_Open_def)
next
  case (9 op)
  show ?case by (simp add: HotItems_operator_def)
qed

end
