(* ===== verification/Job_Run.thy ===== *)
theory Job_Run
  imports Transport Executor Source_Subtask Operator_Recovery
begin

text \<open>
  \<open>runSubtask\<close> of \<open>pkg/runtime/subtask.go\<close>: a subtask of any kind from the channels it is wired to
  and the configuration the executor hands it, to the close of its outputs. The factories of a
  graph are looked up in a catalogue, since a vertex only names them.
\<close>

section \<open>The writer of a subtask\<close>

text \<open>A send that never returns stops the goroutine that made it: the state \<open>None\<close> is that of a
  subtask stopped there. The error only ends the model's loop; nothing sees it.\<close>

definition writerOutlet :: "('o, 'st) sender \<Rightarrow> 'o Writer \<Rightarrow> 'st option outlet" where
  "writerOutlet send w =
     \<lparr>ol_EmitRecord = \<lambda>rec st. (case st of
          None \<Rightarrow> (None, Some ContextDone)
        | Some n \<Rightarrow> (case EmitRecord send w rec n of None \<Rightarrow> (None, Some ContextDone) | Some (n', e) \<Rightarrow> (Some n', e))),
      ol_Broadcast = \<lambda>x st. (case st of
          None \<Rightarrow> (None, Some ContextDone)
        | Some n \<Rightarrow> (case Broadcast send w x n of None \<Rightarrow> (None, Some ContextDone) | Some (n', e) \<Rightarrow> (Some n', e)))\<rparr>"

section \<open>One subtask of any kind\<close>

record ('s, 'o, 'k) factories =
  fs_Source :: "nat \<Rightarrow> 's sourceFactory"
  fs_Operator :: "nat \<Rightarrow> 'o Operator \<times> 'o"
  fs_Sink :: "nat \<Rightarrow> 'k Sink \<times> 'k"

text \<open>What a subtask leaves behind besides its outputs and its calls to the coordinator.\<close>

datatype ('s, 'o, 'k) remains =
    OfSource 's
  | OfOperator 'o Memory
  | OfSink 'k
  | OfNothing

text \<open>The gate is the elements it delivers and what follows them; \<open>ctx\<close> is \<open>ctx.Err()\<close>. \<open>None\<close> is a
  subtask that has not returned, or one that panicked.\<close>

definition runKind ::
  "nat \<Rightarrow> ('e \<Rightarrow> go_error option) \<Rightarrow> ('s, 'o, 'k) factories \<Rightarrow> 'e outlet \<Rightarrow> 'c checkpointer \<Rightarrow> faults \<Rightarrow> subtaskConfig \<Rightarrow>
   StreamElement list \<times> go_error option \<Rightarrow> 'e \<Rightarrow> 'c \<Rightarrow> ((('s, 'o, 'k) remains \<times> 'e \<times> 'c) \<times> go_error option) option" where
  "runKind fuel ctx FA ol cp fs cfg gate w c =
     (case VKind (sc_vertex cfg) of
        VertexSource \<Rightarrow>
          (case NewSource (sc_vertex cfg) of
             None \<Rightarrow> None
           | Some f \<Rightarrow>
               map_option (\<lambda>((s, run), err). ((OfSource s, sr_writer run, sr_calls run), err))
                 (runSourceSubtask fuel ctx (sc_vertex cfg) (fs_Source FA f) (si_index (sc_id cfg)) ol cp fs
                   (map_option (\<lambda>payload. (payload, sc_restoredCheckpoint cfg)) (sc_restore cfg)) w c))
      | VertexOperator \<Rightarrow>
          (case NewOperator (sc_vertex cfg) of
             None \<Rightarrow> None
           | Some f \<Rightarrow>
               (case fs_Operator FA f of (OP, op) \<Rightarrow>
                  (case runOperatorSubtask OP op ol cp fs (sc_restore cfg) (snd gate) (fst gate) w c of
                     ((op1, oc, c1), err) \<Rightarrow> Some ((OfOperator op1 (oc_state oc), oc_writer oc, c1), err))))
      | VertexSink \<Rightarrow>
          (case NewSink (sc_vertex cfg) of
             None \<Rightarrow> None
           | Some f \<Rightarrow>
               (case fs_Sink FA f of (SK, k) \<Rightarrow>
                  map_option (\<lambda>((k1, wm, c1), err). ((OfSink k1, w, c1), err))
                    (runSinkSubtask SK (sc_id cfg) cp fs (sc_restore cfg) (snd gate) (fst gate) k c)))
      | VertexOther _ \<Rightarrow> Some ((OfNothing, w, c), Some (RuntimeErr errUnknownSubtaskKind)))"

definition runSubtask ::
  "nat \<Rightarrow> ('st option \<Rightarrow> go_error option) \<Rightarrow> ('s, 'o, 'k) factories \<Rightarrow> (channel, 'st) sender \<Rightarrow> (channel \<Rightarrow> 'st \<Rightarrow> 'st option) \<Rightarrow>
   'c checkpointer \<Rightarrow> FaultInjector option \<Rightarrow> subtaskConfig \<Rightarrow> StreamElement list \<times> go_error option \<Rightarrow> 'st \<Rightarrow> 'c \<Rightarrow>
   ((('s, 'o, 'k) remains \<times> 'st \<times> 'c) \<times> go_error option) option" where
  "runSubtask fuel ctx FA send cls cp injector cfg gate n c =
     (case NewWriter (sc_outputs cfg) of
        None \<Rightarrow> None
      | Some w \<Rightarrow>
          (case runKind fuel ctx FA (writerOutlet send w) cp \<lparr>fa_injector = injector, fa_id = sc_id cfg\<rparr> cfg gate (Some n) c of
             None \<Rightarrow> None
           | Some ((r, None, c1), err) \<Rightarrow> None
           | Some ((r, Some n1, c1), err) \<Rightarrow> map_option (\<lambda>n2. ((r, n2, c1), err)) (CloseAll cls w n1)))"

section \<open>What a subtask does to its outputs\<close>

text \<open>A predicate that the writer keeps holds of the writer that any subtask ends with.\<close>

definition keeps :: "('e \<Rightarrow> bool) \<Rightarrow> 'e outlet \<Rightarrow> bool" where
  "keeps P ol \<longleftrightarrow> (\<forall>w rec. P w \<longrightarrow> P (fst (ol_EmitRecord ol rec w))) \<and> (\<forall>w x. P w \<longrightarrow> P (fst (ol_Broadcast ol x w)))"

lemma keeps_emit: "keeps P ol \<Longrightarrow> P w \<Longrightarrow> ol_EmitRecord ol rec w = (w', e) \<Longrightarrow> P w'"
  and keeps_broadcast: "keeps P ol \<Longrightarrow> P w \<Longrightarrow> ol_Broadcast ol x w = (w', e) \<Longrightarrow> P w'"
  unfolding keeps_def by (metis fst_conv)+

definition keepsOut :: "('o \<Rightarrow> bool) \<Rightarrow> 'o emitter \<Rightarrow> bool" where
  "keepsOut Q E \<longleftrightarrow> (\<forall>out rec. Q out \<longrightarrow> Q (fst (emitRecord E rec out))) \<and> (\<forall>out t. Q out \<longrightarrow> Q (fst (emitWatermark E t out))) \<and>
     (\<forall>out b p. Q out \<longrightarrow> Q (fst (emitBarrier E b p out)))"

lemma emitLoop_keeps:
  assumes "keepsOut Q E"
  shows "Q out \<Longrightarrow> emitLoop fuel S E stop bnd s wm br out = Some (s', out', err) \<Longrightarrow> Q out'"
proof (induction fuel arbitrary: s wm br out)
  case (Suc fuel)
  have k: "Q (fst (emitRecord E rec o1))" "Q (fst (emitWatermark E t o1))" "Q (fst (emitBarrier E b p o1))" if "Q o1" for rec t b p o1
    using assms that unfolding keepsOut_def by blast+
  show ?case
  proof (cases "ctx_Err E out = None \<and> \<not> (bnd \<and> stop \<le>s src_Position S s)")
    case False
    then show ?thesis using Suc.prems by (auto split: option.splits if_splits)
  next
    case True
    obtain s1 r where nx: "src_Next S s = (s1, r)" by fastforce
    show ?thesis
    proof (cases "\<exists>rec. r = Inr (Some rec)")
      case False
      then show ?thesis using Suc.prems True nx by (cases r) (auto split: option.splits)
    next
      case True': True
      then obtain rec where r: "r = Inr (Some rec)" by blast
      obtain o1 e1 where e1: "emitRecord E rec out = (o1, e1)" by fastforce
      then have q1: "Q o1" using k(1) [OF Suc.prems(1), of rec] by simp
      obtain wm1 t where wm: "watermark_onRecord (EventTime rec) wm = (wm1, t)" by fastforce
      obtain o2 e2 where e2: "(case t of None \<Rightarrow> (o1, None) | Some t \<Rightarrow> emitWatermark E t o1) = (o2, e2)" by fastforce
      then have q2: "Q o2" using k(2) [OF q1] q1 by (cases t) (auto, metis fst_conv)
      obtain br1 i where br: "barrier_onRecord br = (br1, i)" by fastforce
      obtain o3 e3 where e3: "(case i of None \<Rightarrow> (o2, None)
          | Some i \<Rightarrow> emitBarrier E \<lparr>CheckpointID = i, Timestamp = wg_lastEmitted wm1\<rparr> (src_Position S s1) o2) = (o3, e3)" by fastforce
      then have q3: "Q o3" using k(3) [OF q2] q2 by (cases i) (auto, metis fst_conv)
      show ?thesis
        using Suc.prems(2) True Suc.IH [OF q3] q1 q2 q3
        by (auto simp: nx r e1 wm e2 br e3 split: option.splits)
    qed
  qed
qed simp

lemma sourceLoop_keeps:
  assumes "keepsOut Q E" "Q out" "sourceLoop fuel S E par index wm interval resume s out = Some (s', out', err)"
  shows "Q out'"
  using assms(3) emitLoop_keeps [OF assms(1,2)] assms(2)
  by (auto simp: sourceLoop_def Let_def split: prod.splits sum.splits option.splits)

lemma sourceEmitters_keep:
  assumes "keeps P ol"
  shows "keepsOut (\<lambda>st. P (sr_writer st)) (sourceEmitters ctx ol cp fs)"
proof -
  have k: "P w \<Longrightarrow> P (fst (ol_EmitRecord ol rec w))" "P w \<Longrightarrow> P (fst (ol_Broadcast ol x w))" for w rec x
    using assms by (simp_all add: keeps_def)
  show ?thesis
    by (simp add: keepsOut_def sourceEmitters_def source_emitRecord_def source_emitWatermark_def source_emitBarrier_def
        case_prod_beta k split: option.split)
qed

lemma runSourceSubtask_keeps:
  assumes "keeps P ol" "P w" "runSourceSubtask fuel ctx v F index ol cp fs restored w c = Some ((s, run), err)"
  shows "P (sr_writer run)"
proof -
  have fin: "P (sr_writer st') " if "source_finish ol cp position st = (st', e)" "P (sr_writer st)" for position st st' e
    using that keeps_broadcast [OF assms(1)] by (auto simp: source_finish_def split: prod.splits option.splits if_splits)
  have loop: "P (sr_writer st')" if "sourceLoop fuel S (sourceEmitters ctx ol cp fs) par index wm interval resume s
      \<lparr>sr_elements = 0, sr_writer = w, sr_calls = c\<rparr> = Some (s', st', e)" for S par wm interval resume s s' st' e
    using sourceLoop_keeps [OF sourceEmitters_keep [OF assms(1)] _ that] assms(2) by simp
  show ?thesis
    using assms(2,3)
    by (auto simp: runSourceSubtask_def Let_def split: prod.splits sum.splits option.splits dest!: loop dest: fin)
qed

lemma invoke_keeps:
  assumes "keeps P ol" "P (oc_writer oc)" "invoke ol meth oc = ((op', oc'), err)"
  shows "P (oc_writer oc')"
proof -
  have one: "P (oc_writer oc) \<Longrightarrow> P (oc_writer (Emit ol rec oc))" for rec oc
    using keeps_emit [OF assms(1)] by (auto simp: Emit_def split: prod.split)
  have "P (oc_writer oc) \<Longrightarrow> P (oc_writer (fold (Emit ol) out oc))" for out oc
    by (induction out arbitrary: oc) (simp_all add: one)
  then show ?thesis using assms(2,3) by (auto simp: invoke_def takeErr_def Let_def split: prod.splits option.splits)
qed

lemma broadcast_keeps: "keeps P ol \<Longrightarrow> P (oc_writer oc) \<Longrightarrow> broadcast ol x oc = (oc', err) \<Longrightarrow> P (oc_writer oc')"
  by (auto simp: broadcast_def split: prod.splits dest: keeps_broadcast)

lemma runOperatorLoop_keeps:
  assumes "keeps P ol"
  shows "P (oc_writer oc) \<Longrightarrow> runOperatorLoop OP ol cp fs fin es n op oc c = ((op', oc', c'), err) \<Longrightarrow> P (oc_writer oc')"
proof (induction es arbitrary: n op oc c)
  case (Cons e es)
  note i = invoke_keeps [OF assms] and b = broadcast_keeps [OF assms]
  show ?case
  proof (cases e)
    case (RecordElement rec)
    obtain op1 oc1 e1 where inv: "invoke ol (op_ProcessElement OP rec op) oc = ((op1, oc1), e1)" by (metis surj_pair)
    note Cons.IH [OF i [OF Cons.prems(1) inv]]
    then show ?thesis using RecordElement Cons.prems i [OF Cons.prems(1) inv] by (simp add: inv split: option.splits)
  next
    case (WatermarkElement wm)
    obtain op1 oc1 e1 where inv: "invoke ol (op_ProcessWatermark OP wm op) (oc\<lparr>oc_watermark := wm\<rparr>) = ((op1, oc1), e1)" by (metis surj_pair)
    have q1: "P (oc_writer oc1)" using i [OF _ inv] Cons.prems(1) by simp
    obtain oc2 e2 where br: "broadcast ol (WatermarkElement wm) oc1 = (oc2, e2)" by fastforce
    show ?thesis using WatermarkElement Cons.prems(2) q1 b [OF q1 br] Cons.IH [OF b [OF q1 br]] by (simp add: inv br split: option.splits)
  next
    case EndOfStreamElement
    obtain op1 oc1 e1 where inv: "invoke ol (op_OnEndOfStream OP op) oc = ((op1, oc1), e1)" by (metis surj_pair)
    note q1 = i [OF Cons.prems(1) inv]
    obtain oc2 e2 where br: "broadcast ol EndOfStreamElement oc1 = (oc2, e2)" by fastforce
    show ?thesis using EndOfStreamElement Cons.prems(2) q1 b [OF q1 br] by (simp add: inv br split: option.splits)
  next
    case (BarrierElement x)
    obtain oc1 e1 where br: "broadcast ol (BarrierElement x) oc = (oc1, e1)" by fastforce
    note q1 = b [OF Cons.prems(1) br]
    show ?thesis using BarrierElement Cons.prems q1 Cons.IH [OF q1] by (auto simp: br split: option.splits prod.splits)
  next
    case (UnknownElement k)
    then show ?thesis using Cons.prems by simp
  qed
qed simp

lemma runOperatorSubtask_keeps:
  assumes "keeps P ol" "P w" "runOperatorSubtask OP op ol cp fs restore fin es w c = ((op', oc', c'), err)"
  shows "P (oc_writer oc')"
proof -
  have w: "P (oc_writer (newOpContext w))" using assms(2) by (simp add: newOpContext_def newOpContextWithState_def)
  have "P (oc_writer oc')" if "runOperatorOpened OP op ol cp fs restore fin es (newOpContext w) c = ((op', oc', c'), err)" for op op' oc' c' err
    using that w by (auto simp: runOperatorOpened_def split: option.splits prod.splits dest: runOperatorLoop_keeps [OF assms(1), rotated])
  then show ?thesis using assms(3) w by (auto simp: runOperatorSubtask_def Let_def split: option.splits prod.splits)
qed

lemma runKind_keeps:
  assumes "keeps P ol" "P w" "runKind fuel ctx FA ol cp fs cfg gate w c = Some ((r, w', c'), err)"
  shows "P w'"
  using assms(2,3)
  by (auto simp: runKind_def split: VertexKind.splits option.splits prod.splits
      dest: runSourceSubtask_keeps [OF assms(1,2)] runOperatorSubtask_keeps [OF assms(1,2)])

section \<open>The channels of a job\<close>

lemma outputs_are_places:
  assumes "laidOut js bs w"
  shows "concat (wi_outputs w p) = placesOf (\<lambda>l. fst l = p) (links js bs)"
proof -
  have "concat (map (groupAt js bs) (placesOf (\<lambda>b. fst b = p) bs)) = placesOf (\<lambda>l. fst l = p) (links js bs)"
  proof (induction bs rule: rev_induct)
    case Nil
    then show ?case by (simp add: placesOf_def)
  next
    case (snoc b bs)
    have same: "map (groupAt js (bs @ [b])) (placesOf P bs) = map (groupAt js bs) (placesOf P bs)" for P
      by (rule map_cong) (auto simp: groupAt_def placesOf_def nth_append)
    have upt: "map ((+) a) [0..<m] = [a..<a + m]" for a m :: nat by (induction m) simp_all
    have new: "map (\<lambda>n. length (links js bs) + n) (placesOf (\<lambda>l. fst l = p) (linksOf js b)) =
        (if fst b = p then groupAt js (bs @ [b]) (length bs) else [])"
      by (auto simp: placesOf_def linksOf_def groupAt_def upt filter_empty_conv cong: filter_cong)
    have one: "placesOf (\<lambda>x. fst x = p) [b] = (if fst b = p then [0] else [])" by (simp add: placesOf_def)
    show ?case using snoc by (simp add: placesOf_append same one new)
  qed
  then show ?thesis using assms by (simp add: laidOut_def)
qed

lemma set_placesOf: "set (placesOf P xs) = {n. n < length xs \<and> P (xs ! n)}" "distinct (placesOf P xs)"
  by (auto simp: placesOf_def)

lemma blocks_members:
  "(p, toID) \<in> set (blocks g order) \<longleftrightarrow>
    (\<exists>v \<in> set order. \<exists>i \<in> set (indices (Parallelism v)). p = \<lparr>si_vertexID = ID v, si_index = i\<rparr> \<and> toID \<in> set (Downstream g (ID v)))"
  by (fastforce simp: blocks_def)

lemma groups_nonempty:
  assumes "laidOut js bs w" "\<forall>b \<in> set bs. js (snd b) \<noteq> []"
  shows "[] \<notin> set (wi_outputs w p)"
proof -
  have "groupAt js bs n \<noteq> []" if "n < length bs" for n
    using assms(2) nth_mem [OF that] by (simp add: groupAt_def)
  then show ?thesis using assms(1) by (fastforce simp: laidOut_def placesOf_def)
qed

lemma wire_laidOut:
  assumes "built g" "TopoOrder g = Some (Inr order)"
  shows "\<exists>js. laidOut js (blocks g order) (wire g order) \<and> (\<forall>b \<in> set (blocks g order). js (snd b) \<noteq> [])"
proof -
  let ?js = "\<lambda>v. indices (Parallelism (vertexIn order v))"
  have o: "distinct (map ID order)" "set order = vertexOf g ` ids g" "valid_graph g"
    using TopoOrder_spec [OF assms(1)] assms(2) by auto
  have inv: "graph_inv g" by (rule built_inv [OF assms(1)])
  have "?js toID \<noteq> []" if "(p, toID) \<in> set (blocks g order)" for p toID
  proof -
    have "toID \<in> ids g" using that inv by (auto simp: blocks_members graph_inv_def Downstream_def edges_def)
    moreover have "vertexIn order toID = vertexOf g toID"
      using vertexIn_order [OF o(1), of "vertexOf g toID"] ID_vertexOf [OF inv] o(2) calculation by simp
    ultimately have "1 \<le> sint (Parallelism (vertexIn order toID))" using o(3) by (auto simp: valid_graph_def well_configured_def)
    then show ?thesis by (simp add: indices_def)
  qed
  then show ?thesis using laidOut_all [of ?js "blocks g order"] unfolding wire_blocks by (intro exI [of _ ?js]) auto
qed

section \<open>Closing them\<close>

definition closedOf :: "network \<Rightarrow> channel \<Rightarrow> bool" where
  "closedOf n ch \<longleftrightarrow> ch_closed (net_channels n ch)"

lemma closedOf_moves [simp]: "closedOf (fold net_move ms n) = closedOf n"
proof -
  have "closedOf (net_move m n) = closedOf n" for m n
    by (cases m) (auto simp: closedOf_def fun_eq_iff Channel_Recv_def split: option.splits list.splits if_splits)
  then show ?thesis by (induction ms arbitrary: n) simp_all
qed

lemma Send_keeps_closed: "Channel_Send ch e n = Some (n', err) \<Longrightarrow> closedOf n' = closedOf n"
proof -
  have env: "closedOf (n\<lparr>net_env := env\<rparr>) = closedOf n" for n env by (simp add: closedOf_def fun_eq_iff)
  have put: "closedOf (n\<lparr>net_channels := (net_channels n)(ch := (net_channels n ch)\<lparr>ch_elements := es\<rparr>)\<rparr>) = closedOf n" for n ch es
    by (simp add: closedOf_def fun_eq_iff)
  have "Send_loop env ch e n = Some (n', err) \<Longrightarrow> closedOf n' = closedOf n" for env n
  proof (induction env ch e n rule: Send_loop.induct)
    case (2 ms pick env i e n)
    let ?n = "(fold net_move ms n)\<lparr>net_env := env\<rparr>"
    have same: "closedOf ?n = closedOf n" unfolding env by simp
    show ?case
    proof (cases "Send_select (net_done ?n) pick e (net_channels ?n i)")
      case (Sent c)
      then have "n' = ?n\<lparr>net_channels := (net_channels ?n)(i := c)\<rparr>" using 2(2) by (simp add: Let_def)
      then show ?thesis using put [of ?n i "ch_elements c"] Send_select_Sent [OF Sent] same by simp
    next
      case Blocked
      then show ?thesis using 2 same by (simp add: Let_def)
    qed (use 2(2) same in \<open>auto simp: Let_def\<close>)
  qed simp
  then show "Channel_Send ch e n = Some (n', err) \<Longrightarrow> closedOf n' = closedOf n" by (simp add: Channel_Send_def)
qed

lemma sendEach_keeps_closed: "sendEach Channel_Send os e n = Some (n', err) \<Longrightarrow> closedOf n' = closedOf n"
proof (induction os arbitrary: n)
  case (Cons a os)
  then show ?case using Send_keeps_closed by (fastforce split: option.splits)
qed simp

lemma writerOutlet_keeps_closed: "keeps (\<lambda>st. \<forall>n. st = Some n \<longrightarrow> closedOf n = C) (writerOutlet Channel_Send w)"
  by (auto simp: keeps_def writerOutlet_def EmitRecord_def Broadcast_def split: option.split if_splits dest: sendEach_keeps_closed)

lemma closeEach_closes:
  assumes "distinct os" "\<forall>ch \<in> set os. \<not> closedOf n ch"
  shows "\<exists>n'. closeEach net_close os n = Some n' \<and> closedOf n' = (\<lambda>ch. closedOf n ch \<or> ch \<in> set os) \<and> net_sent n' = net_sent n"
  using assms
proof (induction os arbitrary: n)
  case (Cons a os)
  obtain n1 where one: "net_close a n = Some n1" "closedOf n1 = (\<lambda>ch. closedOf n ch \<or> ch = a)" "net_sent n1 = net_sent n"
    using Cons.prems(2) by (auto simp: net_close_def Channel_Close_def closedOf_def net_sent_def fun_eq_iff)
  have "\<forall>ch \<in> set os. \<not> closedOf n1 ch" using Cons.prems one(2) by auto
  from Cons.IH [OF _ this] Cons.prems(1) one show ?case by auto
qed simp

lemma config_of_subtask:
  "cfg \<in> set (subtaskConfigs order w restored restoredID) \<longleftrightarrow>
    (\<exists>v \<in> set order. \<exists>i \<in> set (indices (Parallelism v)).
      cfg = \<lparr>sc_vertex = v, sc_id = \<lparr>si_vertexID = ID v, si_index = i\<rparr>, sc_inputs = wi_inputs w \<lparr>si_vertexID = ID v, si_index = i\<rparr>,
        sc_outputs = wi_outputs w \<lparr>si_vertexID = ID v, si_index = i\<rparr>,
        sc_restore = map_of restored (checkpointKey \<lparr>si_vertexID = ID v, si_index = i\<rparr>), sc_restoredCheckpoint = restoredID\<rparr>)"
  by (auto simp: subtaskConfigs_def Let_def)

section \<open>Property\<close>

text \<open>C10. Every channel of a job is closed, once, by the one subtask that writes to it. No two subtasks
  of a job share an output, and whatever a subtask reads from is an output of a subtask. Run any
  of them, of any kind, with any factories, faults, input and coordinator, until it returns, with
  an error or without: neither its writer nor a second close panics, and it has closed the
  channels \<open>wire\<close> made it the producer of, every one and no other, and sent nothing while it closed
  them. So a receiver always gets to the end of its input.\<close>

theorem subtask_closes_its_outputs:
  assumes "built g" "TopoOrder g = Some (Inr order)"
    and "configs = set (subtaskConfigs order (wire g order) restored restoredID)" "cfg \<in> configs"
    and "\<forall>ch \<in> set (concat (sc_outputs cfg)). \<not> closedOf n ch"
  shows "(\<forall>cfg' \<in> configs. sc_id cfg' \<noteq> sc_id cfg \<longrightarrow> set (concat (sc_outputs cfg')) \<inter> set (concat (sc_outputs cfg)) = {}) \<and>
    (\<forall>ch \<in> set (sc_inputs cfg). \<exists>cfg' \<in> configs. ch \<in> set (concat (sc_outputs cfg'))) \<and>
    (\<exists>w. NewWriter (sc_outputs cfg) = Some w \<and>
      (case runKind fuel ctx FA (writerOutlet Channel_Send w) cp \<lparr>fa_injector = injector, fa_id = sc_id cfg\<rparr> cfg gate (Some n) c of
         Some ((r, Some n1, c1), err) \<Rightarrow>
           (\<exists>n2. runSubtask fuel ctx FA Channel_Send net_close cp injector cfg gate n c = Some ((r, n2, c1), err) \<and>
             closedOf n2 = (\<lambda>ch. closedOf n ch \<or> ch \<in> set (concat (sc_outputs cfg))) \<and> net_sent n2 = net_sent n1)
       | _ \<Rightarrow> runSubtask fuel ctx FA Channel_Send net_close cp injector cfg gate n c = None))"
proof (intro conjI)
  obtain js where w: "laidOut js (blocks g order) (wire g order)" "\<forall>b \<in> set (blocks g order). js (snd b) \<noteq> []"
    using wire_laidOut [OF assms(1,2)] by blast
  let ?ls = "links js (blocks g order)"
  have out: "concat (sc_outputs x) = placesOf (\<lambda>l. fst l = sc_id x) ?ls" if "x \<in> configs" for x
    using that outputs_are_places [OF w(1)] unfolding assms(3) config_of_subtask by auto
  show "\<forall>cfg' \<in> configs. sc_id cfg' \<noteq> sc_id cfg \<longrightarrow> set (concat (sc_outputs cfg')) \<inter> set (concat (sc_outputs cfg)) = {}"
    using out assms(4) by (auto simp: set_placesOf simp del: set_concat)
  show "\<forall>ch \<in> set (sc_inputs cfg). \<exists>cfg' \<in> configs. ch \<in> set (concat (sc_outputs cfg'))"
  proof
    fix ch assume "ch \<in> set (sc_inputs cfg)"
    then have ch: "ch < length ?ls" using w(1) assms(4) unfolding assms(3) config_of_subtask by (auto simp: laidOut_def set_placesOf)
    then obtain b where b: "b \<in> set (blocks g order)" "?ls ! ch \<in> set (linksOf js b)" using nth_mem [OF ch] by auto
    then obtain v i where v: "v \<in> set order" "i \<in> set (indices (Parallelism v))" "fst b = \<lparr>si_vertexID = ID v, si_index = i\<rparr>"
      using blocks_members by (metis prod.collapse)
    then obtain cfg' where c: "cfg' \<in> configs" "sc_id cfg' = fst b" unfolding assms(3) config_of_subtask by force
    have "fst (?ls ! ch) = sc_id cfg'" using b(2) c(2) by (auto simp: linksOf_def)
    then have "ch \<in> set (concat (sc_outputs cfg'))" unfolding out [OF c(1)] set_placesOf(1) using ch by simp
    then show "\<exists>cfg' \<in> configs. ch \<in> set (concat (sc_outputs cfg'))" using c(1) by (rule bexI)
  qed
  have "[] \<notin> set (sc_outputs cfg)" using assms(4) groups_nonempty [OF w] unfolding assms(3) config_of_subtask by auto
  then obtain wr where wr: "NewWriter (sc_outputs cfg) = Some wr" "groups wr = sc_outputs cfg"
    by (auto simp: NewWriter_def list_ex_iff)
  have d: "distinct (concat (sc_outputs cfg))" unfolding out [OF assms(4)] by (rule set_placesOf(2))
  let ?run = "runKind fuel ctx FA (writerOutlet Channel_Send wr) cp \<lparr>fa_injector = injector, fa_id = sc_id cfg\<rparr> cfg gate (Some n) c"
  have "\<exists>n2. CloseAll net_close wr n1 = Some n2 \<and> closedOf n2 = (\<lambda>ch. closedOf n ch \<or> ch \<in> set (concat (sc_outputs cfg))) \<and> net_sent n2 = net_sent n1"
    if "?run = Some ((r, Some n1, c1), err)" for r n1 c1 err
  proof -
    have "closedOf n1 = closedOf n" using runKind_keeps [OF writerOutlet_keeps_closed [of "closedOf n"] _ that] by simp
    then show ?thesis using closeEach_closes [OF d, of n1] assms(5) by (simp add: CloseAll_def wr(2) del: set_concat)
  qed
  then show "\<exists>w. NewWriter (sc_outputs cfg) = Some w \<and>
      (case runKind fuel ctx FA (writerOutlet Channel_Send w) cp \<lparr>fa_injector = injector, fa_id = sc_id cfg\<rparr> cfg gate (Some n) c of
         Some ((r, Some n1, c1), err) \<Rightarrow>
           (\<exists>n2. runSubtask fuel ctx FA Channel_Send net_close cp injector cfg gate n c = Some ((r, n2, c1), err) \<and>
             closedOf n2 = (\<lambda>ch. closedOf n ch \<or> ch \<in> set (concat (sc_outputs cfg))) \<and> net_sent n2 = net_sent n1)
       | _ \<Rightarrow> runSubtask fuel ctx FA Channel_Send net_close cp injector cfg gate n c = None)"
  proof (intro exI [of _ wr] conjI wr(1))
    assume closes: "\<And>r n1 c1 err. ?run = Some ((r, Some n1, c1), err) \<Longrightarrow> \<exists>n2. CloseAll net_close wr n1 = Some n2 \<and>
      closedOf n2 = (\<lambda>ch. closedOf n ch \<or> ch \<in> set (concat (sc_outputs cfg))) \<and> net_sent n2 = net_sent n1"
    consider "?run = None" | r c1 err where "?run = Some ((r, None, c1), err)" | r n1 c1 err where "?run = Some ((r, Some n1, c1), err)"
      by (metis option.exhaust surj_pair)
    then show "case ?run of
         Some ((r, Some n1, c1), err) \<Rightarrow>
           (\<exists>n2. runSubtask fuel ctx FA Channel_Send net_close cp injector cfg gate n c = Some ((r, n2, c1), err) \<and>
             closedOf n2 = (\<lambda>ch. closedOf n ch \<or> ch \<in> set (concat (sc_outputs cfg))) \<and> net_sent n2 = net_sent n1)
       | _ \<Rightarrow> runSubtask fuel ctx FA Channel_Send net_close cp injector cfg gate n c = None"
    proof cases
      case 3
      from closes [OF this] show ?thesis by (elim exE conjE) (simp add: runSubtask_def wr(1) 3 del: set_concat)
    qed (simp_all add: runSubtask_def wr(1))
  qed
qed

definition example_factories :: "(unit, unit, unit) factories" where
  "example_factories =
     \<lparr>fs_Source = \<lambda>_. \<lparr>sf_New = (), sf_Open = \<lambda>s. (s, Some (IoError 7)), sf_Close = \<lambda>s. None,
        sf_Source = \<lparr>src_Next = \<lambda>s. (s, Inr None), src_SeekTo = \<lambda>n s. (s, None), src_Position = \<lambda>s. 0, src_Count = None\<rparr>\<rparr>,
      fs_Operator = \<lambda>_. (\<lparr>op_Open = \<lambda>m u. (u, None), op_ProcessElement = \<lambda>r u m. ((u, m, []), None),
        op_ProcessWatermark = \<lambda>t u m. ((u, m, []), None), op_OnEndOfStream = \<lambda>u m. ((u, m, []), None), op_Close = \<lambda>u. None\<rparr>, ()),
      fs_Sink = \<lambda>_. (Discard_sink, ())\<rparr>"

text \<open>A subtask whose source cannot be opened still closes its channels.\<close>

theorem subtask_closes_its_outputs_witness:
  "\<exists>order cfg n2. TopoOrder example_graph = Some (Inr order) \<and>
    cfg \<in> set (subtaskConfigs order (wire example_graph order) [] 0) \<and> concat (sc_outputs cfg) \<noteq> [] \<and>
    runSubtask 5 (\<lambda>_. None) example_factories Channel_Send net_close None None cfg ([], None) example_network () =
      Some ((OfSource (), n2, ()), Some (IoError 7)) \<and> {ch. closedOf n2 ch} = set (concat (sc_outputs cfg))"
proof -
  have g: "[2] \<in> ids example_graph" "Downstream example_graph [2] = [[1]]"
    "Parallelism (vertexOf example_graph [2]) = 2" "ID (vertexOf example_graph [2]) = [2]"
    "NewSource (vertexOf example_graph [2]) = Some 0" "VKind (vertexOf example_graph [2]) = VertexSource"
    by (simp_all add: example_graph_vertices example_graph_ids zeroVertex_def)
  obtain order where o: "TopoOrder example_graph = Some (Inr order)" "set order = vertexOf example_graph ` ids example_graph" "distinct (map ID order)"
    using TopoOrder_spec [OF example_built] Validate_iff [OF built_inv [OF example_built]] example_validate by auto
  let ?p = "\<lparr>si_vertexID = [2], si_index = 1\<rparr>" and ?w = "wire example_graph order"
  define cfg where "cfg = \<lparr>sc_vertex = vertexOf example_graph [2], sc_id = ?p, sc_inputs = wi_inputs ?w ?p,
    sc_outputs = wi_outputs ?w ?p, sc_restore = None, sc_restoredCheckpoint = 0\<rparr>"
  have v: "vertexOf example_graph [2] \<in> set order" "(1 :: int64) \<in> set (indices (Parallelism (vertexOf example_graph [2])))"
    using g(1) o(2) by (auto simp: g(3) indices_def numeral_2_eq_2)
  have cfg: "cfg \<in> set (subtaskConfigs order ?w [] 0)" unfolding config_of_subtask using v g(4) by (force simp: cfg_def)
  obtain js where w: "laidOut js (blocks example_graph order) ?w" "\<forall>b \<in> set (blocks example_graph order). js (snd b) \<noteq> []"
    using wire_laidOut [OF example_built o(1)] by blast
  have "map snd (filter (\<lambda>b. fst b = ?p) (blocks example_graph order)) = [[1]]"
    using blocks_of_producer [OF o(3) v, of example_graph] g(2,4) by simp
  from outputs_of_subtask(1) [OF w(1) this] have "length (sc_outputs cfg) = 1" by (simp add: cfg_def)
  then have some: "concat (sc_outputs cfg) \<noteq> []"
    using groups_nonempty [OF w, of ?p] by (cases "sc_outputs cfg") (auto simp: cfg_def)
  have "\<not> closedOf example_network ch" for ch by (simp add: closedOf_def example_network_def NewChannel_def Let_def)
  then have open_: "\<forall>ch \<in> set (concat (sc_outputs cfg)). \<not> closedOf example_network ch" "closedOf example_network = (\<lambda>_. False)" by auto
  have run: "runKind 5 (\<lambda>_. None) example_factories ol None fs cfg ([], None) (Some example_network) () =
      Some ((OfSource (), Some example_network, ()), Some (IoError 7))" for ol fs
    by (simp add: runKind_def cfg_def g(5,6) runSourceSubtask_def example_factories_def)
  show ?thesis
    using subtask_closes_its_outputs [OF example_built o(1) refl cfg open_(1), where FA = example_factories and fuel = 5 and ctx = "\<lambda>_. None"
        and cp = None and injector = None and gate = "([], None)" and c = "()"] cfg some o(1)
    unfolding run open_(2) by (auto simp del: set_concat)
qed
end
