(* ===== verification/Go_Strings.thy ===== *)
theory Go_Strings
  imports Core_Types
begin

text \<open>
  The functions of Go's \<open>strings\<close> package that the commands under \<open>cmd/\<close> read their flags and the
  kernel's files with. A string is its bytes; white space is the white space of Unicode, each
  character in its UTF-8 encoding, none of which can begin inside the encoding of another.
\<close>

definition str :: "string \<Rightarrow> bytes" where
  "str s = map of_char s"

definition spaceRunes :: "bytes list" where
  "spaceRunes =
     [[9], [10], [11], [12], [13], [32], [0xC2, 0x85], [0xC2, 0xA0], [0xE1, 0x9A, 0x80],
      [0xE2, 0x80, 0x80], [0xE2, 0x80, 0x81], [0xE2, 0x80, 0x82], [0xE2, 0x80, 0x83], [0xE2, 0x80, 0x84], [0xE2, 0x80, 0x85],
      [0xE2, 0x80, 0x86], [0xE2, 0x80, 0x87], [0xE2, 0x80, 0x88], [0xE2, 0x80, 0x89], [0xE2, 0x80, 0x8A],
      [0xE2, 0x80, 0xA8], [0xE2, 0x80, 0xA9], [0xE2, 0x80, 0xAF], [0xE2, 0x81, 0x9F], [0xE3, 0x80, 0x80]]"

lemma spaceRunes_nonempty: "r \<in> set spaceRunes \<Longrightarrow> r \<noteq> []"
  by (auto simp: spaceRunes_def)

definition HasPrefix :: "bytes \<Rightarrow> bytes \<Rightarrow> bool" where
  "HasPrefix s prefix \<longleftrightarrow> take (length prefix) s = prefix"

definition TrimPrefix :: "bytes \<Rightarrow> bytes \<Rightarrow> bytes" where
  "TrimPrefix s prefix = (if HasPrefix s prefix then drop (length prefix) s else s)"

text \<open>The white-space character a string starts with, if it does.\<close>

definition spaceAt :: "bytes \<Rightarrow> bytes option" where
  "spaceAt s = find (HasPrefix s) spaceRunes"

lemma spaceAt_Some: "spaceAt s = Some r \<Longrightarrow> 0 < length r \<and> length r \<le> length s \<and> s \<noteq> []"
proof -
  assume "spaceAt s = Some r"
  then have "r \<in> set spaceRunes" "HasPrefix s r" by (auto simp: spaceAt_def find_Some_iff)
  then have r: "r \<noteq> []" "take (length r) s = r" by (auto simp: spaceRunes_nonempty HasPrefix_def)
  have "length r \<le> length s" using arg_cong [OF r(2), of length] by simp
  then show ?thesis using r(1) by auto
qed

function trimLeft :: "bytes \<Rightarrow> bytes" where
  "trimLeft s = (case spaceAt s of None \<Rightarrow> s | Some r \<Rightarrow> trimLeft (drop (length r) s))"
  by auto
termination by (relation "measure length") (auto dest: spaceAt_Some)

definition spaceBefore :: "bytes \<Rightarrow> bytes option" where
  "spaceBefore s = find (\<lambda>r. HasPrefix (rev s) (rev r)) spaceRunes"

lemma spaceBefore_Some: "spaceBefore s = Some r \<Longrightarrow> 0 < length r \<and> length r \<le> length s \<and> s \<noteq> []"
proof -
  assume "spaceBefore s = Some r"
  then have "r \<in> set spaceRunes" "HasPrefix (rev s) (rev r)" by (auto simp: spaceBefore_def find_Some_iff)
  then have r: "r \<noteq> []" "take (length r) (rev s) = rev r" by (auto simp: spaceRunes_nonempty HasPrefix_def)
  have "length r \<le> length s" using arg_cong [OF r(2), of length] by simp
  then show ?thesis using r(1) by auto
qed

function trimRight :: "bytes \<Rightarrow> bytes" where
  "trimRight s = (case spaceBefore s of None \<Rightarrow> s | Some r \<Rightarrow> trimRight (take (length s - length r) s))"
  by auto
termination by (relation "measure length") (auto dest: spaceBefore_Some)

declare trimLeft.simps [simp del] trimRight.simps [simp del]

definition TrimSpace :: "bytes \<Rightarrow> bytes" where
  "TrimSpace s = trimRight (trimLeft s)"

text \<open>\<open>strings.Split\<close> on one byte, and \<open>strings.Cut\<close>.\<close>

fun Split :: "byte \<Rightarrow> bytes \<Rightarrow> bytes list" where
  "Split sep [] = [[]]"
| "Split sep (c # cs) = (if c = sep then [] # Split sep cs else (case Split sep cs of [] \<Rightarrow> [[c]] | f # fs \<Rightarrow> (c # f) # fs))"

fun Cut :: "byte \<Rightarrow> bytes \<Rightarrow> (bytes \<times> bytes) option" where
  "Cut sep [] = None"
| "Cut sep (c # cs) = (if c = sep then Some ([], cs) else map_option (\<lambda>(a, b). (c # a, b)) (Cut sep cs))"

text \<open>\<open>strings.Fields\<close>, with the field read so far.\<close>

function fieldsFrom :: "bytes \<Rightarrow> bytes \<Rightarrow> bytes list" where
  "fieldsFrom cur s =
     (case spaceAt s of
        Some r \<Rightarrow> (if cur = [] then [] else [cur]) @ fieldsFrom [] (drop (length r) s)
      | None \<Rightarrow> (case s of [] \<Rightarrow> if cur = [] then [] else [cur] | c # cs \<Rightarrow> fieldsFrom (cur @ [c]) cs))"
  by auto
termination by (relation "measure (length \<circ> snd)") (auto dest: spaceAt_Some)

declare fieldsFrom.simps [simp del]

definition Fields :: "bytes \<Rightarrow> bytes list" where
  "Fields s = fieldsFrom [] s"

section \<open>What they give on text without white space\<close>

definition plain :: "bytes \<Rightarrow> bool" where
  "plain s \<longleftrightarrow> list_all (\<lambda>c. 32 < c \<and> c < 0x80) s"

lemma spaceRunes_plain: "r \<in> set spaceRunes \<Longrightarrow> \<exists>c cs c'. r = c # cs \<and> last r = c' \<and> \<not> (32 < c \<and> c < 0x80) \<and> \<not> (32 < c' \<and> c' < 0x80)"
  by (auto simp: spaceRunes_def)

lemma plain_no_space: "plain s \<Longrightarrow> spaceAt s = None" "plain s \<Longrightarrow> spaceBefore s = None"
proof -
  assume s: "plain s"
  have "\<not> HasPrefix s r" if r: "r \<in> set spaceRunes" for r
  proof
    assume "HasPrefix s r"
    then have "set r \<subseteq> set s" unfolding HasPrefix_def by (metis set_take_subset)
    then show False using spaceRunes_plain [OF r] s by (auto simp: plain_def list_all_iff)
  qed
  then show "spaceAt s = None" by (auto simp: spaceAt_def find_None_iff)
  have "\<not> HasPrefix (rev s) (rev r)" if r: "r \<in> set spaceRunes" for r
  proof
    assume "HasPrefix (rev s) (rev r)"
    then have "set r \<subseteq> set s" unfolding HasPrefix_def by (metis set_rev set_take_subset)
    then show False using spaceRunes_plain [OF r] s by (auto simp: plain_def list_all_iff)
  qed
  then show "spaceBefore s = None" by (auto simp: spaceBefore_def find_None_iff)
qed

lemma TrimSpace_plain: "plain s \<Longrightarrow> TrimSpace s = s"
  by (simp add: TrimSpace_def trimLeft.simps [of s] trimRight.simps [of s] plain_no_space)

lemma Split_nonempty [simp]: "Split sep s \<noteq> []"
  by (induction s) (auto split: list.split)

lemma Split_none: "sep \<notin> set s \<Longrightarrow> Split sep s = [s]"
  by (induction s) auto

lemma Split_append: "sep \<notin> set s \<Longrightarrow> Split sep (s @ sep # t) = s # Split sep t"
  by (induction s) auto

end
