(* ===== verification/Bench_Workload.thy ===== *)
theory Bench_Workload
  imports Go_Strings Job_Graph Generator Hot_Items Checkpoint_Storage
begin

text \<open>
  The jobs the commands run: \<open>cmd/bench/workload.go\<close> with the sweep of \<open>cmd/bench/main.go\<close>, and the
  graph of \<open>cmd/worker/main.go\<close>. The factory a vertex is given is known by its place in the chain;
  what it makes is a datatype of the constructors the code calls. Labels and other output are
  left out.
\<close>

section \<open>A configuration\<close>

definition queryIdentity :: bytes where "queryIdentity = str ''identity''"
definition queryQ0 :: bytes where "queryQ0 = str ''q0''"
definition queryQ1 :: bytes where "queryQ1 = str ''q1''"
definition queryQ2 :: bytes where "queryQ2 = str ''q2''"
definition queryQ5 :: bytes where "queryQ5 = str ''q5''"
definition queryQ7 :: bytes where "queryQ7 = str ''q7''"

lemmas query_defs = queryIdentity_def queryQ0_def queryQ1_def queryQ2_def queryQ5_def queryQ7_def str_def

definition queries :: "bytes list" where
  "queries = [queryIdentity, queryQ0, queryQ1, queryQ2, queryQ5, queryQ7]"

definition windowedQueries :: "bytes list" where
  "windowedQueries = [queryQ5, queryQ7]"

record Config =
  c_Query :: bytes
  c_Parallelism :: int64
  c_Records :: int64
  c_Seed :: uint64
  c_Keys :: int64
  c_AuctionCardinality :: int64
  c_WindowMillis :: int64
  c_SlideMillis :: int64

definition oversubscribed :: "int64 \<Rightarrow> Config \<Rightarrow> bool" where
  "oversubscribed numCPU c \<longleftrightarrow> numCPU <s c_Parallelism c"

definition Config_check :: "Config \<Rightarrow> go_error option" where
  "Config_check c =
     (if \<not> List.member queries (c_Query c) then Some (CommandErr errUnknownQuery)
      else if c_Parallelism c <s 1 then Some (CommandErr errBelowOne)
      else if c_Records c <s 1 then Some (CommandErr errBelowOne)
      else if c_Query c = queryIdentity \<and> c_Keys c <s 1 then Some (CommandErr errBelowOne)
      else if c_Query c \<noteq> queryIdentity \<and> c_AuctionCardinality c <s 1 then Some (CommandErr errBelowOne)
      else if List.member windowedQueries (c_Query c) \<and> c_WindowMillis c <s 1 then Some (CommandErr errBelowOne)
      else if c_Query c = queryQ5 \<and> (c_SlideMillis c <s 1 \<or> c_WindowMillis c <s c_SlideMillis c) then Some (CommandErr errSlideOutOfRange)
      else None)"

section \<open>What the vertices make\<close>

definition benchEventTimeStep :: int64 where "benchEventTimeStep = 1"
definition benchMaxLag :: int64 where "benchMaxLag = 500"
definition benchPersonCardinality :: int64 where "benchPersonCardinality = 1000"
definition benchPriceRange :: int64 where "benchPriceRange = 1000"
definition benchCategoryCount :: int64 where "benchCategoryCount = 4"
definition benchAuctionDuration :: int64 where "benchAuctionDuration = 5000"
definition benchWatermarkInterval :: int64 where "benchWatermarkInterval = 10000"
definition benchLateness :: int64 where "benchLateness = 0"
definition benchThroughputBarrierInterval :: int64 where "benchThroughputBarrierInterval = 100000"

text \<open>The first of January 2024 in milliseconds.\<close>

definition benchBaseEventTime :: int64 where
  "benchBaseEventTime = 1704067200000"

definition nexmarkConfig :: "Config \<Rightarrow> NexmarkConfig" where
  "nexmarkConfig c =
     \<lparr>n_Seed = c_Seed c, n_Count = c_Records c, n_AuctionCardinality = c_AuctionCardinality c,
      n_PersonCardinality = benchPersonCardinality, n_PriceRange = benchPriceRange, n_CategoryCount = benchCategoryCount,
      n_AuctionDuration = benchAuctionDuration, n_BaseEventTime = benchBaseEventTime, n_EventTimeStep = benchEventTimeStep,
      n_MaxLag = benchMaxLag\<rparr>"

datatype sourceMade =
    GeneratorMade Generator
  | NexmarkMade Nexmark

datatype operatorMade =
    MapMade Map
  | CountMade WindowCount
  | MaxBidMade MaxBid
  | HotItemsMade HotItems

definition sourceMade_Open :: "sourceMade \<Rightarrow> go_error option" where
  "sourceMade_Open s = (case s of GeneratorMade g \<Rightarrow> Generator_Open g | NexmarkMade n \<Rightarrow> Nexmark_Open n)"

text \<open>\<open>sourceVertex\<close>: the factory and the vertex it is given to.\<close>

definition sourceVertex :: "Config \<Rightarrow> int64 \<Rightarrow> sourceMade \<times> Vertex" where
  "sourceVertex c barrierInterval =
     (let v = zeroVertex\<lparr>ID := str ''source'', VKind := VertexSource, Parallelism := c_Parallelism c,
            WatermarkIntervalElements := benchWatermarkInterval, BarrierIntervalElements := barrierInterval\<rparr>
      in if c_Query c = queryIdentity
         then let cfg = \<lparr>Seed = c_Seed c, Count = c_Records c, KeyCardinality = c_Keys c, BaseEventTime = benchBaseEventTime,
                EventTimeStep = 1, MaxLag = 500, ValueSize = 16, AmountRange = 1000\<rparr>
              in (GeneratorMade (NewGenerator cfg), v\<lparr>NewSource := Some 0, MaxOutOfOrderness := MaxLag cfg\<rparr>)
         else let cfg = nexmarkConfig c
              in (NexmarkMade (NewNexmark cfg), v\<lparr>NewSource := Some 0, MaxOutOfOrderness := n_MaxLag cfg\<rparr>))"

text \<open>\<open>operatorChain\<close>: the identifiers of its vertices with what their factories make, \<open>None\<close> for a
  factory that panics; the outer \<open>None\<close> is the panic on an unknown query.\<close>

definition operatorChain :: "Config \<Rightarrow> (bytes \<times> operatorMade option) list option" where
  "operatorChain c =
     (if c_Query c = queryIdentity then Some [(str ''identity'', Some (MapMade (NewMap (\<lambda>rec. Inr (Some rec)))))]
      else if c_Query c = queryQ0 then Some [(str ''q0'', Some (MapMade NewQ0))]
      else if c_Query c = queryQ1 then Some [(str ''q1'', Some (MapMade (NewQ1 Q1Factor)))]
      else if c_Query c = queryQ2 then Some [(str ''q2'', map_option MapMade (NewQ2 Q2Divisor))]
      else if c_Query c = queryQ7 then Some [(str ''q7'', map_option MaxBidMade (NewQ7 (c_WindowMillis c) benchLateness))]
      else if c_Query c = queryQ5 then
        Some [(str ''bids'', Some (MapMade NewBidsOnly)),
              (str ''count'', map_option CountMade (NewSlidingCount (c_WindowMillis c) (c_SlideMillis c) benchLateness)),
              (str ''rekey'', map_option MapMade (NewQ5Rekey (c_WindowMillis c))),
              (str ''hot'', map_option HotItemsMade (NewQ5HotItems (c_WindowMillis c) benchLateness))]
      else None)"

definition operatorVertex :: "Config \<Rightarrow> nat \<Rightarrow> bytes \<Rightarrow> Vertex" where
  "operatorVertex c place i =
     zeroVertex\<lparr>ID := i, VKind := VertexOperator, Parallelism := c_Parallelism c, NewOperator := Some place\<rparr>"

section \<open>The graph\<close>

fun addVertices :: "Vertex list \<Rightarrow> Graph \<Rightarrow> Graph \<times> go_error option" where
  "addVertices [] g = (g, None)"
| "addVertices (v # vs) g =
     (case AddVertex v g of (g', Some e) \<Rightarrow> (g', Some e) | (g', None) \<Rightarrow> addVertices vs g')"

fun connectChain :: "bytes list \<Rightarrow> Graph \<Rightarrow> Graph \<times> go_error option" where
  "connectChain (u # v # is) g =
     (case Connect u v g of (g', Some e) \<Rightarrow> (g', Some e) | (g', None) \<Rightarrow> connectChain (v # is) g')"
| "connectChain is g = (g, None)"

definition chainGraph :: "Vertex list \<Rightarrow> Graph result" where
  "chainGraph vs =
     (case addVertices vs New of
        (g, Some e) \<Rightarrow> Inl e
      | (g, None) \<Rightarrow> (case connectChain (map ID vs) g of (g', Some e) \<Rightarrow> Inl e | (g', None) \<Rightarrow> Inr g'))"

text \<open>\<open>buildGraphWithSink\<close>, whose sink is the last place of the chain; \<open>None\<close> is a panic.\<close>

definition buildGraph :: "Config \<Rightarrow> int64 \<Rightarrow> Graph result option" where
  "buildGraph c barrierInterval =
     (case Config_check c of
        Some e \<Rightarrow> Some (Inl e)
      | None \<Rightarrow>
          if barrierInterval <s 1 then Some (Inl (CommandErr errBelowOne))
          else (case operatorChain c of
              None \<Rightarrow> None
            | Some chain \<Rightarrow>
                (let ops = map (\<lambda>(n, i, _). operatorVertex c (n + 1) i) (enumerate 0 chain);
                     sink = zeroVertex\<lparr>ID := str ''sink'', VKind := VertexSink, Parallelism := c_Parallelism c,
                       NewSink := Some (length chain + 1)\<rparr>
                 in Some (chainGraph (snd (sourceVertex c barrierInterval) # ops @ [sink])))))"

definition timerVertices :: "bytes \<Rightarrow> bytes list" where
  "timerVertices q =
     (if q = queryQ5 then [str ''count'', str ''hot''] else if q = queryQ7 then [str ''q7''] else [])"

text \<open>The job of \<open>cmd/worker\<close>.\<close>

definition identityGraph :: "GeneratorConfig \<Rightarrow> Graph result" where
  "identityGraph cfg =
     chainGraph
       [zeroVertex\<lparr>ID := str ''source'', VKind := VertexSource, Parallelism := 1, NewSource := Some 0,
          WatermarkIntervalElements := 10000, MaxOutOfOrderness := MaxLag cfg, BarrierIntervalElements := 10000\<rparr>,
        zeroVertex\<lparr>ID := str ''identity'', VKind := VertexOperator, Parallelism := 1, NewOperator := Some 1\<rparr>,
        zeroVertex\<lparr>ID := str ''sink'', VKind := VertexSink, Parallelism := 1, NewSink := Some 2\<rparr>]"

section \<open>The flags\<close>

fun parseEach :: "(bytes \<Rightarrow> 'a result) \<Rightarrow> bytes list \<Rightarrow> 'a list result" where
  "parseEach one [] = Inr []"
| "parseEach one (f # fs) =
     (let field = TrimSpace f
      in if field = [] then parseEach one fs
         else case one field of
             Inl e \<Rightarrow> Inl e
           | Inr x \<Rightarrow> (case parseEach one fs of Inl e \<Rightarrow> Inl e | Inr xs \<Rightarrow> Inr (x # xs)))"

definition someGiven :: "'a list result \<Rightarrow> 'a list result" where
  "someGiven r = (case r of Inl e \<Rightarrow> Inl e | Inr xs \<Rightarrow> if xs = [] then Inl (CommandErr errNoneGiven) else Inr xs)"

definition comma :: byte where "comma = 44"

definition parseLevels :: "bytes \<Rightarrow> int64 list result" where
  "parseLevels s =
     someGiven (parseEach (\<lambda>field. case ParseInt field of
         None \<Rightarrow> Inl (CommandErr errNotANumber)
       | Some p \<Rightarrow> if p <s 1 then Inl (CommandErr errBelowOne) else Inr p) (Split comma s))"

definition parseInt64s :: "bytes \<Rightarrow> int64 list result" where
  "parseInt64s s =
     someGiven (parseEach (\<lambda>field. case ParseInt field of None \<Rightarrow> Inl (CommandErr errNotANumber) | Some n \<Rightarrow> Inr n) (Split comma s))"

definition parseQueries :: "bytes \<Rightarrow> bytes list result" where
  "parseQueries s =
     (if TrimSpace s = str ''all'' then Inr queries
      else someGiven (parseEach (\<lambda>field. if \<not> List.member queries field then Inl (CommandErr errUnknownQuery) else Inr field)
        (Split comma s)))"

record sweepOptions =
  so_mode :: bytes
  so_records :: int64
  so_parallelism :: bytes
  so_query :: bytes
  so_seed :: uint64
  so_keys :: int64
  so_auctions :: bytes
  so_window :: int64
  so_slide :: int64
  so_checkpoints :: int64
  so_stateDir :: bytes

definition sweepConfig :: "sweepOptions \<Rightarrow> bytes \<Rightarrow> int64 \<Rightarrow> int64 \<Rightarrow> Config" where
  "sweepConfig opts name a p =
     \<lparr>c_Query = name, c_Parallelism = p, c_Records = so_records opts, c_Seed = so_seed opts, c_Keys = so_keys opts,
      c_AuctionCardinality = a, c_WindowMillis = so_window opts, c_SlideMillis = so_slide opts\<rparr>"

fun checkAll :: "Config list \<Rightarrow> Config list result" where
  "checkAll [] = Inr []"
| "checkAll (c # cs) =
     (case Config_check c of
        Some e \<Rightarrow> Inl e
      | None \<Rightarrow> (case checkAll cs of Inl e \<Rightarrow> Inl e | Inr cs' \<Rightarrow> Inr (c # cs')))"

definition sweep :: "sweepOptions \<Rightarrow> Config list result" where
  "sweep opts =
     (case parseQueries (so_query opts) of
        Inl e \<Rightarrow> Inl e
      | Inr names \<Rightarrow>
          (case parseLevels (so_parallelism opts) of
             Inl e \<Rightarrow> Inl e
           | Inr levels \<Rightarrow>
               (case parseInt64s (so_auctions opts) of
                  Inl e \<Rightarrow> Inl e
                | Inr auctions \<Rightarrow>
                    checkAll (concat (map (\<lambda>name. concat (map (\<lambda>a. map (sweepConfig opts name a) levels) auctions)) names)))))"


section \<open>A chain of vertices is a valid graph\<close>

lemma addVertices_ok:
  "graph_inv g \<Longrightarrow> distinct (map ID vs) \<Longrightarrow> [] \<notin> set (map ID vs) \<Longrightarrow> set (map ID vs) \<inter> ids g = {} \<Longrightarrow>
    addVertices vs g = (g\<lparr>byID := byID g @ map (\<lambda>v. (ID v, v)) vs\<rparr>, None)"
proof (induction vs arbitrary: g)
  case (Cons v vs)
  have add: "AddVertex v g = (g\<lparr>byID := byID g @ [(ID v, v)]\<rparr>, None)" using Cons.prems by (intro AddVertex_ok) auto
  have "graph_inv (g\<lparr>byID := byID g @ [(ID v, v)]\<rparr>)" using graph_inv_AddVertex [OF Cons.prems(1), of v] by (simp add: add)
  from Cons.IH [OF this] Cons.prems show ?case by (simp add: add ids_def)
qed simp

lemma built_addVertices: "built g \<Longrightarrow> built (fst (addVertices vs g))"
proof (induction vs arbitrary: g)
  case (Cons v vs)
  obtain g' e where a: "AddVertex v g = (g', e)" by fastforce
  then have "built g'" using built.intros(2) [OF Cons.prems, of v] by simp
  then show ?case using Cons.IH a by (cases e) simp_all
qed simp

lemma built_connectChain: "built g \<Longrightarrow> built (fst (connectChain is g))"
proof (induction "is" g rule: connectChain.induct)
  case (1 u v "is" g)
  obtain g' e where a: "Connect u v g = (g', e)" by fastforce
  then have "built g'" using built.intros(3) [OF 1(2), of u v] by simp
  then show ?case using 1(1) [OF a [symmetric]] a by (cases e) simp_all
qed simp_all

text \<open>The edges of a chain join each vertex to the next.\<close>

lemma connectChain_ok:
  "set is \<subseteq> ids g \<Longrightarrow> distinct is \<Longrightarrow> \<forall>u \<in> set is. outE g u = [] \<Longrightarrow>
    \<exists>g'. connectChain is g = (g', None) \<and> byID g' = byID g \<and> edges g' = edges g \<union> set (zip is (tl is))"
proof (induction "is" g rule: connectChain.induct)
  case (1 u v "is" g)
  have uv: "u \<in> ids g" "v \<in> ids g" "outE g u = []" using 1(2,4) by auto
  then have c: "Connect u v g = (g\<lparr>outE := (outE g)(u := [v]), inE := (inE g)(v := inE g v @ [u])\<rparr>, None)" (is "_ = (?g, None)")
    by (simp add: Connect_def)
  have "set (v # is) \<subseteq> ids ?g" "distinct (v # is)" "\<forall>w \<in> set (v # is). outE ?g w = []" using 1(2-4) by (auto simp: ids_def)
  from 1(1) [OF c [symmetric] refl this] show ?case
    using uv(3) edges_Connect [where g = g and u = u and v = v and b = "(inE g)(v := inE g v @ [u])"] by (auto simp: c)
qed auto

lemma chain_neighbours:
  assumes "distinct is" "m < length is"
  shows "(\<exists>u. (u, is ! m) \<in> set (zip is (tl is))) \<longleftrightarrow> m \<noteq> 0" "(\<exists>v. (is ! m, v) \<in> set (zip is (tl is))) \<longleftrightarrow> m \<noteq> length is - 1"
proof -
  have z: "(x, y) \<in> set (zip is (tl is)) \<longleftrightarrow> (\<exists>n. Suc n < length is \<and> x = is ! n \<and> y = is ! Suc n)" for x y
    by (force simp: set_zip nth_tl)
  have same: "is ! m = is ! n \<longleftrightarrow> m = n" if "n < length is" for n using nth_eq_iff_index_eq [OF assms that] .
  show "(\<exists>u. (u, is ! m) \<in> set (zip is (tl is))) \<longleftrightarrow> m \<noteq> 0"
  proof
    assume "m \<noteq> 0"
    then obtain n where "m = Suc n" by (cases m) auto
    then show "\<exists>u. (u, is ! m) \<in> set (zip is (tl is))" using assms(2) z by auto
  qed (use same in \<open>auto simp: z\<close>)
  show "(\<exists>v. (is ! m, v) \<in> set (zip is (tl is))) \<longleftrightarrow> m \<noteq> length is - 1"
  proof
    assume "m \<noteq> length is - 1"
    then have "Suc m < length is" using assms(2) by simp
    then show "\<exists>v. (is ! m, v) \<in> set (zip is (tl is))" using z by auto
  next
    assume "\<exists>v. (is ! m, v) \<in> set (zip is (tl is))"
    then obtain n where "Suc n < length is" "is ! m = is ! n" using z by auto
    then show "m \<noteq> length is - 1" using same [of n] by simp
  qed
qed

lemma chain_acyclic: "distinct is \<Longrightarrow> acyclic (set (zip is (tl is)))"
proof (induction "is" rule: induct_list012)
  case (3 u v "is")
  let ?r = "set (zip (v # is) (tl (v # is)))"
  have "u = v" if "(v, u) \<in> ?r\<^sup>*"
    using that
  proof (cases rule: rtranclE)
    case (step w)
    then have "u \<in> set is" by (auto dest: set_zip_rightD)
    then show ?thesis using 3(3) by simp
  qed simp
  then show ?case using 3(2,3) by (auto simp: acyclic_insert)
qed (simp_all add: acyclic_def)

text \<open>A source, operators and a sink in a row, each configured for its kind.\<close>

lemma chainGraph_valid:
  assumes vs: "vs = src # ops @ [snk]" and "distinct (map ID vs)" "[] \<notin> set (map ID vs)" "\<forall>v \<in> set vs. well_configured v"
    and kinds: "VKind src = VertexSource" "\<forall>v \<in> set ops. VKind v = VertexOperator" "VKind snk = VertexSink"
  shows "\<exists>g. chainGraph vs = Inr g \<and> built g \<and> Validate g = Some None \<and> ids g = set (map ID vs) \<and>
    (\<forall>v \<in> set vs. vertexOf g (ID v) = v) \<and> edges g = set (zip (map ID vs) (tl (map ID vs)))"
proof -
  let ?is = "map ID vs"
  define g where "g = New\<lparr>byID := map (\<lambda>v. (ID v, v)) vs\<rparr>"
  have add: "addVertices vs New = (g, None)"
    using addVertices_ok [OF graph_inv_New assms(2,3)] by (simp add: g_def New_def ids_def)
  have b: "built g" using built_addVertices [OF built.intros(1), of vs] by (simp add: add)
  have ids: "ids g = set ?is" by (force simp: g_def ids_def)
  have "edges g = {}" by (simp add: g_def New_def edges_def)
  then obtain g' where g': "connectChain ?is g = (g', None)" "byID g' = byID g" "edges g' = set (zip ?is (tl ?is))"
    using connectChain_ok [of ?is g] assms(2) ids by (auto simp: g_def New_def)
  have b': "built g'" using built_connectChain [OF b, of ?is] by (simp add: g'(1))
  have ids': "ids g' = set ?is" using ids g'(2) by (simp add: ids_def)
  have at: "vertexOf g' (ID v) = v" if "v \<in> set vs" for v
  proof -
    have "map_of (byID g') (ID v) = Some v"
      using that assms(2) unfolding g'(2) by (intro map_of_is_SomeI) (auto simp: g_def comp_def)
    then show ?thesis by (simp add: vertexOf_def)
  qed
  have conn: "well_connected g' (ID v)" if v: "v \<in> set vs" for v
  proof -
    obtain m where m: "m < length vs" "v = vs ! m" using v by (metis in_set_conv_nth)
    have "VKind v = VertexSource \<longleftrightarrow> m = 0" "VKind v = VertexSink \<longleftrightarrow> m = length ?is - 1"
      using m kinds by (auto simp: vs nth_Cons nth_append split: nat.splits)
    moreover have "?is ! m = ID v" using m by simp
    ultimately show ?thesis
      using chain_neighbours [OF assms(2), of m] m at [OF v] by (simp add: well_connected_def g'(3))
  qed
  have "valid_graph g'"
    unfolding valid_graph_def ids' g'(3) using chain_acyclic [OF assms(2)] conn at assms(4) kinds(1,3) by (auto simp: vs)
  then show ?thesis
    using Validate_iff [OF built_inv [OF b']] add g' b' ids' at by (auto simp: chainGraph_def)
qed

section \<open>Properties\<close>

text \<open>C28. Every configuration the benchmark accepts is a job that can run, but for one. While the
  parallelism is within the bound of the graph, \<open>check\<close> accepting it means that \<open>buildGraph\<close>
  returns a graph that \<open>Validate\<close> accepts: the source, the operators of the query and the sink in
  a row. The source opens, and each factory makes its operator, with one exception that \<open>check\<close>
  does not see: the factory of q5's count panics when the window is not a multiple of the slide.\<close>

theorem bench_graph_valid:
  assumes "Config_check c = None" "sint (c_Parallelism c) \<le> 256" "0 < sint interval"
  shows "\<exists>g chain. buildGraph c interval = Some (Inr g) \<and> operatorChain c = Some chain \<and> Validate g = Some None \<and>
    (let path = [str ''source''] @ map fst chain @ [str ''sink''] in ids g = set path \<and> edges g = set (zip path (tl path))) \<and>
    sourceMade_Open (fst (sourceVertex c interval)) = None \<and>
    (\<forall>(i, made) \<in> set chain. made = None \<longleftrightarrow>
      c_Query c = queryQ5 \<and> i = str ''count'' \<and> sint (c_WindowMillis c) mod sint (c_SlideMillis c) \<noteq> 0)"
proof -
  have chk: "c_Query c \<in> set queries" "0 < sint (c_Parallelism c)" "0 < sint (c_Records c)"
    "c_Query c = queryIdentity \<Longrightarrow> 0 < sint (c_Keys c)" "c_Query c \<noteq> queryIdentity \<Longrightarrow> 0 < sint (c_AuctionCardinality c)"
    "c_Query c \<in> set windowedQueries \<Longrightarrow> 0 < sint (c_WindowMillis c)" "c_Query c = queryQ5 \<Longrightarrow> 0 < sint (c_SlideMillis c)"
    using assms(1) by (auto simp: Config_check_def word_sless_alt split: if_splits)
  have src: "sourceMade_Open (fst (sourceVertex c interval)) = None"
    using chk(3) chk(4,5)
    by (cases "c_Query c = queryIdentity") (simp_all add: sourceVertex_def Let_def sourceMade_Open_def Generator_Open_def NewGenerator_def
        Nexmark_Open_def NewNexmark_def nexmarkConfig_def benchPersonCardinality_def benchPriceRange_def benchCategoryCount_def
        benchAuctionDuration_def benchMaxLag_def maxNexmarkPriceRange_def word_sless_alt word_sle_eq)
  have q: "queryIdentity \<noteq> queryQ0" "queryIdentity \<noteq> queryQ1" "queryIdentity \<noteq> queryQ2" "queryIdentity \<noteq> queryQ5" "queryIdentity \<noteq> queryQ7"
    "queryQ0 \<noteq> queryQ1" "queryQ0 \<noteq> queryQ2" "queryQ0 \<noteq> queryQ5" "queryQ0 \<noteq> queryQ7" "queryQ1 \<noteq> queryQ2" "queryQ1 \<noteq> queryQ5"
    "queryQ1 \<noteq> queryQ7" "queryQ2 \<noteq> queryQ5" "queryQ2 \<noteq> queryQ7" "queryQ5 \<noteq> queryQ7"
    by (simp_all add: query_defs)
  obtain chain where chain: "operatorChain c = Some chain" "distinct (map fst chain)"
    "str ''source'' \<notin> set (map fst chain)" "str ''sink'' \<notin> set (map fst chain)" "[] \<notin> set (map fst chain)"
    using chk(1) q by (auto simp: queries_def operatorChain_def str_def)
  have zero: "\<not> c_WindowMillis c \<le>s 0" "\<not> c_SlideMillis c \<le>s 0" if "c_Query c = queryQ5"
    using chk(6) [unfolded windowedQueries_def] chk(7) that by (auto simp: word_sle_eq)
  have made: "\<forall>(i, made) \<in> set chain. made = None \<longleftrightarrow>
      c_Query c = queryQ5 \<and> i = str ''count'' \<and> sint (c_WindowMillis c) mod sint (c_SlideMillis c) \<noteq> 0"
  proof (cases "c_Query c = queryQ5")
    case True
    note zero = zero [OF True]
    have "go_rem (c_WindowMillis c) (c_SlideMillis c) = 0 \<longleftrightarrow> sint (c_WindowMillis c) mod sint (c_SlideMillis c) = 0"
      using go_rem_eq_0 [OF chk(7) [OF True]] by (simp add: mod_eq_0_iff_dvd)
    moreover have "chain = [(str ''bids'', Some (MapMade NewBidsOnly)),
        (str ''count'', map_option CountMade (NewSlidingCount (c_WindowMillis c) (c_SlideMillis c) benchLateness)),
        (str ''rekey'', map_option MapMade (NewQ5Rekey (c_WindowMillis c))),
        (str ''hot'', map_option HotItemsMade (NewQ5HotItems (c_WindowMillis c) benchLateness))]"
      using chain(1) True q by (simp add: operatorChain_def)
    ultimately show ?thesis
      using zero True by (simp add: NewSlidingCount_def NewQ5Rekey_def NewQ5HotItems_def benchLateness_def) (simp add: str_def)
  next
    case False
    have q7: "\<exists>m. NewQ7 (c_WindowMillis c) benchLateness = Some m" if "c_Query c = queryQ7"
      using that chk(6) by (auto simp: windowedQueries_def NewQ7_def benchLateness_def word_sle_eq)
    have q2: "\<exists>m. NewQ2 Q2Divisor = Some m" by (simp add: NewQ2_def Q2Divisor_def)
    consider "c_Query c = queryIdentity" | "c_Query c = queryQ0" | "c_Query c = queryQ1" | "c_Query c = queryQ2" | "c_Query c = queryQ7"
      using chk(1) False by (auto simp: queries_def)
    then have "\<exists>i m. chain = [(i, Some m)]"
      by cases (use chain(1) q q2 q7 in \<open>auto simp: operatorChain_def\<close>)
    then show ?thesis using False by auto
  qed
  let ?ops = "map (\<lambda>(n, i, _). operatorVertex c (n + 1) i) (enumerate 0 chain)"
  let ?sink = "zeroVertex\<lparr>ID := str ''sink'', VKind := VertexSink, Parallelism := c_Parallelism c, NewSink := Some (length chain + 1)\<rparr>"
  let ?vs = "snd (sourceVertex c interval) # ?ops @ [?sink]"
  have ids: "map ID ?ops = map fst chain"
  proof -
    have "map (\<lambda>x. ID (case x of (n, i, _) \<Rightarrow> operatorVertex c (n + 1) i)) (enumerate k xs) = map fst xs" for k and xs :: "(bytes \<times> operatorMade option) list"
      by (induction xs arbitrary: k) (auto simp: operatorVertex_def)
    then show ?thesis by (simp add: comp_def)
  qed
  have path: "map ID ?vs = [str ''source''] @ map fst chain @ [str ''sink'']"
    using ids by (simp add: sourceVertex_def Let_def zeroVertex_def)
  have "\<forall>v \<in> set ?vs. well_configured v"
    using assms(2,3) chk(2) by (auto simp: well_configured_def sourceVertex_def operatorVertex_def zeroVertex_def Let_def
        benchWatermarkInterval_def nexmarkConfig_def benchMaxLag_def)
  moreover have "distinct (map ID ?vs)" "[] \<notin> set (map ID ?vs)"
    unfolding path using chain(2-5) by (auto simp: str_def)
  moreover have "VKind (snd (sourceVertex c interval)) = VertexSource" "\<forall>v \<in> set ?ops. VKind v = VertexOperator" "VKind ?sink = VertexSink"
    by (auto simp: sourceVertex_def operatorVertex_def zeroVertex_def Let_def)
  ultimately obtain g where g: "chainGraph ?vs = Inr g" "Validate g = Some None" "ids g = set (map ID ?vs)"
    "edges g = set (zip (map ID ?vs) (tl (map ID ?vs)))"
    using chainGraph_valid [OF refl, of "snd (sourceVertex c interval)" ?ops ?sink] by blast
  have "buildGraph c interval = Some (Inr g)"
    using assms(1,3) g(1) by (simp add: buildGraph_def chain(1) word_sless_alt Let_def)
  then show ?thesis using chain(1) g(2) src made g(3,4) [unfolded path] by (intro exI [of _ g] exI [of _ chain]) (simp add: Let_def)
qed

definition example_q5_config :: Config where
  "example_q5_config = \<lparr>c_Query = queryQ5, c_Parallelism = 4, c_Records = 1000, c_Seed = 1, c_Keys = 0,
     c_AuctionCardinality = 100, c_WindowMillis = 5000, c_SlideMillis = 1300\<rparr>"

theorem bench_graph_valid_witness:
  "\<exists>g chain. Config_check example_q5_config = None \<and> buildGraph example_q5_config 100 = Some (Inr g) \<and> Validate g = Some None \<and>
    operatorChain example_q5_config = Some chain \<and> (str ''count'', None) \<in> set chain"
proof -
  have "Config_check example_q5_config = None" by code_simp
  moreover have "sint (c_Parallelism example_q5_config) \<le> 256" "(0 :: int) < sint (100 :: int64)" by (simp_all add: example_q5_config_def)
  moreover have "operatorChain example_q5_config = Some [(str ''bids'', Some (MapMade NewBidsOnly)), (str ''count'', None),
      (str ''rekey'', map_option MapMade (NewQ5Rekey 5000)), (str ''hot'', map_option HotItemsMade (NewQ5HotItems 5000 benchLateness))]"
    by (simp add: operatorChain_def example_q5_config_def query_defs NewSlidingCount_def go_rem_def)
  ultimately show ?thesis using bench_graph_valid [of example_q5_config 100] by auto
qed

section \<open>Lists on the command line\<close>

fun joined :: "bytes list \<Rightarrow> bytes" where
  "joined [] = []"
| "joined [f] = f"
| "joined (f # fs) = f @ comma # joined fs"

lemma Split_joined: "fs \<noteq> [] \<Longrightarrow> \<forall>f \<in> set fs. comma \<notin> set f \<Longrightarrow> Split comma (joined fs) = fs"
  by (induction fs rule: joined.induct) (auto simp: Split_none Split_append)

text \<open>A list of levels written out is read back.\<close>

lemma FormatInt_digits: "d \<in> set (FormatInt i) \<Longrightarrow> 45 \<le> unat d \<and> unat d \<le> 57" "FormatInt i \<noteq> []"
proof -
  have "digits n \<noteq> []" for n using digits_first [of n] by auto
  then show "d \<in> set (FormatInt i) \<Longrightarrow> 45 \<le> unat d \<and> unat d \<le> 57" "FormatInt i \<noteq> []"
    by (auto simp: FormatInt_def Let_def split: if_splits dest!: digits_range)
qed

lemma parseLevels_roundtrip:
  assumes "ps \<noteq> []" "\<forall>p \<in> set ps. 1 \<le> sint p"
  shows "parseLevels (joined (map FormatInt ps)) = Inr ps"
proof -
  have "comma \<notin> set (FormatInt p)" "plain (FormatInt p)" for p
    using FormatInt_digits(1) [of _ p] by (force simp: comma_def plain_def list_all_iff word_less_nat_alt)+
  then have "Split comma (joined (map FormatInt ps)) = map FormatInt ps" "TrimSpace (FormatInt p) = FormatInt p" for p
    using assms(1) by (auto intro!: Split_joined TrimSpace_plain)
  moreover have "parseEach (\<lambda>field. case ParseInt field of
         None \<Rightarrow> Inl (CommandErr errNotANumber)
       | Some p \<Rightarrow> if p <s 1 then Inl (CommandErr errBelowOne) else Inr p) (map FormatInt ps) = Inr ps"
    using assms(2) calculation(2) FormatInt_digits(2)
    by (induction ps) (auto simp: ParseInt_FormatInt word_sless_alt)
  ultimately show ?thesis using assms(1) by (simp add: parseLevels_def someGiven_def)
qed

end
