(* ===== verification/Bench_State.thy ===== *)
theory Bench_State
  imports Bench_Workload Serialize
begin

text \<open>
  \<open>cmd/bench/state.go\<close>: how the benchmark measures state. The meter counts the entries that the
  operator subtasks of a run hold between them; it is a pair of atomic integers that every subtask
  updates, so the model interleaves the atomic operations of all of them. The scan reads the sizes
  back from the checkpoints of a run.
\<close>

section \<open>The meter\<close>

record stateMeter =
  mt_current :: int
  mt_peak :: int

text \<open>Where a subtask is in \<open>inc\<close> or \<open>dec\<close>: before the \<open>Add\<close>, before the \<open>Load\<close> of the loop, or before
  its \<open>CompareAndSwap\<close>; and one atomic operation from there. A count of entries in memory stays
  far from the bound of an \<open>int64\<close>.\<close>

datatype meterCall =
    Idle
  | Adding
  | Loading int
  | Swapping int int
  | Lowering

fun meterStep :: "meterCall \<Rightarrow> stateMeter \<Rightarrow> meterCall \<times> stateMeter" where
  "meterStep Idle m = (Idle, m)"
| "meterStep Adding m = (Loading (mt_current m + 1), m\<lparr>mt_current := mt_current m + 1\<rparr>)"
| "meterStep (Loading n) m = (if n \<le> mt_peak m then Idle else Swapping n (mt_peak m), m)"
| "meterStep (Swapping n p) m = (if mt_peak m = p then (Idle, m\<lparr>mt_peak := n\<rparr>) else (Loading n, m))"
| "meterStep Lowering m = (Idle, m\<lparr>mt_current := mt_current m - 1\<rparr>)"

text \<open>The counting state: the call on the state inside, and the call on the meter that follows it.\<close>

definition counting_Get :: "bytes \<Rightarrow> Memory \<Rightarrow> bytes option" where
  "counting_Get key m = Memory_Get m key"

definition counting_Put :: "bytes \<Rightarrow> bytes \<Rightarrow> Memory \<Rightarrow> Memory \<times> meterCall" where
  "counting_Put key v m =
     (let existed = Memory_Get m key \<noteq> None in (Memory_Put key v m, if \<not> existed then Adding else Idle))"

definition counting_Delete :: "bytes \<Rightarrow> Memory \<Rightarrow> Memory \<times> meterCall" where
  "counting_Delete key m =
     (let existed = Memory_Get m key \<noteq> None in (Memory_Delete key m, if existed then Lowering else Idle))"

definition counting_Iterate :: "'s callback \<Rightarrow> Memory \<times> 's \<Rightarrow> Memory \<times> 's" where
  "counting_Iterate fn ms = Memory_Iterate fn ms"

definition counting_Err :: "Memory \<Rightarrow> go_error option" where
  "counting_Err m = Memory_Err m"

subsection \<open>All the subtasks of a run\<close>

record metered =
  me_states :: "nat \<Rightarrow> Memory"
  me_calls :: "nat \<Rightarrow> meterCall"
  me_meter :: stateMeter

definition unmetered :: metered where
  "unmetered = \<lparr>me_states = (\<lambda>_. NewMemory), me_calls = (\<lambda>_. Idle), me_meter = \<lparr>mt_current = 0, mt_peak = 0\<rparr>\<rparr>"

text \<open>A subtask whose last call has returned makes the next; one that is in a call takes its next
  atomic operation.\<close>

inductive meter_step :: "nat \<Rightarrow> metered \<Rightarrow> metered \<Rightarrow> bool" for k where
  puts: "i < k \<Longrightarrow> me_calls s i = Idle \<Longrightarrow> counting_Put key v (me_states s i) = (m, call) \<Longrightarrow>
    meter_step k s (s\<lparr>me_states := (me_states s)(i := m), me_calls := (me_calls s)(i := call)\<rparr>)"
| deletes: "i < k \<Longrightarrow> me_calls s i = Idle \<Longrightarrow> counting_Delete key (me_states s i) = (m, call) \<Longrightarrow>
    meter_step k s (s\<lparr>me_states := (me_states s)(i := m), me_calls := (me_calls s)(i := call)\<rparr>)"
| moves: "i < k \<Longrightarrow> meterStep (me_calls s i) (me_meter s) = (call, mt) \<Longrightarrow>
    meter_step k s (s\<lparr>me_calls := (me_calls s)(i := call), me_meter := mt\<rparr>)"

text \<open>A run with every state it went through.\<close>

inductive meter_run :: "nat \<Rightarrow> metered list \<Rightarrow> metered \<Rightarrow> bool" for k where
  "meter_run k [unmetered] unmetered"
| "meter_run k hist s \<Longrightarrow> meter_step k s s' \<Longrightarrow> meter_run k (hist @ [s']) s'"

definition entriesHeld :: "nat \<Rightarrow> metered \<Rightarrow> int" where
  "entriesHeld k s = (\<Sum>i<k. int (Memory_Len (me_states s i)))"

section \<open>The sizes of the checkpoints\<close>

definition barrierIntervalFor :: "Config \<Rightarrow> int64 \<Rightarrow> int64" where
  "barrierIntervalFor c checkpointsPerSubtask =
     (let perSubtask = go_div (c_Records c) (c_Parallelism c); interval = go_div perSubtask checkpointsPerSubtask
      in if interval <s 1 then 1 else interval)"

text \<open>The keys of the operator subtasks; \<open>None\<close> is an order that is never found.\<close>

definition operatorSubtasks :: "Graph \<Rightarrow> SubtaskKey list result option" where
  "operatorSubtasks g =
     (case TopoOrder g of
        None \<Rightarrow> None
      | Some (Inl e) \<Rightarrow> Some (Inl e)
      | Some (Inr order) \<Rightarrow>
          Some (Inr (concat (map (\<lambda>v. map (\<lambda>i. \<lparr>sk_VertexID = ID v, sk_Index = word_of_nat i\<rparr>) [0..<nat (sint (Parallelism v))])
            (filter (\<lambda>v. VKind v = VertexOperator) order)))))"

record SubtaskState =
  ss_VertexID :: bytes
  ss_Index :: int64
  ss_Bytes :: int64
  ss_Entries :: int64

record checkpointSize =
  cs_id :: int64
  cs_stateBytes :: int64
  cs_diskBytes :: int64
  cs_entries :: int64
  cs_perSubtask :: "SubtaskState list"

definition entriesIn :: "bytes \<Rightarrow> int64 result" where
  "entriesIn payload =
     (case ReadFrom NewMemory payload of (m, Some e) \<Rightarrow> Inl e | (m, None) \<Rightarrow> Inr (word_of_nat (Memory_Len m)))"

fun measurePayloads :: "SubtaskKey list \<Rightarrow> (SubtaskKey \<times> bytes) list \<Rightarrow> checkpointSize \<Rightarrow> checkpointSize result" where
  "measurePayloads operators [] sz = Inr sz"
| "measurePayloads operators ((key, payload) # rest) sz =
     (if \<not> List.member operators key then measurePayloads operators rest sz
      else case entriesIn payload of
          Inl e \<Rightarrow> Inl e
        | Inr n \<Rightarrow>
            measurePayloads operators rest
              (sz\<lparr>cs_stateBytes := cs_stateBytes sz + word_of_nat (length payload), cs_entries := cs_entries sz + n,
                 cs_perSubtask := cs_perSubtask sz @ [\<lparr>ss_VertexID = sk_VertexID key, ss_Index = sk_Index key,
                   ss_Bytes = word_of_nat (length payload), ss_Entries = n\<rparr>]\<rparr>))"

text \<open>The entries of the root, each with whether it is a directory; \<open>dirBytes\<close> is the size of a
  directory's files. An entry that is not a complete checkpoint is passed over.\<close>

fun scanEntries ::
  "(path \<Rightarrow> bytes option) \<Rightarrow> (bytes \<Rightarrow> int64 result) \<Rightarrow> SubtaskKey list \<Rightarrow> (bytes \<times> bool) list \<Rightarrow> checkpointSize list result" where
  "scanEntries rd dirBytes operators [] = Inr []"
| "scanEntries rd dirBytes operators ((e, isDir) # es) =
     (if \<not> isDir \<or> \<not> HasPrefix e dirPrefix then scanEntries rd dirBytes operators es
      else case ParseInt (TrimPrefix e dirPrefix) of
          None \<Rightarrow> scanEntries rd dirBytes operators es
        | Some i \<Rightarrow>
            (case storage_Load rd i of
               Inl _ \<Rightarrow> scanEntries rd dirBytes operators es
             | Inr (_, payloads) \<Rightarrow>
                 (case dirBytes e of
                    Inl err \<Rightarrow> Inl err
                  | Inr n \<Rightarrow>
                      (case measurePayloads operators payloads
                          \<lparr>cs_id = i, cs_stateBytes = 0, cs_diskBytes = n, cs_entries = 0, cs_perSubtask = []\<rparr> of
                         Inl err \<Rightarrow> Inl err
                       | Inr sz \<Rightarrow>
                           (case scanEntries rd dirBytes operators es of
                              Inl err \<Rightarrow> Inl err
                            | Inr sizes \<Rightarrow>
                                Inr (sz\<lparr>cs_perSubtask := sort_key ss_VertexID (sort_key (\<lambda>s. sint (ss_Index s)) (cs_perSubtask sz))\<rparr> # sizes))))))"

text \<open>A root that is not there has no checkpoints.\<close>

definition scanCheckpoints ::
  "(bytes \<times> bool) list option result \<Rightarrow> (path \<Rightarrow> bytes option) \<Rightarrow> (bytes \<Rightarrow> int64 result) \<Rightarrow> SubtaskKey list \<Rightarrow> checkpointSize list result" where
  "scanCheckpoints root rd dirBytes operators =
     (case root of
        Inl e \<Rightarrow> Inl e
      | Inr None \<Rightarrow> Inr []
      | Inr (Some es) \<Rightarrow>
          (case scanEntries rd dirBytes operators es of Inl e \<Rightarrow> Inl e | Inr sizes \<Rightarrow> Inr (sort_key (\<lambda>s. sint (cs_id s)) sizes)))"

definition largestOf :: "checkpointSize list \<Rightarrow> checkpointSize option" where
  "largestOf sizes =
     (case sizes of
        [] \<Rightarrow> None
      | sz # rest \<Rightarrow> Some (fold (\<lambda>s largest. if cs_stateBytes largest <s cs_stateBytes s then s else largest) rest sz))"


section \<open>What the meter shows\<close>

definition greatest :: "('a \<Rightarrow> int) \<Rightarrow> 'a list \<Rightarrow> int" where
  "greatest f xs = Max (f ` set xs)"

lemma greatest_one [simp]: "greatest f [x] = f x"
  by (simp add: greatest_def)

lemma greatest_snoc: "xs \<noteq> [] \<Longrightarrow> greatest f (xs @ [x]) = max (greatest f xs) (f x)"
  by (simp add: greatest_def max.commute)

abbreviation current :: "metered \<Rightarrow> int" where
  "current s \<equiv> mt_current (me_meter s)"

definition pendingAdds :: "nat \<Rightarrow> metered \<Rightarrow> int" where
  "pendingAdds k s = (\<Sum>i<k. of_bool (me_calls s i = Adding))"

definition pendingLowers :: "nat \<Rightarrow> metered \<Rightarrow> int" where
  "pendingLowers k s = (\<Sum>i<k. of_bool (me_calls s i = Lowering))"

lemma sum_upd: "(i :: nat) < k \<Longrightarrow> (\<Sum>j<k. f ((g(i := x)) j)) = (\<Sum>j<k. f (g j)) - f (g i) + (f x :: int)"
proof -
  assume "i < k"
  then have *: "finite {..<k}" "i \<in> {..<k}" by auto
  have "(\<Sum>j\<in>{..<k} - {i}. f ((g(i := x)) j)) = (\<Sum>j\<in>{..<k} - {i}. f (g j))" by (rule sum.cong) auto
  then show ?thesis by (simp add: sum.remove [OF *])
qed

text \<open>The count is behind by the insertions not yet added and ahead by the deletions not yet taken off.\<close>

definition counted :: "nat \<Rightarrow> metered \<Rightarrow> bool" where
  "counted k s \<longleftrightarrow> (\<forall>i. Memory_inv (me_states s i)) \<and> current s = entriesHeld k s - pendingAdds k s + pendingLowers k s"

text \<open>What is known of the greatest count \<open>high\<close> while calls are under way.\<close>

definition peaked :: "nat \<Rightarrow> int \<Rightarrow> metered \<Rightarrow> bool" where
  "peaked k high s \<longleftrightarrow> current s \<le> high \<and> mt_peak (me_meter s) \<le> high \<and>
     (\<forall>i<k. \<forall>n. me_calls s i = Loading n \<longrightarrow> n \<le> high) \<and>
     (\<forall>i<k. \<forall>n p. me_calls s i = Swapping n p \<longrightarrow> n \<le> high \<and> p < n \<and> p \<le> mt_peak (me_meter s)) \<and>
     (mt_peak (me_meter s) = high \<or> (\<exists>i<k. me_calls s i = Loading high \<or> (\<exists>p. me_calls s i = Swapping high p)))"

lemma sum_bool_le: "(\<Sum>i<(k :: nat). of_bool (P i)) \<le> (int k)"
proof -
  have "(\<Sum>i<k. of_bool (P i) :: int) \<le> (\<Sum>i<k. 1)" by (rule sum_mono) simp
  then show ?thesis by simp
qed

lemma sum_bool_less: "(i :: nat) < k \<Longrightarrow> \<not> P i \<Longrightarrow> (\<Sum>i<k. of_bool (P i)) \<le> int (k - 1)"
proof -
  assume i: "i < k" "\<not> P i"
  have "(\<Sum>j<k. of_bool (P j) :: int) = (\<Sum>j\<in>{..<k} - {i}. of_bool (P j))" using i by (simp add: sum.remove [of "{..<k}" i] del: sum_of_bool_eq)
  also have "\<dots> \<le> (\<Sum>j\<in>{..<k} - {i}. 1)" by (rule sum_mono) simp
  finally show ?thesis using i by simp
qed

lemma Memory_Len_Put_Delete:
  assumes "Memory_inv m"
  shows "int (Memory_Len (Memory_Put key v m)) = int (Memory_Len m) + of_bool (Memory_Get m key = None)"
    "int (Memory_Len (Memory_Delete key m)) = int (Memory_Len m) - of_bool (Memory_Get m key \<noteq> None)"
proof -
  have len: "Memory_inv m' \<Longrightarrow> Memory_Len m' = card (dom (Memory_Get m'))" for m'
  proof -
    assume "Memory_inv m'"
    moreover have "Memory_Get m' = map_of (entries m')" by (rule ext) (simp add: Memory_Get_def)
    then have "dom (Memory_Get m') = set (map fst (entries m'))" by (simp add: dom_map_of_conv_image_fst)
    ultimately show "Memory_Len m' = card (dom (Memory_Get m'))"
      using distinct_card [of "map fst (entries m')"] unfolding Memory_inv_def Memory_Len_def by simp
  qed
  have "Memory_Get m = map_of (entries m)" by (rule ext) (simp add: Memory_Get_def)
  then have fin: "finite (dom (Memory_Get m))" by (simp add: finite_dom_map_of)
  show "int (Memory_Len (Memory_Put key v m)) = int (Memory_Len m) + of_bool (Memory_Get m key = None)"
    using assms fin len [OF assms] len [OF mem.invar_put [OF assms]] by (auto simp: card_insert_if domIff)
  have pos: "Memory_Get m key \<noteq> None \<Longrightarrow> 0 < card (dom (Memory_Get m))" using fin by (auto simp: card_gt_0_iff)
  show "int (Memory_Len (Memory_Delete key m)) = int (Memory_Len m) - of_bool (Memory_Get m key \<noteq> None)"
    using assms fin len [OF assms] len [OF mem.invar_del [OF assms]] pos by (auto simp: card_Diff_singleton_if domIff)
qed

lemma sums_at: 
  assumes "i < k"
  shows "entriesHeld k (s\<lparr>me_states := (me_states s)(i := m), me_calls := c\<rparr>) = entriesHeld k s - int (Memory_Len (me_states s i)) + int (Memory_Len m)"
    "pendingAdds k (s'\<lparr>me_calls := (me_calls s)(i := call)\<rparr>) = pendingAdds k s - of_bool (me_calls s i = Adding) + of_bool (call = Adding)"
    "pendingLowers k (s'\<lparr>me_calls := (me_calls s)(i := call)\<rparr>) = pendingLowers k s - of_bool (me_calls s i = Lowering) + of_bool (call = Lowering)"
    "entriesHeld k (s\<lparr>me_calls := c, me_meter := mt\<rparr>) = entriesHeld k s"
    "pendingAdds k (s'\<lparr>me_calls := c, me_meter := mt\<rparr>) = pendingAdds k (s'\<lparr>me_calls := c\<rparr>)"
    "pendingLowers k (s'\<lparr>me_calls := c, me_meter := mt\<rparr>) = pendingLowers k (s'\<lparr>me_calls := c\<rparr>)"
  using sum_upd [OF assms, of "\<lambda>m. int (Memory_Len m)" "me_states s" m]
    sum_upd [OF assms, of "\<lambda>c. of_bool (c = Adding)" "me_calls s" call]
    sum_upd [OF assms, of "\<lambda>c. of_bool (c = Lowering)" "me_calls s" call]
  by (simp_all add: entriesHeld_def pendingAdds_def pendingLowers_def del: sum_of_bool_eq)

lemma step_counted:
  assumes "meter_step k s s'" "counted k s"
  shows "counted k s'"
  using assms
proof (cases rule: meter_step.cases)
  case (puts i key v m call)
  have m: "m = Memory_Put key v (me_states s i)" "call = (if Memory_Get (me_states s i) key = None then Adding else Idle)"
    using puts(4) by (auto simp: counting_Put_def Let_def)
  show ?thesis
    using assms(2) puts(3) Memory_Len_Put_Delete(1) [of "me_states s i" key v] unfolding puts(1) counted_def
    by (auto simp: sums_at [OF puts(2)] m)
next
  case (deletes i key m call)
  have m: "m = Memory_Delete key (me_states s i)" "call = (if Memory_Get (me_states s i) key = None then Idle else Lowering)"
    using deletes(4) by (auto simp: counting_Delete_def Let_def)
  show ?thesis
    using assms(2) deletes(3) Memory_Len_Put_Delete(2) [of "me_states s i" key] unfolding deletes(1) counted_def
    by (auto simp: sums_at [OF deletes(2)] m)
next
  case (moves i call mt)
  then show ?thesis
    using assms(2) unfolding counted_def
    by (cases "me_calls s i") (auto simp: sums_at [OF moves(2)] split: if_splits)
qed

text \<open>\<open>peaked\<close> subtask by subtask: none knows of a greater count, and if the peak is behind, one of
  them is on its way to raise it.\<close>

definition bringsUp :: "int \<Rightarrow> meterCall \<Rightarrow> bool" where
  "bringsUp high call \<longleftrightarrow> call = Loading high \<or> (\<exists>p. call = Swapping high p)"

definition knows :: "int \<Rightarrow> int \<Rightarrow> meterCall \<Rightarrow> bool" where
  "knows high peak call \<longleftrightarrow> (case call of Loading n \<Rightarrow> n \<le> high | Swapping n p \<Rightarrow> n \<le> high \<and> p < n \<and> p \<le> peak | _ \<Rightarrow> True)"

lemma peaked_alt:
  "peaked k high s \<longleftrightarrow> current s \<le> high \<and> mt_peak (me_meter s) \<le> high \<and> (\<forall>i<k. knows high (mt_peak (me_meter s)) (me_calls s i)) \<and>
    (mt_peak (me_meter s) = high \<or> (\<exists>i<k. bringsUp high (me_calls s i)))"
  unfolding peaked_def knows_def bringsUp_def by (auto split: meterCall.split)

lemma knows_mono: "knows high peak call \<Longrightarrow> high \<le> high' \<Longrightarrow> peak \<le> peak' \<Longrightarrow> knows high' peak' call"
  by (auto simp: knows_def split: meterCall.splits)

lemma meterStep_keeps:
  assumes "meterStep call mt = (call', mt')" "knows high (mt_peak mt) call" "mt_peak mt \<le> high" "mt_current mt \<le> high"
  defines "high' \<equiv> max high (mt_current mt')"
  shows "mt_peak mt' \<le> high'" "mt_peak mt \<le> mt_peak mt'" "knows high' (mt_peak mt') call'"
    "high' \<noteq> high \<Longrightarrow> bringsUp high' call'" "mt_peak mt = high \<Longrightarrow> high' = high \<Longrightarrow> mt_peak mt' = high"
    "bringsUp high call \<Longrightarrow> high' = high \<Longrightarrow> bringsUp high call' \<or> mt_peak mt' = high"
proof -
  have *: "mt_peak mt' \<le> high' \<and> mt_peak mt \<le> mt_peak mt' \<and> knows high' (mt_peak mt') call' \<and>
    (high' \<noteq> high \<longrightarrow> bringsUp high' call') \<and> (mt_peak mt = high \<longrightarrow> high' = high \<longrightarrow> mt_peak mt' = high) \<and>
    (bringsUp high call \<longrightarrow> high' = high \<longrightarrow> bringsUp high call' \<or> mt_peak mt' = high)"
  proof (cases call)
    case Idle
    then show ?thesis using assms(1-4) unfolding high'_def by (simp add: knows_def bringsUp_def)
  next
    case Adding
    then have "call' = Loading (mt_current mt + 1)" "mt' = mt\<lparr>mt_current := mt_current mt + 1\<rparr>" using assms(1) by auto
    then show ?thesis using assms(3,4) Adding unfolding high'_def by (auto simp: knows_def bringsUp_def)
  next
    case (Loading n)
    then have "call' = (if n \<le> mt_peak mt then Idle else Swapping n (mt_peak mt))" "mt' = mt" using assms(1) by auto
    then show ?thesis using assms(2-4) Loading unfolding high'_def by (auto simp: knows_def bringsUp_def)
  next
    case (Swapping n p)
    then show ?thesis using assms(1-4) unfolding high'_def by (cases "mt_peak mt = p") (auto simp: knows_def bringsUp_def)
  next
    case Lowering
    then have "call' = Idle" "mt' = mt\<lparr>mt_current := mt_current mt - 1\<rparr>" using assms(1) by auto
    then show ?thesis using assms(3,4) Lowering unfolding high'_def by (auto simp: knows_def bringsUp_def)
  qed
  show "mt_peak mt' \<le> high'" "mt_peak mt \<le> mt_peak mt'" "knows high' (mt_peak mt') call'"
    "high' \<noteq> high \<Longrightarrow> bringsUp high' call'" "mt_peak mt = high \<Longrightarrow> high' = high \<Longrightarrow> mt_peak mt' = high"
    "bringsUp high call \<Longrightarrow> high' = high \<Longrightarrow> bringsUp high call' \<or> mt_peak mt' = high"
    using * by blast+
qed

lemma step_peaked:
  assumes "meter_step k s s'" "peaked k high s"
  shows "peaked k (max high (current s')) s'"
  using assms
proof (cases rule: meter_step.cases)
  case (puts i key v m call)
  have "call = Adding \<or> call = Idle" using puts(4) by (auto simp: counting_Put_def Let_def split: if_splits)
  then show ?thesis using assms(2) puts(3) unfolding puts(1) peaked_def by (auto simp: max_def)
next
  case (deletes i key m call)
  have "call = Lowering \<or> call = Idle" using deletes(4) by (auto simp: counting_Delete_def Let_def split: if_splits)
  then show ?thesis using assms(2) deletes(3) unfolding deletes(1) peaked_def by (auto simp: max_def)
next
  case (moves i call mt)
  have old: "knows high (mt_peak (me_meter s)) (me_calls s j)" if "j < k" for j using assms(2) that by (simp add: peaked_alt)
  have le: "mt_peak (me_meter s) \<le> high" "current s \<le> high" using assms(2) by (simp_all add: peaked_alt)
  note st = meterStep_keeps [OF moves(3) old [OF moves(2)] le]
  let ?high = "max high (mt_current mt)"
  have "knows ?high (mt_peak mt) (me_calls s j)" if "j < k" for j by (rule knows_mono [OF old [OF that]]) (use st(2) in auto)
  moreover have "mt_peak mt = ?high \<or> (\<exists>j<k. bringsUp ?high (if j = i then call else me_calls s j))"
  proof (cases "?high = high")
    case True
    show ?thesis
    proof (cases "mt_peak (me_meter s) = high")
      case False
      then obtain j where "j < k" "bringsUp high (me_calls s j)" using assms(2) by (auto simp: peaked_alt)
      then show ?thesis using st(6) True by (cases "j = i") auto
    qed (use st(5) True in simp)
  next
    case False
    then show ?thesis using st(4) moves(2) by auto
  qed
  ultimately show ?thesis using st(1,3) unfolding peaked_alt moves(1) by (auto simp: max_def)
qed

text \<open>The greatest number held, against the greatest count. Only while every subtask is between its
  insertion and its \<open>Add\<close> is the count behind by as many as there are subtasks.\<close>

definition shown :: "nat \<Rightarrow> int \<Rightarrow> int \<Rightarrow> metered \<Rightarrow> bool" where
  "shown k high real s \<longleftrightarrow> entriesHeld k s \<le> real \<and> high \<le> real + int (k - 1) \<and>
     (real \<le> high + int (k - 1) \<or> real = entriesHeld k s \<and> (\<forall>i<k. me_calls s i = Adding))"

lemma pending_less:
  assumes "i < k"
  shows "me_calls s i \<noteq> Adding \<Longrightarrow> pendingAdds k s \<le> int (k - 1)" "me_calls s i \<noteq> Lowering \<Longrightarrow> pendingLowers k s \<le> int (k - 1)"
  using sum_bool_less [OF assms] by (simp_all add: pendingAdds_def pendingLowers_def del: sum_of_bool_eq)

lemma pending_pos: "0 \<le> pendingAdds k s" "0 \<le> pendingLowers k s"
  by (simp_all add: pendingAdds_def pendingLowers_def sum_nonneg)

lemma step_shown:
  assumes "meter_step k s s'" "counted k s" "shown k high real s" "current s \<le> high"
  shows "shown k (max high (current s')) (max real (entriesHeld k s')) s'"
proof -
  have c': "counted k s'" by (rule step_counted [OF assms(1,2)])
  show ?thesis
    using assms(1)
  proof (cases rule: meter_step.cases)
    case (puts i key v m call)
    have old: "real \<le> high + int (k - 1)" using assms(3) puts(2,3) unfolding shown_def by auto
    have cur: "current s' = current s" by (simp add: puts(1))
    show ?thesis
    proof (cases "\<forall>j<k. me_calls s' j = Adding")
      case True
      then show ?thesis using assms(3,4) old cur unfolding shown_def by (auto simp: max_def)
    next
      case False
      then obtain j where "j < k" "me_calls s' j \<noteq> Adding" by blast
      then have "entriesHeld k s' \<le> current s' + int (k - 1)"
        using c' pending_less(1) [of j k s'] pending_pos(2) [of k s'] by (auto simp: counted_def)
      then show ?thesis using assms(3,4) old cur unfolding shown_def by (auto simp: max_def)
    qed
  next
    case (deletes i key m call)
    have old: "real \<le> high + int (k - 1)" using assms(3) deletes(2,3) unfolding shown_def by auto
    have m: "m = Memory_Delete key (me_states s i)" using deletes(4) by (auto simp: counting_Delete_def Let_def)
    have "entriesHeld k s' \<le> entriesHeld k s" "current s' = current s"
      using assms(2) Memory_Len_Put_Delete(2) [of "me_states s i" key]
      unfolding deletes(1) sums_at(1) [OF deletes(2)] m counted_def by auto
    then show ?thesis using assms(3,4) old unfolding shown_def by (auto simp: max_def)
  next
    case (moves i call mt)
    have held: "entriesHeld k s' = entriesHeld k s" by (simp add: moves(1) entriesHeld_def)
    show ?thesis
    proof (cases "me_calls s i = Adding")
      case True
      then have cur: "current s' = current s + 1" using moves by auto
      have "me_calls s i \<noteq> Lowering" using True by simp
      then have up: "current s' \<le> entriesHeld k s + int (k - 1)"
      proof -
        have "1 \<le> pendingAdds k s"
          using sums_at(2) [OF moves(2), where s = s and s' = s and call = Idle] True pending_pos(1) [of k "s\<lparr>me_calls := (me_calls s)(i := Idle)\<rparr>"] by simp
        then show ?thesis using assms(2) pending_less(2) [OF moves(2), of s] True unfolding counted_def cur by auto
      qed
      have low: "real \<le> current s' + int (k - 1) \<or> real \<le> high + int (k - 1)"
      proof (cases "\<forall>j<k. me_calls s j = Adding")
        case True
        then have "pendingAdds k s = int k" "pendingLowers k s = 0" by (simp_all add: pendingAdds_def pendingLowers_def)
        then show ?thesis using assms(2,3) moves(2) unfolding counted_def shown_def cur by auto
      next
        case False
        then show ?thesis using assms(3) unfolding shown_def by auto
      qed
      show ?thesis using assms(3,4) held up low unfolding shown_def by (auto simp: max_def)
    next
      case False
      then have "current s' \<le> current s" using moves by (cases "me_calls s i") (auto split: if_splits)
      then show ?thesis using assms(3,4) held moves(2) False unfolding shown_def by (auto simp: max_def)
    qed
  qed
qed

lemma meter_run_shown:
  assumes "meter_run k hist s"
  shows "hist \<noteq> [] \<and> counted k s \<and> peaked k (greatest current hist) s \<and>
    shown k (greatest current hist) (greatest (entriesHeld k) hist) s"
  using assms
proof (induction rule: meter_run.induct)
  case 1
  show ?case
    by (simp add: counted_def peaked_def shown_def unmetered_def entriesHeld_def pendingAdds_def pendingLowers_def NewMemory_def Memory_Len_def
        Memory_inv_def)
next
  case (2 hist s s')
  have "current s \<le> greatest current hist" using 2(3) by (simp add: peaked_def)
  then show ?case
    using 2(3) step_counted [OF 2(2)] step_peaked [OF 2(2)] step_shown [OF 2(2)] by (simp add: greatest_snoc)
qed

section \<open>Property\<close>

text \<open>C29. The meter counts the entries of a run. However the atomic operations of the subtasks interleave,
  once every call has returned the count is the number of entries the states hold between them,
  no increment of the peak is lost, and the peak differs from the greatest number of entries ever
  held at one instant by less than the number of subtasks. With one subtask it is that number.\<close>

theorem meter_counts_entries:
  assumes "meter_run k hist s" "\<forall>i<k. me_calls s i = Idle"
  shows "mt_current (me_meter s) = entriesHeld k s \<and> mt_peak (me_meter s) = greatest current hist \<and>
    \<bar>mt_peak (me_meter s) - greatest (entriesHeld k) hist\<bar> \<le> int (k - 1)"
proof -
  note run = meter_run_shown [OF assms(1)]
  have "mt_current (me_meter s) = entriesHeld k s"
    using run assms(2) by (simp add: counted_def pendingAdds_def pendingLowers_def)
  moreover have peak: "mt_peak (me_meter s) = greatest current hist" using run assms(2) by (auto simp: peaked_def)
  moreover have "greatest (entriesHeld k) hist \<le> greatest current hist + int (k - 1)"
  proof (cases "k = 0")
    case True
    have "entriesHeld 0 = (\<lambda>_. 0)" by (simp add: entriesHeld_def fun_eq_iff)
    moreover have "greatest (\<lambda>_. 0) hist = 0" using run by (simp add: greatest_def)
    moreover have "0 \<le> greatest current hist" using run calculation(1) by (auto simp: True counted_def peaked_def pendingAdds_def pendingLowers_def)
    ultimately show ?thesis by (simp add: True)
  next
    case False
    then show ?thesis using run assms(2) by (auto simp: shown_def)
  qed
  ultimately show ?thesis using run by (auto simp: shown_def)
qed

text \<open>Two subtasks hold two entries at once, and the meter never counts two: the first adds, deletes
  and lowers while the second is between its insertion and its \<open>Add\<close>.\<close>

datatype meterEvent =
    DoPut nat bytes
  | DoDelete nat bytes
  | DoMove nat

fun meterDo :: "meterEvent \<Rightarrow> metered \<Rightarrow> metered" where
  "meterDo (DoPut i key) s =
     (case counting_Put key [] (me_states s i) of
        (m, call) \<Rightarrow> s\<lparr>me_states := (me_states s)(i := m), me_calls := (me_calls s)(i := call)\<rparr>)"
| "meterDo (DoDelete i key) s =
     (case counting_Delete key (me_states s i) of
        (m, call) \<Rightarrow> s\<lparr>me_states := (me_states s)(i := m), me_calls := (me_calls s)(i := call)\<rparr>)"
| "meterDo (DoMove i) s =
     (case meterStep (me_calls s i) (me_meter s) of
        (call, mt) \<Rightarrow> s\<lparr>me_calls := (me_calls s)(i := call), me_meter := mt\<rparr>)"

fun meterMay :: "nat \<Rightarrow> meterEvent \<Rightarrow> metered \<Rightarrow> bool" where
  "meterMay k (DoPut i key) s \<longleftrightarrow> i < k \<and> me_calls s i = Idle"
| "meterMay k (DoDelete i key) s \<longleftrightarrow> i < k \<and> me_calls s i = Idle"
| "meterMay k (DoMove i) s \<longleftrightarrow> i < k"

fun meterHist :: "nat \<Rightarrow> meterEvent list \<Rightarrow> metered list \<times> metered \<Rightarrow> (metered list \<times> metered) option" where
  "meterHist k [] hs = Some hs"
| "meterHist k (e # es) hs =
     (if meterMay k e (snd hs) then meterHist k es (fst hs @ [meterDo e (snd hs)], meterDo e (snd hs)) else None)"

lemma meterDo_step: "meterMay k e s \<Longrightarrow> meter_step k s (meterDo e s)"
  by (cases e) (auto intro: meter_step.intros split: prod.split)

lemma meterHist_run: "meter_run k hist s \<Longrightarrow> meterHist k es (hist, s) = Some (hist', s') \<Longrightarrow> meter_run k hist' s'"
  by (induction es arbitrary: hist s) (auto split: if_splits intro: meter_run.intros(2) meterDo_step)

definition example_meter_events :: "meterEvent list" where
  "example_meter_events = [DoPut 0 [1], DoPut 1 [1], DoMove 0, DoMove 0, DoMove 0, DoDelete 0 [1], DoMove 0, DoMove 1, DoMove 1]"

theorem meter_counts_entries_witness:
  "\<exists>hist s. meter_run 2 hist s \<and> mt_current (me_meter s) = 1 \<and> mt_peak (me_meter s) = 1 \<and>
    2 \<in> entriesHeld 2 ` set hist \<and> greatest (entriesHeld 2) hist \<le> 2"
proof -
  have "case meterHist 2 example_meter_events ([unmetered], unmetered) of None \<Rightarrow> False
    | Some (hist, s) \<Rightarrow> map (entriesHeld 2) hist = [0, 1, 2, 2, 2, 2, 1, 1, 1, 1] \<and>
        (me_calls s 0, me_calls s 1, me_meter s) = (Idle, Idle, \<lparr>mt_current = 1, mt_peak = 1\<rparr>)"
    by code_simp
  then obtain hist s where h: "meterHist 2 example_meter_events ([unmetered], unmetered) = Some (hist, s)"
    "map (entriesHeld 2) hist = [0, 1, 2, 2, 2, 2, 1, 1, 1, 1]" "me_calls s 0 = Idle" "me_calls s 1 = Idle"
    "me_meter s = \<lparr>mt_current = 1, mt_peak = 1\<rparr>" by (auto split: option.splits)
  have run: "meter_run 2 hist s" by (rule meterHist_run [OF meter_run.intros(1) h(1)])
  have "\<forall>i<2. me_calls s i = Idle" using h(3,4) by (auto simp: less_2_cases_iff)
  from meter_counts_entries [OF run this] have "\<bar>1 - greatest (entriesHeld 2) hist\<bar> \<le> 1" by (simp add: h(5))
  moreover have "2 \<in> set (map (entriesHeld 2) hist)" by (simp add: h(2))
  ultimately show ?thesis using run h(5) by (intro exI [of _ hist] exI [of _ s]) auto
qed

end
