(* ===== verification/Bench_Fingerprint.thy ===== *)
theory Bench_Fingerprint
  imports Bench_State Sink_Subtask
begin

text \<open>
  \<open>cmd/bench/fingerprint.go\<close>: how a run identifies its machine and whether two runs are comparable,
  with the lookups of \<open>cmd/bench/main.go\<close> and the clock of \<open>cmd/bench/recovery.go\<close>. A file is what
  reading it gives, \<open>None\<close> for an error. The rates of a report are floating-point numbers, so their
  comparison is left out, as is all output.
\<close>

section \<open>The machine\<close>

record Fingerprint =
  fp_CPUModel :: bytes
  fp_NumCPU :: int64
  fp_MemoryBytes :: int64
  fp_DiskRotational :: bytes
  fp_GoVersion :: bytes
  fp_GOMAXPROCS :: int64

definition diskRotational :: bytes where "diskRotational = str ''yes''"
definition diskSolidState :: bytes where "diskSolidState = str ''no''"
definition diskUnknown :: bytes where "diskUnknown = str ''unknown''"

definition newline :: byte where "newline = 10"
definition colon :: byte where "colon = 58"
definition slash :: byte where "slash = 47"
definition backslash :: byte where "backslash = 92"

fun cpuModelAmong :: "bytes list \<Rightarrow> bytes" where
  "cpuModelAmong [] = []"
| "cpuModelAmong (line # ls) =
     (case Cut colon line of
        None \<Rightarrow> cpuModelAmong ls
      | Some (key, val) \<Rightarrow>
          if List.member [str ''model name'', str ''Model'', str ''cpu model''] (TrimSpace key) then TrimSpace val
          else cpuModelAmong ls)"

definition parseCPUModel :: "bytes \<Rightarrow> bytes" where
  "parseCPUModel cpuinfo = cpuModelAmong (Split newline cpuinfo)"

definition cpuModel :: "bytes option \<Rightarrow> bytes" where
  "cpuModel file = (case file of None \<Rightarrow> [] | Some s \<Rightarrow> parseCPUModel s)"

fun memTotalAmong :: "bytes list \<Rightarrow> int64" where
  "memTotalAmong [] = 0"
| "memTotalAmong (line # ls) =
     (case Cut colon line of
        None \<Rightarrow> memTotalAmong ls
      | Some (key, val) \<Rightarrow>
          if TrimSpace key \<noteq> str ''MemTotal'' then memTotalAmong ls
          else (case Fields val of
              [] \<Rightarrow> 0
            | f # fs \<Rightarrow>
                (case ParseInt f of
                   None \<Rightarrow> 0
                 | Some n \<Rightarrow> (case fs of u # _ \<Rightarrow> if u = str ''kB'' then n * 1024 else n | [] \<Rightarrow> n))))"

definition parseMemTotal :: "bytes \<Rightarrow> int64" where
  "parseMemTotal meminfo = memTotalAmong (Split newline meminfo)"

definition totalMemoryBytes :: "bytes option \<Rightarrow> int64" where
  "totalMemoryBytes file = (case file of None \<Rightarrow> 0 | Some s \<Rightarrow> parseMemTotal s)"

section \<open>The device of a directory\<close>

definition underMount :: "bytes \<Rightarrow> bytes \<Rightarrow> bool" where
  "underMount path mount \<longleftrightarrow> mount = [slash] \<or> path = mount \<or> HasPrefix path (mount @ [slash])"

text \<open>\<open>strconv.ParseUint(s, 8, 8)\<close> on three characters.\<close>

definition octal :: "byte \<Rightarrow> byte \<Rightarrow> byte \<Rightarrow> byte option" where
  "octal a b c =
     (if list_all (\<lambda>d. 48 \<le> d \<and> d \<le> 55) [a, b, c]
      then let n = 64 * (unat a - 48) + 8 * (unat b - 48) + (unat c - 48) in if n < 256 then Some (word_of_nat n) else None
      else None)"

fun unescapeFrom :: "bytes \<Rightarrow> bytes" where
  "unescapeFrom (x # a # b # c # s) =
     (if x = backslash
      then case octal a b c of Some n \<Rightarrow> n # unescapeFrom s | None \<Rightarrow> x # unescapeFrom (a # b # c # s)
      else x # unescapeFrom (a # b # c # s))"
| "unescapeFrom s = s"

definition unescapeMountPoint :: "bytes \<Rightarrow> bytes" where
  "unescapeMountPoint s = (if \<not> List.member s backslash then s else unescapeFrom s)"

text \<open>The best mount so far is its device and the length of its mount point.\<close>

fun deviceAmong :: "bytes list \<Rightarrow> bytes \<Rightarrow> (bytes \<times> nat) option \<Rightarrow> (bytes \<times> nat) option" where
  "deviceAmong [] path best = best"
| "deviceAmong (line # ls) path best =
     (let fields = Fields line
      in if length fields < 5 then deviceAmong ls path best
         else let mount = unescapeMountPoint (fields ! 4)
              in if \<not> underMount path mount \<or> (case best of None \<Rightarrow> False | Some (_, bestLen) \<Rightarrow> length mount \<le> bestLen)
                 then deviceAmong ls path best
                 else deviceAmong ls path (Some (fields ! 2, length mount)))"

definition deviceForPath :: "bytes \<Rightarrow> bytes \<Rightarrow> bytes option" where
  "deviceForPath mountinfo path = map_option fst (deviceAmong (Split newline mountinfo) path None)"

text \<open>\<open>filepath.Dir\<close> and \<open>filepath.Join\<close> on the clean absolute path that \<open>EvalSymlinks\<close> gives.\<close>

definition parentDir :: "bytes \<Rightarrow> bytes" where
  "parentDir p = (case cutLast slash p of None \<Rightarrow> str ''.'' | Some (a, _) \<Rightarrow> if a = [] then [slash] else a)"

definition joinPath :: "bytes \<Rightarrow> bytes \<Rightarrow> bytes" where
  "joinPath dir name = (if dir = [slash] then slash # name else dir @ slash # name)"

fun rotationalAmong :: "(bytes \<Rightarrow> bytes option) \<Rightarrow> bytes list \<Rightarrow> bytes" where
  "rotationalAmong readFile [] = diskUnknown"
| "rotationalAmong readFile (dir # dirs) =
     (case readFile (joinPath (joinPath dir (str ''queue'')) (str ''rotational'')) of
        None \<Rightarrow> rotationalAmong readFile dirs
      | Some s \<Rightarrow>
          if TrimSpace s = str ''1'' then diskRotational
          else if TrimSpace s = str ''0'' then diskSolidState
          else rotationalAmong readFile dirs)"

definition readRotational :: "(bytes \<Rightarrow> bytes option) \<Rightarrow> (bytes \<Rightarrow> bytes option) \<Rightarrow> bytes \<Rightarrow> bytes" where
  "readRotational evalSymlinks readFile sysDir =
     (case evalSymlinks sysDir of
        None \<Rightarrow> diskUnknown
      | Some resolved \<Rightarrow> rotationalAmong readFile [resolved, parentDir resolved])"

definition diskRotationalFor ::
  "(bytes \<Rightarrow> bytes option) \<Rightarrow> (bytes \<Rightarrow> bytes option) \<Rightarrow> (bytes \<Rightarrow> bytes option) \<Rightarrow> bytes \<Rightarrow> bytes" where
  "diskRotationalFor absPath evalSymlinks readFile dir =
     (case absPath dir of
        None \<Rightarrow> diskUnknown
      | Some path \<Rightarrow>
          (case readFile (str ''/proc/self/mountinfo'') of
             None \<Rightarrow> diskUnknown
           | Some mountinfo \<Rightarrow>
               (case deviceForPath mountinfo path of
                  None \<Rightarrow> diskUnknown
                | Some dev \<Rightarrow> readRotational evalSymlinks readFile (str ''/sys/dev/block/'' @ dev))))"

text \<open>What \<open>runtime\<close> and the operating system answer.\<close>

record machine =
  mc_NumCPU :: int64
  mc_Version :: bytes
  mc_GOMAXPROCS :: int64
  mc_abs :: "bytes \<Rightarrow> bytes option"
  mc_evalSymlinks :: "bytes \<Rightarrow> bytes option"
  mc_readFile :: "bytes \<Rightarrow> bytes option"

definition machineFingerprint :: "machine \<Rightarrow> bytes \<Rightarrow> Fingerprint" where
  "machineFingerprint m dir =
     \<lparr>fp_CPUModel = cpuModel (mc_readFile m (str ''/proc/cpuinfo'')), fp_NumCPU = mc_NumCPU m,
      fp_MemoryBytes = totalMemoryBytes (mc_readFile m (str ''/proc/meminfo'')),
      fp_DiskRotational = diskRotationalFor (mc_abs m) (mc_evalSymlinks m) (mc_readFile m) dir,
      fp_GoVersion = mc_Version m, fp_GOMAXPROCS = mc_GOMAXPROCS m\<rparr>"

section \<open>Comparable runs\<close>

definition Matches :: "Fingerprint \<Rightarrow> Fingerprint \<Rightarrow> bool" where
  "Matches f g \<longleftrightarrow>
     (let memory = fp_MemoryBytes f - fp_MemoryBytes g; memory = (if memory <s 0 then - memory else memory)
      in fp_CPUModel f = fp_CPUModel g \<and> fp_NumCPU f = fp_NumCPU g \<and> memory <s 2 ^ 30 \<and>
         fp_DiskRotational f = fp_DiskRotational g \<and> fp_GoVersion f = fp_GoVersion g \<and> fp_GOMAXPROCS f = fp_GOMAXPROCS g)"

text \<open>A result is its configuration and whatever was measured.\<close>

definition baselineFor :: "(Config \<times> 'r) list \<Rightarrow> Config \<Rightarrow> (Config \<times> 'r) option" where
  "baselineFor results got = find (\<lambda>(c, _). c = got) results"

definition baseOf :: "(Config \<times> 'r) list \<Rightarrow> bytes \<Rightarrow> (Config \<times> 'r) option" where
  "baseOf results q = find (\<lambda>(c, _). c_Query c = q \<and> c_Parallelism c = 1) results"

definition provisionalOn :: "Fingerprint \<Rightarrow> bool" where
  "provisionalOn f \<longleftrightarrow> fp_DiskRotational f \<noteq> diskSolidState"

definition checkpointParent :: "bytes \<Rightarrow> bytes \<Rightarrow> bytes" where
  "checkpointParent tempDir stateDir = (if stateDir \<noteq> [] then stateDir else tempDir)"

section \<open>The clock of a recovery\<close>

record firstRecordClock =
  fc_begin :: int64
  fc_first :: int64

definition clock_start :: "int64 \<Rightarrow> firstRecordClock \<Rightarrow> firstRecordClock" where
  "clock_start t c = c\<lparr>fc_begin := t\<rparr>"

definition clock_observe :: "int64 \<Rightarrow> firstRecordClock \<Rightarrow> firstRecordClock" where
  "clock_observe t c = (if fc_first c = 0 then c\<lparr>fc_first := t\<rparr> else c)"

definition clock_resume :: "firstRecordClock \<Rightarrow> int64 option" where
  "clock_resume c = (if fc_first c = 0 then None else Some (fc_first c - fc_begin c))"

text \<open>The sink over the shared clock; \<open>now\<close> is the time its first write reads.\<close>

definition timingSink :: "int64 \<Rightarrow> (bool \<times> firstRecordClock) Sink" where
  "timingSink now =
     \<lparr>snk_Open = (\<lambda>key k. (k, None)),
      snk_Write = (\<lambda>rec (seen, clock). ((True, if \<not> seen then clock_observe now clock else clock), None)),
      snk_Snapshot = (\<lambda>k. (k, Inr [])), snk_NotifyCheckpointComplete = (\<lambda>i k. (k, None)), snk_Close = (\<lambda>k. (k, None)),
      snk_Restore = None, snk_CommitFinalEpoch = None\<rparr>"

section \<open>What they compute\<close>

lemma Matches_refl: "Matches f f"
  by (simp add: Matches_def word_sless_alt)

text \<open>Machines whose memory is a size: the difference does not wrap, so the comparison is the one of the sizes.\<close>

lemma memory_apart:
  fixes a b :: int64
  assumes "0 \<le> sint a" "0 \<le> sint b"
  shows "(if a - b <s 0 then - (a - b) else a - b) <s 2 ^ 30 \<longleftrightarrow> \<bar>sint a - sint b\<bar> < 2 ^ 30"
proof -
  have diff: "sint (a - b) = sint a - sint b" "sint (b - a) = sint b - sint a"
    using assms sint64_upper [of a] sint64_upper [of b] by (simp_all add: sint64_diff)
  have "sint (2 ^ 30 :: int64) = 2 ^ 30" "- (a - b) = b - a" by simp_all
  then show ?thesis
    unfolding word_sless_alt by (auto simp: diff abs_if)
qed

lemma Matches_iff:
  assumes "0 \<le> sint (fp_MemoryBytes f)" "0 \<le> sint (fp_MemoryBytes g)"
  shows "Matches f g \<longleftrightarrow> fp_CPUModel f = fp_CPUModel g \<and> fp_NumCPU f = fp_NumCPU g \<and>
    \<bar>sint (fp_MemoryBytes f) - sint (fp_MemoryBytes g)\<bar> < 2 ^ 30 \<and>
    fp_DiskRotational f = fp_DiskRotational g \<and> fp_GoVersion f = fp_GoVersion g \<and> fp_GOMAXPROCS f = fp_GOMAXPROCS g"
  unfolding Matches_def Let_def memory_apart [OF assms] ..

end
