(* ===== verification/Spec2Isabelle.thy ===== *)
theory Spec2Isabelle
  imports Gate Pebble Job_Run Bench_Fingerprint
begin

text \<open>
  Tidemark: a partitioned stream processor with event-time windows, aligned barriers and
  exactly-once recovery. This development models the Go program under \<open>src/\<close> and proves what
  makes it correct. Each theory below opens with what it models and keeps the names of the code.

  \<^bold>\<open>The program.\<close> A job is a graph of vertices (\<open>pkg/graph\<close>). The executor (\<open>pkg/runtime\<close>) makes
  one subtask per vertex and index, and one bounded channel per pair of subtasks on an edge
  (\<open>pkg/transport\<close>). A source subtask reads its range of a source (\<open>pkg/sources\<close>), sends each
  record to the subtask its key hashes to, and broadcasts watermarks and numbered barriers. Every
  other subtask reads its inputs through a gate, which takes the minimum of their watermarks and
  holds an input back from its barrier until the others have reached theirs. At a barrier a
  subtask snapshots its state (\<open>pkg/state\<close>, \<open>pkg/operators\<close>) and acknowledges it to the
  coordinator (\<open>pkg/checkpoint\<close>), which writes the payloads and, when every subtask has
  acknowledged or finished, the metadata and last a marker. A sink (\<open>pkg/sinks\<close>) stages the output
  of each epoch and commits it when the checkpoint that covers it is complete. A run that
  resumes loads the greatest checkpoint with a marker and hands every subtask its payload.

  \<^bold>\<open>Which theory models which file.\<close>
  \<^item> Shared: \<open>Prelude\<close> (words, bytes, results, the hint collections), \<open>Core_Types\<close>
    (\<open>core/element.go\<close> and the predicates on streams: numbered barriers, epochs, lateness),
    \<open>Saturating\<close> (the arithmetic on event times), \<open>Go_Strings\<close> (the part of \<open>strings\<close> used).
  \<^item> State: \<open>Keyed_State\<close> (\<open>state/state.go\<close>, \<open>state/encoding.go\<close>), \<open>Serialize\<close>
    (\<open>state/serialize.go\<close>), \<open>Pebble\<close> (\<open>state/pebble.go\<close>).
  \<^item> Transport and graph: \<open>Transport\<close> (\<open>transport/channel.go\<close>, \<open>transport/writer.go\<close>),
    \<open>Job_Graph\<close> (\<open>graph/graph.go\<close>), \<open>Gate\<close> (\<open>runtime/gate.go\<close>).
  \<^item> Sources: \<open>Source_Interface\<close> (\<open>core/io.go\<close>), \<open>Generator\<close> (\<open>sources/generator.go\<close>),
    \<open>Nexmark_Source\<close> (\<open>sources/nexmark.go\<close>), \<open>Source_Task\<close> (\<open>runtime/source_task.go\<close>).
  \<^item> Operators: \<open>Operator_Interface\<close> (\<open>core/operator.go\<close>), \<open>Transform\<close> (\<open>operators/transform.go\<close>),
    \<open>Timers\<close>, \<open>Windowed_Stream\<close>, \<open>Window\<close> (\<open>operators/window.go\<close>), \<open>Nexmark_Queries\<close> and
    \<open>Hot_Items\<close> (\<open>operators/nexmark.go\<close>), \<open>Oracle\<close> (\<open>test/oracle/oracle.go\<close>, the batch count).
  \<^item> Checkpoints: \<open>Checkpoint_Format\<close> and \<open>Checkpoint_Storage\<close> (\<open>checkpoint/storage.go\<close>),
    \<open>Coordinator\<close> (\<open>checkpoint/coordinator.go\<close>), \<open>Shared_Coordinator\<close> (the coordinator as one
    subtask calls it while the others do).
  \<^item> Sinks: \<open>Sink_Format\<close> and \<open>Transactional\<close> (\<open>sinks/transactional.go\<close>), \<open>Exactly_Once\<close> (the sink
    over many runs of a job); the sinks in memory (\<open>sinks/memory.go\<close>) are in \<open>Sink_Subtask\<close>.
  \<^item> Subtasks (\<open>runtime/subtask.go\<close>): \<open>Subtask\<close> (checkpointer, faults, payloads), \<open>Source_Subtask\<close>,
    \<open>Operator_Task\<close>, \<open>Operator_Recovery\<close>, \<open>Sink_Subtask\<close>, \<open>Job_Run\<close> (\<open>runSubtask\<close> itself).
  \<^item> \<open>Executor\<close> (\<open>runtime/executor.go\<close>): the wiring, the metadata, the restore point, the run.
  \<^item> Commands: \<open>Bench_Workload\<close>, \<open>Bench_State\<close>, \<open>Bench_Fingerprint\<close> (\<open>cmd/bench\<close>, and the graph of
    \<open>cmd/worker\<close>).

  \<^bold>\<open>How state and effects appear.\<close> A struct is a record and a method a function that returns the
  updated record; an error is a value, and so is every early return. Integers are words of their
  width. A call that blocks, or a loop that need not end, returns an option, and what the rest
  of the system does meanwhile is an argument: the environment of a channel, the interleaving of
  a gate's inputs, the turns of the other callers of a coordinator. The file systems are method
  tables (checkpoints) and a store (sinks) on which any call may fail and the process or the
  machine may stop at any call.

  \<^bold>\<open>What is proved.\<close>
  \<^item> Windows (\<open>Window\<close>, \<open>Oracle\<close>, \<open>Nexmark_Queries\<close>, \<open>Hot_Items\<close>): assignment of windows; each fires
    once, when due; the streamed count is the batch count; q5 and q7 report what they should.
  \<^item> Alignment (\<open>Gate\<close>): at each barrier the owner has exactly the records before it on every input,
    for fresh and resumed jobs, late records and inputs that break off; watermarks are safe; the
    gate ends.
  \<^item> Sources: ranges partition the input; barriers and watermarks as specified; a subtask recovers
    from any of its checkpoints, however its run was cut short (\<open>Source_Subtask\<close>).
  \<^item> Checkpoints: a marker means a whole checkpoint, at every moment and after every crash; when one
    completes; that its outcome is final; that no waiter is missed. Over any number of runs of a
    job in one root, what is resumed from is what one run acknowledged (\<open>Executor\<close>).
  \<^item> Output: a committed file holds exactly what the line of resumed runs wrote into its epoch
    (\<open>Exactly_Once\<close>), also through the sink's subtask and a coordinator shared with others
    (\<open>Sink_Subtask\<close>). Runs may differ in the records, their order and their epochs.
  \<^item> Operators: a restored subtask is bisimilar to the one it was taken from (\<open>Operator_Task\<close>).
  \<^item> Layout: the order of a graph, validation, the channels \<open>wire\<close> makes, the partitioning of
    records, and that a subtask closes its outputs, once, however it ends (\<open>Job_Run\<close>).
  \<^item> Formats: round trips, exact decoders, detection of truncation and of corruption.
  \<^item> \<open>Pebble\<close>: the backend on disk agrees with the one in memory up to its first error, which sticks.
  \<^item> Commands: the graphs they build are valid; the state meter loses no entry.

  \<^bold>\<open>Interfaces.\<close> \<open>keyed_state\<close> (Memory), \<open>output_port\<close> (channel), \<open>replayable_source\<close> (Generator and
  Nexmark), \<open>windowed_operator\<close> and, on top of it, \<open>windowed_stream\<close> (count, q7; the former also q5),
  \<open>synced_files\<close> (the disk), \<open>checkpoint_service\<close> (the shared coordinator), \<open>state_operator\<close> (count,
  map, filter, q5, q7). Each is interpreted on the model of the code that provides it.
  \<open>replayable_source\<close> asks for more than \<open>core.Source\<close> promises: that the source reports its count,
  as a source must that is split, and reads without errors.

  \<^bold>\<open>Bounds and fuel.\<close> \<open>sourceLoop\<close> has more fuel than the source has records, and each turn reads one.
  \<open>kahnLoop\<close> has as much as the graph has vertices, and each turn emits one. \<open>windowsLoop\<close> takes
  size / slide turns. A scan of \<open>Pebble\<close> has as much as there are entries. The theorems prove
  that the loops return. Conditions on integers are named where they are needed: \<open>rangeFits\<close>
  (parallelism times count fits), \<open>timesFit\<close> (event times fit and the step is not negative, which
  \<open>Open\<close> does not check), \<open>snapshottable\<close> (lengths fit in 32 bits), \<open>fitsRecord\<close> (a record below
  4 GiB).

  \<^bold>\<open>Not modelled.\<close> The scheduler: goroutines are the interleavings above, and what all subtasks of a
  run do together is an argument of \<open>RunWithOptions\<close>. \<open>NewState\<close>: operators are modelled on Memory.
  The printing, timing, JSON and floating-point parts of \<open>cmd/\<close>. The chaos suite and the oracles of
  the Nexmark queries under \<open>test/\<close>. The database, the file system and the standard library are
  represented by their documented behaviour.
\<close>

end
